(* ===== verification/Prelude.thy ===== *)
theory Prelude
  imports Main "HOL-Library.Word" "HOL-Library.Multiset"
begin

text \<open>
  Shared vocabulary of the development: the machine integer types of the C code under
  their width, byte memory, and the generic lemmas on words, lists and functions that
  several components use.  The collections \<open>mem_simps\<close> and \<open>word_norm\<close> gather the facts
  that the component proofs pass to the simplifier.
\<close>

unbundle bit_operations_syntax

section \<open>Machine types\<close>

type_synonym u8 = "8 word"
type_synonym u16 = "16 word"
type_synonym u32 = "32 word"
type_synonym u64 = "64 word"

text \<open>
  Memory that the code reaches through an \<open>uchar *\<close>: an address is a natural number and
  a cell holds one byte.
\<close>

type_synonym mem = "nat \<Rightarrow> u8"

named_theorems mem_simps \<open>reading a cell of an updated byte memory\<close>
named_theorems word_norm \<open>normal forms of the word operations used by the codecs\<close>

section \<open>Words\<close>

lemma unat_ucast_take_bit [word_norm]:
  "unat (ucast (x :: 'a::len word) :: 'b::len word) = take_bit LENGTH('b) (unat x)"
  by (simp add: unsigned_ucast_eq)

lemma unat_ucast_small:
  "unat (x :: 'a::len word) < 2 ^ LENGTH('b) \<Longrightarrow> unat (ucast x :: 'b::len word) = unat x"
  by (simp add: unat_ucast_take_bit take_bit_nat_eq_self)

lemma ucast_ucast_small:
  fixes x :: "'a::len word"
  assumes "unat x < 2 ^ LENGTH('b)" and "LENGTH('b) \<le> LENGTH('a)"
  shows "(ucast (ucast x :: 'b::len word) :: 'a word) = x"
proof (rule word_unat_eq_iff [THEN iffD2])
  have "unat (ucast x :: 'b word) = unat x"
    using assms(1) by (rule unat_ucast_small)
  moreover have "unat x < 2 ^ LENGTH('a)" by (rule unsigned_less)
  ultimately show "unat (ucast (ucast x :: 'b word) :: 'a word) = unat x"
    by (simp add: unat_ucast_small)
qed

lemma unat_drop_bit [word_norm]: "unat (drop_bit k (v :: 'a::len word)) = unat v div 2 ^ k"
  unfolding unsigned_drop_bit_eq by (simp add: drop_bit_eq_div take_bit_nat_eq_self unsigned_less)

lemma bit_small_word:
  fixes v :: "'a::len word"
  assumes "unat v < 2 ^ k"
  shows "\<not> bit v n \<or> n < k"
proof -
  have "v = take_bit k v"
    using assms by (simp add: word_unat_eq_iff unsigned_take_bit_eq take_bit_nat_eq_self)
  then show ?thesis by (metis bit_take_bit_iff)
qed

section \<open>Comparison callbacks\<close>

text \<open>
  What the containers rely on from the three-way comparison function they are given: the
  sign of the result is antisymmetric and the order it describes is transitive.
\<close>

locale comparator =
  fixes cmp :: "'a \<Rightarrow> 'a \<Rightarrow> int"
  assumes cmp_swap: "cmp a b < 0 \<longleftrightarrow> 0 < cmp b a"
    and cmp_trans: "cmp a b \<le> 0 \<Longrightarrow> cmp b c \<le> 0 \<Longrightarrow> cmp a c \<le> 0"
begin

lemma cmp_refl [simp]: "cmp a a = 0"
  using cmp_swap [of a a] by linarith

lemma cmp_total: "cmp a b \<le> 0 \<or> cmp b a \<le> 0"
  using cmp_swap [of a b] cmp_swap [of b a] by linarith

lemma cmp_pos_iff: "0 < cmp a b \<longleftrightarrow> cmp b a < 0"
  using cmp_swap by blast

lemma cmp_le_swap: "cmp a b \<le> 0 \<longleftrightarrow> 0 \<le> cmp b a"
  using cmp_swap [of b a] by linarith

lemma cmp_zero_sym: "cmp a b = 0 \<longleftrightarrow> cmp b a = 0"
  using cmp_swap [of a b] cmp_swap [of b a] by linarith

lemma cmp_less_trans: "cmp a b < 0 \<Longrightarrow> cmp b c \<le> 0 \<Longrightarrow> cmp a c < 0"
  using cmp_trans [of b c a] cmp_swap [of a c] cmp_swap [of a b] cmp_le_swap
  by (metis linorder_not_less order_less_imp_le)

lemma cmp_le_less_trans: "cmp a b \<le> 0 \<Longrightarrow> cmp b c < 0 \<Longrightarrow> cmp a c < 0"
  using cmp_trans [of c a b] cmp_swap [of b c] cmp_le_swap
  by (metis linorder_not_less order_less_imp_le)

end

lemma comparator_flip:
  assumes "comparator c" and "s = 1 \<or> s = - 1"
  shows "comparator (\<lambda>a b. c a b * (s :: int))"
proof -
  note sw = comparator.cmp_swap [OF assms(1)] and tr = comparator.cmp_trans [OF assms(1)]
    and le = comparator.cmp_le_swap [OF assms(1)]
  have tr': "0 \<le> c a b \<Longrightarrow> 0 \<le> c b d \<Longrightarrow> 0 \<le> c a d" for a b d
    by (metis le tr)
  show ?thesis
    using assms(2) by unfold_locales (auto simp: sw intro: tr tr')
qed

section \<open>Lists as arrays\<close>

lemma mset_middle:
  assumes "mset xs = mset ys" and "take a xs = take a ys" and "drop b xs = drop b ys"
    and "a \<le> b"
  shows "mset (take (b - a) (drop a xs)) = mset (take (b - a) (drop a ys))"
proof -
  have split: "zs = take a zs @ take (b - a) (drop a zs) @ drop b zs" for zs :: "'a list"
    using assms(4) by (metis append_take_drop_id drop_drop le_add_diff_inverse2)
  have "mset (take a xs) + mset (take (b - a) (drop a xs)) + mset (drop b xs) =
      mset (take a ys) + mset (take (b - a) (drop a ys)) + mset (drop b ys)"
    using assms(1) split [of xs] split [of ys] by (metis mset_append union_assoc)
  with assms(2,3) show ?thesis by simp
qed

lemma take_drop_Suc_conv:
  "Suc n < length xs \<Longrightarrow> take (Suc n) (drop 1 xs) = take n (drop 1 xs) @ [xs ! Suc n]"
  by (simp add: take_Suc_conv_app_nth)

end
