(* ===== verification/ByteOrder.thy ===== *)
theory ByteOrder
  imports Prelude
begin

text \<open>
  Storing and reading integers in byte memory: the \<open>korr\<close> and \<open>store\<close> macros of
  \<^verbatim>\<open>include/byte_order_generic.h\<close> (low byte first) and the \<open>mi_\<close> macros of
  \<^verbatim>\<open>include/myisampack.h\<close> (high byte first).  The locale \<open>int_codec\<close> is the contract
  every other component relies on: what is read back after a store, and which cells a store
  touches.  It is interpreted for every width.
\<close>

section \<open>Low byte first\<close>

definition uint2korr :: "mem \<Rightarrow> nat \<Rightarrow> u16" where
  "uint2korr m a = ucast (m a) OR push_bit 8 (ucast (m (a + 1)))"

definition uint3korr :: "mem \<Rightarrow> nat \<Rightarrow> u32" where
  "uint3korr m a = ucast (m a) OR push_bit 8 (ucast (m (a + 1))) OR
     push_bit 16 (ucast (m (a + 2)))"

definition uint4korr :: "mem \<Rightarrow> nat \<Rightarrow> u32" where
  "uint4korr m a = ucast (m a) OR push_bit 8 (ucast (m (a + 1))) OR
     push_bit 16 (ucast (m (a + 2))) OR push_bit 24 (ucast (m (a + 3)))"

text \<open>The 64-bit value is put together from two 32-bit halves, as the macro does.\<close>

definition uint8korr :: "mem \<Rightarrow> nat \<Rightarrow> u64" where
  "uint8korr m a =
     ucast (ucast (m a) OR push_bit 8 (ucast (m (a + 1))) OR
       push_bit 16 (ucast (m (a + 2))) OR push_bit 24 (ucast (m (a + 3))) :: u32) OR
     push_bit 32 (ucast (ucast (m (a + 4)) OR push_bit 8 (ucast (m (a + 5))) OR
       push_bit 16 (ucast (m (a + 6))) OR push_bit 24 (ucast (m (a + 7))) :: u32))"

definition int2store :: "mem \<Rightarrow> nat \<Rightarrow> u32 \<Rightarrow> mem" where
  "int2store m t v = m(t := ucast v, t + 1 := ucast (drop_bit 8 v))"

definition int3store :: "mem \<Rightarrow> nat \<Rightarrow> u64 \<Rightarrow> mem" where
  "int3store m t v = m(t := ucast v, t + 1 := ucast (drop_bit 8 v),
     t + 2 := ucast (drop_bit 16 v))"

definition int4store :: "mem \<Rightarrow> nat \<Rightarrow> u32 \<Rightarrow> mem" where
  "int4store m t v = m(t := ucast v, t + 1 := ucast (drop_bit 8 v),
     t + 2 := ucast (drop_bit 16 v), t + 3 := ucast (drop_bit 24 v))"

definition int8store :: "mem \<Rightarrow> nat \<Rightarrow> u64 \<Rightarrow> mem" where
  "int8store m t v =
     (let def_temp = ucast v; def_temp2 = ucast (drop_bit 32 v)
      in int4store (int4store m t def_temp) (t + 4) def_temp2)"

section \<open>High byte first\<close>

definition mi_uint2korr :: "mem \<Rightarrow> nat \<Rightarrow> u16" where
  "mi_uint2korr m a = ucast (m (a + 1)) OR push_bit 8 (ucast (m a))"

definition mi_uint3korr :: "mem \<Rightarrow> nat \<Rightarrow> u32" where
  "mi_uint3korr m a = ucast (m (a + 2)) OR push_bit 8 (ucast (m (a + 1))) OR
     push_bit 16 (ucast (m a))"

definition mi_uint4korr :: "mem \<Rightarrow> nat \<Rightarrow> u32" where
  "mi_uint4korr m a = ucast (m (a + 3)) OR push_bit 8 (ucast (m (a + 2))) OR
     push_bit 16 (ucast (m (a + 1))) OR push_bit 24 (ucast (m a))"

text \<open>The signed readers return the 32-bit pattern that the cast to \<open>int32\<close> gives.\<close>

definition mi_sint1korr :: "mem \<Rightarrow> nat \<Rightarrow> u32" where
  "mi_sint1korr m a = scast (m a)"

definition mi_sint2korr :: "mem \<Rightarrow> nat \<Rightarrow> u32" where
  "mi_sint2korr m a = scast (ucast (m (a + 1)) OR push_bit 8 (ucast (m a)) :: u16)"

definition mi_sint3korr :: "mem \<Rightarrow> nat \<Rightarrow> u32" where
  "mi_sint3korr m a =
     (if m a AND 128 \<noteq> 0
      then push_bit 24 255 OR push_bit 16 (ucast (m a)) OR push_bit 8 (ucast (m (a + 1))) OR
             ucast (m (a + 2))
      else push_bit 16 (ucast (m a)) OR push_bit 8 (ucast (m (a + 1))) OR ucast (m (a + 2)))"

definition mi_sint4korr :: "mem \<Rightarrow> nat \<Rightarrow> u32" where
  "mi_sint4korr m a = ucast (m (a + 3)) OR push_bit 8 (ucast (m (a + 2))) OR
     push_bit 16 (ucast (m (a + 1))) OR push_bit 24 (ucast (m a))"

definition mi_int1store :: "mem \<Rightarrow> nat \<Rightarrow> u32 \<Rightarrow> mem" where
  "mi_int1store m t v = m(t := ucast v)"

definition mi_int2store :: "mem \<Rightarrow> nat \<Rightarrow> u32 \<Rightarrow> mem" where
  "mi_int2store m t v = m(t + 1 := ucast v, t := ucast (drop_bit 8 v))"

definition mi_int3store :: "mem \<Rightarrow> nat \<Rightarrow> u32 \<Rightarrow> mem" where
  "mi_int3store m t v = m(t + 2 := ucast v, t + 1 := ucast (drop_bit 8 v),
     t := ucast (drop_bit 16 v))"

definition mi_int4store :: "mem \<Rightarrow> nat \<Rightarrow> u32 \<Rightarrow> mem" where
  "mi_int4store m t v = m(t + 3 := ucast v, t + 2 := ucast (drop_bit 8 v),
     t + 1 := ucast (drop_bit 16 v), t := ucast (drop_bit 24 v))"

section \<open>The contract\<close>

locale int_codec =
  fixes put :: "mem \<Rightarrow> nat \<Rightarrow> 'v \<Rightarrow> mem"
    and get :: "mem \<Rightarrow> nat \<Rightarrow> 'w"
    and width :: nat
    and repr :: "'v \<Rightarrow> 'w"
    and fits :: "'v \<Rightarrow> bool"
  assumes get_put: "fits v \<Longrightarrow> get (put m p v) p = repr v"
    and put_frame: "a < p \<or> p + width \<le> a \<Longrightarrow> put m p v a = m a"
    and get_local: "\<forall>i < width. m (p + i) = m' (p + i) \<Longrightarrow> get m p = get m' p"
begin

lemma get_upd_other [simp]:
  "a < p \<or> p + width \<le> a \<Longrightarrow> get (m(a := b)) p = get m p"
  by (rule get_local) auto

lemma get_put_other:
  assumes "p + width \<le> q \<or> q + width \<le> p"
  shows "get (put m q v) p = get m p"
proof (rule get_local, intro allI impI)
  fix i assume "i < width"
  with assms have "p + i < q \<or> q + width \<le> p + i" by auto
  then show "put m q v (p + i) = m (p + i)" by (rule put_frame)
qed

lemma two_fields:
  assumes "fits v" "fits w"
  shows "get (put (put m p v) (p + width) w) p = repr v"
    and "get (put (put m p v) (p + width) w) (p + width) = repr w"
  using assms by (simp_all add: get_put get_put_other)

end

section \<open>Every width keeps the contract\<close>

lemma octet_cases:
  obtains "n < 8" | "8 \<le> n" "n < 16" | "16 \<le> n" "n < 24" | "24 \<le> n" "n < 32"
    | "32 \<le> n" "n < 40" | "40 \<le> n" "n < 48" | "48 \<le> n" "n < 56" | "56 \<le> (n::nat)"
  by linarith

lemmas byte_bits = bit_simps less_diff_conv2 le_diff_conv2
lemmas le_defs = uint2korr_def uint3korr_def uint4korr_def uint8korr_def
  int2store_def int3store_def int4store_def int8store_def Let_def
lemmas be_defs = mi_uint2korr_def mi_uint3korr_def mi_uint4korr_def
  mi_sint1korr_def mi_sint2korr_def mi_sint3korr_def mi_sint4korr_def
  mi_int1store_def mi_int2store_def mi_int3store_def mi_int4store_def
lemmas cells = eval_nat_numeral All_less_Suc

lemma uint2korr_int2store: "uint2korr (int2store m p v) p = ucast v"
proof (rule bit_word_eqI)
  fix n assume "n < LENGTH(16)"
  then show "bit (uint2korr (int2store m p v) p) n = bit (ucast v :: u16) n"
    by (cases n rule: octet_cases) (simp_all add: le_defs byte_bits)
qed

lemma uint3korr_int3store:
  assumes "unat v < 2 ^ 24"
  shows "uint3korr (int3store m p v) p = ucast v"
proof (rule bit_word_eqI)
  fix n assume "n < LENGTH(32)"
  then show "bit (uint3korr (int3store m p v) p) n = bit (ucast v :: u32) n"
    using bit_small_word [OF assms, of n]
    by (cases n rule: octet_cases) (auto simp: le_defs byte_bits)
qed

lemma uint4korr_int4store: "uint4korr (int4store m p v) p = v"
proof (rule bit_word_eqI)
  fix n assume "n < LENGTH(32)"
  then show "bit (uint4korr (int4store m p v) p) n = bit v n"
    by (cases n rule: octet_cases) (simp_all add: le_defs byte_bits)
qed

lemma uint8korr_int8store: "uint8korr (int8store m p v) p = v"
proof (rule bit_word_eqI)
  fix n assume "n < LENGTH(64)"
  then show "bit (uint8korr (int8store m p v) p) n = bit v n"
    by (cases n rule: octet_cases) (simp_all add: le_defs byte_bits)
qed

interpretation le2: int_codec int2store uint2korr 2 ucast "\<lambda>_. True"
  by unfold_locales (auto simp: uint2korr_int2store, auto simp: le_defs cells)

interpretation le3: int_codec int3store uint3korr 3 ucast "\<lambda>v. unat v < 2 ^ 24"
  by unfold_locales (auto simp: uint3korr_int3store, auto simp: le_defs cells)

interpretation le4: int_codec int4store uint4korr 4 "\<lambda>v. v" "\<lambda>_. True"
  by unfold_locales (auto simp: uint4korr_int4store, auto simp: le_defs cells)

interpretation le8: int_codec int8store uint8korr 8 "\<lambda>v. v" "\<lambda>_. True"
  by unfold_locales (auto simp: uint8korr_int8store, auto simp: le_defs cells)

text \<open>
  A 32-bit value is read back with its sign from \<open>n\<close> bytes when it is the sign extension
  of its low \<open>8 n\<close> bits.
\<close>

definition fits_bytes :: "nat \<Rightarrow> u32 \<Rightarrow> bool" where
  "fits_bytes n v \<longleftrightarrow> signed_take_bit (8 * n - 1) v = v"

lemma fits_bytes_bit:
  assumes "fits_bytes n v" and "8 * n - 1 \<le> k" "k < 32"
  shows "bit v k \<longleftrightarrow> bit v (8 * n - 1)"
proof -
  have "bit v k \<longleftrightarrow> bit (signed_take_bit (8 * n - 1) v) k"
    using assms(1) by (simp add: fits_bytes_def)
  with assms(2,3) show ?thesis by (simp add: bit_signed_take_bit_iff)
qed

lemma and_128_iff_bit: "(b :: u8) AND 128 \<noteq> 0 \<longleftrightarrow> bit b 7"
proof -
  have "(128 :: u8) = push_bit 7 1" by simp
  then show ?thesis by (simp add: bit_iff_and_push_bit_not_eq_0)
qed

lemma bit_high_byte: "bit (4278190080 :: int) n \<longleftrightarrow> 24 \<le> n \<and> n < 32"
proof -
  have "bit (push_bit 24 (mask 8) :: int) n \<longleftrightarrow> 24 \<le> n \<and> n < 32"
    by (auto simp only: bit_push_bit_iff bit_mask_iff) simp_all
  moreover have "(push_bit 24 (mask 8) :: int) = 4278190080"
    by (simp add: mask_eq_exp_minus_1 push_bit_eq_mult)
  ultimately show ?thesis by simp
qed

lemmas signed_byte_bits = be_defs byte_bits min_def and_128_iff_bit bit_high_byte

lemma mi_sint1korr_mi_int1store:
  assumes "fits_bytes 1 v"
  shows "mi_sint1korr (mi_int1store m p v) p = v"
proof (rule bit_word_eqI)
  fix n assume n: "n < LENGTH(32)"
  show "bit (mi_sint1korr (mi_int1store m p v) p) n = bit v n"
  proof (cases "n < 8")
    case True
    then show ?thesis
      by (cases "n = 7"; cases n rule: octet_cases) (auto simp: signed_byte_bits)
  next
    case False
    with n fits_bytes_bit [OF assms, of n] show ?thesis by (auto simp: signed_byte_bits)
  qed
qed

lemma mi_sint2korr_mi_int2store:
  assumes "fits_bytes 2 v"
  shows "mi_sint2korr (mi_int2store m p v) p = v"
proof (rule bit_word_eqI)
  fix n assume n: "n < LENGTH(32)"
  show "bit (mi_sint2korr (mi_int2store m p v) p) n = bit v n"
  proof (cases "n < 16")
    case True
    then show ?thesis
      by (cases "n = 15"; cases n rule: octet_cases) (auto simp: signed_byte_bits)
  next
    case False
    with n fits_bytes_bit [OF assms, of n] show ?thesis by (auto simp: signed_byte_bits)
  qed
qed

lemma mi_sint3korr_mi_int3store:
  assumes "fits_bytes 3 v"
  shows "mi_sint3korr (mi_int3store m p v) p = v"
proof (rule bit_word_eqI)
  fix n assume n: "n < LENGTH(32)"
  show "bit (mi_sint3korr (mi_int3store m p v) p) n = bit v n"
  proof (cases "n < 24")
    case True
    then show ?thesis
      by (cases n rule: octet_cases) (auto simp: signed_byte_bits)
  next
    case False
    with n fits_bytes_bit [OF assms, of n] show ?thesis by (auto simp: signed_byte_bits)
  qed
qed

lemma mi_sint4korr_mi_int4store: "mi_sint4korr (mi_int4store m p v) p = v"
proof (rule bit_word_eqI)
  fix n assume "n < LENGTH(32)"
  then show "bit (mi_sint4korr (mi_int4store m p v) p) n = bit v n"
    by (cases n rule: octet_cases) (simp_all add: be_defs byte_bits)
qed

interpretation be1: int_codec mi_int1store mi_sint1korr 1 "\<lambda>v. v" "fits_bytes 1"
  by unfold_locales (auto simp: mi_sint1korr_mi_int1store, auto simp: be_defs cells)

interpretation be2: int_codec mi_int2store mi_sint2korr 2 "\<lambda>v. v" "fits_bytes 2"
  by unfold_locales (auto simp: mi_sint2korr_mi_int2store, auto simp: be_defs cells)

interpretation be3: int_codec mi_int3store mi_sint3korr 3 "\<lambda>v. v" "fits_bytes 3"
  by unfold_locales (auto simp: mi_sint3korr_mi_int3store, auto simp: be_defs cells)

interpretation be4: int_codec mi_int4store mi_sint4korr 4 "\<lambda>v. v" "\<lambda>_. True"
  by unfold_locales (auto simp: mi_sint4korr_mi_int4store, auto simp: be_defs cells)

end
