(* ===== verification/Pack.thy ===== *)
theory Pack
  imports ByteOrder
begin

text \<open>
  The length-encoded integers of the client/server protocol, \<^verbatim>\<open>sql-common/pack.c\<close>.  A packet
  is byte memory and the read or write position is an address; the functions that can
  refuse return \<open>None\<close> for the NULL pointer.  \<open>ulong\<close> has 64 bits.
\<close>

definition NULL_LENGTH :: u64 where
  "NULL_LENGTH = NOT 0"

definition net_field_length :: "mem \<Rightarrow> nat \<Rightarrow> u64 \<times> nat" where
  "net_field_length m packet =
     (let pos = m packet in
      if pos < 251 then (ucast pos, packet + 1)
      else if pos = 251 then (NULL_LENGTH, packet + 1)
      else if pos = 252 then (ucast (uint2korr m (packet + 1)), packet + 3)
      else if pos = 253 then (ucast (uint3korr m (packet + 1)), packet + 4)
      else (ucast (uint4korr m (packet + 1)), packet + 9))"

definition net_field_length_ll :: "mem \<Rightarrow> nat \<Rightarrow> u64 \<times> nat" where
  "net_field_length_ll m packet =
     (let pos = m packet in
      if pos < 251 then (ucast pos, packet + 1)
      else if pos = 251 then (NULL_LENGTH, packet + 1)
      else if pos = 252 then (ucast (uint2korr m (packet + 1)), packet + 3)
      else if pos = 253 then (ucast (uint3korr m (packet + 1)), packet + 4)
      else (uint8korr m (packet + 1), packet + 9))"

definition safe_net_field_length_ll :: "mem \<Rightarrow> nat \<Rightarrow> nat \<Rightarrow> u64 \<times> nat option" where
  "safe_net_field_length_ll m packet packet_len =
     (if packet_len < 1 then (0, None)
      else let pos = m packet in
      if pos < 251 then (ucast pos, Some (packet + 1))
      else if pos = 251 then (NULL_LENGTH, Some (packet + 1))
      else if pos = 252 then
        (if packet_len < 3 then (0, None)
         else (ucast (uint2korr m (packet + 1)), Some (packet + 3)))
      else if pos = 253 then
        (if packet_len < 4 then (0, None)
         else (ucast (uint3korr m (packet + 1)), Some (packet + 4)))
      else if packet_len < 9 \<or> pos \<noteq> 254 then (0, None)
      else (uint8korr m (packet + 1), Some (packet + 9)))"

definition net_store_length :: "mem \<Rightarrow> nat \<Rightarrow> u64 \<Rightarrow> mem \<times> nat" where
  "net_store_length m packet len =
     (if len < 251 then (m(packet := ucast len), packet + 1)
      else if len < 65536 then
        (int2store (m(packet := 252)) (packet + 1) (ucast len), packet + 1 + 2)
      else if len < 16777216 then
        (int3store (m(packet := 253)) (packet + 1) len, packet + 1 + 3)
      else (int8store (m(packet := 254)) (packet + 1) len, packet + 1 + 8))"

definition safe_net_store_length :: "mem \<Rightarrow> nat \<Rightarrow> nat \<Rightarrow> u64 \<Rightarrow> mem \<times> nat option" where
  "safe_net_store_length m packet packet_len len =
     (if len < 251 then
        (if packet_len < 1 then (m, None)
         else (m(packet := ucast len), Some (packet + 1)))
      else if len < 65536 then
        (if packet_len < 3 then (m, None)
         else (int2store (m(packet := 252)) (packet + 1) (ucast len), Some (packet + 1 + 2)))
      else if len < 16777216 then
        (if packet_len < 4 then (m, None)
         else (int3store (m(packet := 253)) (packet + 1) len, Some (packet + 1 + 3)))
      else if packet_len < 9 then (m, None)
      else (int8store (m(packet := 254)) (packet + 1) len, Some (packet + 1 + 8)))"

definition net_length_size :: "u64 \<Rightarrow> nat" where
  "net_length_size num =
     (if num < 251 then 1 else if num < 65536 then 3 else if num < 16777216 then 4 else 9)"

section \<open>Reading back what was stored\<close>

lemmas length_defs = net_field_length_def net_field_length_ll_def safe_net_field_length_ll_def
  net_store_length_def safe_net_store_length_def net_length_size_def Let_def

lemma ucast_byte_small:
  assumes "(v :: u64) < 251"
  shows "(ucast v :: u8) < 251" and "ucast (ucast v :: u8) = v"
proof -
  have v: "unat v < 251" using assms by (simp add: word_less_nat_alt)
  then have "unat (ucast v :: u8) = unat v" by (simp add: unat_ucast_small)
  with v show "(ucast v :: u8) < 251" by (simp add: word_less_nat_alt)
  from v show "ucast (ucast v :: u8) = v" by (simp add: ucast_ucast_small)
qed

lemma ucast_u16_small: "(v :: u64) < 65536 \<Longrightarrow> ucast (ucast (ucast v :: u32) :: u16) = v"
  by (rule bit_word_eqI)
    (use bit_small_word [of v 16] in \<open>fastforce simp: bit_simps word_less_nat_alt\<close>)

lemma ucast_u32_small: "(v :: u64) < 16777216 \<Longrightarrow> ucast (ucast v :: u32) = v"
  by (rule ucast_ucast_small) (auto simp: word_less_nat_alt)

lemma header_kept:
  "int2store m (Suc p) v p = m p" "int3store m (Suc p) w p = m p" "int8store m (Suc p) x p = m p"
  by (simp_all add: le2.put_frame le3.put_frame le8.put_frame)

lemma net_length_read_back:
  "net_field_length_ll (fst (net_store_length m p v)) p = (v, snd (net_store_length m p v))"
proof -
  consider "v < 251" | "\<not> v < 251" "v < 65536"
    | "\<not> v < 251" "\<not> v < 65536" "v < 16777216"
    | "\<not> v < 251" "\<not> v < 65536" "\<not> v < 16777216"
    by blast
  then show ?thesis
  proof cases
    case 1
    then show ?thesis by (simp add: length_defs ucast_byte_small)
  next
    case 2
    then show ?thesis
      by (simp add: length_defs header_kept le2.get_put ucast_u16_small)
  next
    case 3
    then have "unat v < 2 ^ 24" by (simp add: word_less_nat_alt)
    with 3 show ?thesis
      by (simp add: length_defs header_kept le3.get_put ucast_u32_small)
  next
    case 4
    then show ?thesis
      by (simp add: length_defs header_kept le8.get_put)
  qed
qed

lemma net_store_length_end: "snd (net_store_length m p v) = p + net_length_size v"
  by (simp add: length_defs)

lemma net_store_length_frame:
  "a < p \<or> p + net_length_size v \<le> a \<Longrightarrow> fst (net_store_length m p v) a = m a"
  by (auto simp: length_defs le2.put_frame le3.put_frame le8.put_frame split: if_splits)

lemma net_store_length_header: "fst (net_store_length m p v) p \<noteq> 255"
proof -
  have "(ucast v :: u8) \<noteq> 255" if "v < 251"
    using ucast_byte_small(1) [OF that] by auto
  then show ?thesis by (auto simp: length_defs header_kept)
qed

lemma safe_net_field_length_agrees:
  assumes "m p \<noteq> 255"
  shows "safe_net_field_length_ll m p len =
    (if snd (net_field_length_ll m p) \<le> p + len
     then (fst (net_field_length_ll m p), Some (snd (net_field_length_ll m p))) else (0, None))"
proof -
  have "m p = 254" if "\<not> m p < 251" "m p \<noteq> 251" "m p \<noteq> 252" "m p \<noteq> 253"
  proof -
    have "unat (m p) \<noteq> 255" "unat (m p) \<noteq> 251" "unat (m p) \<noteq> 252" "unat (m p) \<noteq> 253"
      using assms that by (auto simp: word_unat_eq_iff)
    moreover have "251 \<le> unat (m p)" using that(1) by (simp add: word_less_nat_alt)
    moreover have "unat (m p) < 256" using unsigned_less [of "m p"] by simp
    ultimately have "unat (m p) = unat (254 :: u8)" by simp
    then show ?thesis by (simp only: word_unat_eq_iff)
  qed
  then show ?thesis by (auto simp: length_defs)
qed

lemma safe_net_store_length_agrees:
  "safe_net_store_length m p len v =
     (if net_length_size v \<le> len then (fst (net_store_length m p v), Some (p + net_length_size v))
      else (m, None))"
  by (auto simp: length_defs)

lemma uint4korr_int8store: "uint4korr (int8store m p v) p = ucast v"
  by (simp add: int8store_def Let_def le4.get_put_other le4.get_put)

lemma ucast_u32_eq_iff: "ucast (ucast (v :: u64) :: u32) = v \<longleftrightarrow> v < 4294967296"
proof
  assume eq: "ucast (ucast v :: u32) = v"
  have lt: "unat (ucast v :: u32) < 2 ^ 32" using unsigned_less [of "ucast v :: u32"] by simp
  then have "unat (ucast (ucast v :: u32) :: u64) = unat (ucast v :: u32)"
    by (intro unat_ucast_small) simp
  with eq lt have "unat v < 2 ^ 32" by simp
  then show "v < 4294967296" by (simp add: word_less_nat_alt)
qed (rule ucast_ucast_small, auto simp: word_less_nat_alt)

lemma net_field_length_low:
  "net_field_length (fst (net_store_length m p v)) p = (ucast (ucast v :: u32), p + net_length_size v)"
proof (cases "v < 16777216")
  case True
  have "net_field_length (fst (net_store_length m p v)) p =
      net_field_length_ll (fst (net_store_length m p v)) p"
    using True by (auto simp: length_defs header_kept ucast_byte_small)
  with True show ?thesis by (simp add: net_length_read_back net_store_length_end ucast_u32_small)
next
  case False
  then have "\<not> v < 251" "\<not> v < 65536" by (auto simp: word_less_nat_alt)
  with False show ?thesis by (simp add: length_defs header_kept uint4korr_int8store)
qed

section \<open>Properties\<close>

text \<open>
  C21: Length-encoded integers round trip: reading back with \<open>net_field_length_ll\<close> what
  \<open>net_store_length\<close> wrote gives the number; the writer advances by \<open>net_length_size\<close>
  bytes, the reader stops exactly where the writer did, and no byte outside those is touched.
\<close>

theorem net_length_roundtrip:
  "net_field_length_ll (fst (net_store_length m p v)) p = (v, p + net_length_size v)
   \<and> snd (net_store_length m p v) = p + net_length_size v
   \<and> (\<forall>a. a < p \<or> p + net_length_size v \<le> a \<longrightarrow> fst (net_store_length m p v) a = m a)"
  by (simp add: net_length_read_back net_store_length_end net_store_length_frame)

theorem net_length_roundtrip_witness:
  "net_field_length_ll (fst (net_store_length (\<lambda>_. 0) 5 70000)) 5 = (70000, 9)
   \<and> fst (net_store_length (\<lambda>_. 0) 5 70000) 9 = 0"
  using net_length_roundtrip [of "\<lambda>_. 0" 5 70000] by (simp add: net_length_size_def)

text \<open>
  The bounds-checked pair is safe and lossless: \<open>safe_net_store_length\<close> refuses exactly the
  numbers that do not fit in the space left and then writes nothing; what it does write
  \<open>safe_net_field_length_ll\<close> reads back in any buffer at least that long, and refuses in any
  shorter one.
\<close>

theorem safe_net_length_roundtrip:
  "(snd (safe_net_store_length m p len v) = None \<longleftrightarrow> len < net_length_size v)
   \<and> (len < net_length_size v \<longrightarrow> fst (safe_net_store_length m p len v) = m)
   \<and> (net_length_size v \<le> len \<longrightarrow>
        safe_net_field_length_ll (fst (safe_net_store_length m p len v)) p rlen =
          (if net_length_size v \<le> rlen then (v, Some (p + net_length_size v)) else (0, None)))"
  by (simp add: safe_net_store_length_agrees safe_net_field_length_agrees
      net_store_length_header net_length_read_back net_store_length_end)

theorem safe_net_length_roundtrip_witness:
  "safe_net_store_length (\<lambda>_. 0) 0 2 1000 = (\<lambda>_. 0, None)
   \<and> safe_net_field_length_ll (fst (safe_net_store_length (\<lambda>_. 0) 0 8 1000)) 0 3 = (1000, Some 3)"
  using safe_net_length_roundtrip [of "\<lambda>_. 0" 0 2 1000]
    safe_net_length_roundtrip [of "\<lambda>_. 0" 0 8 1000 3]
  by (simp add: net_length_size_def prod_eq_iff)

text \<open>
  C25: The bounds-checked reader stays inside the packet whatever the bytes are: its result
  depends only on the \<open>packet_len\<close> bytes it was given, and a position it returns lies behind
  the start and not behind the end.
\<close>

theorem safe_net_field_length_in_bounds:
  assumes "\<forall>i < len. m (p + i) = m' (p + i)"
  shows "safe_net_field_length_ll m p len = safe_net_field_length_ll m' p len
    \<and> (\<forall>q. snd (safe_net_field_length_ll m p len) = Some q \<longrightarrow> p < q \<and> q \<le> p + len)"
proof (cases "len = 0")
  case True
  then show ?thesis by (simp add: safe_net_field_length_ll_def)
next
  case False
  with assms have hd: "m p = m' p" by (metis add_0_right neq0_conv)
  have tl: "m (p + 1 + i) = m' (p + 1 + i)" if "Suc i < len" for i
    using assms [rule_format, OF that] by simp
  have "uint2korr m (p + 1) = uint2korr m' (p + 1)" if "3 \<le> len"
    by (rule le2.get_local) (use tl that in simp)
  moreover have "uint3korr m (p + 1) = uint3korr m' (p + 1)" if "4 \<le> len"
    by (rule le3.get_local) (use tl that in simp)
  moreover have "uint8korr m (p + 1) = uint8korr m' (p + 1)" if "9 \<le> len"
    by (rule le8.get_local) (use tl that in simp)
  ultimately show ?thesis
    using False hd by (auto simp: safe_net_field_length_ll_def Let_def)
qed

theorem safe_net_field_length_in_bounds_witness:
  "safe_net_field_length_ll ((\<lambda>_. 0)(0 := 252, 1 := 7)) 0 3 =
   safe_net_field_length_ll ((\<lambda>_. 9)(0 := 252, 1 := 7, 2 := 0)) 0 3"
proof -
  have "\<forall>i < 3. ((\<lambda>_. 0)(0 := 252, 1 := 7) :: mem) (0 + i) =
      ((\<lambda>_. 9)(0 := 252, 1 := 7, 2 := 0) :: mem) (0 + i)"
    by (auto simp: less_Suc_eq numeral_3_eq_3)
  from safe_net_field_length_in_bounds [OF this] show ?thesis by blast
qed

text \<open>
  \<open>net_field_length\<close> skips the eight bytes of a long number and keeps the low 32 bits only:
  it agrees with what was stored exactly for the numbers below \<open>2 ^ 32\<close>.
\<close>

theorem net_field_length_truncates:
  "net_field_length (fst (net_store_length m p v)) p = (ucast (ucast v :: u32), p + net_length_size v)
   \<and> (fst (net_field_length (fst (net_store_length m p v)) p) = v \<longleftrightarrow> v < 4294967296)"
  by (simp add: net_field_length_low ucast_u32_eq_iff)

end
