(* ===== verification/Queues.thy ===== *)
theory Queues
  imports Prelude
begin

text \<open>
  The priority queue of \<^verbatim>\<open>mysys/queues.c\<close>: a binary heap in an array of element pointers that
  starts at position 1.  Elements are addresses; \<open>compare\<close> is called on the address of the
  key inside the element.  When \<open>offset_to_queue_pos\<close> is not 0 every element carries its own
  position, in the \<open>uint\<close> cell at \<open>element + offset_to_queue_pos - 1\<close>; \<open>cells\<close> is the
  memory of these cells.  Contents of freshly allocated memory are an argument (\<open>junk\<close>), and
  so is whether the allocation succeeds (\<open>ok\<close>).  Positions are natural numbers: a queue has
  fewer than \<open>2 ^ 31\<close> elements, so the \<open>uint\<close> arithmetic on positions does not wrap.
\<close>

type_synonym cells = "nat \<Rightarrow> nat"

record queue =
  root :: "nat list"
  first_cmp_arg :: nat
  elements :: nat
  max_elements :: nat
  offset_to_key :: nat
  offset_to_queue_pos :: nat
  auto_extent :: nat
  max_at_top :: int
  compare :: "nat \<Rightarrow> nat \<Rightarrow> nat \<Rightarrow> int"

definition queue_set_max_at_top :: "queue \<Rightarrow> bool \<Rightarrow> queue" where
  "queue_set_max_at_top q set_arg = q\<lparr>max_at_top := (if set_arg then -1 else 1)\<rparr>"

definition init_queue ::
  "bool \<Rightarrow> (nat \<Rightarrow> nat) \<Rightarrow> queue \<Rightarrow> nat \<Rightarrow> nat \<Rightarrow> bool \<Rightarrow> (nat \<Rightarrow> nat \<Rightarrow> nat \<Rightarrow> int) \<Rightarrow> nat \<Rightarrow> nat
     \<Rightarrow> nat \<Rightarrow> int \<times> queue" where
  "init_queue ok junk q max_el off_key max_top cmp arg off_pos ext =
     (if \<not> ok then (1, q\<lparr>root := []\<rparr>)
      else (0, queue_set_max_at_top
        (q\<lparr>root := map junk [0..<max_el + 1], elements := 0, compare := cmp,
           first_cmp_arg := arg, max_elements := max_el, offset_to_key := off_key,
           offset_to_queue_pos := off_pos, auto_extent := ext\<rparr>) max_top))"

text \<open>\<open>my_realloc\<close> keeps the old contents up to the new size.\<close>

definition realloc_root :: "(nat \<Rightarrow> nat) \<Rightarrow> nat list \<Rightarrow> nat \<Rightarrow> nat list" where
  "realloc_root junk r n = map (\<lambda>i. if i < length r then r ! i else junk i) [0..<n]"

definition resize_queue :: "bool \<Rightarrow> (nat \<Rightarrow> nat) \<Rightarrow> queue \<Rightarrow> nat \<Rightarrow> int \<times> queue" where
  "resize_queue ok junk q max_el =
     (if max_elements q = max_el then (0, q)
      else if \<not> ok then (1, q)
      else (0, q\<lparr>elements := min (elements q) max_el, max_elements := max_el,
                 root := realloc_root junk (root q) (max_el + 1)\<rparr>))"

definition reinit_queue ::
  "bool \<Rightarrow> (nat \<Rightarrow> nat) \<Rightarrow> queue \<Rightarrow> nat \<Rightarrow> nat \<Rightarrow> bool \<Rightarrow> (nat \<Rightarrow> nat \<Rightarrow> nat \<Rightarrow> int) \<Rightarrow> nat \<Rightarrow> nat
     \<Rightarrow> nat \<Rightarrow> int \<times> queue" where
  "reinit_queue ok junk q max_el off_key max_top cmp arg off_pos ext =
     resize_queue ok junk (queue_set_max_at_top
       (q\<lparr>elements := 0, compare := cmp, first_cmp_arg := arg, offset_to_key := off_key,
          offset_to_queue_pos := off_pos, auto_extent := ext\<rparr>) max_top) max_el"

definition delete_queue :: "queue \<Rightarrow> queue" where
  "delete_queue q = q\<lparr>root := []\<rparr>"

text \<open>
  \<open>queue->compare(queue->first_cmp_arg, a + offset_to_key, b + offset_to_key) *
  queue->max_at_top\<close>
\<close>

definition qcmp :: "queue \<Rightarrow> nat \<Rightarrow> nat \<Rightarrow> int" where
  "qcmp q a b =
     compare q (first_cmp_arg q) (a + offset_to_key q) (b + offset_to_key q) * max_at_top q"

definition store_pos :: "queue \<Rightarrow> cells \<Rightarrow> nat \<Rightarrow> nat \<Rightarrow> cells" where
  "store_pos q c element idx =
     (if offset_to_queue_pos q \<noteq> 0 then c(element + offset_to_queue_pos q - 1 := idx) else c)"

text \<open>The loop of \<open>insert_at\<close> on the array and the position cells.\<close>

fun insert_at_loop :: "queue \<Rightarrow> nat list \<Rightarrow> cells \<Rightarrow> nat \<Rightarrow> nat \<Rightarrow> nat list \<times> cells" where
  "insert_at_loop q r c element idx =
     (let next_index = idx div 2 in
      if next_index > 0 \<and> qcmp q element (r ! next_index) < 0
      then insert_at_loop q (r[idx := r ! next_index]) (store_pos q c (r ! next_index) idx)
             element next_index
      else (r[idx := element], store_pos q c element idx))"

definition insert_at :: "queue \<Rightarrow> cells \<Rightarrow> nat \<Rightarrow> nat \<Rightarrow> queue \<times> cells" where
  "insert_at q c element idx =
     (let (r, c') = insert_at_loop q (root q) c element idx in (q\<lparr>root := r\<rparr>, c'))"

definition queue_insert :: "queue \<Rightarrow> cells \<Rightarrow> nat \<Rightarrow> queue \<times> cells" where
  "queue_insert q c element =
     insert_at (q\<lparr>elements := elements q + 1\<rparr>) c element (elements q + 1)"

definition queue_insert_safe ::
  "bool \<Rightarrow> (nat \<Rightarrow> nat) \<Rightarrow> queue \<Rightarrow> cells \<Rightarrow> nat \<Rightarrow> int \<times> queue \<times> cells" where
  "queue_insert_safe ok junk q c element =
     (if elements q = max_elements q then
        if auto_extent q = 0 then (2, q, c)
        else (case resize_queue ok junk q (max_elements q + auto_extent q) of (err, q') \<Rightarrow>
          if err \<noteq> 0 then (1, q', c) else (0, queue_insert q' c element))
      else (0, queue_insert q c element))"

text \<open>
  The child the element is compared with: the smaller of the two.  Both loops below run on
  positions from 1 on; the test \<open>0 < idx\<close> is true in every call.
\<close>

definition next_child :: "queue \<Rightarrow> nat list \<Rightarrow> nat \<Rightarrow> nat" where
  "next_child q r idx =
     (let next_index = idx + idx in
      if next_index < elements q \<and> qcmp q (r ! next_index) (r ! (next_index + 1)) > 0
      then next_index + 1 else next_index)"

function downheap_loop :: "queue \<Rightarrow> nat list \<Rightarrow> cells \<Rightarrow> nat \<Rightarrow> nat \<Rightarrow> nat list \<times> cells" where
  "downheap_loop q r c element idx =
     (if 0 < idx \<and> idx \<le> elements q div 2 then
        let next_index = next_child q r idx in
        if qcmp q (r ! next_index) element \<ge> 0
        then (r[idx := element], store_pos q c element idx)
        else downheap_loop q (r[idx := r ! next_index]) (store_pos q c (r ! next_index) idx)
               element next_index
      else (r[idx := element], store_pos q c element idx))"
  by pat_completeness auto
termination
  by (relation "measure (\<lambda>(q, r, c, element, idx). elements q + 1 - idx)")
    (auto simp: next_child_def Let_def)

definition downheap :: "queue \<Rightarrow> cells \<Rightarrow> nat \<Rightarrow> queue \<times> cells" where
  "downheap q c idx =
     (let (r, c') = downheap_loop q (root q) c (root q ! idx) idx in (q\<lparr>root := r\<rparr>, c'))"

fun queue_fix_loop :: "queue \<Rightarrow> cells \<Rightarrow> nat \<Rightarrow> queue \<times> cells" where
  "queue_fix_loop q c 0 = (q, c)"
| "queue_fix_loop q c (Suc i) = (let (q', c') = downheap q c (Suc i) in queue_fix_loop q' c' i)"

definition queue_fix :: "queue \<Rightarrow> cells \<Rightarrow> queue \<times> cells" where
  "queue_fix q c = queue_fix_loop q c (elements q div 2)"

text \<open>The loop of \<open>queue_replace\<close> returns the position the element is then inserted at.\<close>

function queue_replace_loop ::
  "queue \<Rightarrow> nat list \<Rightarrow> cells \<Rightarrow> nat \<Rightarrow> bool \<Rightarrow> nat \<Rightarrow> nat list \<times> cells \<times> nat" where
  "queue_replace_loop q r c element first idx =
     (if 0 < idx \<and> idx \<le> elements q div 2 then
        let next_index = next_child q r idx in
        if first \<and> qcmp q (r ! next_index) element \<ge> 0
        then (r[idx := element], store_pos q c element idx, idx)
        else queue_replace_loop q (r[idx := r ! next_index]) (store_pos q c (r ! next_index) idx)
               element False next_index
      else (r, c, idx))"
  by pat_completeness auto
termination
  by (relation "measure (\<lambda>(q, r, c, element, first, idx). elements q + 1 - idx)")
    (auto simp: next_child_def Let_def)

definition queue_replace :: "queue \<Rightarrow> cells \<Rightarrow> nat \<Rightarrow> queue \<times> cells" where
  "queue_replace q c idx =
     (let element = root q ! idx;
          (r, c', idx') = queue_replace_loop q (root q) c element True idx
      in insert_at (q\<lparr>root := r\<rparr>) c' element idx')"

definition queue_remove :: "queue \<Rightarrow> cells \<Rightarrow> nat \<Rightarrow> nat \<times> queue \<times> cells" where
  "queue_remove q c idx =
     (let element = root q ! idx;
          q' = q\<lparr>root := (root q)[idx := root q ! elements q], elements := elements q - 1\<rparr>
      in (element, queue_replace q' c idx))"

definition queue_top :: "queue \<Rightarrow> nat" where
  "queue_top q = root q ! 1"

definition queue_remove_top :: "queue \<Rightarrow> cells \<Rightarrow> nat \<times> queue \<times> cells" where
  "queue_remove_top q c = queue_remove q c 1"

definition queue_replace_top :: "queue \<Rightarrow> cells \<Rightarrow> queue \<times> cells" where
  "queue_replace_top q c = downheap q c 1"

text \<open>The comparison function of the alarm queue (\<^verbatim>\<open>mysys/thr_alarm.c\<close>); \<open>k\<close> is the memory it reads.\<close>

definition compare_ulong :: "(nat \<Rightarrow> u64) \<Rightarrow> nat \<Rightarrow> nat \<Rightarrow> nat \<Rightarrow> int" where
  "compare_ulong k not_used a_ptr b_ptr =
     (let a = k a_ptr; b = k b_ptr in if a < b then -1 else if a = b then 0 else 1)"

declare insert_at_loop.simps [simp del] downheap_loop.simps [simp del]
  queue_replace_loop.simps [simp del]

section \<open>The heap order\<close>

text \<open>
  \<open>heap_but q r n i\<close>: every position up to \<open>n\<close> except \<open>i\<close> holds nothing smaller than its
  parent.  \<open>skips q r n i\<close>: the parent of \<open>i\<close> is not above a child of \<open>i\<close>, so that
  position \<open>i\<close> can be refilled.
\<close>

definition heap_but :: "queue \<Rightarrow> nat list \<Rightarrow> nat \<Rightarrow> nat \<Rightarrow> bool" where
  "heap_but q r n i \<longleftrightarrow> (\<forall>j. 2 \<le> j \<and> j \<le> n \<and> j \<noteq> i \<longrightarrow> qcmp q (r ! (j div 2)) (r ! j) \<le> 0)"

definition skips :: "queue \<Rightarrow> nat list \<Rightarrow> nat \<Rightarrow> nat \<Rightarrow> bool" where
  "skips q r n i \<longleftrightarrow>
     (\<forall>j. 2 \<le> i \<and> j div 2 = i \<and> j \<le> n \<longrightarrow> qcmp q (r ! (i div 2)) (r ! j) \<le> 0)"

definition heap :: "queue \<Rightarrow> bool" where
  "heap q \<longleftrightarrow> heap_but q (root q) (elements q) 0"

lemma heap_butD: "heap_but q r n i \<Longrightarrow> 2 \<le> j \<Longrightarrow> j \<le> n \<Longrightarrow> j \<noteq> i \<Longrightarrow> qcmp q (r ! (j div 2)) (r ! j) \<le> 0"
  by (simp add: heap_but_def)

lemma skipsD: "skips q r n i \<Longrightarrow> 2 \<le> i \<Longrightarrow> j div 2 = i \<Longrightarrow> j \<le> n \<Longrightarrow> qcmp q (r ! (i div 2)) (r ! j) \<le> 0"
  by (simp add: skips_def)

section \<open>What the loops move\<close>

lemma length_insert_at_loop [simp]: "length (fst (insert_at_loop q r c e idx)) = length r"
  by (induction q r c e idx rule: insert_at_loop.induct)
    (subst insert_at_loop.simps, simp add: Let_def)

lemma insert_at_loop_frame:
  "1 \<le> idx \<Longrightarrow> k = 0 \<or> idx < k \<Longrightarrow> fst (insert_at_loop q r c e idx) ! k = r ! k"
proof (induction q r c e idx rule: insert_at_loop.induct)
  case (1 q r c e idx)
  then show ?case
    by (subst insert_at_loop.simps) (auto simp: Let_def)
qed

lemma insert_at_loop_mset:
  "idx < length r \<Longrightarrow> mset (fst (insert_at_loop q r c e idx)) = mset (r[idx := e])"
proof (induction q r c e idx rule: insert_at_loop.induct)
  case (1 q r c e idx)
  show ?case
  proof (cases "0 < idx div 2 \<and> qcmp q e (r ! (idx div 2)) < 0")
    case True
    let ?p = "idx div 2" and ?f = "r[idx := e]"
    have p: "?p < idx" "?p < length r" using True 1(2) by auto
    have "mset (fst (insert_at_loop q r c e idx)) = mset (r[idx := r ! ?p, ?p := e])"
      using 1 True p by (subst insert_at_loop.simps) (simp add: Let_def)
    also have "r[idx := r ! ?p, ?p := e] = ?f[idx := ?f ! ?p, ?p := ?f ! idx]"
      using p 1(2) by (simp add: nth_list_update)
    also have "mset \<dots> = mset ?f"
      using p 1(2) by (intro mset_swap) auto
    finally show ?thesis .
  next
    case False
    then show ?thesis by (subst insert_at_loop.simps) (auto simp: Let_def)
  qed
qed

text \<open>The elements stored at positions \<open>1, \<dots>, n\<close>.\<close>

definition elems :: "nat list \<Rightarrow> nat \<Rightarrow> nat list" where
  "elems r n = take n (drop 1 r)"

lemma nth_elems: "j < n \<Longrightarrow> n < length r \<Longrightarrow> elems r n ! j = r ! Suc j"
  by (simp add: elems_def)

lemma length_elems [simp]: "n < length r \<Longrightarrow> length (elems r n) = n"
  by (simp add: elems_def)

lemma elems_mset_eq:
  assumes "mset r = mset r'" "r ! 0 = r' ! 0" "\<And>k. n < k \<Longrightarrow> r ! k = r' ! k" "n < length r"
  shows "mset (elems r n) = mset (elems r' n)"
proof -
  have len: "length r = length r'" using assms(1) by (rule mset_eq_length)
  have "take 1 r = take 1 r'" using assms(2,4) len by (cases r; cases r') auto
  moreover have "drop (Suc n) r = drop (Suc n) r'"
    by (rule nth_equalityI) (use len assms(3) in auto)
  ultimately show ?thesis
    using mset_middle [OF assms(1), of 1 "Suc n"] by (simp add: elems_def)
qed

lemma distinct_elems_nth:
  assumes "distinct (elems r n)" "n < length r" "1 \<le> i" "i \<le> n" "1 \<le> j" "j \<le> n"
  shows "r ! i = r ! j \<longleftrightarrow> i = j"
proof -
  have "elems r n ! (i - 1) = elems r n ! (j - 1) \<longleftrightarrow> i - 1 = j - 1"
    using assms by (intro nth_eq_iff_index_eq) auto
  then show ?thesis using assms by (auto simp: nth_elems)
qed

lemma insert_at_loop_elems:
  assumes "1 \<le> idx" "idx \<le> n" "n < length r"
  shows "mset (elems (fst (insert_at_loop q r c e idx)) n) = mset (elems (r[idx := e]) n)"
  using assms
  by (intro elems_mset_eq) (simp_all add: insert_at_loop_mset insert_at_loop_frame)

text \<open>Every element but the one at position \<open>i\<close> carries its own position.\<close>

definition pos_but :: "queue \<Rightarrow> nat list \<Rightarrow> cells \<Rightarrow> nat \<Rightarrow> nat \<Rightarrow> bool" where
  "pos_but q r c n i \<longleftrightarrow> (offset_to_queue_pos q \<noteq> 0 \<longrightarrow>
     (\<forall>j. 1 \<le> j \<and> j \<le> n \<and> j \<noteq> i \<longrightarrow> c (r ! j + offset_to_queue_pos q - 1) = j))"

lemma cell_eq_iff [simp]:
  "0 < (off :: nat) \<Longrightarrow> a + off - Suc 0 = b + off - Suc 0 \<longleftrightarrow> a = b"
  by arith

lemma pos_but_fill:
  assumes "pos_but q r c n i" "distinct (elems r n)" "n < length r" "1 \<le> i" "i \<le> n"
  shows "pos_but q r (store_pos q c (r ! i) i) n 0"
  using assms distinct_elems_nth [OF assms(2,3) _ _ assms(4,5)]
  by (auto simp: pos_but_def store_pos_def)

lemma pos_but_move:
  assumes "pos_but q r c n i" "distinct (elems r n)" "n < length r"
    and i: "1 \<le> i" "i \<le> n" and k: "1 \<le> k" "k \<le> n" "k \<noteq> i"
  shows "pos_but q (r[i := r ! k, k := r ! i]) (store_pos q c (r ! k) i) n k"
  using assms distinct_elems_nth [OF assms(2,3) _ _ k(1,2)]
  by (auto simp: pos_but_def store_pos_def nth_list_update)

lemma swap_elems_mset:
  assumes "1 \<le> i" "i \<le> n" "1 \<le> k" "k \<le> n" "n < length r"
  shows "mset (elems (r[i := r ! k, k := r ! i]) n) = mset (elems r n)"
  using assms by (intro elems_mset_eq) (auto simp: mset_swap nth_list_update)

lemma move_hole:
  assumes "k \<noteq> i" "i < length r" "k < length r"
  shows "r[i := r ! k, k := e] = (r[i := e])[i := (r[i := e]) ! k, k := (r[i := e]) ! i]"
  using assms by (simp add: nth_list_update)

lemma hole_swap_mset:
  assumes "1 \<le> idx" "idx \<le> n" "n < length r" and k: "1 \<le> k" "k \<le> n" "k \<noteq> idx"
  shows "mset (elems (r[idx := r ! k, k := e]) n) = mset (elems (r[idx := e]) n)"
proof -
  let ?f = "r[idx := e]"
  have f: "r[idx := r ! k, k := e] = ?f[idx := ?f ! k, k := ?f ! idx]"
    using assms by (intro move_hole) auto
  show ?thesis
    unfolding f using swap_elems_mset [of idx n k ?f] assms by simp
qed

lemma hole_swap_pos:
  assumes "pos_but q (r[idx := e]) c n idx" "distinct (elems (r[idx := e]) n)"
    and "1 \<le> idx" "idx \<le> n" "n < length r" and k: "1 \<le> k" "k \<le> n" "k \<noteq> idx"
  shows "pos_but q (r[idx := r ! k, k := e]) (store_pos q c (r ! k) idx) n k"
    and "distinct (elems (r[idx := r ! k, k := e]) n)"
proof -
  let ?f = "r[idx := e]"
  have f: "r[idx := r ! k, k := e] = ?f[idx := ?f ! k, k := ?f ! idx]" and fk: "?f ! k = r ! k"
    using move_hole [of k idx r e] assms by auto
  show "pos_but q (r[idx := r ! k, k := e]) (store_pos q c (r ! k) idx) n k"
    using pos_but_move [OF assms(1,2) _ assms(3,4) k] assms(5) f fk by simp
  show "distinct (elems (r[idx := r ! k, k := e]) n)"
    using hole_swap_mset [OF assms(3-8)] assms(2) by (metis mset_eq_imp_distinct_iff)
qed

lemma insert_at_loop_pos:
  assumes "pos_but q (r[idx := e]) c n idx" "distinct (elems (r[idx := e]) n)"
    and "1 \<le> idx" "idx \<le> n" "n < length r"
  shows "pos_but q (fst (insert_at_loop q r c e idx)) (snd (insert_at_loop q r c e idx)) n 0"
  using assms
proof (induction idx arbitrary: r c rule: less_induct)
  case (less idx)
  let ?p = "idx div 2" and ?f = "r[idx := e]"
  show ?case
  proof (cases "0 < ?p \<and> qcmp q e (r ! ?p) < 0")
    case True
    then have p: "?p < idx" "1 \<le> ?p" "?p \<le> n" "?p \<noteq> idx" using less.prems by auto
    note h = hole_swap_pos [OF less.prems p(2,3,4)]
    show ?thesis
      using less.IH [OF p(1) h] p less.prems(5) True
      by (simp add: insert_at_loop.simps [of q r c e idx] Let_def)
  next
    case False
    then have "insert_at_loop q r c e idx = (?f, store_pos q c e idx)"
      by (subst insert_at_loop.simps) (auto simp: Let_def)
    moreover have "?f ! idx = e" using less.prems by simp
    ultimately show ?thesis
      using pos_but_fill [OF less.prems(1,2) _ less.prems(3,4)] less.prems(5) by simp
  qed
qed

lemma next_child_range:
  assumes "0 < idx" "idx \<le> elements q div 2"
  shows "next_child q r idx div 2 = idx" "next_child q r idx \<le> elements q" "idx < next_child q r idx"
  using assms by (auto simp: next_child_def Let_def)

lemma length_downheap_loop [simp]: "length (fst (downheap_loop q r c e idx)) = length r"
  by (induction q r c e idx rule: downheap_loop.induct)
    (subst downheap_loop.simps, simp add: Let_def)

lemma downheap_loop_frame:
  assumes "idx \<le> elements q" "1 \<le> idx" "k < idx \<or> elements q < k"
  shows "fst (downheap_loop q r c e idx) ! k = r ! k"
  using assms
proof (induction q r c e idx rule: downheap_loop.induct)
  case (1 q r c e idx)
  show ?case
  proof (cases "idx \<le> elements q div 2")
    case True
    with 1 next_child_range [of idx q r] show ?thesis
      by (subst downheap_loop.simps) (auto simp: Let_def)
  next
    case False
    with 1 show ?thesis by (subst downheap_loop.simps) auto
  qed
qed

lemma downheap_loop_mset:
  assumes "elements q < length r" "idx \<le> elements q"
  shows "mset (fst (downheap_loop q r c e idx)) = mset (r[idx := e])"
  using assms
proof (induction q r c e idx rule: downheap_loop.induct)
  case (1 q r c e idx)
  let ?k = "next_child q r idx"
  show ?case
  proof (cases "0 < idx \<and> idx \<le> elements q div 2 \<and> qcmp q (r ! ?k) e < 0")
    case True
    note k = next_child_range [of idx q r]
    have "mset (fst (downheap_loop q r c e idx)) = mset (r[idx := r ! ?k, ?k := e])"
      using 1 True k by (subst downheap_loop.simps) (simp add: Let_def)
    also have "r[idx := r ! ?k, ?k := e] = (r[idx := e])[idx := (r[idx := e]) ! ?k, ?k := (r[idx := e]) ! idx]"
      using True k 1(2,3) by (intro move_hole) auto
    also have "mset \<dots> = mset (r[idx := e])"
      using True k 1(2,3) by (intro mset_swap) auto
    finally show ?thesis .
  next
    case False
    then show ?thesis by (subst downheap_loop.simps) (auto simp: Let_def)
  qed
qed

lemma downheap_loop_elems:
  assumes "1 \<le> idx" "idx \<le> elements q" "elements q < length r"
  shows "mset (elems (fst (downheap_loop q r c e idx)) (elements q)) = mset (elems (r[idx := e]) (elements q))"
  using assms
  by (intro elems_mset_eq) (simp_all add: downheap_loop_mset downheap_loop_frame)

lemma downheap_loop_pos:
  assumes "pos_but q (r[idx := e]) c (elements q) idx" "distinct (elems (r[idx := e]) (elements q))"
    and "1 \<le> idx" "idx \<le> elements q" "elements q < length r"
  shows "pos_but q (fst (downheap_loop q r c e idx)) (snd (downheap_loop q r c e idx)) (elements q) 0"
  using assms
proof (induction q r c e idx rule: downheap_loop.induct)
  case (1 q r c e idx)
  let ?k = "next_child q r idx"
  show ?case
  proof (cases "idx \<le> elements q div 2 \<and> qcmp q (r ! ?k) e < 0")
    case True
    note k = next_child_range [of idx q r]
    have *: "1 \<le> ?k" "?k \<le> elements q" "?k \<noteq> idx" using True k 1(4) by auto
    note h = hole_swap_pos [OF 1(2,3,4,5,6) *]
    have "downheap_loop q r c e idx =
        downheap_loop q (r[idx := r ! ?k]) (store_pos q c (r ! ?k) idx) e ?k"
      using True 1(4) by (subst downheap_loop.simps) (simp add: Let_def)
    moreover have "0 < idx \<and> idx \<le> elements q div 2" "\<not> 0 \<le> qcmp q (r ! ?k) e"
      using True 1(4) by auto
    ultimately show ?thesis
      using 1(1) [OF _ refl] h * 1(6) by simp
  next
    case False
    then have "downheap_loop q r c e idx = (r[idx := e], store_pos q c e idx)"
      by (subst downheap_loop.simps) (auto simp: Let_def)
    moreover have "r[idx := e] ! idx = e" using 1 by simp
    ultimately show ?thesis
      using pos_but_fill [OF 1(2,3) _ 1(4,5)] 1(6) by simp
  qed
qed

text \<open>
  A hole that is to hold \<open>e\<close> moved from one position to another: the same elements are stored,
  nothing outside the heap changed, and every other element still knows its position.
\<close>

definition moved ::
  "queue \<Rightarrow> nat \<Rightarrow> nat list \<times> cells \<times> nat \<Rightarrow> nat list \<times> cells \<times> nat \<Rightarrow> bool" where
  "moved q e s s' \<longleftrightarrow> (case (s, s') of ((r, c, i), (r', c', i')) \<Rightarrow>
     1 \<le> i' \<and> i' \<le> elements q \<and> length r' = length r
     \<and> (\<forall>k. k = 0 \<or> elements q < k \<longrightarrow> r' ! k = r ! k)
     \<and> mset (elems (r'[i' := e]) (elements q)) = mset (elems (r[i := e]) (elements q))
     \<and> (pos_but q (r[i := e]) c (elements q) i \<longrightarrow> distinct (elems (r[i := e]) (elements q))
         \<longrightarrow> pos_but q (r'[i' := e]) c' (elements q) i'))"

lemma moved_refl: "1 \<le> i \<Longrightarrow> i \<le> elements q \<Longrightarrow> moved q e (r, c, i) (r, c, i)"
  by (simp add: moved_def)

lemma moved_trans: "moved q e s s' \<Longrightarrow> moved q e s' s'' \<Longrightarrow> moved q e s s''"
  by (cases s; cases s'; cases s'') (auto simp: moved_def dest: mset_eq_imp_distinct_iff)

lemma moved_fill:
  assumes "1 \<le> i" "i \<le> elements q" "elements q < length r"
  shows "moved q e (r, c, i) (r[i := e], store_pos q c e i, i)"
  using assms pos_but_fill [of q "r[i := e]" c "elements q" i]
  by (simp add: moved_def pos_but_def)

lemma moved_step:
  assumes "1 \<le> i" "i \<le> elements q" "elements q < length r" and k: "1 \<le> k" "k \<le> elements q" "k \<noteq> i"
  shows "moved q e (r, c, i) (r[i := r ! k], store_pos q c (r ! k) i, k)"
  using assms by (simp add: moved_def hole_swap_mset hole_swap_pos)

lemma queue_replace_loop_moved:
  assumes "1 \<le> idx" "idx \<le> elements q" "elements q < length r"
  shows "moved q e (r, c, idx) (queue_replace_loop q r c e first idx)"
  using assms
proof (induction q r c e first idx rule: queue_replace_loop.induct)
  case (1 q r c e first idx)
  let ?k = "next_child q r idx" and ?n = "elements q"
  consider "\<not> idx \<le> ?n div 2" | "idx \<le> ?n div 2" "first" "0 \<le> qcmp q (r ! ?k) e"
    | "idx \<le> ?n div 2" "\<not> (first \<and> 0 \<le> qcmp q (r ! ?k) e)" by blast
  then show ?case
  proof cases
    case 1
    then show ?thesis using "1.prems" by (subst queue_replace_loop.simps) (simp add: moved_refl)
  next
    case 2
    then show ?thesis
      using "1.prems" by (subst queue_replace_loop.simps) (simp add: Let_def moved_fill)
  next
    case 3
    note k = next_child_range [of idx q r]
    have *: "1 \<le> ?k" "?k \<le> ?n" "?k \<noteq> idx" using 3 k "1.prems" by auto
    have "moved q e (r[idx := r ! ?k], store_pos q c (r ! ?k) idx, ?k)
        (queue_replace_loop q (r[idx := r ! ?k]) (store_pos q c (r ! ?k) idx) e False ?k)"
      using "1.IH" [OF _ refl] 3 * "1.prems" by simp
    moreover have "queue_replace_loop q r c e first idx =
        queue_replace_loop q (r[idx := r ! ?k]) (store_pos q c (r ! ?k) idx) e False ?k"
      using 3 "1.prems" by (subst queue_replace_loop.simps) (auto simp: Let_def)
    ultimately show ?thesis
      using moved_trans [OF moved_step [OF "1.prems" *]] by simp
  qed
qed

locale queue_order = comparator "qcmp q" for q :: queue
begin

lemma sift_up_step:
  assumes idx: "idx \<le> n" "n < length r" "0 < idx div 2"
    and hb: "heap_but q (r[idx := e]) n idx" and sk: "skips q (r[idx := e]) n idx"
    and lt: "qcmp q e (r ! (idx div 2)) < 0"
  defines "r1 \<equiv> r[idx := r ! (idx div 2)]" and "p \<equiv> idx div 2"
  shows "heap_but q (r1[p := e]) n p" and "skips q (r1[p := e]) n p"
proof -
  have p: "p < idx" "1 \<le> p" "2 \<le> idx" using idx by (auto simp: p_def)
  have nth: "r1[p := e] ! j = (if j = p then e else if j = idx then r ! p else r ! j)" if "j \<le> n" for j
    using that idx p by (auto simp: r1_def p_def nth_list_update)
  have old: "qcmp q (r ! (j div 2)) (r ! j) \<le> 0" if "2 \<le> j" "j \<le> n" "j \<noteq> idx" "j div 2 \<noteq> idx" for j
    using heap_butD [OF hb that(1-3)] that idx by (simp add: nth_list_update)
  have over: "qcmp q (r ! p) (r ! j) \<le> 0" if "j div 2 = idx" "j \<le> n" for j
  proof -
    have "j \<noteq> idx" using that(1) p by auto
    then show ?thesis
      using skipsD [OF sk p(3) that] p idx by (simp add: p_def nth_list_update)
  qed
  show "heap_but q (r1[p := e]) n p"
    unfolding heap_but_def
  proof (intro allI impI, elim conjE)
    fix j assume j: "2 \<le> j" "j \<le> n" "j \<noteq> p"
    have d: "j div 2 \<le> n" using j by linarith
    consider "j = idx" | "j \<noteq> idx" "j div 2 = idx" | "j \<noteq> idx" "j div 2 = p"
      | "j \<noteq> idx" "j div 2 \<noteq> idx" "j div 2 \<noteq> p" by blast
    then show "qcmp q (r1[p := e] ! (j div 2)) (r1[p := e] ! j) \<le> 0"
    proof cases
      case 1
      with lt p show ?thesis using nth [OF d] nth [OF j(2)] by (simp add: p_def)
    next
      case 2
      with over [OF 2(2) j(2)] p show ?thesis using nth [OF d] nth [OF j(2)] j by simp
    next
      case 3
      then have "j div 2 \<noteq> idx" using p by simp
      from cmp_less_trans [OF lt, of "r ! j"] old [OF j(1,2) 3(1) this] 3 p
      have "qcmp q e (r ! j) < 0" by (simp add: p_def)
      with 3 j show ?thesis using nth [OF d] nth [OF j(2)] by simp
    next
      case 4
      with old [OF j(1,2) 4(1,2)] j show ?thesis using nth [OF d] nth [OF j(2)] by simp
    qed
  qed
  show "skips q (r1[p := e]) n p"
    unfolding skips_def
  proof (intro allI impI, elim conjE)
    fix j assume j: "2 \<le> p" "j div 2 = p" "j \<le> n"
    have up: "qcmp q (r ! (p div 2)) (r ! p) \<le> 0"
      using old [of p] j p idx by auto
    have "qcmp q (r ! (p div 2)) (r ! j) \<le> 0" if "j \<noteq> idx"
    proof -
      have "qcmp q (r ! (j div 2)) (r ! j) \<le> 0"
        using old [of j] that j p by auto
      with up j show ?thesis by (auto intro: cmp_trans)
    qed
    moreover have "p div 2 \<le> n" "p div 2 \<noteq> p" "p div 2 \<noteq> idx" "j \<noteq> p" using j p idx by auto
    ultimately show "qcmp q (r1[p := e] ! (p div 2)) (r1[p := e] ! j) \<le> 0"
      using up nth [of "p div 2"] nth [of j] j by simp
  qed
qed

lemma insert_at_loop_heap:
  assumes "heap_but q (r[idx := e]) n idx" "skips q (r[idx := e]) n idx"
    and "1 \<le> idx" "idx \<le> n" "n < length r"
  shows "heap_but q (fst (insert_at_loop q r c e idx)) n 0"
  using assms
proof (induction idx arbitrary: r c rule: less_induct)
  case (less idx)
  show ?case
  proof (cases "0 < idx div 2 \<and> qcmp q e (r ! (idx div 2)) < 0")
    case True
    note step = sift_up_step [OF less.prems(4,5) conjunct1 [OF True] less.prems(1,2) conjunct2 [OF True]]
    have "idx div 2 < idx" "idx div 2 \<le> n" using less.prems(3,4) by simp_all
    with less.IH [OF this(1) step] less.prems True show ?thesis
      by (simp add: insert_at_loop.simps [of q r c e idx] Let_def)
  next
    case False
    have "heap_but q (r[idx := e]) n 0"
      unfolding heap_but_def
    proof (intro allI impI, elim conjE)
      fix j assume j: "2 \<le> j" "j \<le> n" "j \<noteq> 0"
      show "qcmp q (r[idx := e] ! (j div 2)) (r[idx := e] ! j) \<le> 0"
      proof (cases "j = idx")
        case True
        with False j have "\<not> qcmp q e (r ! (idx div 2)) < 0" by auto
        with True j less.prems show ?thesis
          by (auto simp: nth_list_update cmp_le_swap)
      next
        case False
        then show ?thesis using heap_butD [OF less.prems(1) j(1,2)] by simp
      qed
    qed
    moreover have "fst (insert_at_loop q r c e idx) = r[idx := e]"
      using False by (subst insert_at_loop.simps) (auto simp: Let_def)
    ultimately show ?thesis by simp
  qed
qed

lemma next_child_least:
  assumes "0 < idx" "j div 2 = idx" "j \<le> elements q"
  shows "qcmp q (r ! next_child q r idx) (r ! j) \<le> 0"
proof -
  have "j = 2 * idx \<or> j = 2 * idx + 1" using assms(2) by linarith
  then show ?thesis
    using assms(3) cmp_le_swap cmp_total [of "r ! (2 * idx)" "r ! (2 * idx + 1)"]
    by (auto simp: next_child_def Let_def mult_2 not_less)
qed

text \<open>
  The array is in order below position \<open>i\<close>, but for the children of the hole \<open>h\<close>, which are
  in order with the parent of the hole.
\<close>

definition below :: "nat list \<Rightarrow> nat \<Rightarrow> nat \<Rightarrow> bool" where
  "below r i h \<longleftrightarrow>
     (\<forall>j. 2 \<le> j \<and> j \<le> elements q \<and> i \<le> j div 2 \<and> j div 2 \<noteq> h \<longrightarrow> qcmp q (r ! (j div 2)) (r ! j) \<le> 0)
     \<and> (\<forall>j. j \<le> elements q \<and> j div 2 = h \<and> 0 < h \<and> i \<le> h div 2 \<longrightarrow> qcmp q (r ! (h div 2)) (r ! j) \<le> 0)"

lemma below_step:
  assumes b: "below (r[idx := e]) i idx" and i: "1 \<le> i" "i \<le> idx" and n: "elements q < length r"
    and half: "idx \<le> elements q div 2" and lt: "qcmp q (r ! k) e < 0" and k: "k = next_child q r idx"
  shows "below (r[idx := r ! k, k := e]) i k"
proof -
  have kr: "k div 2 = idx" "k \<le> elements q" "idx < k"
    using next_child_range [of idx q r] i half k by auto
  have nth: "r[idx := r ! k, k := e] ! j = (if j = k then e else if j = idx then r ! k else r ! j)"
    if "j \<le> elements q" for j
    using that n kr half by (auto simp: nth_list_update)
  have old: "qcmp q (r[idx := e] ! (j div 2)) (r[idx := e] ! j) \<le> 0"
    if "2 \<le> j" "j \<le> elements q" "i \<le> j div 2" "j div 2 \<noteq> idx" for j
    using b that by (simp add: below_def)
  have over: "qcmp q (r ! (idx div 2)) (r ! k) \<le> 0" if "i \<le> idx div 2"
  proof -
    have "idx div 2 \<noteq> idx" "k \<noteq> idx" using i kr by auto
    then show ?thesis using b that kr i by (auto simp: below_def)
  qed
  have "qcmp q (r[idx := r ! k, k := e] ! (j div 2)) (r[idx := r ! k, k := e] ! j) \<le> 0"
    if j: "2 \<le> j" "j \<le> elements q" "i \<le> j div 2" "j div 2 \<noteq> k" for j
  proof -
    have d: "j div 2 \<le> elements q" using j by linarith
    consider "j div 2 = idx" | "j div 2 \<noteq> idx" "j = idx" | "j div 2 \<noteq> idx" "j \<noteq> idx" by blast
    then show ?thesis
    proof cases
      case 1
      then show ?thesis
        using nth [OF d] nth [OF j(2)] lt kr next_child_least [of idx j r] i j k by auto
    next
      case 2
      then show ?thesis using nth [OF d] nth [OF j(2)] over kr j i by auto
    next
      case 3
      then have "j \<noteq> k" using kr by auto
      with 3 old [OF j(1-3)] show ?thesis using nth [OF d] nth [OF j(2)] j n by simp
    qed
  qed
  moreover have "qcmp q (r[idx := r ! k, k := e] ! (k div 2)) (r[idx := r ! k, k := e] ! j) \<le> 0"
    if j: "j \<le> elements q" "j div 2 = k" for j
  proof -
    have "2 \<le> j" "j \<noteq> k" "j \<noteq> idx" "j div 2 \<noteq> idx" using j kr i by auto
    with old [of j] j i kr n nth [of j] nth [of idx] half show ?thesis by auto
  qed
  ultimately show ?thesis by (auto simp: below_def)
qed

lemma below_fill:
  assumes b: "below r i h" and "\<And>j. j div 2 = h \<Longrightarrow> j \<le> elements q \<Longrightarrow> qcmp q (r ! h) (r ! j) \<le> 0"
  shows "below r i 0"
  using assms unfolding below_def by auto

lemma downheap_loop_below:
  assumes "below (r[idx := e]) i idx" "1 \<le> i" "i \<le> idx" "idx \<le> elements q" "elements q < length r"
  shows "below (fst (downheap_loop q r c e idx)) i 0"
  using assms
proof (induction "elements q - idx" arbitrary: r c idx rule: less_induct)
  case less
  let ?k = "next_child q r idx"
  show ?case
  proof (cases "idx \<le> elements q div 2 \<and> qcmp q (r ! ?k) e < 0")
    case True
    then have kr: "?k \<le> elements q" "idx < ?k"
      using next_child_range [of idx q r] less.prems by auto
    have "below (r[idx := r ! ?k, ?k := e]) i ?k"
      using below_step [OF less.prems(1,2,3,5) conjunct1 [OF True] conjunct2 [OF True] refl] .
    moreover have "downheap_loop q r c e idx =
        downheap_loop q (r[idx := r ! ?k]) (store_pos q c (r ! ?k) idx) e ?k"
      using True less.prems by (subst downheap_loop.simps) (simp add: Let_def)
    ultimately show ?thesis
      using less.hyps [of ?k "r[idx := r ! ?k]"] kr less.prems by simp
  next
    case False
    have "qcmp q (r[idx := e] ! idx) (r[idx := e] ! j) \<le> 0" if j: "j div 2 = idx" "j \<le> elements q" for j
    proof -
      have "idx \<le> elements q div 2" using j by auto
      with False have "qcmp q e (r ! ?k) \<le> 0" by (simp add: cmp_le_swap)
      then have "qcmp q e (r ! j) \<le> 0"
        using next_child_least [of idx j r] j less.prems by (auto intro: cmp_trans)
      moreover have "j \<noteq> idx" using j less.prems by auto
      ultimately show ?thesis using less.prems by simp
    qed
    then have "below (r[idx := e]) i 0" by (rule below_fill [OF less.prems(1)])
    moreover have "fst (downheap_loop q r c e idx) = r[idx := e]"
      using False by (subst downheap_loop.simps) (auto simp: Let_def)
    ultimately show ?thesis by simp
  qed
qed

text \<open>The array is in order but for the links of the hole \<open>h\<close> to its parent and its children.\<close>

definition around :: "nat list \<Rightarrow> nat \<Rightarrow> bool" where
  "around r h \<longleftrightarrow>
     (\<forall>j. 2 \<le> j \<and> j \<le> elements q \<and> j \<noteq> h \<and> j div 2 \<noteq> h \<longrightarrow> qcmp q (r ! (j div 2)) (r ! j) \<le> 0)
     \<and> skips q r (elements q) h"

lemma around_step:
  assumes b: "around (r[idx := e]) idx" and i: "1 \<le> idx" and n: "elements q < length r"
    and half: "idx \<le> elements q div 2" and k: "k = next_child q r idx"
  shows "around (r[idx := r ! k, k := e]) k"
proof -
  have kr: "k div 2 = idx" "k \<le> elements q" "idx < k"
    using next_child_range [of idx q r] i half k by auto
  have nth: "r[idx := r ! k, k := e] ! j = (if j = k then e else if j = idx then r ! k else r ! j)"
    if "j \<le> elements q" for j
    using that n kr half by (auto simp: nth_list_update)
  have old: "qcmp q (r ! (j div 2)) (r ! j) \<le> 0"
    if "2 \<le> j" "j \<le> elements q" "j \<noteq> idx" "j div 2 \<noteq> idx" for j
    using b that n by (simp add: around_def)
  have over: "qcmp q (r ! (idx div 2)) (r ! k) \<le> 0" if "2 \<le> idx"
  proof -
    have "idx div 2 \<noteq> idx" "k \<noteq> idx" using i kr by auto
    then show ?thesis using b that kr i by (auto simp: around_def skips_def)
  qed
  have "qcmp q (r[idx := r ! k, k := e] ! (j div 2)) (r[idx := r ! k, k := e] ! j) \<le> 0"
    if j: "2 \<le> j" "j \<le> elements q" "j \<noteq> k" "j div 2 \<noteq> k" for j
  proof -
    have d: "j div 2 \<le> elements q" using j by linarith
    consider "j div 2 = idx" | "j div 2 \<noteq> idx" "j = idx" | "j div 2 \<noteq> idx" "j \<noteq> idx" by blast
    then show ?thesis
    proof cases
      case 1
      then show ?thesis
        using nth [OF d] nth [OF j(2)] kr next_child_least [of idx j r] i j k by auto
    next
      case 2
      then show ?thesis using nth [OF d] nth [OF j(2)] over kr j i by auto
    next
      case 3
      with old [OF j(1,2)] show ?thesis using nth [OF d] nth [OF j(2)] j by simp
    qed
  qed
  moreover have "qcmp q (r[idx := r ! k, k := e] ! (k div 2)) (r[idx := r ! k, k := e] ! j) \<le> 0"
    if j: "j div 2 = k" "j \<le> elements q" for j
  proof -
    have "2 \<le> j" "j \<noteq> k" "j \<noteq> idx" "j div 2 \<noteq> idx" using j kr i by auto
    with old [of j] j i kr nth [of j] nth [of idx] half show ?thesis by auto
  qed
  ultimately show ?thesis by (auto simp: around_def skips_def)
qed

lemma queue_replace_loop_heap:
  assumes "around (r[idx := e]) idx" "1 \<le> idx" "idx \<le> elements q" "elements q < length r"
    and "queue_replace_loop q r c e first idx = (r', c', idx')"
  shows "heap_but q (r'[idx' := e]) (elements q) idx' \<and> skips q (r'[idx' := e]) (elements q) idx'"
  using assms
proof (induction "elements q - idx" arbitrary: r c first idx rule: less_induct)
  case less
  let ?k = "next_child q r idx" and ?n = "elements q"
  consider "\<not> idx \<le> ?n div 2" | "idx \<le> ?n div 2" "first" "0 \<le> qcmp q (r ! ?k) e"
    | "idx \<le> ?n div 2" "\<not> (first \<and> 0 \<le> qcmp q (r ! ?k) e)" by blast
  then show ?case
  proof cases
    case 1
    then have "r' = r" "idx' = idx"
      using less.prems(5) by (subst (asm) queue_replace_loop.simps, simp)+
    moreover have ne: "j div 2 \<noteq> idx" "r[idx := e] ! (j div 2) = r ! (j div 2)" if "j \<le> ?n" for j
      using that 1 by (auto intro: nth_list_update_neq)
    ultimately show ?thesis using less.prems(1) by (auto simp: around_def heap_but_def ne)
  next
    case 2
    then have r': "r' = r[idx := e]" "idx' = idx"
      using less.prems(2,5) by (subst (asm) queue_replace_loop.simps, simp add: Let_def)+
    have ch: "qcmp q (r[idx := e] ! idx) (r[idx := e] ! j) \<le> 0" if j: "j div 2 = idx" "j \<le> ?n" for j
    proof -
      have "qcmp q e (r ! ?k) \<le> 0" using 2(3) by (simp add: cmp_le_swap)
      then have "qcmp q e (r ! j) \<le> 0"
        using next_child_least [of idx j r] j less.prems(2) by (auto intro: cmp_trans)
      moreover have "j \<noteq> idx" using j less.prems by auto
      ultimately show ?thesis using less.prems by simp
    qed
    have "heap_but q (r[idx := e]) ?n idx"
      unfolding heap_but_def
    proof (intro allI impI, elim conjE)
      fix j assume "2 \<le> j" "j \<le> ?n" "j \<noteq> idx"
      then show "qcmp q (r[idx := e] ! (j div 2)) (r[idx := e] ! j) \<le> 0"
        using less.prems(1) ch [of j] by (cases "j div 2 = idx") (simp_all add: around_def)
    qed
    with less.prems(1) r' show ?thesis by (simp add: around_def)
  next
    case 3
    then have kr: "?k \<le> ?n" "idx < ?k"
      using next_child_range [of idx q r] less.prems by auto
    have "around (r[idx := r ! ?k, ?k := e]) ?k"
      using around_step [OF less.prems(1,2,4) 3(1) refl] .
    moreover have "queue_replace_loop q r c e first idx =
        queue_replace_loop q (r[idx := r ! ?k]) (store_pos q c (r ! ?k) idx) e False ?k"
      using 3 less.prems by (subst queue_replace_loop.simps) (auto simp: Let_def)
    ultimately show ?thesis
      using less.hyps [of ?k "r[idx := r ! ?k]"] kr less.prems by simp
  qed
qed

end

section \<open>The operations\<close>

lemma qcmp_upd [simp]:
  "qcmp (q\<lparr>root := r\<rparr>) = qcmp q" "qcmp (q\<lparr>elements := n\<rparr>) = qcmp q"
  "qcmp (q\<lparr>max_elements := m\<rparr>) = qcmp q"
  by (simp_all add: qcmp_def fun_eq_iff)

lemma heap_but_upd [simp]:
  "heap_but (q\<lparr>root := r\<rparr>) = heap_but q" "heap_but (q\<lparr>elements := m\<rparr>) = heap_but q"
  "heap_but (q\<lparr>max_elements := m\<rparr>) = heap_but q"
  by (simp_all add: heap_but_def fun_eq_iff)

lemma pos_but_upd [simp]:
  "pos_but (q\<lparr>root := r\<rparr>) = pos_but q" "pos_but (q\<lparr>elements := m\<rparr>) = pos_but q"
  by (simp_all add: pos_but_def fun_eq_iff)

text \<open>
  \<open>queue_inv\<close>: the array has its size, the comparison is usable and the elements are in heap
  order.  \<open>pos_inv\<close>: no element is stored twice and each carries its own position.
\<close>

definition queue_inv :: "queue \<Rightarrow> bool" where
  "queue_inv q \<longleftrightarrow> length (root q) = max_elements q + 1 \<and> elements q \<le> max_elements q
     \<and> comparator (qcmp q) \<and> heap q"

definition pos_inv :: "queue \<Rightarrow> cells \<Rightarrow> bool" where
  "pos_inv q c \<longleftrightarrow> distinct (elems (root q) (elements q)) \<and> pos_but q (root q) c (elements q) 0"

definition content :: "queue \<Rightarrow> nat multiset" where
  "content q = mset (elems (root q) (elements q))"

lemma queue_invD:
  assumes "queue_inv q"
  shows "elements q < length (root q)" "queue_order q" "heap_but q (root q) (elements q) 0"
  using assms by (auto simp: queue_inv_def heap_def queue_order_def)

lemma elems_Suc_update:
  assumes "Suc n < length r"
  shows "elems (r[Suc n := e]) (Suc n) = elems r n @ [e]"
  using assms by (simp add: elems_def take_Suc_conv_app_nth drop_update_swap)

lemma queue_insert_spec:
  assumes q: "queue_inv q" and room: "elements q < max_elements q"
    and res: "queue_insert q c e = (q', c')"
  shows "queue_inv q'" "content q' = add_mset e (content q)" "qcmp q' = qcmp q"
    and "elements q' = elements q + 1" "max_elements q' = max_elements q"
    and "pos_inv q c \<Longrightarrow> e \<notin># content q \<Longrightarrow> pos_inv q' c'"
proof -
  let ?n = "Suc (elements q)" and ?q = "q\<lparr>elements := Suc (elements q)\<rparr>" and ?r = "root q"
  define L where "L = insert_at_loop ?q ?r c e ?n"
  have q': "q' = ?q\<lparr>root := fst L\<rparr>" and c': "c' = snd L"
    using res by (auto simp: queue_insert_def insert_at_def L_def split: prod.splits)
  have len: "?n < length ?r" using q room by (simp add: queue_inv_def)
  have or: "queue_order ?q" using queue_invD(2) [OF q] by (simp add: queue_order_def)
  have up: "?r[?n := e] ! j = ?r ! j" if "j \<le> elements q" for j using that by simp
  have "heap_but ?q (?r[?n := e]) ?n ?n"
    using queue_invD(3) [OF q] by (auto simp: heap_but_def nth_list_update)
  moreover have "skips ?q (?r[?n := e]) ?n ?n"
    by (auto simp: skips_def)
  ultimately have "heap_but ?q (fst L) ?n 0"
    unfolding L_def using len by (intro queue_order.insert_at_loop_heap [OF or]) auto
  then show "queue_inv q'"
    using q room q' by (simp add: queue_inv_def heap_def L_def)
  have cont: "mset (elems (fst L) ?n) = add_mset e (content q)"
    unfolding L_def using len
    by (subst insert_at_loop_elems) (auto simp: elems_Suc_update content_def)
  then show "content q' = add_mset e (content q)" by (simp add: content_def q')
  show "qcmp q' = qcmp q" "elements q' = elements q + 1" "max_elements q' = max_elements q"
    by (simp_all add: q')
  assume p: "pos_inv q c" "e \<notin># content q"
  then have d: "distinct (elems (?r[?n := e]) ?n)"
    using len by (simp add: pos_inv_def elems_Suc_update content_def)
  have "pos_but ?q (?r[?n := e]) c ?n ?n"
    using p(1) by (auto simp: pos_inv_def pos_but_def le_Suc_eq)
  then have "pos_but ?q (fst L) (snd L) ?n 0"
    unfolding L_def using d len by (intro insert_at_loop_pos) auto
  moreover have "distinct (elems (fst L) ?n)"
    unfolding L_def using d len
    by (subst mset_eq_imp_distinct_iff [OF insert_at_loop_elems]) auto
  ultimately show "pos_inv q' c'" by (simp add: pos_inv_def q' c')
qed

lemma queue_replace_spec:
  assumes len: "elements q < length (root q)" and or: "queue_order q"
    and idx: "1 \<le> idx" "idx \<le> elements q" and ar: "queue_order.around q (root q) idx"
    and res: "queue_replace q c idx = (q', c')"
  shows "heap q'" "content q' = content q" "q' = q\<lparr>root := root q'\<rparr>" "length (root q') = length (root q)"
    and "distinct (elems (root q) (elements q)) \<Longrightarrow> pos_but q (root q) c (elements q) idx \<Longrightarrow> pos_inv q' c'"
proof -
  let ?n = "elements q" and ?e = "root q ! idx"
  obtain r1 c1 i where loop: "queue_replace_loop q (root q) c ?e True idx = (r1, c1, i)"
    by (metis surj_pair)
  have mv: "moved q ?e (root q, c, idx) (r1, c1, i)"
    using queue_replace_loop_moved [OF idx len] loop by metis
  then have i: "1 \<le> i" "i \<le> ?n" "?n < length r1" "length r1 = length (root q)"
    and ms: "mset (elems (r1[i := ?e]) ?n) = content q"
    using len by (auto simp: moved_def content_def)
  define L where "L = insert_at_loop (q\<lparr>root := r1\<rparr>) r1 c1 ?e i"
  have q': "q' = q\<lparr>root := fst L\<rparr>" and c': "c' = snd L"
    using res loop by (auto simp: queue_replace_def insert_at_def L_def split: prod.splits)
  have "heap_but q (r1[i := ?e]) ?n i \<and> skips q (r1[i := ?e]) ?n i"
    by (rule queue_order.queue_replace_loop_heap [OF or _ idx len loop]) (simp add: ar)
  then have "heap_but (q\<lparr>root := r1\<rparr>) (fst L) ?n 0"
    unfolding L_def using i or
    by (intro queue_order.insert_at_loop_heap) (auto simp: queue_order_def skips_def)
  then show "heap q'" by (simp add: heap_def q')
  have cont: "mset (elems (fst L) ?n) = content q"
    unfolding L_def using i ms by (simp add: insert_at_loop_elems)
  then show "content q' = content q" by (simp add: content_def q')
  show "q' = q\<lparr>root := root q'\<rparr>" by (simp add: q')
  show "length (root q') = length (root q)" using i by (simp add: q' L_def)
  assume d: "distinct (elems (root q) ?n)" and p: "pos_but q (root q) c ?n idx"
  then have "pos_but (q\<lparr>root := r1\<rparr>) (r1[i := ?e]) c1 ?n i"
    using mv by (simp add: moved_def)
  moreover have "distinct (elems (r1[i := ?e]) ?n)"
    using d ms by (metis content_def mset_eq_imp_distinct_iff)
  ultimately have "pos_but (q\<lparr>root := r1\<rparr>) (fst L) (snd L) ?n 0"
    unfolding L_def using i by (intro insert_at_loop_pos) auto
  moreover have "distinct (elems (fst L) ?n)"
    using d cont by (metis content_def mset_eq_imp_distinct_iff)
  ultimately show "pos_inv q' c'" by (simp add: pos_inv_def q' c')
qed

lemma elems_remove:
  assumes "1 \<le> i" "i \<le> Suc n" "Suc n < length r"
  shows "add_mset (r ! i) (mset (elems (r[i := r ! Suc n]) n)) = mset (elems r (Suc n))"
proof (cases "i = Suc n")
  case True
  then show ?thesis
    using assms by (simp add: elems_def take_Suc_conv_app_nth)
next
  case False
  then have i: "i \<le> n" "i - 1 < length (elems r n)" using assms by auto
  have "elems (r[i := r ! Suc n]) n = (elems r n)[i - 1 := r ! Suc n]"
    using assms by (simp add: elems_def drop_update_swap take_update_swap)
  then have "mset (elems (r[i := r ! Suc n]) n) = add_mset (r ! Suc n) (mset (elems r n) - {#r ! i#})"
    using i assms by (simp add: mset_update nth_elems)
  moreover have "r ! i \<in># mset (elems r n)"
    using nth_mem [OF i(2)] i assms by (simp add: nth_elems)
  ultimately show ?thesis
    using assms by (simp add: elems_def take_Suc_conv_app_nth)
qed

lemma queue_replace_last:
  assumes q: "queue_order q" and n: "elements q = n" "Suc n < length (root q)"
    and hb: "heap_but q (root q) (Suc n) 0"
  shows "queue_replace q c (Suc n) = (q, store_pos q c (root q ! Suc n) (Suc n))"
proof -
  have cmp: "comparator (qcmp q)" using q by (simp add: queue_order_def)
  have "\<not> qcmp q (root q ! Suc n) (root q ! (Suc n div 2)) < 0" if "0 < Suc n div 2"
  proof -
    have "2 \<le> Suc n" using that by presburger
    then show ?thesis
      using heap_butD [OF hb, of "Suc n"] comparator.cmp_swap [OF cmp, of "root q ! Suc n"] by simp
  qed
  then have "insert_at_loop q (root q) c (root q ! Suc n) (Suc n) =
      (root q, store_pos q c (root q ! Suc n) (Suc n))"
    by (subst insert_at_loop.simps) (auto simp: Let_def)
  moreover have "queue_replace_loop q (root q) c (root q ! Suc n) True (Suc n) = (root q, c, Suc n)"
  proof -
    have "\<not> Suc n \<le> elements q div 2" using n(1) by simp
    then show ?thesis by (subst queue_replace_loop.simps) simp
  qed
  ultimately show ?thesis
    by (simp add: queue_replace_def insert_at_def)
qed

lemma queue_remove_facts:
  assumes q: "queue_inv q" and idx: "1 \<le> idx" "idx \<le> Suc n" and n: "elements q = Suc n"
    and q1: "q1 = q\<lparr>root := (root q)[idx := root q ! Suc n], elements := n\<rparr>"
    and rep: "queue_replace q1 c idx = (q', c')"
  shows "heap q'" "content q' = mset (elems (root q1) n)" "q' = q1\<lparr>root := root q'\<rparr>"
    and "length (root q') = length (root q)" "pos_inv q c \<Longrightarrow> pos_inv q' c'"
proof -
  have len: "Suc n < length (root q)" using queue_invD(1) [OF q] n by simp
  have hb: "qcmp q (root q ! (j div 2)) (root q ! j) \<le> 0" if "2 \<le> j" "j \<le> Suc n" for j
    using heap_butD [OF queue_invD(3) [OF q], of j] that n by simp
  have or1: "queue_order q1"
    using queue_invD(2) [OF q] by (simp add: queue_order_def q1)
  have ms: "mset (elems (root q) (Suc n)) = mset (root q ! idx # elems (root q1) n)"
    using elems_remove [of idx n "root q"] idx len n by (simp add: q1)
  have keep: "pos_inv q c \<Longrightarrow> pos_but q1 (root q1) c n idx"
    and dist: "pos_inv q c \<Longrightarrow> distinct (root q ! idx # elems (root q1) n)"
    using mset_eq_imp_distinct_iff [OF ms] by (auto simp: pos_inv_def n) (auto simp: q1 pos_but_def)
  consider "idx = Suc n" | "idx \<le> n" using idx by linarith
  then have "heap q' \<and> content q' = mset (elems (root q1) n) \<and> q' = q1\<lparr>root := root q'\<rparr>
    \<and> length (root q') = length (root q) \<and> (pos_inv q c \<longrightarrow> pos_inv q' c')"
  proof cases
    case 1
    then have r: "root q1 = root q" by (simp add: q1)
    have "heap_but q1 (root q1) (Suc n) 0" using hb by (simp add: r) (simp add: heap_but_def q1)
    then have "queue_replace q1 c (Suc n) = (q1, store_pos q1 c (root q1 ! Suc n) (Suc n))"
      using or1 len by (intro queue_replace_last) (simp_all add: q1)
    with rep 1 r have *: "q' = q1" "c' = store_pos q1 c (root q ! Suc n) (Suc n)" by auto
    have "heap q1" using hb by (simp add: heap_def r) (simp add: heap_but_def q1)
    moreover have "pos_inv q1 c'" if "pos_inv q c"
    proof -
      have "root q ! j \<noteq> root q ! Suc n" if "1 \<le> j" "j \<le> n" for j
        using distinct_elems_nth [of "root q" "Suc n" j "Suc n"] \<open>pos_inv q c\<close> that len n
        by (auto simp: pos_inv_def)
      then show ?thesis
        using keep [OF that] dist [OF that] 1 *(2)
        by (auto simp: pos_inv_def pos_but_def store_pos_def q1 r [unfolded q1])
    qed
    ultimately show ?thesis using * r by (auto simp: content_def q1)
  next
    case 2
    have nth: "root q1 ! j = root q ! j" if "j \<noteq> idx" for j using that by (simp add: q1)
    have "qcmp q (root q ! (idx div 2)) (root q ! j) \<le> 0" if "2 \<le> idx" "j div 2 = idx" "j \<le> n" for j
    proof -
      have "qcmp q (root q ! (idx div 2)) (root q ! idx) \<le> 0" using hb [of idx] that 2 by simp
      moreover have "qcmp q (root q ! idx) (root q ! j) \<le> 0" using hb [of j] that by auto
      ultimately show ?thesis
        using comparator.cmp_trans queue_invD(2) [OF q] unfolding queue_order_def by metis
    qed
    then have "queue_order.around q1 (root q1) idx"
      using hb nth idx unfolding queue_order.around_def [OF or1]
      by (auto simp: skips_def q1)
    from queue_replace_spec [OF _ or1 idx(1) _ this rep] keep dist 2 len
    show ?thesis by (auto simp: q1 content_def)
  qed
  then show "heap q'" "content q' = mset (elems (root q1) n)" "q' = q1\<lparr>root := root q'\<rparr>"
    "length (root q') = length (root q)" "pos_inv q c \<Longrightarrow> pos_inv q' c'" by blast+
qed
lemma queue_remove_spec:
  assumes q: "queue_inv q" and idx: "1 \<le> idx" "idx \<le> elements q"
    and res: "queue_remove q c idx = (x, q', c')"
  shows "x = root q ! idx" "queue_inv q'" "content q = add_mset x (content q')" "qcmp q' = qcmp q"
    and "elements q' = elements q - 1" "max_elements q' = max_elements q" "pos_inv q c \<Longrightarrow> pos_inv q' c'"
proof -
  obtain n where n: "elements q = Suc n" using idx by (cases "elements q") auto
  define q1 where "q1 = q\<lparr>root := (root q)[idx := root q ! Suc n], elements := n\<rparr>"
  have rep: "queue_replace q1 c idx = (q', c')" and x: "x = root q ! idx"
    using res by (auto simp: queue_remove_def q1_def n Let_def)
  note f = queue_remove_facts [OF q idx(1) idx(2) [unfolded n] n q1_def rep]
  have len: "Suc n < length (root q)" using queue_invD(1) [OF q] n by simp
  show "x = root q ! idx" by (rule x)
  show "content q = add_mset x (content q')"
    using elems_remove [of idx n "root q"] idx len n x f(2) by (simp add: q1_def content_def)
  obtain r where "q' = q1\<lparr>root := r\<rparr>" using f(3) by blast
  then have eq: "qcmp q' = qcmp q" "elements q' = n" "max_elements q' = max_elements q"
    by (simp_all add: q1_def)
  then show "qcmp q' = qcmp q" "elements q' = elements q - 1" "max_elements q' = max_elements q"
    by (simp_all add: n)
  show "queue_inv q'" using q f(1,4) eq n by (simp add: queue_inv_def)
  show "pos_inv q c \<Longrightarrow> pos_inv q' c'" by (rule f(5))
qed

lemma queue_top_least:
  assumes q: "queue_inv q" and x: "x \<in># content q"
  shows "qcmp q (queue_top q) x \<le> 0"
proof -
  have c: "comparator (qcmp q)" using q by (simp add: queue_inv_def)
  have "qcmp q (root q ! 1) (root q ! j) \<le> 0" if "1 \<le> j" "j \<le> elements q" for j
    using that
  proof (induction j rule: less_induct)
    case (less j)
    show ?case
    proof (cases "j = 1")
      case True
      then show ?thesis using comparator.cmp_refl [OF c] by simp
    next
      case False
      then have "1 \<le> j div 2" "j div 2 < j" "j div 2 \<le> elements q" "2 \<le> j" using less.prems by auto
      then show ?thesis
        using less.IH [of "j div 2"] heap_butD [OF queue_invD(3) [OF q], of j] less.prems
        by (auto intro: comparator.cmp_trans [OF c])
    qed
  qed
  moreover obtain j where "j < elements q" "x = root q ! Suc j"
    using x queue_invD(1) [OF q] by (auto simp: content_def in_set_conv_nth nth_elems)
  ultimately show ?thesis by (simp add: queue_top_def)
qed

lemma content_empty_iff: "queue_inv q \<Longrightarrow> content q = {#} \<longleftrightarrow> elements q = 0"
  using queue_invD(1) [of q] by (auto simp: content_def elems_def)

lemma downheap_spec:
  assumes len: "elements q < length (root q)" and or: "queue_order q"
    and i: "1 \<le> i" "i \<le> elements q" and b: "queue_order.below q (root q) (Suc i) 0"
    and res: "downheap q c i = (q', c')"
  shows "queue_order.below q (root q') i 0" "content q' = content q" "q' = q\<lparr>root := root q'\<rparr>"
    and "length (root q') = length (root q)"
    and "distinct (elems (root q) (elements q)) \<Longrightarrow> pos_but q (root q) c (elements q) i \<Longrightarrow> pos_inv q' c'"
proof -
  define L where "L = downheap_loop q (root q) c (root q ! i) i"
  have q': "q' = q\<lparr>root := fst L\<rparr>" and c': "c' = snd L"
    using res by (auto simp: downheap_def L_def split: prod.splits)
  have "queue_order.below q ((root q)[i := root q ! i]) i i"
    using b i unfolding queue_order.below_def [OF or] by auto
  then show "queue_order.below q (root q') i 0"
    using queue_order.downheap_loop_below [OF or] i len by (simp add: q' L_def)
  have ms: "mset (elems (fst L) (elements q)) = content q"
    using i len by (simp add: L_def downheap_loop_elems content_def)
  then show "content q' = content q" by (simp add: content_def q')
  show "q' = q\<lparr>root := root q'\<rparr>" "length (root q') = length (root q)" by (simp_all add: q' L_def)
  assume d: "distinct (elems (root q) (elements q))" and p: "pos_but q (root q) c (elements q) i"
  have "pos_but q (fst L) (snd L) (elements q) 0"
    unfolding L_def using d p i len by (intro downheap_loop_pos) auto
  moreover have "distinct (elems (fst L) (elements q))"
    using d ms by (metis content_def mset_eq_imp_distinct_iff)
  ultimately show "pos_inv q' c'" by (simp add: pos_inv_def q' c')
qed

lemma queue_fix_loop_spec:
  assumes "elements q < length (root q)" "queue_order q" "i \<le> elements q"
    and "queue_order.below q (root q) (Suc i) 0" and "queue_fix_loop q c i = (q', c')"
  shows "queue_order.below q (root q') 1 0 \<and> content q' = content q \<and> q' = q\<lparr>root := root q'\<rparr>
    \<and> length (root q') = length (root q) \<and> (pos_inv q c \<longrightarrow> pos_inv q' c')"
  using assms
proof (induction i arbitrary: q c)
  case 0
  then show ?case by simp
next
  case (Suc i)
  obtain q1 c1 where d: "downheap q c (Suc i) = (q1, c1)" by fastforce
  note f = downheap_spec [OF Suc.prems(1,2) _ Suc.prems(3,4) d]
  obtain r where q1: "q1 = q\<lparr>root := r\<rparr>" using f(3) by auto
  have or1: "queue_order q1" using Suc.prems(2) by (simp add: queue_order_def q1)
  have same: "queue_order.below q1 = queue_order.below q"
    using Suc.prems(2) or1 by (simp add: fun_eq_iff queue_order.below_def q1)
  have "queue_order.below q1 (root q') 1 0 \<and> content q' = content q1 \<and> q' = q1\<lparr>root := root q'\<rparr>
    \<and> length (root q') = length (root q1) \<and> (pos_inv q1 c1 \<longrightarrow> pos_inv q' c')"
    using Suc.prems(3,5) f(1,4) Suc.prems(1) d same or1
    by (intro Suc.IH) (auto simp: q1)
  moreover have "pos_inv q1 c1" if "pos_inv q c"
    using f(5) that by (auto simp: pos_inv_def pos_but_def)
  ultimately show ?case using f(2,4) same by (auto simp: q1)
qed

lemma queue_fix_spec:
  assumes len: "elements q < length (root q)" and or: "queue_order q" and res: "queue_fix q c = (q', c')"
  shows "heap q' \<and> content q' = content q \<and> q' = q\<lparr>root := root q'\<rparr>
    \<and> length (root q') = length (root q) \<and> (pos_inv q c \<longrightarrow> pos_inv q' c')"
proof -
  have "queue_order.below q (root q) (Suc (elements q div 2)) 0"
    unfolding queue_order.below_def [OF or] by auto
  then have f: "queue_order.below q (root q') 1 0 \<and> content q' = content q \<and> q' = q\<lparr>root := root q'\<rparr>
    \<and> length (root q') = length (root q) \<and> (pos_inv q c \<longrightarrow> pos_inv q' c')"
    using res len or by (intro queue_fix_loop_spec) (auto simp: queue_fix_def)
  then obtain r where q': "q' = q\<lparr>root := r\<rparr>" by auto
  moreover have "1 \<le> j div 2" if "2 \<le> j" for j :: nat using that by linarith
  ultimately have "heap q'"
    using f unfolding queue_order.below_def [OF or] by (auto simp: heap_def heap_but_def)
  with f show ?thesis by blast
qed

lemma resize_queue_spec:
  assumes q: "queue_inv q" and res: "resize_queue ok junk q m = (err, q')"
  shows "queue_inv q'" "err = 0 \<Longrightarrow> max_elements q' = m" "qcmp q' = qcmp q"
    and "elements q \<le> m \<Longrightarrow> content q' = content q \<and> elements q' = elements q"
    and "pos_inv q c \<Longrightarrow> pos_inv q' c" "auto_extent q' = auto_extent q" "err \<noteq> 0 \<Longrightarrow> q' = q"
proof -
  let ?r = "realloc_root junk (root q) (m + 1)"
  have lenr: "length ?r = m + 1" by (simp add: realloc_root_def)
  have nth: "?r ! j = root q ! j" if "j < length (root q)" "j \<le> m" for j
    using that by (simp add: realloc_root_def del: upt_Suc)
  have el: "elems ?r n = elems (root q) n" if "n < length (root q)" "n \<le> m" for n
    using that nth lenr by (intro nth_equalityI) (simp_all add: nth_elems)
  have pre: "elems (root q) (min (elements q) m) = take m (elems (root q) (elements q))"
    by (simp add: elems_def min.commute)
  have len: "elements q < length (root q)" "comparator (qcmp q)" by (use queue_invD [OF q] in \<open>auto simp: queue_order_def\<close>)
  note hb = heap_butD [OF queue_invD(3) [OF q]]
  have cases: "q' = q \<and> (err \<noteq> 0 \<or> max_elements q = m) \<or> err = 0 \<and>
      q' = q\<lparr>elements := min (elements q) m, max_elements := m, root := ?r\<rparr>"
    using res by (auto simp: resize_queue_def split: if_splits)
  then show "queue_inv q'" "err = 0 \<Longrightarrow> max_elements q' = m" "qcmp q' = qcmp q"
    "auto_extent q' = auto_extent q" "err \<noteq> 0 \<Longrightarrow> q' = q"
    using q len hb nth lenr by (auto simp: queue_inv_def heap_def heap_but_def)
  show "elements q \<le> m \<Longrightarrow> content q' = content q \<and> elements q' = elements q"
    using cases el [of "elements q"] len by (auto simp: content_def)
  show "pos_inv q c \<Longrightarrow> pos_inv q' c"
    using cases el [of "min (elements q) m"] len nth pre
    by (auto simp: pos_inv_def pos_but_def distinct_take)
qed

section \<open>The contract of a priority queue\<close>

text \<open>
  What a client may rely on: the element taken from the top is a least one, and taking it
  removes nothing else.  Taking all elements then yields them in order.
\<close>

locale prio_queue =
  fixes inv :: "'s \<Rightarrow> bool"
    and cont :: "'s \<Rightarrow> 'e multiset"
    and order :: "'s \<Rightarrow> 'e \<Rightarrow> 'e \<Rightarrow> int"
    and remove_top :: "'s \<Rightarrow> 'e \<times> 's"
  assumes order_comparator: "inv s \<Longrightarrow> comparator (order s)"
    and remove_top_least: "inv s \<Longrightarrow> cont s \<noteq> {#} \<Longrightarrow> y \<in># cont s \<Longrightarrow> order s (fst (remove_top s)) y \<le> 0"
    and remove_top_cont: "inv s \<Longrightarrow> cont s \<noteq> {#} \<Longrightarrow>
      cont s = add_mset (fst (remove_top s)) (cont (snd (remove_top s)))"
    and remove_top_inv: "inv s \<Longrightarrow> cont s \<noteq> {#} \<Longrightarrow> inv (snd (remove_top s))"
    and remove_top_order: "inv s \<Longrightarrow> cont s \<noteq> {#} \<Longrightarrow> order (snd (remove_top s)) = order s"
begin

fun drain :: "nat \<Rightarrow> 's \<Rightarrow> 'e list" where
  "drain 0 s = []"
| "drain (Suc n) s = fst (remove_top s) # drain n (snd (remove_top s))"

lemma drain_mset: "inv s \<Longrightarrow> n = size (cont s) \<Longrightarrow> mset (drain n s) = cont s"
proof (induction n arbitrary: s)
  case (Suc n)
  then have ne: "cont s \<noteq> {#}" by auto
  have "n = size (cont (snd (remove_top s)))"
    using Suc.prems remove_top_cont [OF Suc.prems(1) ne] by (metis add_right_cancel size_add_mset Suc_eq_plus1)
  with Suc.IH remove_top_inv [OF Suc.prems(1) ne] have "mset (drain n (snd (remove_top s))) = cont (snd (remove_top s))"
    by blast
  then show ?case using remove_top_cont [OF Suc.prems(1) ne] by simp
qed simp

lemma drain_sorted:
  "inv s \<Longrightarrow> n = size (cont s) \<Longrightarrow> sorted_wrt (\<lambda>a b. order s a b \<le> 0) (drain n s)"
proof (induction n arbitrary: s)
  case (Suc n)
  then have ne: "cont s \<noteq> {#}" by auto
  let ?t = "snd (remove_top s)"
  note inv' = remove_top_inv [OF Suc.prems(1) ne] and ct = remove_top_cont [OF Suc.prems(1) ne]
  have n: "n = size (cont ?t)"
    using Suc.prems ct by (metis add_right_cancel size_add_mset Suc_eq_plus1)
  have "set (drain n ?t) = set_mset (cont ?t)"
    using drain_mset [OF inv' n] by (metis set_mset_mset)
  moreover have "set_mset (cont ?t) \<subseteq> set_mset (cont s)"
    using ct by (metis set_mset_add_mset_insert subset_insertI)
  ultimately have "\<forall>y \<in> set (drain n ?t). order s (fst (remove_top s)) y \<le> 0"
    using remove_top_least [OF Suc.prems(1) ne] by blast
  then show ?case
    using Suc.IH [OF inv' n] remove_top_order [OF Suc.prems(1) ne] by simp
qed simp

end

abbreviation remove_top_state :: "queue \<times> cells \<Rightarrow> nat \<times> queue \<times> cells" where
  "remove_top_state s \<equiv> queue_remove_top (fst s) (snd s)"

lemma queue_remove_top_spec:
  assumes "queue_inv q" "content q \<noteq> {#}"
  shows "fst (queue_remove_top q c) = queue_top q" "queue_inv (fst (snd (queue_remove_top q c)))"
    and "content q = add_mset (fst (queue_remove_top q c)) (content (fst (snd (queue_remove_top q c))))"
    and "qcmp (fst (snd (queue_remove_top q c))) = qcmp q"
proof -
  obtain x q' c' where r: "queue_remove q c 1 = (x, q', c')" by (metis surj_pair)
  have "1 \<le> elements q" using assms content_empty_iff [of q] by simp
  note f = queue_remove_spec [OF assms(1) _ this r]
  from f show "fst (queue_remove_top q c) = queue_top q" "queue_inv (fst (snd (queue_remove_top q c)))"
    "content q = add_mset (fst (queue_remove_top q c)) (content (fst (snd (queue_remove_top q c))))"
    "qcmp (fst (snd (queue_remove_top q c))) = qcmp q"
    by (simp_all add: queue_remove_top_def r [unfolded One_nat_def] queue_top_def)
qed

interpretation pq: prio_queue "queue_inv \<circ> fst" "content \<circ> fst" "qcmp \<circ> fst" remove_top_state
proof (rule prio_queue.intro, goal_cases)
  case 1
  then show ?case by (simp add: queue_inv_def)
next
  case 2
  then show ?case by (simp add: queue_remove_top_spec(1) queue_top_least)
next
  case (3 s)
  then show ?case using queue_remove_top_spec(3) [of "fst s" "snd s"] by simp
qed (simp_all add: queue_remove_top_spec(2,4))

section \<open>Properties\<close>

lemma compare_ulong_comparator: "comparator (compare_ulong k arg)"
  by unfold_locales (auto simp: compare_ulong_def Let_def split: if_splits)

interpretation alarm_cmp: comparator "compare_ulong k arg" for k arg
  by (rule compare_ulong_comparator)

text \<open>A queue of three alarms, for the witnesses: keys 30, 10, 20 at addresses 8, 16, 24.\<close>

definition sample_queue :: queue where
  "sample_queue = \<lparr>root = [0, 16, 8, 24, 0], first_cmp_arg = 0, elements = 3, max_elements = 4,
     offset_to_key = 0, offset_to_queue_pos = 5, auto_extent = 2, max_at_top = 1,
     compare = compare_ulong ((\<lambda>_. 0)(8 := 30, 16 := 10, 24 := 20, 32 := 5))\<rparr>"

definition sample_cells :: cells where
  "sample_cells = (\<lambda>_. 0)(20 := 1, 12 := 2, 28 := 3)"

lemma qcmp_comparator:
  assumes "comparator (compare q (first_cmp_arg q))" and "max_at_top q = 1 \<or> max_at_top q = -1"
  shows "comparator (qcmp q)"
proof -
  let ?c = "\<lambda>a b. compare q (first_cmp_arg q) (a + offset_to_key q) (b + offset_to_key q)"
  have "comparator ?c"
    using comparator.cmp_swap [OF assms(1)] comparator.cmp_trans [OF assms(1)] by unfold_locales blast+
  then show ?thesis using comparator_flip [OF _ assms(2)] by (simp add: qcmp_def [abs_def])
qed

text \<open>The queues of the alarm thread: ordered by expiry time, the earliest on top.\<close>

interpretation alarm_queue: queue_order "q\<lparr>compare := compare_ulong k, max_at_top := 1\<rparr>" for q k
  by (rule queue_order.intro, rule qcmp_comparator) (simp_all add: compare_ulong_comparator)

lemmas sample_defs = sample_queue_def sample_cells_def qcmp_def compare_ulong_def

lemma sample_queue_inv: "queue_inv sample_queue" "pos_inv sample_queue sample_cells"
proof -
  have c: "comparator (qcmp sample_queue)"
    by (rule qcmp_comparator) (simp_all add: sample_queue_def compare_ulong_comparator)
  have "heap_but sample_queue (root sample_queue) 3 0"
    unfolding heap_but_def
  proof (intro allI impI, elim conjE)
    fix j :: nat
    assume "2 \<le> j" "j \<le> 3"
    then consider "j = 2" | "j = 3" by linarith
    then show "qcmp sample_queue (root sample_queue ! (j div 2)) (root sample_queue ! j) \<le> 0"
      by cases (simp_all add: sample_defs)
  qed
  with c show "queue_inv sample_queue" by (simp add: queue_inv_def heap_def) (simp add: sample_queue_def)
  have "pos_but sample_queue (root sample_queue) sample_cells 3 0"
    unfolding pos_but_def
  proof (intro allI impI, elim conjE)
    fix j :: nat
    assume "1 \<le> j" "j \<le> 3"
    then consider "j = 1" | "j = 2" | "j = 3" by linarith
    then show "sample_cells (root sample_queue ! j + offset_to_queue_pos sample_queue - 1) = j"
      by cases (simp_all add: sample_defs)
  qed
  then show "pos_inv sample_queue sample_cells"
    by (simp add: pos_inv_def) (simp add: sample_queue_def elems_def)
qed

text \<open>
  C17: Insertion keeps the heap: inserting through \<open>queue_insert_safe\<close> into a well-formed queue
  either refuses (2: full and not extensible, 1: out of memory) and leaves the queue as it
  was, or adds exactly the new element; in every case the queue stays well-formed, and every
  element still carries its own position when the new element was not in the queue before.
\<close>

theorem queue_insert_safe_correct:
  assumes "queue_inv q" and "queue_insert_safe ok junk q c e = (err, q', c')"
  shows "queue_inv q' \<and> qcmp q' = qcmp q
    \<and> (err = 0 \<and> content q' = add_mset e (content q)
       \<or> err = 1 \<and> \<not> ok \<and> elements q = max_elements q \<and> q' = q \<and> c' = c
       \<or> err = 2 \<and> auto_extent q = 0 \<and> elements q = max_elements q \<and> q' = q \<and> c' = c)
    \<and> (pos_inv q c \<and> e \<notin># content q \<longrightarrow> pos_inv q' c')"
proof (cases "elements q = max_elements q")
  case False
  with assms have room: "elements q < max_elements q" by (auto simp: queue_inv_def)
  from False assms(2) have "err = 0" and ins: "queue_insert q c e = (q', c')"
    by (simp_all add: queue_insert_safe_def)
  with queue_insert_spec [OF assms(1) room ins] show ?thesis by blast
next
  case full: True
  show ?thesis
  proof (cases "auto_extent q = 0")
    case True
    with full assms show ?thesis by (auto simp: queue_insert_safe_def)
  next
    case False
    let ?m = "max_elements q + auto_extent q"
    obtain err1 q1 where r: "resize_queue ok junk q ?m = (err1, q1)" by fastforce
    note f = resize_queue_spec [OF assms(1) r]
    show ?thesis
    proof (cases "err1 = 0")
      case True
      with assms(2) full False r have ins: "err = 0" "queue_insert q1 c e = (q', c')"
        by (simp_all add: queue_insert_safe_def)
      have room: "elements q1 < max_elements q1" using f(2,4) True full False by simp
      have "content q1 = content q" using f(4) full by simp
      with ins(1) f(3,5) show ?thesis
        using queue_insert_spec [OF f(1) room ins(2)] by metis
    next
      case err: False
      with assms(2) full False r have "err = 1" "q' = q1" "c' = c" by (simp_all add: queue_insert_safe_def)
      moreover have "\<not> ok" using r err False by (auto simp: resize_queue_def split: if_splits)
      ultimately show ?thesis using f(7) [OF err] assms(1) full by simp
    qed
  qed
qed

theorem queue_insert_safe_correct_witness:
  "content (fst (snd (queue_insert_safe True (\<lambda>_. 0) sample_queue sample_cells 32))) =
     add_mset 32 (content sample_queue)"
proof -
  obtain err q' c' where r: "queue_insert_safe True (\<lambda>_. 0) sample_queue sample_cells 32 = (err, q', c')"
    by (metis surj_pair)
  from queue_insert_safe_correct [OF sample_queue_inv(1) r] show ?thesis
    by (auto simp: r) (simp_all add: sample_queue_def)
qed

text \<open>
  C18: Removal by position: \<open>queue_remove\<close> returns the element at the given position, leaves
  exactly the others, and keeps the heap and the stored positions.  With positions stored
  in the elements, removing at the position an element carries removes that element.
\<close>

theorem queue_remove_correct:
  assumes "queue_inv q" "1 \<le> idx" "idx \<le> elements q" "queue_remove q c idx = (x, q', c')"
  shows "x = root q ! idx \<and> content q = add_mset x (content q') \<and> queue_inv q' \<and> qcmp q' = qcmp q
    \<and> (pos_inv q c \<longrightarrow> pos_inv q' c')
    \<and> (pos_inv q c \<and> offset_to_queue_pos q \<noteq> 0 \<and> e \<in># content q
         \<and> idx = c (e + offset_to_queue_pos q - 1) \<longrightarrow> x = e)"
proof -
  note f = queue_remove_spec [OF assms]
  have "x = e" if p: "pos_inv q c" "offset_to_queue_pos q \<noteq> 0" "e \<in># content q"
    "idx = c (e + offset_to_queue_pos q - 1)"
  proof -
    from p(3) obtain j where j: "j < elements q" "e = root q ! Suc j"
      using queue_invD(1) [OF assms(1)] by (auto simp: content_def in_set_conv_nth nth_elems)
    then have "c (e + offset_to_queue_pos q - 1) = Suc j"
      using p(1,2) by (simp add: pos_inv_def pos_but_def)
    with p(4) j f(1) show ?thesis by simp
  qed
  with f show ?thesis by blast
qed

theorem queue_remove_correct_witness:
  "fst (queue_remove sample_queue sample_cells (sample_cells 28)) = 24"
proof -
  obtain x q' c' where r: "queue_remove sample_queue sample_cells 3 = (x, q', c')" by (metis surj_pair)
  have "x = 24"
    using queue_remove_correct [OF sample_queue_inv(1) _ _ r, of 24]
    by (simp add: sample_queue_def)
  then show ?thesis using r by (simp add: sample_cells_def)
qed

text \<open>
  C26: The top of a well-formed queue is a least element, and taking the top until the queue is
  empty yields all its elements in order.
\<close>

theorem queue_drain_sorted:
  assumes "queue_inv q"
  shows "(\<forall>x. x \<in># content q \<longrightarrow> qcmp q (queue_top q) x \<le> 0)
    \<and> mset (pq.drain (elements q) (q, c)) = content q
    \<and> sorted_wrt (\<lambda>a b. qcmp q a b \<le> 0) (pq.drain (elements q) (q, c))"
proof -
  have n: "elements q = size ((content \<circ> fst) (q, c))"
    using queue_invD(1) [OF assms] by (simp add: content_def)
  then show ?thesis
    using pq.drain_mset [OF _ n] pq.drain_sorted [OF _ n] assms queue_top_least [OF assms] by simp
qed

theorem queue_drain_sorted_witness:
  "qcmp sample_queue (queue_top sample_queue) 24 \<le> 0
   \<and> sorted_wrt (\<lambda>a b. qcmp sample_queue a b \<le> 0) (pq.drain 3 (sample_queue, sample_cells))"
proof -
  have "24 \<in># content sample_queue" "elements sample_queue = 3"
    by (simp_all add: content_def elems_def sample_queue_def)
  with queue_drain_sorted [OF sample_queue_inv(1), of sample_cells] show ?thesis by metis
qed

text \<open>
  \<open>queue_fix\<close> makes a heap of any array: whatever the order of the elements was, afterwards
  the queue is well-formed, holds the same elements, and positions are kept.
\<close>

theorem queue_fix_correct:
  assumes "length (root q) = max_elements q + 1" "elements q \<le> max_elements q" "comparator (qcmp q)"
    and "queue_fix q c = (q', c')"
  shows "queue_inv q' \<and> content q' = content q \<and> (pos_inv q c \<longrightarrow> pos_inv q' c')"
proof -
  have len: "elements q < length (root q)" using assms(1,2) by simp
  have or: "queue_order q" using assms(3) by (simp add: queue_order_def)
  note f = queue_fix_spec [OF len or assms(4)]
  obtain r where "q' = q\<lparr>root := r\<rparr>" using f by auto
  with f assms show ?thesis by (simp add: queue_inv_def)
qed

theorem queue_fix_correct_witness:
  "queue_inv (fst (queue_fix (sample_queue\<lparr>root := [0, 8, 16, 24, 0]\<rparr>) sample_cells))"
proof -
  let ?q = "sample_queue\<lparr>root := [0, 8, 16, 24, 0]\<rparr>"
  have c: "comparator (qcmp ?q)" using sample_queue_inv(1) by (simp add: queue_inv_def)
  have "length (root ?q) = max_elements ?q + 1" "elements ?q \<le> max_elements ?q"
    by (simp_all add: sample_queue_def)
  from queue_fix_correct [OF this c] show ?thesis by (metis prod.collapse)
qed

end
