(* ===== verification/MyBit.thy ===== *)
theory MyBit
  imports Prelude
begin

text \<open>
  The bit functions of \<^verbatim>\<open>include/my_bit.h\<close> and the table of \<^verbatim>\<open>mysys/my_bit.c\<close>: logarithms,
  population count, powers of two, bit reversal and masks.  \<open>uint\<close> results are natural
  numbers where the code only adds small constants to them.
\<close>

section \<open>Definitions\<close>

definition my_bit_log2_hex_digit :: "u8 \<Rightarrow> nat" where
  "my_bit_log2_hex_digit value =
     (if value AND 0x0C \<noteq> 0 then (if value AND 0x08 \<noteq> 0 then 3 else 2)
      else (if value AND 0x02 \<noteq> 0 then 1 else 0))"

definition my_bit_log2_uint8 :: "u8 \<Rightarrow> nat" where
  "my_bit_log2_uint8 value =
     (if value AND 0xF0 \<noteq> 0 then my_bit_log2_hex_digit (drop_bit 4 value) + 4
      else my_bit_log2_hex_digit value)"

definition my_bit_log2_uint16 :: "u16 \<Rightarrow> nat" where
  "my_bit_log2_uint16 value =
     (if value AND 0xFF00 \<noteq> 0 then my_bit_log2_uint8 (ucast (drop_bit 8 value)) + 8
      else my_bit_log2_uint8 (ucast value))"

definition my_bit_log2_uint32 :: "u32 \<Rightarrow> nat" where
  "my_bit_log2_uint32 value =
     (if value AND 0xFFFF0000 \<noteq> 0 then my_bit_log2_uint16 (ucast (drop_bit 16 value)) + 16
      else my_bit_log2_uint16 (ucast value))"

definition my_bit_log2_uint64 :: "u64 \<Rightarrow> nat" where
  "my_bit_log2_uint64 value =
     (if value AND 0xFFFFFFFF00000000 \<noteq> 0 then my_bit_log2_uint32 (ucast (drop_bit 32 value)) + 32
      else my_bit_log2_uint32 (ucast value))"

definition my_bit_log2_size_t :: "u64 \<Rightarrow> nat" where
  "my_bit_log2_size_t value = my_bit_log2_uint64 value"

definition my_count_bits_uint32 :: "u32 \<Rightarrow> u32" where
  "my_count_bits_uint32 v =
     (let v = v - (drop_bit 1 v AND 0x55555555);
          v = (v AND 0x33333333) + (drop_bit 2 v AND 0x33333333)
      in drop_bit 24 (((v + drop_bit 4 v) AND 0xF0F0F0F) * 0x1010101))"

definition my_count_bits :: "u64 \<Rightarrow> u32" where
  "my_count_bits x = my_count_bits_uint32 (ucast x) + my_count_bits_uint32 (ucast (drop_bit 32 x))"

definition my_round_up_to_next_power :: "u32 \<Rightarrow> u32" where
  "my_round_up_to_next_power v =
     (let v = v - 1;
          v = v OR drop_bit 1 v;
          v = v OR drop_bit 2 v;
          v = v OR drop_bit 4 v;
          v = v OR drop_bit 8 v;
          v = v OR drop_bit 16 v
      in v + 1)"

definition my_clear_highest_bit :: "u32 \<Rightarrow> u32" where
  "my_clear_highest_bit v =
     (let w = drop_bit 1 v;
          w = w OR drop_bit 1 w;
          w = w OR drop_bit 2 w;
          w = w OR drop_bit 4 w;
          w = w OR drop_bit 8 w;
          w = w OR drop_bit 16 w
      in v AND w)"

definition my_bits_reverse_table :: "u8 list" where
  "my_bits_reverse_table = [
     0x00, 0x80, 0x40, 0xC0, 0x20, 0xA0, 0x60, 0xE0, 0x10, 0x90, 0x50, 0xD0, 0x30, 0xB0, 0x70, 0xF0,
     0x08, 0x88, 0x48, 0xC8, 0x28, 0xA8, 0x68, 0xE8, 0x18, 0x98, 0x58, 0xD8, 0x38, 0xB8, 0x78, 0xF8,
     0x04, 0x84, 0x44, 0xC4, 0x24, 0xA4, 0x64, 0xE4, 0x14, 0x94, 0x54, 0xD4, 0x34, 0xB4, 0x74, 0xF4,
     0x0C, 0x8C, 0x4C, 0xCC, 0x2C, 0xAC, 0x6C, 0xEC, 0x1C, 0x9C, 0x5C, 0xDC, 0x3C, 0xBC, 0x7C, 0xFC,
     0x02, 0x82, 0x42, 0xC2, 0x22, 0xA2, 0x62, 0xE2, 0x12, 0x92, 0x52, 0xD2, 0x32, 0xB2, 0x72, 0xF2,
     0x0A, 0x8A, 0x4A, 0xCA, 0x2A, 0xAA, 0x6A, 0xEA, 0x1A, 0x9A, 0x5A, 0xDA, 0x3A, 0xBA, 0x7A, 0xFA,
     0x06, 0x86, 0x46, 0xC6, 0x26, 0xA6, 0x66, 0xE6, 0x16, 0x96, 0x56, 0xD6, 0x36, 0xB6, 0x76, 0xF6,
     0x0E, 0x8E, 0x4E, 0xCE, 0x2E, 0xAE, 0x6E, 0xEE, 0x1E, 0x9E, 0x5E, 0xDE, 0x3E, 0xBE, 0x7E, 0xFE,
     0x01, 0x81, 0x41, 0xC1, 0x21, 0xA1, 0x61, 0xE1, 0x11, 0x91, 0x51, 0xD1, 0x31, 0xB1, 0x71, 0xF1,
     0x09, 0x89, 0x49, 0xC9, 0x29, 0xA9, 0x69, 0xE9, 0x19, 0x99, 0x59, 0xD9, 0x39, 0xB9, 0x79, 0xF9,
     0x05, 0x85, 0x45, 0xC5, 0x25, 0xA5, 0x65, 0xE5, 0x15, 0x95, 0x55, 0xD5, 0x35, 0xB5, 0x75, 0xF5,
     0x0D, 0x8D, 0x4D, 0xCD, 0x2D, 0xAD, 0x6D, 0xED, 0x1D, 0x9D, 0x5D, 0xDD, 0x3D, 0xBD, 0x7D, 0xFD,
     0x03, 0x83, 0x43, 0xC3, 0x23, 0xA3, 0x63, 0xE3, 0x13, 0x93, 0x53, 0xD3, 0x33, 0xB3, 0x73, 0xF3,
     0x0B, 0x8B, 0x4B, 0xCB, 0x2B, 0xAB, 0x6B, 0xEB, 0x1B, 0x9B, 0x5B, 0xDB, 0x3B, 0xBB, 0x7B, 0xFB,
     0x07, 0x87, 0x47, 0xC7, 0x27, 0xA7, 0x67, 0xE7, 0x17, 0x97, 0x57, 0xD7, 0x37, 0xB7, 0x77, 0xF7,
     0x0F, 0x8F, 0x4F, 0xCF, 0x2F, 0xAF, 0x6F, 0xEF, 0x1F, 0x9F, 0x5F, 0xDF, 0x3F, 0xBF, 0x7F, 0xFF]"

definition my_reverse_bits :: "u32 \<Rightarrow> u32" where
  "my_reverse_bits key =
     push_bit 24 (ucast (my_bits_reverse_table ! unat (key AND 255)))
     OR push_bit 16 (ucast (my_bits_reverse_table ! unat (drop_bit 8 key AND 255)))
     OR push_bit 8 (ucast (my_bits_reverse_table ! unat (drop_bit 16 key AND 255)))
     OR ucast (my_bits_reverse_table ! unat (drop_bit 24 key))"

text \<open>\<open>my_set_bits\<close> is called with a number of bits from 1 on.\<close>

definition my_set_bits :: "nat \<Rightarrow> u64" where
  "my_set_bits n = push_bit 1 (push_bit (n - 1) 1 - 1) OR 1"

definition last_byte_mask :: "nat \<Rightarrow> u8" where
  "last_byte_mask nbits =
     (let used = unat ((word_of_nat nbits - 1 :: u32) AND 7) in ucast (push_bit used 2 - 1 :: u32))"

text \<open>The generic branch of \<open>my_find_first_bit\<close>; its loop ends within the 16 hex digits.\<close>

definition last_bit :: "nat list" where
  "last_bit = [32, 0, 1, 0, 2, 0, 1, 0, 3, 0, 1, 0, 2, 0, 1, 0]"

fun find_first_digit :: "nat \<Rightarrow> u64 \<Rightarrow> nat \<Rightarrow> nat option" where
  "find_first_digit 0 n shift = None"
| "find_first_digit (Suc fuel) n shift =
     (let b = last_bit ! unat (drop_bit shift n AND 0xF) in
      if b = 32 then find_first_digit fuel n (shift + 4) else Some (shift + b))"

definition my_find_first_bit :: "u64 \<Rightarrow> nat option" where
  "my_find_first_bit n = (if n = 0 then Some 64 else find_first_digit 16 n 0)"

section \<open>Powers of two\<close>

lemma smear_step:
  assumes "\<And>i. bit w i \<longleftrightarrow> (\<exists>d < k. bit (v :: u32) (i + d))"
  shows "bit (w OR drop_bit k w) i \<longleftrightarrow> (\<exists>d < 2 * k. bit v (i + d))"
proof -
  have "(\<exists>d < k. bit v (i + d)) \<or> (\<exists>d < k. bit v (k + i + d)) \<longleftrightarrow> (\<exists>d < 2 * k. bit v (i + d))" (is "?L \<longleftrightarrow> ?R")
  proof
    assume ?R
    then obtain d where d: "d < 2 * k" "bit v (i + d)" by blast
    show ?L
    proof (cases "d < k")
      case False
      then have "d - k < k" "k + i + (d - k) = i + d" using d(1) by linarith+
      then show ?L using d(2) by metis
    qed (use d in blast)
  next
    assume ?L
    then consider d where "d < k" "bit v (i + d)" | d where "d < k" "bit v (k + i + d)" by blast
    then show ?R
    proof cases
      case 1 then show ?thesis by (intro exI [of _ d]) simp
    next
      case 2 then show ?thesis by (intro exI [of _ "k + d"]) (simp add: ac_simps)
    qed
  qed
  then show ?thesis by (simp add: bit_or_iff bit_drop_bit_eq assms)
qed

lemma smear:
  "bit (let v = v OR drop_bit 1 v; v = v OR drop_bit 2 v; v = v OR drop_bit 4 v;
            v = v OR drop_bit 8 v in v OR drop_bit 16 v) i \<longleftrightarrow> (\<exists>j \<ge> i. bit (v :: u32) j)"
proof -
  have *: "\<And>i. bit v i \<longleftrightarrow> (\<exists>d < 1. bit v (i + d))" by simp
  note 2 = smear_step [OF *] note 4 = smear_step [OF 2] note 8 = smear_step [OF 4]
  note 16 = smear_step [OF 8] note 32 = smear_step [OF 16]
  have "(\<exists>d < 32. bit v (i + d)) \<longleftrightarrow> (\<exists>j \<ge> i. bit v j)"
  proof
    assume "\<exists>j \<ge> i. bit v j"
    then obtain j where j: "i \<le> j" "bit v j" by blast
    then have "j < 32" using bit_imp_le_length [of v j] by simp
    with j show "\<exists>d < 32. bit v (i + d)" by (intro exI [of _ "j - i"]) auto
  qed (meson le_add1)
  with 32 [of i] show ?thesis by (simp add: Let_def)
qed

text \<open>The word with the bits up to the highest one of \<open>v\<close>.\<close>

lemma smear_mask:
  assumes "2 ^ k \<le> unat v" "unat v < 2 ^ Suc k"
  shows "(\<exists>j \<ge> i. bit (v :: u32) j) \<longleftrightarrow> i \<le> k"
proof -
  have "unat v div 2 ^ k = 1" using assms by (intro div_nat_eqI) auto
  then have "bit (unat v) k" by (simp add: bit_iff_odd)
  then have k: "bit v k" by (simp add: bit_unsigned_iff)
  have "j \<le> k" if "bit v j" for j using bit_small_word [OF assms(2), of j] that by simp
  with k show ?thesis by (auto intro: order_trans)
qed

lemma clear_highest_bit_eq:
  "bit (my_clear_highest_bit v) i \<longleftrightarrow> bit v i \<and> (\<exists>j > i. bit v j)"
proof -
  have "bit (my_clear_highest_bit v) i \<longleftrightarrow> bit v i \<and> (\<exists>j \<ge> i. bit (drop_bit 1 v) j)"
    using smear [of "drop_bit 1 v" i] by (simp add: my_clear_highest_bit_def Let_def bit_and_iff)
  also have "(\<exists>j \<ge> i. bit (drop_bit 1 v) j) \<longleftrightarrow> (\<exists>j > i. bit v j)"
  proof
    assume "\<exists>j > i. bit v j"
    then obtain j where "i < j" "bit v j" by blast
    then have "i \<le> j - 1" "bit (drop_bit 1 v) (j - 1)" by (simp_all add: bit_drop_bit_eq)
    then show "\<exists>j \<ge> i. bit (drop_bit 1 v) j" by blast
  qed (auto simp: bit_drop_bit_eq simp flip: less_Suc_eq_le)
  finally show ?thesis .
qed

lemma round_up_to_next_power_eq:
  assumes "2 ^ k < unat v" "unat v \<le> 2 ^ Suc k"
  shows "my_round_up_to_next_power v = 2 ^ Suc k"
proof -
  have "0 < v" using assms(1) by (simp add: word_less_nat_alt)
  then have u: "unat (v - 1) = unat v - 1" by (simp add: unat_sub word_less_nat_alt Suc_leI word_le_nat_alt)
  then have "2 ^ k \<le> unat (v - 1)" "unat (v - 1) < 2 ^ Suc k" using assms by simp_all
  note m = smear_mask [OF this]
  let ?w = "let v = v - 1; v = v OR drop_bit 1 v; v = v OR drop_bit 2 v; v = v OR drop_bit 4 v;
            v = v OR drop_bit 8 v in v OR drop_bit 16 v"
  have "?w = mask (Suc k)"
    using smear [of "v - 1"] m
    by (intro bit_word_eqI) (simp add: bit_mask_iff Let_def less_Suc_eq_le)
  moreover have "my_round_up_to_next_power v = ?w + 1"
    by (simp add: my_round_up_to_next_power_def Let_def)
  ultimately show ?thesis by (simp add: mask_eq_exp_minus_1)
qed

section \<open>Logarithms\<close>

text \<open>Splitting a word at bit \<open>k\<close>: the mask test decides whether the high part is empty.\<close>

lemma high_mask_iff:
  fixes v :: "'a::len word"
  assumes hi: "msk = push_bit k (mask (LENGTH('a) - k))"
  shows "v AND msk = 0 \<longleftrightarrow> unat v < 2 ^ k"
proof -
  have "v AND msk = 0 \<longleftrightarrow> (\<forall>j. \<not> bit v (k + j))"
  proof
    assume z: "v AND msk = 0"
    show "\<forall>j. \<not> bit v (k + j)"
    proof (intro allI notI)
      fix j assume b: "bit v (k + j)"
      then have "k + j < LENGTH('a)" by (rule bit_imp_le_length)
      with b have "bit (v AND msk) (k + j)" by (simp add: hi bit_simps)
      with z show False by simp
    qed
  next
    assume n: "\<forall>j. \<not> bit v (k + j)"
    then have "\<not> bit v j" if "k \<le> j" for j using that by (metis le_add_diff_inverse)
    then show "v AND msk = 0" by (intro bit_word_eqI) (auto simp: hi bit_simps)
  qed
  also have "\<dots> \<longleftrightarrow> drop_bit k v = 0"
    by (simp add: bit_eq_iff bit_drop_bit_eq) (metis add_lessD1 add.commute bit_imp_le_length)
  also have "\<dots> \<longleftrightarrow> unat v div 2 ^ k = 0"
    by (simp only: word_unat_eq_iff unat_drop_bit unsigned_0)
  finally show ?thesis by (simp add: div_eq_0_iff)
qed

lemma unat_high_part:
  fixes v :: "'a::len word"
  assumes "LENGTH('b::len) = k" "LENGTH('a) \<le> 2 * k"
  shows "unat (ucast (drop_bit k v) :: 'b word) = unat v div 2 ^ k"
proof -
  have "unat v < 2 ^ k * 2 ^ k"
    using unsigned_less [of v, where ?'a = nat] assms(2)
    by (metis mult_2 power_add power_increasing one_le_numeral order.strict_trans2)
  then have "unat v div 2 ^ k < 2 ^ LENGTH('b)" using assms(1) by (simp add: less_mult_imp_div_less)
  then show ?thesis by (simp add: unat_ucast_small unat_drop_bit)
qed

definition is_log2 :: "nat \<Rightarrow> nat \<Rightarrow> bool" where
  "is_log2 n k \<longleftrightarrow> (if n = 0 then k = 0 else 2 ^ k \<le> n \<and> n < 2 ^ Suc k)"

lemma is_log2_high: "2 ^ s \<le> n \<Longrightarrow> is_log2 (n div 2 ^ s) k \<Longrightarrow> is_log2 n (k + s)"
proof -
  assume s: "2 ^ s \<le> n" and l: "is_log2 (n div 2 ^ s) k"
  have "n div 2 ^ s \<noteq> 0" using s by (simp add: div_eq_0_iff)
  then have "n \<noteq> 0" by (metis div_0)
  from l \<open>n div 2 ^ s \<noteq> 0\<close> have "2 ^ k \<le> n div 2 ^ s" "n div 2 ^ s < 2 ^ Suc k" by (simp_all add: is_log2_def)
  then have "2 ^ k * 2 ^ s \<le> n" "n < 2 ^ Suc k * 2 ^ s"
    by (simp_all add: less_eq_div_iff_mult_less_eq div_less_iff_less_mult)
  with \<open>n \<noteq> 0\<close> show ?thesis by (simp add: is_log2_def power_add mult.assoc)
qed

lemma log2_hex_digit: "unat v < 16 \<Longrightarrow> is_log2 (unat v) (my_bit_log2_hex_digit v)"
proof -
  assume "unat v < 16"
  moreover have "list_all (\<lambda>n. is_log2 n (my_bit_log2_hex_digit (word_of_nat n))) [0..<16]"
    by code_simp
  ultimately have "is_log2 (unat v) (my_bit_log2_hex_digit (word_of_nat (unat v)))"
    unfolding list_all_iff set_upt atLeast0LessThan by blast
  then show ?thesis by simp
qed

lemma log2_uint8: "is_log2 (unat v) (my_bit_log2_uint8 v)"
proof -
  have z: "v AND 0xF0 = 0 \<longleftrightarrow> unat v < 2 ^ 4"
    by (rule high_mask_iff) (simp add: mask_eq_exp_minus_1)
  have "unat v < 256" using unsigned_less [of v, where ?'a = nat] by simp
  then have "is_log2 (unat v div 2 ^ 4) (my_bit_log2_hex_digit (drop_bit 4 v))"
    using log2_hex_digit [of "drop_bit 4 v"] by (simp only: unat_drop_bit) simp
  then show ?thesis
    using is_log2_high [of 4 "unat v"] log2_hex_digit [of v]
    by (simp only: my_bit_log2_uint8_def z) (simp split: if_split)
qed

lemma log2_step:
  fixes v :: "'a::len word" and f :: "'b::len word \<Rightarrow> nat"
  assumes f: "\<And>x. is_log2 (unat x) (f x)"
    and hi: "msk = push_bit k (mask (LENGTH('a) - k))" and k: "LENGTH('b) = k" "LENGTH('a) \<le> 2 * k"
  shows "is_log2 (unat v) (if v AND msk \<noteq> 0 then f (ucast (drop_bit k v)) + k else f (ucast v))"
proof (cases "v AND msk = 0")
  case True
  then have "unat (ucast v :: 'b word) = unat v"
    unfolding high_mask_iff [OF hi] using k(1) by (simp add: unat_ucast_small)
  with f [of "ucast v"] True show ?thesis by simp
next
  case False
  then have "2 ^ k \<le> unat v" unfolding high_mask_iff [OF hi] by simp
  with is_log2_high f [of "ucast (drop_bit k v)"] False show ?thesis
    by (simp add: unat_high_part [OF k])
qed

lemma log2_uint16: "is_log2 (unat v) (my_bit_log2_uint16 v)"
  unfolding my_bit_log2_uint16_def by (rule log2_step [OF log2_uint8]) (simp_all add: mask_eq_exp_minus_1)

lemma log2_uint32: "is_log2 (unat v) (my_bit_log2_uint32 v)"
  unfolding my_bit_log2_uint32_def by (rule log2_step [OF log2_uint16]) (simp_all add: mask_eq_exp_minus_1)

lemma log2_uint64: "is_log2 (unat v) (my_bit_log2_uint64 v)"
  unfolding my_bit_log2_uint64_def by (rule log2_step [OF log2_uint32]) (simp_all add: mask_eq_exp_minus_1)

section \<open>Population count\<close>

text \<open>A number by its hexadecimal digits, the lowest first.\<close>

primrec hexval :: "nat list \<Rightarrow> nat" where
  "hexval [] = 0"
| "hexval (d # ds) = d + 16 * hexval ds"

primrec hexdigits :: "nat \<Rightarrow> nat \<Rightarrow> nat list" where
  "hexdigits 0 n = []"
| "hexdigits (Suc k) n = n mod 16 # hexdigits k (n div 16)"

lemma hexdigits_props:
  "n < 16 ^ k \<Longrightarrow> hexval (hexdigits k n) = n" "\<forall>d \<in> set (hexdigits k n). d < 16"
  "length (hexdigits k n) = k"
  by (induction k arbitrary: n) (auto simp: less_mult_imp_div_less mult.commute)

lemma and_hex:
  fixes d e r s :: nat
  assumes "d < 16" "e < 16"
  shows "(d + 16 * r) AND (e + 16 * s) = (d AND e) + 16 * (r AND s)"
proof -
  let ?x = "(d + 16 * r) AND (e + 16 * s)"
  have t: "take_bit 4 (d + 16 * r) = d" "take_bit 4 (e + 16 * s) = e"
    "drop_bit 4 (d + 16 * r) = r" "drop_bit 4 (e + 16 * s) = s"
    using assms by (simp_all add: take_bit_eq_mod drop_bit_eq_div)
  have "?x = push_bit 4 (drop_bit 4 ?x) + take_bit 4 ?x" by (rule bits_ident [symmetric])
  also have "\<dots> = push_bit 4 (r AND s) + (d AND e)"
    by (simp only: take_bit_and drop_bit_and t)
  finally show ?thesis by (simp add: push_bit_eq_mult)
qed

lemma hexval_and:
  "length es = length ds \<Longrightarrow> \<forall>d \<in> set ds. d < 16 \<Longrightarrow> \<forall>e \<in> set es. e < 16 \<Longrightarrow>
    hexval ds AND hexval es = hexval (map2 (AND) ds es)"
  by (induction ds es rule: list_induct2') (simp_all add: and_hex)

lemma hex_upt: "[0..<16] = [0, 1, 2, 3, 4, 5, 6, 7, 8, 9, 10, 11, 12, 13, 14, 15 :: nat]"
  by code_simp

lemma digit_cases: "(d :: nat) < 16 \<Longrightarrow> P 0 \<Longrightarrow> P 1 \<Longrightarrow> P 2 \<Longrightarrow> P 3 \<Longrightarrow> P 4 \<Longrightarrow> P 5 \<Longrightarrow> P 6 \<Longrightarrow> P 7
    \<Longrightarrow> P 8 \<Longrightarrow> P 9 \<Longrightarrow> P 10 \<Longrightarrow> P 11 \<Longrightarrow> P 12 \<Longrightarrow> P 13 \<Longrightarrow> P 14 \<Longrightarrow> P 15 \<Longrightarrow> P d"
proof -
  assume "d < 16"
  then have "d \<in> set [0..<16]" by simp
  then have "d \<in> set [0, 1, 2, 3, 4, 5, 6, 7, 8, 9, 10, 11, 12, 13, 14, 15]"
    by (simp only: hex_upt)
  then show "P 0 \<Longrightarrow> P 1 \<Longrightarrow> P 2 \<Longrightarrow> P 3 \<Longrightarrow> P 4 \<Longrightarrow> P 5 \<Longrightarrow> P 6 \<Longrightarrow> P 7
    \<Longrightarrow> P 8 \<Longrightarrow> P 9 \<Longrightarrow> P 10 \<Longrightarrow> P 11 \<Longrightarrow> P 12 \<Longrightarrow> P 13 \<Longrightarrow> P 14 \<Longrightarrow> P 15 \<Longrightarrow> P d" by auto
qed

lemma mod2_cases: "r mod 2 = 0 \<or> r mod 2 = (1 :: nat)"
  by linarith

lemma half_hex:
  fixes d r M :: nat
  assumes "d < 16"
  shows "(d + 16 * r) div 2 AND (5 + 16 * M) = (d div 2 AND 5) + 16 * (r div 2 AND M)"
proof -
  have e: "(d + 16 * r) div 2 = (d div 2 + 8 * (r mod 2)) + 16 * (r div 2)"
  proof -
    have "(d + 16 * r) div 2 = 8 * r + d div 2" using div_mult_self2 [of 2 d "8 * r"] by simp
    then show ?thesis using div_mult_mod_eq [of r 2] by linarith
  qed
  have l: "d div 2 + 8 * (r mod 2) < 16" using assms by auto
  have "(d div 2 + 8 * (r mod 2)) AND 5 = d div 2 AND 5"
    using mod2_cases [of r] by (elim disjE) (use assms in \<open>rule digit_cases; simp\<close>)+
  then show ?thesis unfolding e and_hex [OF l, of 5, simplified] by simp
qed

lemma quarter_hex:
  fixes d r M :: nat
  assumes "d < 16"
  shows "(d + 16 * r) div 4 AND (3 + 16 * M) = (d div 4 AND 3) + 16 * (r div 4 AND M)"
proof -
  have e: "(d + 16 * r) div 4 = (d div 4 + 4 * (r mod 4)) + 16 * (r div 4)"
  proof -
    have "(d + 16 * r) div 4 = 4 * r + d div 4" using div_mult_self2 [of 4 d "4 * r"] by simp
    then show ?thesis using div_mult_mod_eq [of r 4] by linarith
  qed
  have "d div 4 < 4" "r mod 4 < 4" using assms by auto
  then have l: "d div 4 + 4 * (r mod 4) < 16" by linarith
  consider "r mod 4 = 0" | "r mod 4 = 1" | "r mod 4 = 2" | "r mod 4 = 3"
    using \<open>r mod 4 < 4\<close> by linarith
  then have "(d div 4 + 4 * (r mod 4)) AND 3 = d div 4 AND 3"
    by cases (use assms in \<open>rule digit_cases; simp\<close>)+
  then show ?thesis unfolding e and_hex [OF l, of 3, simplified] by simp
qed

lemma hexval_half:
  "\<forall>d \<in> set ds. d < 16 \<Longrightarrow>
    hexval ds div 2 AND hexval (replicate (length ds) 5) = hexval (map (\<lambda>d. d div 2 AND 5) ds)"
  by (induction ds) (simp_all add: half_hex)

lemma hexval_quarter:
  "\<forall>d \<in> set ds. d < 16 \<Longrightarrow>
    hexval ds div 4 AND hexval (replicate (length ds) 3) = hexval (map (\<lambda>d. d div 4 AND 3) ds)"
  by (induction ds) (simp_all add: quarter_hex)

lemma hexval_map_add: "hexval (map f ds) + hexval (map g ds) = hexval (map (\<lambda>d. f d + g d) ds)"
  by (induction ds) simp_all

lemma hexval_map_diff:
  "\<forall>d \<in> set ds. f d \<le> d \<Longrightarrow> hexval (map f ds) \<le> hexval ds \<and> hexval ds - hexval (map f ds) = hexval (map (\<lambda>d. d - f d) ds)"
  by (induction ds) auto

text \<open>The number of bits of one digit, after the first two steps.\<close>

definition digit_count :: "nat \<Rightarrow> nat" where
  "digit_count d = (let v = d - (d div 2 AND 5) in (v AND 3) + (v div 4 AND 3))"

lemma digit_count_le: "d < 16 \<Longrightarrow> digit_count d \<le> 4"
  by (rule digit_cases [of d]) (simp_all add: digit_count_def)

lemma count_steps:
  assumes "\<forall>d \<in> set ds. d < 16" "length ds = 8"
  defines "v1 \<equiv> hexval ds - (hexval ds div 2 AND 0x55555555)"
  shows "(hexval ds div 2 AND 0x55555555) \<le> hexval ds"
    "(v1 AND 0x33333333) + (v1 div 4 AND 0x33333333) = hexval (map digit_count ds)"
proof -
  have "replicate 8 5 = [5, 5, 5, 5, 5, 5, 5, 5 :: nat]" "replicate 8 3 = [3, 3, 3, 3, 3, 3, 3, 3 :: nat]"
    by code_simp+
  then have m: "0x55555555 = hexval (replicate (length ds) 5)" "0x33333333 = hexval (replicate (length ds) 3)"
    using assms(2) by simp_all
  have le: "d div 2 AND 5 \<le> d" if "d < 16" for d :: nat
    using that by (rule digit_cases) simp_all
  note h = hexval_half [OF assms(1)]
  note d = hexval_map_diff [of ds "\<lambda>d. d div 2 AND 5"]
  show "(hexval ds div 2 AND 0x55555555) \<le> hexval ds"
    unfolding m h using d assms(1) le by blast
  let ?ds = "map (\<lambda>d. d - (d div 2 AND 5)) ds"
  have v1: "v1 = hexval ?ds" unfolding v1_def m h using d assms(1) le by blast
  have ds: "\<forall>d \<in> set ?ds. d < 16" using assms(1) by auto
  have "\<forall>d \<in> set (replicate (length ?ds) 3). d < (16 :: nat)" by simp
  note a = hexval_and [OF _ ds this] and q = hexval_quarter [OF ds]
  have "map2 (AND) ?ds (replicate (length ?ds) 3) = map (\<lambda>d. d AND 3) ?ds"
    by (simp add: list_eq_iff_nth_eq)
  with a q show "(v1 AND 0x33333333) + (v1 div 4 AND 0x33333333) = hexval (map digit_count ds)"
    unfolding v1 m by (simp add: hexval_map_add o_def digit_count_def [abs_def] Let_def)
qed

lemma list8_cases:
  assumes "length xs = 8"
  obtains a b c d e f g h where "xs = [a, b, c, d, e, f, g, h]"
  using assms by (auto simp: length_Suc_conv numeral_eq_Suc)

lemma middle_byte:
  fixes low s t :: nat
  assumes "low < 2 ^ 24" "s < 256"
  shows "(low + 2 ^ 24 * s + 2 ^ 32 * t) mod 2 ^ 32 div 2 ^ 24 = s"
proof -
  have "(low + 2 ^ 24 * s + 2 ^ 32 * t) mod 2 ^ 32 = low + 2 ^ 24 * s"
    using assms by simp
  then show ?thesis using assms(1) by simp
qed

lemma count_last_step:
  assumes "length ps = 8" "\<forall>p \<in> set ps. p \<le> 4"
  defines "w \<equiv> (hexval ps + hexval ps div 16) AND 0xF0F0F0F"
  shows "hexval ps + hexval ps div 16 < 2 ^ 32" "w * 0x1010101 mod 2 ^ 32 div 2 ^ 24 = sum_list ps"
proof -
  obtain a b c d e f g h where ps: "ps = [a, b, c, d, e, f, g, h]" using list8_cases [OF assms(1)] .
  have le: "a \<le> 4" "b \<le> 4" "c \<le> 4" "d \<le> 4" "e \<le> 4" "f \<le> 4" "g \<le> 4" "h \<le> 4"
    using assms(2) by (simp_all add: ps)
  have "hexval ps div 16 = hexval [b, c, d, e, f, g, h]"
    using le by (simp add: ps)
  then have s: "hexval ps + hexval ps div 16 = hexval [a + b, b + c, c + d, d + e, e + f, f + g, g + h, h]"
    by (simp add: ps)
  show "hexval ps + hexval ps div 16 < 2 ^ 32"
    unfolding s using le by simp
  have m: "0xF0F0F0F = hexval [15, 0, 15, 0, 15, 0, 15, 0]" by simp
  have x15: "x AND 15 = x" if "x \<le> 8" for x :: nat
  proof -
    have "x < 16" using that by simp
    then show ?thesis by (rule digit_cases) simp_all
  qed
  have "w = hexval (map2 (AND) [a + b, b + c, c + d, d + e, e + f, f + g, g + h, h] [15, 0, 15, 0, 15, 0, 15, 0])"
    unfolding w_def s m using le by (intro hexval_and) simp_all
  then have w: "w = (a + b) + 256 * (c + d) + 65536 * (e + f) + 16777216 * (g + h)"
    using le by (simp add: x15)
  let ?low = "(a + b) + 256 * (a + b + c + d) + 65536 * (a + b + c + d + e + f)"
  have "w * 0x1010101 = (?low + 2 ^ 24 * sum_list ps) + 2 ^ 32 * (c + d + e + f + g + h + 256 * (e + f + g + h) + 65536 * (g + h))"
    by (simp add: w ps algebra_simps)
  moreover have "?low < 2 ^ 24" "sum_list ps < 256" using le by (simp_all add: ps)
  ultimately show "w * 0x1010101 mod 2 ^ 32 div 2 ^ 24 = sum_list ps"
    by (simp only: middle_byte)
qed

text \<open>The reference: the number of bits of a natural number.\<close>

lemma digit_bit_less: "(d :: nat) < 16 \<Longrightarrow> bit d j \<Longrightarrow> j < 4"
proof -
  assume "d < 16"
  then have "take_bit 4 d = d" by (simp add: take_bit_nat_eq_self)
  then show "bit d j \<Longrightarrow> j < 4" by (metis bit_take_bit_iff)
qed

lemma bits_of_digit: "d < 16 \<Longrightarrow> {j. bit (d :: nat) j} = set (filter (bit d) [0..<4])"
  using digit_bit_less [of d] by auto

lemma digit_count_eq: "d < 16 \<Longrightarrow> digit_count d = card {j. bit d j}"
proof -
  assume d: "d < 16"
  have "digit_count d = length (filter (bit d) [0, 1, 2, 3])"
    using d by (rule digit_cases) (simp_all add: digit_count_def bit_iff_odd)
  moreover have "[0..<4] = [0, 1, 2, 3 :: nat]" by code_simp
  moreover have "card (set (filter (bit d) [0..<4])) = length (filter (bit d) [0..<4])"
    by (rule distinct_card) simp
  ultimately show ?thesis by (simp add: bits_of_digit [OF d])
qed

lemma finite_nat_bits: "finite {j. bit (n :: nat) j}"
proof -
  have "j \<le> n" if "bit n j" for j
    using that by (metis bit_iff_odd div_less even_zero le_less_trans less_exp linorder_not_less less_imp_le)
  then show ?thesis by (auto intro: finite_subset [of _ "{..n}"])
qed

lemma card_bits_step: "card {j. bit (n :: nat) j} = card {j. bit (n mod 16) j} + card {j. bit (n div 16) j}"
proof -
  have "n mod 16 = take_bit 4 n" "n div 16 = drop_bit 4 n"
    by (simp_all add: take_bit_eq_mod drop_bit_eq_div)
  then have b: "bit (n mod 16) j \<longleftrightarrow> j < 4 \<and> bit n j" "bit (n div 16) j \<longleftrightarrow> bit n (4 + j)" for j
    by (simp_all add: bit_take_bit_iff bit_drop_bit_eq)
  have "{j. bit n j} = {j. bit (n mod 16) j} \<union> (\<lambda>j. 4 + j) ` {j. bit (n div 16) j}" (is "_ = ?A \<union> ?B")
    unfolding b by (auto simp: image_iff) (metis le_add_diff_inverse not_less)
  moreover have "?A \<inter> ?B = {}" by (auto simp: b)
  moreover have "card ?B = card {j. bit (n div 16) j}" by (rule card_image) simp
  ultimately show ?thesis by (simp add: card_Un_disjoint finite_nat_bits)
qed

lemma sum_digit_count:
  "n < 16 ^ k \<Longrightarrow> sum_list (map digit_count (hexdigits k n)) = card {j. bit n j}"
proof (induction k arbitrary: n)
  case (Suc k)
  then have "n div 16 < 16 ^ k" by (simp add: less_mult_imp_div_less mult.commute)
  with Suc show ?case by (simp add: digit_count_eq card_bits_step [of n])
qed (simp add: bot_fun_def)

lemma bit_unat: "bit (unat (v :: 'a::len word)) j \<longleftrightarrow> bit v j"
  by (auto simp: bit_unsigned_iff dest: bit_imp_le_length)

lemma unat_count_bits_uint32: "unat (my_count_bits_uint32 v) = card {j. bit v j}"
proof -
  let ?n = "unat v" and ?ds = "hexdigits 8 (unat v)"
  have n: "?n < 16 ^ 8" using unsigned_less [of v, where ?'a = nat] by simp
  note h = hexdigits_props [where n = ?n and k = 8]
  note steps = count_steps [OF h(2,3), unfolded h(1) [OF n]]
  define v1 where "v1 = v - (drop_bit 1 v AND 0x55555555)"
  define v2 where "v2 = (v1 AND 0x33333333) + (drop_bit 2 v1 AND 0x33333333)"
  have "unat (drop_bit 1 v AND 0x55555555) = (?n div 2 AND 0x55555555)"
    by (simp only: unsigned_and_eq unat_drop_bit) simp
  then have v1: "unat v1 = ?n - (?n div 2 AND 0x55555555)"
    unfolding v1_def using steps(1) by (simp add: unat_sub word_le_nat_alt)
  let ?ps = "map digit_count ?ds"
  have ps: "length ?ps = 8" "\<forall>p \<in> set ?ps. p \<le> 4" using h(2,3) by (auto simp: digit_count_le)
  note last = count_last_step [OF ps]
  have "unat (v1 AND 0x33333333) = (unat v1 AND 0x33333333)"
    "unat (drop_bit 2 v1 AND 0x33333333) = (unat v1 div 4 AND 0x33333333)"
    by (simp_all only: unsigned_and_eq unat_drop_bit) simp_all
  with steps(2) [folded v1] have sum: "unat (v1 AND 0x33333333) + unat (drop_bit 2 v1 AND 0x33333333) = hexval ?ps"
    by simp
  moreover have "hexval ?ps < 2 ^ 32" using last(1) by simp
  ultimately have v2: "unat v2 = hexval ?ps"
    unfolding v2_def by (simp add: unat_word_ariths)
  have "unat (v2 + drop_bit 4 v2) = hexval ?ps + hexval ?ps div 16"
    using last(1) by (simp add: unat_word_ariths unat_drop_bit v2)
  then have "unat ((v2 + drop_bit 4 v2) AND 0xF0F0F0F) = ((hexval ?ps + hexval ?ps div 16) AND 0xF0F0F0F)"
    by (simp only: unsigned_and_eq) simp
  then have "unat (drop_bit 24 (((v2 + drop_bit 4 v2) AND 0xF0F0F0F) * 0x1010101)) = sum_list ?ps"
    using last(2) by (simp only: unat_drop_bit unat_word_ariths) simp
  moreover have "my_count_bits_uint32 v = drop_bit 24 (((v2 + drop_bit 4 v2) AND 0xF0F0F0F) * 0x1010101)"
    by (simp add: my_count_bits_uint32_def Let_def v1_def v2_def)
  moreover have "sum_list ?ps = card {j. bit v j}"
    using sum_digit_count [OF n] by (simp add: bit_unat)
  ultimately show ?thesis by simp
qed

section \<open>Reversal, masks and the first bit\<close>

text \<open>The table by its rows: the reversed digits change places.\<close>

definition reverse_digit :: "nat list" where
  "reverse_digit = [0, 8, 4, 12, 2, 10, 6, 14, 1, 9, 5, 13, 3, 11, 7, 15]"

lemma reverse_table_rows:
  "my_bits_reverse_table =
    map word_of_nat (concat (map (\<lambda>h. map (\<lambda>l. reverse_digit ! h + 16 * reverse_digit ! l) [0..<16]) [0..<16]))"
  unfolding hex_upt by (simp add: my_bits_reverse_table_def reverse_digit_def)

lemma nth_concat_rows:
  "n < 16 * k \<Longrightarrow> concat (map (\<lambda>h. map (f h) [0..<16]) [0..<k]) ! n = f (n div 16) (n mod 16)"
proof (induction k)
  case (Suc k)
  have len: "length (concat (map (\<lambda>h. map (f h) [0..<16]) [0..<k])) = 16 * k"
    by (simp add: length_concat o_def sum_list_triv)
  show ?case
  proof (cases "n < 16 * k")
    case True
    then show ?thesis using Suc.IH by (simp add: nth_append len)
  next
    case False
    then have "n div 16 = k" "n mod 16 = n - 16 * k" "n - 16 * k < 16"
      using Suc.prems by (simp_all add: div_nat_eqI mod_nat_eqI)
    with False show ?thesis by (simp add: nth_append len)
  qed
qed simp

lemma bit_reverse_digit: "d < 16 \<Longrightarrow> bit (reverse_digit ! d) j \<longleftrightarrow> j < 4 \<and> bit d (3 - j)"
  and reverse_digit_less: "d < 16 \<Longrightarrow> reverse_digit ! d < 16"
proof -
  assume d: "d < 16"
  then show less: "reverse_digit ! d < 16"
    by (rule digit_cases) (simp_all add: reverse_digit_def)
  consider "j = 0" | "j = 1" | "j = 2" | "j = 3" | "4 \<le> j" by linarith
  then show "bit (reverse_digit ! d) j \<longleftrightarrow> j < 4 \<and> bit d (3 - j)"
  proof cases
    case 5
    with digit_bit_less [OF less, of j] show ?thesis by linarith
  qed (use d in \<open>simp, rule digit_cases; simp add: reverse_digit_def bit_iff_odd\<close>)+
qed

lemma bit_hex_pair:
  fixes d r :: nat
  assumes "d < 16" shows "bit (d + 16 * r) j \<longleftrightarrow> (if j < 4 then bit d j else bit r (j - 4))"
proof -
  have t: "take_bit 4 (d + 16 * r) = d" "drop_bit 4 (d + 16 * r) = r"
    using assms by (simp_all add: take_bit_eq_mod drop_bit_eq_div)
  have "bit (d + 16 * r) j \<longleftrightarrow> bit (take_bit 4 (d + 16 * r)) j" if "j < 4" using that by (simp add: bit_take_bit_iff)
  moreover have "bit (d + 16 * r) j \<longleftrightarrow> bit (drop_bit 4 (d + 16 * r)) (j - 4)" if "\<not> j < 4"
    using that by (simp add: bit_drop_bit_eq)
  ultimately show ?thesis unfolding t by simp
qed

lemma bit_reverse_table:
  assumes "n < 256"
  shows "bit (my_bits_reverse_table ! n) j \<longleftrightarrow> j < 8 \<and> bit n (7 - j)"
proof (cases "j < 8")
  case True
  let ?h = "n div 16" and ?l = "n mod 16"
  have hl: "?h < 16" "?l < 16" using assms by auto
  have e: "my_bits_reverse_table ! n = word_of_nat (reverse_digit ! ?h + 16 * reverse_digit ! ?l)"
    unfolding reverse_table_rows using assms
    by (subst nth_map) (simp_all add: length_concat o_def sum_list_triv nth_concat_rows)
  have n: "n = ?l + 16 * ?h" by simp
  have "bit (my_bits_reverse_table ! n) j \<longleftrightarrow> bit (reverse_digit ! ?h + 16 * reverse_digit ! ?l) j"
    unfolding e bit_of_nat_iff using True by simp
  also have "\<dots> \<longleftrightarrow> (if j < 4 then bit ?h (3 - j) else bit ?l (3 - (j - 4)))"
    using True by (auto simp: bit_hex_pair reverse_digit_less bit_reverse_digit hl)
  also have "\<dots> \<longleftrightarrow> bit (?l + 16 * ?h) (7 - j)"
    unfolding bit_hex_pair [OF hl(2)] using True by auto
  finally show ?thesis using True n by simp
next
  case False
  then show ?thesis using bit_imp_le_length [of "my_bits_reverse_table ! n" j] by auto
qed

lemma bit_low_octet: "bit (drop_bit k (v :: u32) AND 255) i \<longleftrightarrow> i < 8 \<and> bit v (k + i)"
proof -
  have m: "(255 :: u32) = mask 8" by (simp add: mask_eq_exp_minus_1)
  show ?thesis unfolding m by (auto simp: bit_simps)
qed

lemma bit_reverse_octet:
  "bit (my_bits_reverse_table ! unat (drop_bit k (v :: u32) AND 255)) j \<longleftrightarrow> j < 8 \<and> bit v (k + (7 - j))"
proof -
  have "drop_bit k v AND 255 \<le> 255" by (rule word_and_le1)
  then have "unat (drop_bit k v AND 255) < 256" by (simp add: word_le_nat_alt)
  note t = bit_reverse_table [OF this]
  show ?thesis unfolding t bit_unat bit_low_octet by auto
qed

lemma bit_reverse_bits: "bit (my_reverse_bits key) i \<longleftrightarrow> i < 32 \<and> bit key (31 - i)"
proof -
  define T where "T k = my_bits_reverse_table ! unat (drop_bit k key AND 255)" for k
  have T: "bit (T k) j \<longleftrightarrow> j < 8 \<and> bit key (k + (7 - j))" for k j
    unfolding T_def by (rule bit_reverse_octet)
  have "drop_bit 24 key = drop_bit 24 key AND 255"
  proof (rule bit_word_eqI)
    fix j assume "j < LENGTH(32)"
    show "bit (drop_bit 24 key) j = bit (drop_bit 24 key AND 255) j"
      unfolding bit_low_octet using bit_imp_le_length [of key "24 + j"] by (auto simp: bit_drop_bit_eq)
  qed
  then have e: "my_reverse_bits key = push_bit 24 (ucast (T 0)) OR push_bit 16 (ucast (T 8))
      OR push_bit 8 (ucast (T 16)) OR ucast (T 24)"
    unfolding my_reverse_bits_def T_def by (simp only: drop_bit_0 id_apply)
  consider "i < 8" | "8 \<le> i" "i < 16" | "16 \<le> i" "i < 24" | "24 \<le> i" "i < 32" | "32 \<le> i" by linarith
  then show ?thesis
    unfolding e bit_or_iff bit_push_bit_iff bit_ucast_iff T
    by cases (auto simp: possible_bit_word)
qed

lemma set_bits_eq: "1 \<le> n \<Longrightarrow> n \<le> 64 \<Longrightarrow> my_set_bits n = mask n"
proof (rule bit_word_eqI)
  fix j assume "1 \<le> n" "n \<le> 64" "j < LENGTH(64)"
  have "push_bit (n - 1) 1 - 1 = (mask (n - 1) :: u64)" by (simp add: mask_eq_exp_minus_1)
  then have "my_set_bits n = push_bit 1 (mask (n - 1)) OR 1" by (simp only: my_set_bits_def)
  then show "bit (my_set_bits n) j = bit (mask n :: u64) j"
    using \<open>1 \<le> n\<close> \<open>j < LENGTH(64)\<close>
    by (simp only: bit_or_iff bit_push_bit_iff bit_mask_iff bit_1_iff possible_bit_word) auto
qed

text \<open>The digit the loop stops at, and the first bit in it.\<close>

lemma last_bit_digit:
  assumes "d < 16"
  shows "last_bit ! d = 32 \<longleftrightarrow> d = 0" "d \<noteq> 0 \<Longrightarrow> last_bit ! d < 4 \<and> bit d (last_bit ! d) \<and> (\<forall>j < last_bit ! d. \<not> bit d j)"
proof -
  show "last_bit ! d = 32 \<longleftrightarrow> d = 0"
    using assms by (rule digit_cases) (simp_all add: last_bit_def)
  have "d \<noteq> 0 \<longrightarrow> last_bit ! d < 4 \<and> bit d (last_bit ! d) \<and> list_all (\<lambda>j. \<not> bit d j) [0..<last_bit ! d]"
    using assms by (rule digit_cases) (simp_all add: last_bit_def bit_iff_odd upt_conv_Cons)
  then show "d \<noteq> 0 \<Longrightarrow> last_bit ! d < 4 \<and> bit d (last_bit ! d) \<and> (\<forall>j < last_bit ! d. \<not> bit d j)"
    by (auto simp: list_all_iff)
qed

lemma bit_hex_digit: "bit (unat (drop_bit s (n :: u64) AND 0xF)) j \<longleftrightarrow> j < 4 \<and> bit n (s + j)"
proof -
  have m: "(0xF :: u64) = mask 4" by (simp add: mask_eq_exp_minus_1)
  show ?thesis unfolding m bit_unat by (auto simp: bit_simps)
qed

lemma find_first_digit_spec:
  assumes "n \<noteq> 0"
  shows "shift + 4 * fuel = 64 \<Longrightarrow> \<forall>j < shift. \<not> bit n j \<Longrightarrow>
    \<exists>k < 64. find_first_digit fuel n shift = Some k \<and> bit n k \<and> (\<forall>j < k. \<not> bit n j)"
proof (induction fuel arbitrary: shift)
  case 0
  then have "n = 0" by (intro bit_word_eqI) simp
  with assms show ?case by simp
next
  case (Suc fuel)
  define d where "d = unat (drop_bit shift n AND 0xF)"
  have d: "d < 16"
    unfolding d_def using word_and_le1 [of "drop_bit shift n" "0xF"] by (simp add: word_le_nat_alt)
  have bits: "bit d j \<longleftrightarrow> j < 4 \<and> bit n (shift + j)" for j
    unfolding d_def by (rule bit_hex_digit)
  have step: "find_first_digit (Suc fuel) n shift =
      (if last_bit ! d = 32 then find_first_digit fuel n (shift + 4) else Some (shift + last_bit ! d))"
    by (simp only: find_first_digit.simps Let_def d_def)
  show ?case
  proof (cases "d = 0")
    case True
    have "\<not> bit n j" if "j < shift + 4" for j
    proof (cases "j < shift")
      case False
      then have "j - shift < 4" "shift + (j - shift) = j" using that by linarith+
      then show ?thesis using bits [of "j - shift"] True by simp
    qed (use Suc.prems in blast)
    then show ?thesis unfolding step using Suc.IH [of "shift + 4"] Suc.prems(1) last_bit_digit(1) [OF d] True by simp
  next
    case False
    note l = last_bit_digit(2) [OF d False]
    have "\<not> bit n j" if "j < shift + last_bit ! d" for j
    proof (cases "j < shift")
      case False
      then have "j - shift < last_bit ! d" "shift + (j - shift) = j" using that by linarith+
      then show ?thesis using l bits [of "j - shift"] by auto
    qed (use Suc.prems in blast)
    moreover have "shift + last_bit ! d < 64" using conjunct1 [OF l] Suc.prems(1) by simp
    moreover have "bit n (shift + last_bit ! d)" using l bits [of "last_bit ! d"] by blast
    moreover have "last_bit ! d \<noteq> 32" using conjunct1 [OF l] by simp
    ultimately show ?thesis unfolding step by metis
  qed
qed

section \<open>Properties\<close>

text \<open>The parallel bit count of \<open>my_count_bits\<close> is the number of one bits of its argument.\<close>

theorem my_count_bits_correct: "unat (my_count_bits x) = card {j. bit x j}"
proof -
  have lo: "{j. bit (ucast x :: u32) j} = {j. j < 32 \<and> bit x j}"
    by (auto simp: bit_ucast_iff)
  have hi: "(\<lambda>j. 32 + j) ` {j. bit (ucast (drop_bit 32 x) :: u32) j} = {j. 32 \<le> j \<and> bit x j}"
    (is "?f ` ?H = ?S")
  proof -
    have "j \<in> ?f ` ?H" if "32 \<le> j" "bit x j" for j
      using that bit_imp_le_length [OF that(2)]
      by (intro image_eqI [of _ _ "j - 32"]) (simp_all add: bit_ucast_iff bit_drop_bit_eq)
    then show ?thesis by (auto simp: bit_ucast_iff bit_drop_bit_eq)
  qed
  have fin: "finite {j. bit x j}"
    by (rule finite_subset [of _ "{..<64}"]) (auto dest: bit_imp_le_length)
  have "{j. bit x j} = {j. j < 32 \<and> bit x j} \<union> ?S" by auto
  then have "card {j. bit x j} = card {j. j < 32 \<and> bit x j} + card ?S"
    using fin by (metis (no_types, lifting) card_Un_disjoint disjoint_iff finite_Un leD mem_Collect_eq)
  also have "\<dots> = card {j. bit (ucast x :: u32) j} + card ?H"
    unfolding lo hi [symmetric] by (simp add: card_image)
  finally have sum: "card {j. bit x j} = unat (my_count_bits_uint32 (ucast x)) + unat (my_count_bits_uint32 (ucast (drop_bit 32 x)))"
    by (simp add: unat_count_bits_uint32)
  have "card {j. bit x j} \<le> card {..<64 :: nat}"
    by (rule card_mono) (auto dest: bit_imp_le_length)
  then show ?thesis using sum by (simp add: my_count_bits_def unat_word_ariths)
qed

text \<open>
  \<open>my_bit_log2_uint64\<close> is the position of the highest one bit, and 0 for the argument 0.
\<close>

theorem my_bit_log2_correct:
  "if v = 0 then my_bit_log2_uint64 v = 0
   else 2 ^ my_bit_log2_uint64 v \<le> unat v \<and> unat v < 2 ^ Suc (my_bit_log2_uint64 v)"
  using log2_uint64 [of v] by (simp add: is_log2_def unat_eq_zero)

text \<open>
  \<open>my_round_up_to_next_power\<close> returns the least power of two that is not below its
  argument, for every argument from 1 to \<open>2 ^ 31\<close>; for 0 and above \<open>2 ^ 31\<close> it returns 0.
\<close>

theorem my_round_up_to_next_power_correct:
  "if 0 < unat v \<and> unat v \<le> 2 ^ 31
   then \<exists>k. unat (my_round_up_to_next_power v) = 2 ^ k \<and> unat v \<le> 2 ^ k \<and> 2 ^ k < 2 * unat v
   else my_round_up_to_next_power v = 0"
proof -
  consider "unat v = 0" | "unat v = 1" | "1 < unat v" "unat v \<le> 2 ^ 31" | "2 ^ 31 < unat v"
    by linarith
  then show ?thesis
  proof cases
    case 1
    then have "v = 0" by (simp add: unat_eq_zero)
    then show ?thesis by (simp add: my_round_up_to_next_power_def)
  next
    case 2
    then have "v = 1" by (simp add: word_unat_eq_iff)
    then show ?thesis by (auto simp: my_round_up_to_next_power_def intro: exI [of _ 0])
  next
    case 3
    have u31_u64: "(2 :: nat) ^ 31 < 2 ^ 64" by simp
    define k where "k = my_bit_log2_uint64 (word_of_nat (unat v - 1))"
    have "unat (word_of_nat m :: u64) = m" if "m < 2 ^ 64" for m
      using that by (simp add: unsigned_of_nat take_bit_nat_eq_self)
    then have "unat (word_of_nat (unat v - 1) :: u64) = unat v - 1"
      using 3(2) by (metis diff_le_self le_less_trans u31_u64)
    then have k: "2 ^ k \<le> unat v - 1" "unat v - 1 < 2 ^ Suc k"
      using log2_uint64 [of "word_of_nat (unat v - 1)"] 3(1) by (auto simp: is_log2_def k_def)
    then have kv: "2 ^ k < unat v" "unat v \<le> 2 ^ Suc k" using 3(1) by linarith+
    then have "2 ^ k < (2 :: nat) ^ 31" using 3(2) by linarith
    then have "k < 31" using power_less_imp_less_exp [of 2 k 31] by simp
    then have "(2 :: nat) ^ Suc k < 2 ^ 32" by (intro power_strict_increasing) simp_all
    then have "unat (word_of_nat (2 ^ Suc k) :: u32) = 2 ^ Suc k"
      unfolding unsigned_of_nat by (simp add: take_bit_nat_eq_self)
    then have "unat (2 ^ Suc k :: u32) = 2 ^ Suc k" by (simp only: of_nat_power of_nat_numeral)
    then show ?thesis using round_up_to_next_power_eq [OF kv] kv 3 by (auto intro!: exI [of _ "Suc k"])
  next
    case 4
    moreover have "unat v < 2 ^ 32" using unsigned_less [of v, where ?'a = nat] by simp
    ultimately show ?thesis using round_up_to_next_power_eq [of 31 v] by simp
  qed
qed

text \<open>\<open>my_reverse_bits\<close> reverses the 32 bits of its argument, and applied twice it is the identity.\<close>

theorem my_reverse_bits_correct:
  "(\<forall>i. bit (my_reverse_bits key) i = (i < 32 \<and> bit key (31 - i))) \<and> my_reverse_bits (my_reverse_bits key) = key"
proof (rule conjI)
  show "my_reverse_bits (my_reverse_bits key) = key"
    by (rule bit_word_eqI) (auto simp: bit_reverse_bits)
qed (simp add: bit_reverse_bits)

text \<open>
  \<open>my_find_first_bit\<close> always returns, with the position of the lowest one bit, and with 64 for 0.
\<close>

theorem my_find_first_bit_correct:
  "\<exists>k. my_find_first_bit n = Some k \<and>
     (if n = 0 then k = 64 else k < 64 \<and> bit n k \<and> (\<forall>j. bit n j \<longrightarrow> k \<le> j))"
proof (cases "n = 0")
  case False
  then obtain k where "k < 64" "find_first_digit 16 n 0 = Some k" "bit n k" "\<forall>j < k. \<not> bit n j"
    using find_first_digit_spec [OF False, of 0 16] by auto
  with False show ?thesis by (auto simp: my_find_first_bit_def not_less [symmetric])
qed (simp add: my_find_first_bit_def)

theorem my_find_first_bit_correct_witness:
  "my_find_first_bit 40 = Some 3 \<and> my_find_first_bit 0 = Some 64"
proof -
  obtain k where k: "my_find_first_bit 40 = Some k" "bit (40 :: u64) k" "\<forall>j. bit (40 :: u64) j \<longrightarrow> k \<le> j"
    using my_find_first_bit_correct [of 40] by auto
  have "bit (40 :: u64) 3" by (simp add: bit_iff_odd)
  then have "k \<le> 3" using k(3) by blast
  then have "k = 0 \<or> k = 1 \<or> k = 2 \<or> k = 3" by auto
  then have "k = 3" using k(2) by (auto simp: bit_iff_odd)
  then show ?thesis using k(1) by (simp add: my_find_first_bit_def)
qed

end
