(* ===== verification/Bitmap.thy ===== *)
theory Bitmap
  imports MyBit
begin

text \<open>
  The bitmaps of \<^verbatim>\<open>mysys/my_bitmap.c\<close> and \<^verbatim>\<open>include/my_bitmap.h\<close>.  The buffer is a list of 32-bit
  words; the code also reaches it byte by byte, and \<open>get_byte\<close> and \<open>put_byte\<close> are the bytes
  of a word on a low-byte-first machine.  \<open>last_word_ptr\<close> is the index of the last word.  Bit
  numbers are natural numbers below \<open>2 ^ 32\<close> and \<open>MY_BIT_NONE\<close> is \<open>2 ^ 32 - 1\<close>.  The abstract
  value of a bitmap is the set of its bits, \<open>bits\<close>.
\<close>

record my_bitmap =
  bitmap :: "u32 list"
  last_word_ptr :: nat
  last_word_mask :: u32
  n_bits :: nat

definition MY_BIT_NONE :: nat where
  "MY_BIT_NONE = 4294967295"

definition no_bytes_in_map :: "my_bitmap \<Rightarrow> nat" where
  "no_bytes_in_map m = (n_bits m + 7) div 8"

definition no_words_in_map :: "my_bitmap \<Rightarrow> nat" where
  "no_words_in_map m = (n_bits m + 31) div 32"

section \<open>Bytes of a word\<close>

definition get_byte :: "u32 \<Rightarrow> nat \<Rightarrow> u8" where
  "get_byte w p = ucast (drop_bit (8 * p) w)"

definition put_byte :: "u32 \<Rightarrow> nat \<Rightarrow> u8 \<Rightarrow> u32" where
  "put_byte w p b = (w AND NOT (push_bit (8 * p) 255)) OR push_bit (8 * p) (ucast b)"

text \<open>The byte at offset \<open>k\<close> of the buffer.\<close>

definition byte_at :: "my_bitmap \<Rightarrow> nat \<Rightarrow> u8" where
  "byte_at m k = get_byte (bitmap m ! (k div 4)) (k mod 4)"

definition set_byte :: "my_bitmap \<Rightarrow> nat \<Rightarrow> u8 \<Rightarrow> my_bitmap" where
  "set_byte m k b =
     m\<lparr>bitmap := (bitmap m)[k div 4 := put_byte (bitmap m ! (k div 4)) (k mod 4) b]\<rparr>"

text \<open>\<open>memset\<close> and the loops that store one byte value in a range of bytes.\<close>

fun fill_bytes :: "my_bitmap \<Rightarrow> nat \<Rightarrow> nat \<Rightarrow> u8 \<Rightarrow> my_bitmap" where
  "fill_bytes m k 0 b = m"
| "fill_bytes m k (Suc n) b = fill_bytes (set_byte m k b) (Suc k) n b"

section \<open>Masks\<close>

definition invers_last_byte_mask :: "nat \<Rightarrow> u8" where
  "invers_last_byte_mask nbits = last_byte_mask nbits XOR 255"

definition create_last_word_mask :: "my_bitmap \<Rightarrow> my_bitmap" where
  "create_last_word_mask m =
     (let mask = invers_last_byte_mask (n_bits m);
          m' = m\<lparr>last_word_ptr := no_words_in_map m - 1\<rparr>;
          sel = no_bytes_in_map m mod 4
      in if sel = 1 then m'\<lparr>last_word_mask := put_byte (NOT 0) 0 mask\<rparr>
         else if sel = 2 then m'\<lparr>last_word_mask := put_byte (put_byte (NOT 0) 0 0) 1 mask\<rparr>
         else if sel = 3 then m'\<lparr>last_word_mask := put_byte (put_byte 0 2 mask) 3 255\<rparr>
         else m'\<lparr>last_word_mask := put_byte 0 3 mask\<rparr>)"

definition last_word_mask_of :: "nat \<Rightarrow> u32" where
  "last_word_mask_of b =
     (let nbits = b + 1; mask = invers_last_byte_mask nbits; sel = (nbits + 7) div 8 mod 4
      in if sel = 1 then put_byte (NOT 0) 0 mask
         else if sel = 2 then put_byte (put_byte (NOT 0) 0 0) 1 mask
         else if sel = 3 then put_byte (put_byte 0 2 mask) 3 255
         else put_byte 0 3 mask)"

section \<open>Single bits\<close>

definition bitmap_set_bit :: "my_bitmap \<Rightarrow> nat \<Rightarrow> my_bitmap" where
  "bitmap_set_bit m b =
     set_byte m (b div 8) (byte_at m (b div 8) OR push_bit (b mod 8) 1)"

definition bitmap_flip_bit :: "my_bitmap \<Rightarrow> nat \<Rightarrow> my_bitmap" where
  "bitmap_flip_bit m b =
     set_byte m (b div 8) (byte_at m (b div 8) XOR push_bit (b mod 8) 1)"

definition bitmap_clear_bit :: "my_bitmap \<Rightarrow> nat \<Rightarrow> my_bitmap" where
  "bitmap_clear_bit m b =
     set_byte m (b div 8) (byte_at m (b div 8) AND NOT (push_bit (b mod 8) 1))"

definition bitmap_is_set :: "my_bitmap \<Rightarrow> nat \<Rightarrow> bool" where
  "bitmap_is_set m b = (byte_at m (b div 8) AND push_bit (b mod 8) 1 \<noteq> 0)"

definition bitmap_fast_test_and_set :: "my_bitmap \<Rightarrow> nat \<Rightarrow> u8 \<times> my_bitmap" where
  "bitmap_fast_test_and_set m bitmap_bit =
     (let value = byte_at m (bitmap_bit div 8); b = push_bit (bitmap_bit mod 8) 1
      in (value AND b, set_byte m (bitmap_bit div 8) (value OR b)))"

definition bitmap_test_and_set :: "my_bitmap \<Rightarrow> nat \<Rightarrow> u8 \<times> my_bitmap" where
  "bitmap_test_and_set m bitmap_bit = bitmap_fast_test_and_set m bitmap_bit"

definition bitmap_fast_test_and_clear :: "my_bitmap \<Rightarrow> nat \<Rightarrow> u8 \<times> my_bitmap" where
  "bitmap_fast_test_and_clear m bitmap_bit =
     (let value = byte_at m (bitmap_bit div 8); b = push_bit (bitmap_bit mod 8) 1
      in (value AND b, set_byte m (bitmap_bit div 8) (value AND NOT b)))"

definition bitmap_test_and_clear :: "my_bitmap \<Rightarrow> nat \<Rightarrow> u8 \<times> my_bitmap" where
  "bitmap_test_and_clear m bitmap_bit = bitmap_fast_test_and_clear m bitmap_bit"

section \<open>Whole bitmaps\<close>

definition bitmap_clear_all :: "my_bitmap \<Rightarrow> my_bitmap" where
  "bitmap_clear_all m = fill_bytes m 0 (4 * no_words_in_map m) 0"

definition bitmap_set_all :: "my_bitmap \<Rightarrow> my_bitmap" where
  "bitmap_set_all m = fill_bytes m 0 (4 * no_words_in_map m) 255"

text \<open>
  \<open>buf\<close> is the caller's buffer; without one, \<open>alloc\<close> is what \<open>my_malloc\<close> returns.
\<close>

definition my_bitmap_init ::
  "u32 list option \<Rightarrow> my_bitmap \<Rightarrow> u32 list option \<Rightarrow> nat \<Rightarrow> bool \<times> my_bitmap" where
  "my_bitmap_init alloc m buf nbits =
     (case (case buf of Some b \<Rightarrow> Some b | None \<Rightarrow> alloc) of
        None \<Rightarrow> (True, m)
      | Some b \<Rightarrow>
          (False, bitmap_clear_all (create_last_word_mask (m\<lparr>bitmap := b, n_bits := nbits\<rparr>))))"

definition my_bitmap_free :: "my_bitmap \<Rightarrow> my_bitmap" where
  "my_bitmap_free m = m\<lparr>bitmap := []\<rparr>"

text \<open>The words before the last one and the last word.\<close>

abbreviation front :: "my_bitmap \<Rightarrow> u32 list" where
  "front m \<equiv> take (last_word_ptr m) (bitmap m)"

abbreviation last_word :: "my_bitmap \<Rightarrow> u32" where
  "last_word m \<equiv> bitmap m ! last_word_ptr m"

definition bitmap_cmp :: "my_bitmap \<Rightarrow> my_bitmap \<Rightarrow> bool" where
  "bitmap_cmp m1 m2 =
     (if take (no_words_in_map m1 - 1) (bitmap m1) \<noteq> take (no_words_in_map m1 - 1) (bitmap m2)
      then False
      else last_word m1 OR last_word_mask m1 = last_word m2 OR last_word_mask m2)"

definition bitmap_is_set_all :: "my_bitmap \<Rightarrow> bool" where
  "bitmap_is_set_all m =
     (if \<not> list_all (\<lambda>w. w = 0xFFFFFFFF) (front m) then False
      else last_word m OR last_word_mask m = 0xFFFFFFFF)"

definition bitmap_is_clear_all :: "my_bitmap \<Rightarrow> bool" where
  "bitmap_is_clear_all m =
     (if \<not> list_all (\<lambda>w. w = 0) (front m) then False
      else last_word m AND NOT (last_word_mask m) = 0)"

definition bitmap_is_subset :: "my_bitmap \<Rightarrow> my_bitmap \<Rightarrow> bool" where
  "bitmap_is_subset m1 m2 =
     (if \<exists>i < last_word_ptr m1. bitmap m1 ! i AND NOT (bitmap m2 ! i) \<noteq> 0 then False
      else last_word m1 AND NOT (bitmap m2 ! last_word_ptr m1) AND NOT (last_word_mask m1) = 0)"

definition bitmap_is_overlapping :: "my_bitmap \<Rightarrow> my_bitmap \<Rightarrow> bool" where
  "bitmap_is_overlapping m1 m2 =
     (if \<exists>i < last_word_ptr m1. bitmap m1 ! i AND bitmap m2 ! i \<noteq> 0 then True
      else last_word m1 AND bitmap m2 ! last_word_ptr m1 AND NOT (last_word_mask m1) \<noteq> 0)"

definition bitmap_union_is_set_all :: "my_bitmap \<Rightarrow> my_bitmap \<Rightarrow> bool" where
  "bitmap_union_is_set_all m1 m2 =
     (if \<exists>i < last_word_ptr m1. bitmap m1 ! i OR bitmap m2 ! i \<noteq> 0xFFFFFFFF then False
      else last_word m1 OR bitmap m2 ! last_word_ptr m1 OR last_word_mask m1 \<noteq> 0xFFFFFFFF)"

text \<open>The loops \<open>while (to <= end) *to++ op= *from++\<close>.\<close>

definition zip_words :: "(u32 \<Rightarrow> u32 \<Rightarrow> u32) \<Rightarrow> my_bitmap \<Rightarrow> my_bitmap \<Rightarrow> my_bitmap" where
  "zip_words f m m2 =
     m\<lparr>bitmap := map (\<lambda>i. if i \<le> last_word_ptr m then f (bitmap m ! i) (bitmap m2 ! i)
                                   else bitmap m ! i) [0..<length (bitmap m)]\<rparr>"

definition bitmap_subtract :: "my_bitmap \<Rightarrow> my_bitmap \<Rightarrow> my_bitmap" where
  "bitmap_subtract m m2 = zip_words (\<lambda>a b. a AND NOT b) m m2"

definition bitmap_union :: "my_bitmap \<Rightarrow> my_bitmap \<Rightarrow> my_bitmap" where
  "bitmap_union m m2 = zip_words (\<lambda>a b. a OR b) m m2"

definition bitmap_xor :: "my_bitmap \<Rightarrow> my_bitmap \<Rightarrow> my_bitmap" where
  "bitmap_xor m m2 = zip_words (\<lambda>a b. a XOR b) m m2"

definition bitmap_copy :: "my_bitmap \<Rightarrow> my_bitmap \<Rightarrow> my_bitmap" where
  "bitmap_copy m m2 = zip_words (\<lambda>a b. b) m m2"

definition bitmap_invert :: "my_bitmap \<Rightarrow> my_bitmap" where
  "bitmap_invert m = zip_words (\<lambda>a b. a XOR 0xFFFFFFFF) m m"

text \<open>
  \<open>bitmap_intersect\<close> takes bitmaps of different lengths: the common words are intersected,
  the bits of the last word of \<open>m2\<close> behind its end are cleared, and so are the words of
  \<open>m\<close> behind it.
\<close>

definition bitmap_intersect :: "my_bitmap \<Rightarrow> my_bitmap \<Rightarrow> my_bitmap" where
  "bitmap_intersect m m2 =
     (let len = no_words_in_map m; len2 = no_words_in_map m2; e = min len len2;
          ws = map (\<lambda>i. if i < e then bitmap m ! i AND bitmap m2 ! i else bitmap m ! i)
                 [0..<length (bitmap m)]
      in if len2 \<le> len
         then let ws = ws[e - 1 := ws ! (e - 1) AND NOT (last_word_mask m2)]
              in m\<lparr>bitmap := map (\<lambda>i. if e \<le> i \<and> i < len then 0 else ws ! i) [0..<length ws]\<rparr>
         else m\<lparr>bitmap := ws\<rparr>)"

text \<open>
  \<open>arr\<close> are the bitmaps; the inner loop stops early when the intersection is empty already.
\<close>

fun and_words :: "u32 \<Rightarrow> my_bitmap list \<Rightarrow> nat \<Rightarrow> u32" where
  "and_words cur_res [] i = cur_res"
| "and_words cur_res (m # ms) i =
     (if cur_res = 0 then cur_res else and_words (cur_res AND bitmap m ! i) ms i)"

definition bitmap_exists_intersection :: "my_bitmap list \<Rightarrow> nat \<Rightarrow> nat \<Rightarrow> bool" where
  "bitmap_exists_intersection arr start_bit end_bit =
     (let start_idx = start_bit div 8 div 4; end_idx = end_bit div 8 div 4
      in if list_ex (\<lambda>i. and_words (NOT 0) arr i \<noteq> 0) [start_idx..<end_idx] then True
         else and_words (NOT (last_word_mask_of end_bit)) arr end_idx \<noteq> 0)"

definition bitmap_set_above :: "my_bitmap \<Rightarrow> nat \<Rightarrow> bool \<Rightarrow> my_bitmap" where
  "bitmap_set_above m from_byte use_bit =
     fill_bytes m from_byte ((n_bits m + 7) div 8 - from_byte) (if use_bit then 255 else 0)"

definition bitmap_set_prefix :: "my_bitmap \<Rightarrow> nat \<Rightarrow> my_bitmap" where
  "bitmap_set_prefix m prefix_size =
     (let prefix_size = min prefix_size (n_bits m);
          prefix_bytes = prefix_size div 8;
          m = fill_bytes m 0 prefix_bytes 255;
          prefix_bits = prefix_size mod 8;
          (m, prefix_bytes) =
            (if prefix_bits \<noteq> 0
             then (set_byte m prefix_bytes (push_bit prefix_bits 1 - 1), prefix_bytes + 1)
             else (m, prefix_bytes))
      in fill_bytes m prefix_bytes (no_bytes_in_map m - prefix_bytes) 0)"

definition bitmap_is_prefix :: "my_bitmap \<Rightarrow> nat \<Rightarrow> bool" where
  "bitmap_is_prefix m prefix_size =
     (let prefix_mask = last_byte_mask prefix_size in
      if prefix_size = 0 then True
      else
        let end_prefix = (prefix_size - 1) div 8; e = no_bytes_in_map m - 1 in
        if list_ex (\<lambda>k. byte_at m k \<noteq> 255) [0..<end_prefix] then False
        else if end_prefix = e then byte_at m end_prefix AND last_byte_mask (n_bits m) = prefix_mask
        else if byte_at m end_prefix \<noteq> prefix_mask then False
        else if list_ex (\<lambda>k. byte_at m k \<noteq> 0) [Suc end_prefix..<e] then False
        else byte_at m e AND last_byte_mask (n_bits m) = 0)"

section \<open>Searching\<close>

text \<open>
  The loops over the bytes of a word and the bits of a byte.  In C they have no end of their
  own and are entered only when there is something to find; here they end with the word, and
  \<open>MY_BIT_NONE\<close> is the unreachable return behind them.
\<close>

definition get_first_set :: "u32 \<Rightarrow> nat \<Rightarrow> nat" where
  "get_first_set value word_pos =
     (case find (\<lambda>byte_pos. get_byte value byte_pos \<noteq> 0) [0..<4] of
        None \<Rightarrow> MY_BIT_NONE
      | Some byte_pos \<Rightarrow>
          (case find (\<lambda>bit_pos. get_byte value byte_pos AND push_bit bit_pos 1 \<noteq> 0) [0..<8] of
             None \<Rightarrow> MY_BIT_NONE
           | Some bit_pos \<Rightarrow> word_pos * 32 + byte_pos * 8 + bit_pos))"

definition bitmap_get_first_set :: "my_bitmap \<Rightarrow> nat" where
  "bitmap_get_first_set m =
     (case find (\<lambda>i. bitmap m ! i \<noteq> 0) [0..<last_word_ptr m] of
        Some i \<Rightarrow> get_first_set (bitmap m ! i) i
      | None \<Rightarrow>
          if last_word m AND NOT (last_word_mask m) = 0 then MY_BIT_NONE
          else get_first_set (last_word m) (last_word_ptr m))"

definition bitmap_get_next_set :: "my_bitmap \<Rightarrow> nat \<Rightarrow> nat" where
  "bitmap_get_next_set m bitmap_bit =
     (let bitmap_bit = (bitmap_bit + 1) mod 2 ^ 32; e = last_word_ptr m in
      if bitmap_bit \<ge> n_bits m then MY_BIT_NONE
      else
        let word_pos = bitmap_bit div 32;
            byte_to_mask = bitmap_bit mod 32 div 8;
            first_word = fold (\<lambda>i w. put_byte w i 0) [0..<byte_to_mask] (bitmap m ! word_pos);
            first_word = put_byte first_word byte_to_mask
              (get_byte first_word byte_to_mask AND ucast (push_bit (bitmap_bit mod 8) 255 :: u32))
        in if word_pos = e then
             (if first_word AND NOT (last_word_mask m) \<noteq> 0 then get_first_set first_word word_pos
              else MY_BIT_NONE)
           else if first_word \<noteq> 0 then get_first_set first_word word_pos
           else (case find (\<lambda>i. bitmap m ! i \<noteq> 0) [Suc word_pos..<e] of
                   Some i \<Rightarrow> get_first_set (bitmap m ! i) i
                 | None \<Rightarrow>
                     if bitmap m ! e AND NOT (last_word_mask m) = 0 then MY_BIT_NONE
                     else get_first_set (bitmap m ! e) e))"

text \<open>\<open>bitmap_get_first\<close> sets the unused bits of the last word before it looks for a free one.\<close>

definition bitmap_get_first :: "my_bitmap \<Rightarrow> nat \<times> my_bitmap" where
  "bitmap_get_first m =
     (let m = m\<lparr>bitmap := (bitmap m)[last_word_ptr m := last_word m OR last_word_mask m]\<rparr>;
          found = (\<lambda>i. case find (\<lambda>j. get_byte (bitmap m ! i) j \<noteq> 255) [0..<4] of
             None \<Rightarrow> MY_BIT_NONE
           | Some j \<Rightarrow>
               (case find (\<lambda>k. get_byte (bitmap m ! i) j AND push_bit k 1 = 0) [0..<8] of
                  None \<Rightarrow> MY_BIT_NONE
                | Some k \<Rightarrow> i * 32 + j * 8 + k))
      in (case find (\<lambda>i. bitmap m ! i \<noteq> 0xFFFFFFFF) [0..<last_word_ptr m] of
            Some i \<Rightarrow> found i
          | None \<Rightarrow>
              if last_word m OR last_word_mask m = 0xFFFFFFFF then MY_BIT_NONE
              else found (last_word_ptr m), m))"

definition bitmap_set_next :: "my_bitmap \<Rightarrow> nat \<times> my_bitmap" where
  "bitmap_set_next m =
     (let (bit_found, m) = bitmap_get_first m
      in (bit_found, if bit_found \<noteq> MY_BIT_NONE then bitmap_set_bit m bit_found else m))"

definition bitmap_bits_set :: "my_bitmap \<Rightarrow> u32" where
  "bitmap_bits_set m =
     fold (\<lambda>w res. res + my_count_bits_uint32 w) (front m) 0
       + my_count_bits_uint32 (last_word m AND NOT (last_word_mask m))"

section \<open>The bits of a bitmap\<close>

definition wbit :: "my_bitmap \<Rightarrow> nat \<Rightarrow> bool" where
  "wbit m i = bit (bitmap m ! (i div 32)) (i mod 32)"

definition bits :: "my_bitmap \<Rightarrow> nat set" where
  "bits m = {i. i < n_bits m \<and> wbit m i}"

text \<open>
  A bitmap as \<open>my_bitmap_init\<close> leaves it: at least one bit, a buffer for all its words, the last
  word and the mask of the unused bits in it.
\<close>

definition map_ok :: "my_bitmap \<Rightarrow> bool" where
  "map_ok m \<longleftrightarrow> 0 < n_bits m \<and> n_bits m + 31 < 2 ^ 32 \<and> no_words_in_map m \<le> length (bitmap m)
     \<and> last_word_ptr m = no_words_in_map m - 1
     \<and> last_word_mask m = NOT (mask (Suc ((n_bits m - 1) mod 32)))"

lemma byte_255_mask: "(255 :: 'a::len word) = mask 8"
  by (simp add: mask_eq_exp_minus_1)

lemma word_max_eq: "(0xFFFFFFFF :: u32) = - 1"
  by simp

lemma bit_get_byte: "p < 4 \<Longrightarrow> bit (get_byte w p) j \<longleftrightarrow> j < 8 \<and> bit w (8 * p + j)"
  by (auto simp: get_byte_def bit_simps)

lemma bit_put_byte:
  assumes "p < 4"
  shows "bit (put_byte w p b) j \<longleftrightarrow> (if 8 * p \<le> j \<and> j < 8 * p + 8 then bit b (j - 8 * p) else bit w j)"
proof -
  have "bit w j \<Longrightarrow> j < 32" using bit_imp_le_length [of w j] by simp
  moreover have "bit b (j - 8 * p) \<Longrightarrow> j - 8 * p < 8" using bit_imp_le_length [of b] by simp
  ultimately show ?thesis
    using assms unfolding put_byte_def byte_255_mask by (auto simp: bit_simps)
qed

lemma word_index: "i div 32 = i div 8 div 4" "i mod 32 = 8 * (i div 8 mod 4) + i mod (8 :: nat)"
  using mod_mult2_eq [of i 8 4] by (simp_all flip: div_mult2_eq)

lemma same_octet: "r < 8 \<Longrightarrow> 8 * b \<le> 8 * a + r \<and> 8 * a + r < 8 * b + 8 \<longleftrightarrow> a = (b :: nat)"
  by arith

lemma bit_byte_at: "bit (byte_at m k) j \<longleftrightarrow> j < 8 \<and> wbit m (8 * k + j)"
proof (cases "j < 8")
  case True
  then have "(8 * k + j) div 32 = k div 4" "(8 * k + j) mod 32 = 8 * (k mod 4) + j"
    by (simp_all add: word_index)
  with True show ?thesis by (simp add: byte_at_def bit_get_byte wbit_def)
next
  case False
  then show ?thesis by (auto simp: byte_at_def bit_get_byte)
qed

lemma byte_at_bit: "bit (byte_at m (i div 8)) (i mod 8) \<longleftrightarrow> wbit m i"
  by (simp add: bit_byte_at)

lemma wbit_set_byte:
  assumes "k < 4 * length (bitmap m)"
  shows "wbit (set_byte m k b) i \<longleftrightarrow> (if i div 8 = k then bit b (i mod 8) else wbit m i)"
proof (cases "i div 8 div 4 = k div 4")
  case True
  have "8 * (k mod 4) \<le> i mod 32 \<and> i mod 32 < 8 * (k mod 4) + 8 \<longleftrightarrow> i div 8 mod 4 = k mod 4"
    unfolding word_index(2) by (rule same_octet) simp
  also have "\<dots> \<longleftrightarrow> i div 8 = k" using True by (metis mod_div_mult_eq)
  finally have "8 * (k mod 4) \<le> i mod 32 \<and> i mod 32 < 8 * (k mod 4) + 8 \<longleftrightarrow> i div 8 = k" .
  moreover have "i div 8 = k \<Longrightarrow> i mod 32 - 8 * (k mod 4) = i mod 8" by (simp add: word_index(2))
  moreover have "k div 4 < length (bitmap m)" using assms by auto
  ultimately show ?thesis
    using True by (auto simp: wbit_def set_byte_def bit_put_byte word_index(1))
next
  case False
  then have "i div 8 \<noteq> k" by auto
  with False show ?thesis by (simp add: wbit_def set_byte_def word_index(1))
qed

lemma set_byte_simps [simp]:
  "length (bitmap (set_byte m k b)) = length (bitmap m)" "n_bits (set_byte m k b) = n_bits m"
  "last_word_ptr (set_byte m k b) = last_word_ptr m" "last_word_mask (set_byte m k b) = last_word_mask m"
  by (simp_all add: set_byte_def)

lemma fill_bytes_simps [simp]:
  "length (bitmap (fill_bytes m k n b)) = length (bitmap m)" "n_bits (fill_bytes m k n b) = n_bits m"
  "last_word_ptr (fill_bytes m k n b) = last_word_ptr m"
  "last_word_mask (fill_bytes m k n b) = last_word_mask m"
  by (induction m k n b rule: fill_bytes.induct) simp_all

lemma wbit_fill_bytes:
  "k + n \<le> 4 * length (bitmap m) \<Longrightarrow>
   wbit (fill_bytes m k n b) i \<longleftrightarrow> (if k \<le> i div 8 \<and> i div 8 < k + n then bit b (i mod 8) else wbit m i)"
proof (induction m k n b rule: fill_bytes.induct)
  case (2 m k n b)
  then show ?case by (auto simp: wbit_set_byte)
qed auto

lemma words_simps [simp]:
  "no_words_in_map (set_byte m k b) = no_words_in_map m"
  "no_words_in_map (fill_bytes m k n b) = no_words_in_map m"
  "no_bytes_in_map (set_byte m k b) = no_bytes_in_map m"
  "no_bytes_in_map (fill_bytes m k n b) = no_bytes_in_map m"
  by (simp_all add: no_words_in_map_def no_bytes_in_map_def)

lemma map_ok_set_byte [simp]: "map_ok (set_byte m k b) \<longleftrightarrow> map_ok m"
  and map_ok_fill_bytes [simp]: "map_ok (fill_bytes m k n b) \<longleftrightarrow> map_ok m"
  by (simp_all add: map_ok_def)

text \<open>Where the bits of a bitmap are in its words.\<close>

lemma bit_mask: "map_ok m \<Longrightarrow> bit (last_word_mask m) j \<longleftrightarrow> j < 32 \<and> (n_bits m - 1) mod 32 < j"
  by (auto simp: map_ok_def bit_simps)

lemma map_okD:
  assumes "map_ok m"
  shows "last_word_ptr m < length (bitmap m)" "32 * last_word_ptr m < n_bits m"
    "n_bits m \<le> 32 * last_word_ptr m + 32" "n_bits m < MY_BIT_NONE"
    "no_words_in_map m = Suc (last_word_ptr m)"
  using assms by (auto simp: map_ok_def no_words_in_map_def MY_BIT_NONE_def)

lemma in_map_iff:
  assumes "map_ok m" "j < 32"
  shows "32 * k + j < n_bits m \<longleftrightarrow>
    k < last_word_ptr m \<or> k = last_word_ptr m \<and> \<not> bit (last_word_mask m) j"
proof -
  have "(n_bits m - 1) mod 32 = n_bits m - 1 - 32 * last_word_ptr m"
    using map_okD(2,3) [OF assms(1)] by (simp add: mod_nat_eqI)
  with assms map_okD(2,3) [OF assms(1)] show ?thesis by (auto simp: bit_mask)
qed

lemma all_bits_iff:
  assumes "map_ok m"
  shows "(\<forall>i < n_bits m. P (i div 32) (i mod 32)) \<longleftrightarrow>
    (\<forall>k < last_word_ptr m. \<forall>j < 32. P k j)
    \<and> (\<forall>j < 32. \<not> bit (last_word_mask m) j \<longrightarrow> P (last_word_ptr m) j)"
    (is "?L \<longleftrightarrow> ?R")
proof
  assume L: ?L
  have "P k j" if "j < 32" "k < last_word_ptr m \<or> k = last_word_ptr m \<and> \<not> bit (last_word_mask m) j" for k j
  proof -
    have "32 * k + j < n_bits m" using in_map_iff [OF assms that(1)] that(2) by blast
    moreover have "(32 * k + j) div 32 = k" "(32 * k + j) mod 32 = j" using that(1) by simp_all
    ultimately show ?thesis using L by metis
  qed
  then show ?R by blast
next
  assume R: ?R
  show ?L
  proof (intro allI impI)
    fix i assume "i < n_bits m"
    then have "i div 32 < last_word_ptr m \<or>
        i div 32 = last_word_ptr m \<and> \<not> bit (last_word_mask m) (i mod 32)"
      using in_map_iff [OF assms, of "i mod 32" "i div 32"] by simp
    with R show "P (i div 32) (i mod 32)" by auto
  qed
qed

lemma word_eq_0_iff: "(w :: u32) = 0 \<longleftrightarrow> (\<forall>j < 32. \<not> bit w j)"
  by (auto simp: bit_eq_iff bit_simps)

lemma word_eq_max_iff: "(w :: u32) = 0xFFFFFFFF \<longleftrightarrow> (\<forall>j < 32. bit w j)"
  unfolding word_max_eq by (auto simp: bit_eq_iff bit_simps)

lemma bits_eq_iff:
  assumes "map_ok m" "A \<subseteq> {0..<n_bits m}"
  shows "bits m = A \<longleftrightarrow> (\<forall>i < n_bits m. wbit m i \<longleftrightarrow> i \<in> A)"
  using assms by (auto simp: bits_def)

section \<open>The masks\<close>

lemma used_bits: "0 < n \<Longrightarrow> unat ((word_of_nat n - 1 :: u32) AND 7) = (n - 1) mod 8"
proof -
  assume "0 < n"
  have "(word_of_nat n - 1 :: u32) AND mask 3 = take_bit 3 (word_of_nat (n - 1))"
    using \<open>0 < n\<close> by (simp add: of_nat_diff Suc_leI take_bit_eq_mask)
  moreover have "mask 3 = (7 :: u32)" by (simp add: mask_eq_exp_minus_1)
  ultimately have "(word_of_nat n - 1 :: u32) AND 7 = take_bit 3 (word_of_nat (n - 1))" by simp
  then show ?thesis
    by (simp add: unsigned_take_bit_eq unsigned_of_nat take_bit_take_bit) (simp add: take_bit_eq_mod)
qed

lemma bit_last_byte_mask: "0 < n \<Longrightarrow> bit (last_byte_mask n) k \<longleftrightarrow> k \<le> (n - 1) mod 8"
proof -
  assume n: "0 < n"
  let ?u = "(n - 1) mod 8"
  have "?u < 8" by simp
  have "(push_bit ?u 2 - 1 :: u32) = mask (Suc ?u)"
    by (simp add: mask_eq_exp_minus_1 push_bit_eq_mult)
  then have "last_byte_mask n = ucast (mask (Suc ?u) :: u32)"
    using used_bits [OF n] by (simp add: last_byte_mask_def Let_def)
  with \<open>?u < 8\<close> show ?thesis by (auto simp: bit_simps simp del: mod_less_divisor)
qed

lemma bit_invers_last_byte_mask:
  "0 < n \<Longrightarrow> bit (invers_last_byte_mask n) k \<longleftrightarrow> k < 8 \<and> (n - 1) mod 8 < k"
  unfolding invers_last_byte_mask_def byte_255_mask
  by (auto simp: bit_simps bit_last_byte_mask)

lemma last_word_mask_of_eq: "last_word_mask_of b = NOT (mask (Suc (b mod 32)))"
proof (rule bit_word_eqI)
  fix j assume j: "j < LENGTH(32)"
  let ?s = "b div 8 mod 4" and ?u = "b mod 8"
  have t: "b mod 32 = 8 * ?s + ?u" "?u < 8" by (simp_all add: word_index(2))
  have sel: "(b + 1 + 7) div 8 mod 4 = (?s + 1) mod 4"
    using div_add_self2 [of 8 b] by (simp add: mod_simps add.commute)
  note bb = bit_put_byte bit_invers_last_byte_mask [of "b + 1", simplified] bit_simps byte_255_mask
  have "?s < 4" by simp
  then consider "?s = 0" | "?s = 1" | "?s = 2" | "?s = 3" by linarith
  then show "bit (last_word_mask_of b) j \<longleftrightarrow> bit (NOT (mask (Suc (b mod 32))) :: u32) j"
    using j t by cases (auto simp: last_word_mask_of_def Let_def sel [simplified] bb)
qed

lemma create_last_word_mask_eq:
  assumes "0 < n_bits m"
  shows "create_last_word_mask m = m\<lparr>last_word_ptr := no_words_in_map m - 1,
    last_word_mask := NOT (mask (Suc ((n_bits m - 1) mod 32)))\<rparr>"
proof -
  have "create_last_word_mask m = m\<lparr>last_word_ptr := no_words_in_map m - 1,
      last_word_mask := last_word_mask_of (n_bits m - 1)\<rparr>"
    using assms by (simp add: create_last_word_mask_def last_word_mask_of_def no_bytes_in_map_def Let_def)
  then show ?thesis by (simp add: last_word_mask_of_eq)
qed

section \<open>Each operation on the set of bits\<close>

lemma test_bit_iff: "(x :: 'a::len word) AND push_bit k 1 \<noteq> 0 \<longleftrightarrow> bit x k"
  by (simp add: bit_iff_and_push_bit_not_eq_0)

lemma same_bit_iff: "i div 8 = b div 8 \<and> i mod 8 = b mod (8 :: nat) \<longleftrightarrow> i = b"
  by (metis div_mult_mod_eq)

lemma byte_in_map:
  assumes "map_ok m" "b < n_bits m"
  shows "b div 8 < 4 * length (bitmap m)"
proof -
  have "n_bits m \<le> 32 * length (bitmap m)" using assms(1) map_okD(1,3) [OF assms(1)] by simp
  with assms(2) show ?thesis by auto
qed

lemma wbit_single:
  assumes "map_ok m" "b < n_bits m"
  shows "wbit (bitmap_set_bit m b) i \<longleftrightarrow> wbit m i \<or> i = b"
    and "wbit (bitmap_clear_bit m b) i \<longleftrightarrow> wbit m i \<and> i \<noteq> b"
    and "wbit (bitmap_flip_bit m b) i \<longleftrightarrow> (wbit m i \<noteq> (i = b))"
  using byte_in_map [OF assms] same_bit_iff [of i b] byte_at_bit [of m i]
  by (auto simp: bitmap_set_bit_def bitmap_clear_bit_def bitmap_flip_bit_def wbit_set_byte bit_simps)

lemma map_ok_single [simp]:
  "map_ok (bitmap_set_bit m b) \<longleftrightarrow> map_ok m" "map_ok (bitmap_clear_bit m b) \<longleftrightarrow> map_ok m"
  "map_ok (bitmap_flip_bit m b) \<longleftrightarrow> map_ok m"
  "n_bits (bitmap_set_bit m b) = n_bits m" "n_bits (bitmap_clear_bit m b) = n_bits m"
  "n_bits (bitmap_flip_bit m b) = n_bits m"
  by (simp_all add: bitmap_set_bit_def bitmap_clear_bit_def bitmap_flip_bit_def)

lemma bits_single:
  assumes "map_ok m" "b < n_bits m"
  shows "bits (bitmap_set_bit m b) = insert b (bits m)"
    and "bits (bitmap_clear_bit m b) = bits m - {b}"
    and "bits (bitmap_flip_bit m b) = (if b \<in> bits m then bits m - {b} else insert b (bits m))"
    and "bitmap_is_set m b \<longleftrightarrow> b \<in> bits m"
proof -
  show "bits (bitmap_set_bit m b) = insert b (bits m)" "bits (bitmap_clear_bit m b) = bits m - {b}"
    "bits (bitmap_flip_bit m b) = (if b \<in> bits m then bits m - {b} else insert b (bits m))"
    using assms by (auto simp: bits_def wbit_single)
  show "bitmap_is_set m b \<longleftrightarrow> b \<in> bits m"
    unfolding bitmap_is_set_def test_bit_iff using assms by (simp add: bits_def byte_at_bit)
qed

lemma test_and_eq:
  "bitmap_test_and_set m b = (byte_at m (b div 8) AND push_bit (b mod 8) 1, bitmap_set_bit m b)"
  "bitmap_test_and_clear m b = (byte_at m (b div 8) AND push_bit (b mod 8) 1, bitmap_clear_bit m b)"
  by (simp_all add: bitmap_test_and_set_def bitmap_fast_test_and_set_def bitmap_set_bit_def
      bitmap_test_and_clear_def bitmap_fast_test_and_clear_def bitmap_clear_bit_def Let_def)

lemma bits_fill_all:
  assumes "map_ok m"
  shows "bits (bitmap_clear_all m) = {}" "bits (bitmap_set_all m) = {0..<n_bits m}"
    and "map_ok (bitmap_clear_all m)" "map_ok (bitmap_set_all m)"
    and "n_bits (bitmap_clear_all m) = n_bits m" "n_bits (bitmap_set_all m) = n_bits m"
proof -
  let ?w = "no_words_in_map m"
  have len: "4 * ?w \<le> 4 * length (bitmap m)" using assms by (simp add: map_ok_def)
  have in_w: "i div 8 < 4 * ?w" if "i < n_bits m" for i
    using that map_okD(3,5) [OF assms] by auto
  have "bit (255 :: u8) (i mod 8)" for i :: nat
    unfolding byte_255_mask by (simp add: bit_simps)
  with len in_w show "bits (bitmap_clear_all m) = {}" "bits (bitmap_set_all m) = {0..<n_bits m}"
    by (auto simp: bits_def bitmap_clear_all_def bitmap_set_all_def wbit_fill_bytes)
  show "map_ok (bitmap_clear_all m)" "map_ok (bitmap_set_all m)"
    "n_bits (bitmap_clear_all m) = n_bits m" "n_bits (bitmap_set_all m) = n_bits m"
    using assms by (simp_all add: bitmap_clear_all_def bitmap_set_all_def)
qed

lemma zip_words_simps [simp]:
  "n_bits (zip_words f m m2) = n_bits m" "last_word_ptr (zip_words f m m2) = last_word_ptr m"
  "last_word_mask (zip_words f m m2) = last_word_mask m"
  "length (bitmap (zip_words f m m2)) = length (bitmap m)"
  "map_ok (zip_words f m m2) \<longleftrightarrow> map_ok m"
  by (simp_all add: zip_words_def map_ok_def no_words_in_map_def)

lemma wbit_zip_words:
  assumes "map_ok m" "i < n_bits m"
  shows "wbit (zip_words f m m2) i = bit (f (bitmap m ! (i div 32)) (bitmap m2 ! (i div 32))) (i mod 32)"
proof -
  have "i div 32 \<le> last_word_ptr m" using assms(2) map_okD(3) [OF assms(1)] by auto
  then show ?thesis using map_okD(1) [OF assms(1)] by (simp add: wbit_def zip_words_def)
qed

lemma bits_zip:
  assumes "map_ok m" "map_ok m2" "n_bits m2 = n_bits m"
  shows "bits (bitmap_union m m2) = bits m \<union> bits m2"
    and "bits (bitmap_subtract m m2) = bits m - bits m2"
    and "bits (bitmap_xor m m2) = (bits m - bits m2) \<union> (bits m2 - bits m)"
    and "bits (bitmap_copy m m2) = bits m2"
    and "bits (bitmap_invert m) = {0..<n_bits m} - bits m"
  unfolding bits_def bitmap_union_def bitmap_subtract_def bitmap_xor_def bitmap_copy_def
    bitmap_invert_def word_max_eq
  by (use assms in \<open>auto simp: wbit_zip_words wbit_def [of m] wbit_def [of m2] bit_simps\<close>)

lemma map_ok_zip:
  "map_ok m \<Longrightarrow> map_ok (bitmap_union m m2) \<and> map_ok (bitmap_subtract m m2) \<and> map_ok (bitmap_xor m m2)
    \<and> map_ok (bitmap_copy m m2) \<and> map_ok (bitmap_invert m)"
  by (simp add: bitmap_union_def bitmap_subtract_def bitmap_xor_def bitmap_copy_def bitmap_invert_def)

section \<open>Tests\<close>

lemma is_set_all_iff: "map_ok m \<Longrightarrow> bitmap_is_set_all m \<longleftrightarrow> bits m = {0..<n_bits m}"
proof -
  assume ok: "map_ok m"
  have "bits m = {0..<n_bits m} \<longleftrightarrow> (\<forall>i < n_bits m. bit (bitmap m ! (i div 32)) (i mod 32))"
    by (subst bits_eq_iff [OF ok]) (auto simp: wbit_def)
  also have "\<dots> \<longleftrightarrow> bitmap_is_set_all m"
    unfolding all_bits_iff [OF ok, of "\<lambda>k j. bit (bitmap m ! k) j"]
    using map_okD(1) [OF ok]
    by (auto simp: bitmap_is_set_all_def list_all_length word_eq_max_iff bit_simps)
  finally show ?thesis by blast
qed

lemma is_clear_all_iff: "map_ok m \<Longrightarrow> bitmap_is_clear_all m \<longleftrightarrow> bits m = {}"
proof -
  assume ok: "map_ok m"
  have "bits m = {} \<longleftrightarrow> (\<forall>i < n_bits m. \<not> bit (bitmap m ! (i div 32)) (i mod 32))"
    by (subst bits_eq_iff [OF ok]) (auto simp: wbit_def)
  also have "\<dots> \<longleftrightarrow> bitmap_is_clear_all m"
    unfolding all_bits_iff [OF ok, of "\<lambda>k j. \<not> bit (bitmap m ! k) j"]
    using map_okD(1) [OF ok]
    by (auto simp: bitmap_is_clear_all_def list_all_length word_eq_0_iff bit_simps)
  finally show ?thesis by blast
qed

lemma is_subset_iff:
  assumes ok: "map_ok m1" "map_ok m2" "n_bits m2 = n_bits m1"
  shows "bitmap_is_subset m1 m2 \<longleftrightarrow> bits m1 \<subseteq> bits m2"
proof -
  have "bits m1 \<subseteq> bits m2 \<longleftrightarrow> (\<forall>i < n_bits m1.
      \<not> (bit (bitmap m1 ! (i div 32)) (i mod 32) \<and> \<not> bit (bitmap m2 ! (i div 32)) (i mod 32)))"
    using ok(3) by (auto simp: bits_def wbit_def)
  also have "\<dots> \<longleftrightarrow> bitmap_is_subset m1 m2"
    unfolding all_bits_iff [OF ok(1), of "\<lambda>k j. \<not> (bit (bitmap m1 ! k) j \<and> \<not> bit (bitmap m2 ! k) j)"]
    by (auto simp: bitmap_is_subset_def word_eq_0_iff bit_simps)
  finally show ?thesis by blast
qed

lemma is_overlapping_iff:
  assumes ok: "map_ok m1" "map_ok m2" "n_bits m2 = n_bits m1"
  shows "bitmap_is_overlapping m1 m2 \<longleftrightarrow> bits m1 \<inter> bits m2 \<noteq> {}"
proof -
  have "bits m1 \<inter> bits m2 = {} \<longleftrightarrow> (\<forall>i < n_bits m1.
      \<not> (bit (bitmap m1 ! (i div 32)) (i mod 32) \<and> bit (bitmap m2 ! (i div 32)) (i mod 32)))"
    using ok(3) by (auto simp: bits_def wbit_def)
  also have "\<dots> \<longleftrightarrow> \<not> bitmap_is_overlapping m1 m2"
    unfolding all_bits_iff [OF ok(1), of "\<lambda>k j. \<not> (bit (bitmap m1 ! k) j \<and> bit (bitmap m2 ! k) j)"]
    by (auto simp: bitmap_is_overlapping_def word_eq_0_iff bit_simps)
  finally show ?thesis by blast
qed

lemma cmp_iff:
  assumes ok: "map_ok m1" "map_ok m2" "n_bits m2 = n_bits m1"
  shows "bitmap_cmp m1 m2 \<longleftrightarrow> bits m1 = bits m2"
proof -
  have l: "last_word_ptr m2 = last_word_ptr m1" "last_word_mask m2 = last_word_mask m1"
    using ok by (simp_all add: map_ok_def no_words_in_map_def)
  have tk: "take (last_word_ptr m1) (bitmap m1) = take (last_word_ptr m1) (bitmap m2) \<longleftrightarrow>
      (\<forall>k < last_word_ptr m1. \<forall>j < 32. bit (bitmap m1 ! k) j \<longleftrightarrow> bit (bitmap m2 ! k) j)"
    using map_okD(1) [OF ok(1)] map_okD(1) [OF ok(2)] l
    by (auto simp: list_eq_iff_nth_eq bit_eq_iff)
  have "bits m1 = bits m2 \<longleftrightarrow> (\<forall>i < n_bits m1.
      bit (bitmap m1 ! (i div 32)) (i mod 32) \<longleftrightarrow> bit (bitmap m2 ! (i div 32)) (i mod 32))"
    using ok(3) by (auto simp: bits_def wbit_def)
  also have "\<dots> \<longleftrightarrow> bitmap_cmp m1 m2"
    unfolding all_bits_iff [OF ok(1), of "\<lambda>k j. bit (bitmap m1 ! k) j \<longleftrightarrow> bit (bitmap m2 ! k) j"]
    using map_okD(5) [OF ok(1)]
    by (simp add: bitmap_cmp_def tk l) (auto simp: bit_eq_iff bit_simps)
  finally show ?thesis by blast
qed

section \<open>The first bit\<close>

lemma find_upt_Some:
  assumes "find P [a..<b] = Some i"
  shows "a \<le> i" "i < b" "P i" "\<And>k. a \<le> k \<Longrightarrow> k < i \<Longrightarrow> \<not> P k"
proof -
  obtain n where n: "n < b - a" "P ([a..<b] ! n)" "i = [a..<b] ! n" "\<forall>j<n. \<not> P ([a..<b] ! j)"
    using assms by (auto simp: find_Some_iff)
  then have i: "i = a + n" by simp
  with n show "a \<le> i" "i < b" "P i" by auto
  show "\<not> P k" if "a \<le> k" "k < i" for k
    using n(1,4) [unfolded nth_upt] that i by (auto dest: spec [of _ "k - a"])
qed

lemma find_upt_None: "find P [a..<b] = None \<longleftrightarrow> (\<forall>k. a \<le> k \<and> k < b \<longrightarrow> \<not> P k)"
  by (auto simp: find_None_iff)

lemma byte_eq_0_iff: "(b :: u8) = 0 \<longleftrightarrow> (\<forall>j < 8. \<not> bit b j)"
  by (auto simp: bit_eq_iff)

lemma get_first_set_spec:
  assumes "v \<noteq> 0"
  shows "\<exists>j < 32. get_first_set v w = w * 32 + j \<and> bit v j \<and> (\<forall>j' < j. \<not> bit v j')"
proof -
  obtain j where "j < 32" "bit v j" using assms by (auto simp: word_eq_0_iff)
  then have "j div 8 < 4" "bit (get_byte v (j div 8)) (j mod 8)" by (simp_all add: bit_get_byte)
  then have "get_byte v (j div 8) \<noteq> 0" "j div 8 < 4" by auto
  then obtain p where p: "find (\<lambda>p. get_byte v p \<noteq> 0) [0..<4] = Some p"
    by (cases "find (\<lambda>p. get_byte v p \<noteq> 0) [0..<4]") (auto simp: find_upt_None)
  note pp = find_upt_Some [OF p]
  obtain r0 where "r0 < 8" "bit (get_byte v p) r0" using pp(3) by (auto simp: byte_eq_0_iff)
  then obtain r where r: "find (\<lambda>k. get_byte v p AND push_bit k 1 \<noteq> 0) [0..<8] = Some r"
    unfolding test_bit_iff
    by (cases "find (\<lambda>k. bit (get_byte v p) k) [0..<8]") (auto simp: find_upt_None)
  note rr = find_upt_Some [OF r, unfolded test_bit_iff]
  have "get_first_set v w = w * 32 + (8 * p + r)"
    unfolding get_first_set_def p option.case r by simp
  moreover have "bit v (8 * p + r)" using rr(3) pp(2) by (simp add: bit_get_byte)
  moreover have "\<not> bit v j'" if "j' < 8 * p + r" for j'
  proof (cases "j' < 8 * p")
    case True
    then have "get_byte v (j' div 8) = 0" "j' div 8 < 4" using pp(2) pp(4) [of "j' div 8"] by auto
    then have "\<not> bit (get_byte v (j' div 8)) (j' mod 8)" by simp
    then show ?thesis using \<open>j' div 8 < 4\<close> by (simp add: bit_get_byte)
  next
    case False
    then have "\<not> bit (get_byte v p) (j' - 8 * p)" "j' - 8 * p < 8" using rr(2,4) that by auto
    then show ?thesis using pp(2) False by (simp add: bit_get_byte)
  qed
  moreover have "8 * p + r < 32" using pp(2) rr(2) by simp
  ultimately show ?thesis by blast
qed

text \<open>The search of the three functions, over words \<open>W a, \<dots>, W e\<close>.\<close>

definition first_in_words :: "(nat \<Rightarrow> u32) \<Rightarrow> nat \<Rightarrow> nat \<Rightarrow> u32 \<Rightarrow> nat" where
  "first_in_words W a e msk =
     (case find (\<lambda>i. W i \<noteq> 0) [a..<e] of
        Some i \<Rightarrow> get_first_set (W i) i
      | None \<Rightarrow> if W e AND NOT msk = 0 then MY_BIT_NONE else get_first_set (W e) e)"

lemma first_in_words_spec:
  assumes ok: "map_ok m" and a: "a \<le> last_word_ptr m"
    and S: "S = {i. 32 * a \<le> i \<and> i < n_bits m \<and> bit (W (i div 32)) (i mod 32)}"
  shows "first_in_words W a (last_word_ptr m) (last_word_mask m)
    = (if S = {} then MY_BIT_NONE else Min S)"
proof -
  let ?e = "last_word_ptr m"
  have min: "get_first_set (W i) i = Min S \<and> S \<noteq> {}"
    if i: "a \<le> i" "i \<le> ?e" "\<And>k. a \<le> k \<Longrightarrow> k < i \<Longrightarrow> W k = 0" 
      and j: "j < 32" "bit (W i) j" "i * 32 + j < n_bits m" for i j
  proof -
    from j(2) have "W i \<noteq> 0" by auto
    from get_first_set_spec [OF this, of i] obtain r where
      r: "r < 32" "get_first_set (W i) i = i * 32 + r" "bit (W i) r" "\<forall>r' < r. \<not> bit (W i) r'"
      by blast
    have "r \<le> j" using r(4) j(2) not_less by blast
    then have "i * 32 + r \<in> S" using r i j by (auto simp: S)
    moreover have "i * 32 + r \<le> x" if "x \<in> S" for x
    proof (rule ccontr)
      assume "\<not> i * 32 + r \<le> x"
      then have "x div 32 < i \<or> x div 32 = i \<and> x mod 32 < r" 
        using r(1) div_mult_mod_eq [of x 32] by (cases "x div 32" i rule: linorder_cases) auto
      moreover have "a \<le> x div 32" using that by (auto simp: S)
      ultimately show False using that i(3) [of "x div 32"] r(4) by (auto simp: S)
    qed
    moreover have "finite S" by (simp add: S)
    ultimately show ?thesis using r(2) by (auto intro!: Min_eqI [symmetric])
  qed
  show ?thesis
  proof (cases "find (\<lambda>i. W i \<noteq> 0) [a..<?e]")
    case (Some i)
    note ii = find_upt_Some [OF this]
    obtain j where j: "j < 32" "bit (W i) j" using ii(3) by (auto simp: word_eq_0_iff)
    have "i * 32 + j < n_bits m" using ii(2) j(1) map_okD(2) [OF ok] by linarith
    then have "get_first_set (W i) i = Min S \<and> S \<noteq> {}"
      using ii j by (intro min) auto
    with Some show ?thesis by (simp add: first_in_words_def)
  next
    case None
    then have z: "\<And>k. a \<le> k \<Longrightarrow> k < ?e \<Longrightarrow> W k = 0" by (simp add: find_upt_None)
    show ?thesis
    proof (cases "W ?e AND NOT (last_word_mask m) = 0")
      case True
      have False if "x \<in> S" for x
      proof -
        have "x div 32 = ?e \<and> \<not> bit (last_word_mask m) (x mod 32)"
          using that z [of "x div 32"] in_map_iff [OF ok, of "x mod 32" "x div 32"] by (auto simp: S)
        with True that show False by (auto simp: S word_eq_0_iff bit_simps)
      qed
      then show ?thesis using None True by (auto simp: first_in_words_def)
    next
      case False
      then obtain j where j: "bit (W ?e) j" "j < 32" "j \<le> (n_bits m - 1) mod 32"
        by (auto simp: word_eq_0_iff bit_simps bit_mask [OF ok])
      then have "?e * 32 + j < n_bits m"
        using in_map_iff [OF ok j(2), of ?e] by (simp add: bit_mask [OF ok] mult.commute)
      with j have "get_first_set (W ?e) ?e = Min S \<and> S \<noteq> {}"
        using z a by (intro min) auto
      with None False show ?thesis by (simp add: first_in_words_def)
    qed
  qed
qed

lemma get_first_set_eq:
  assumes "map_ok m"
  shows "bitmap_get_first_set m = (if bits m = {} then MY_BIT_NONE else Min (bits m))"
proof -
  have "bitmap_get_first_set m = first_in_words ((!) (bitmap m)) 0 (last_word_ptr m) (last_word_mask m)"
    by (simp add: bitmap_get_first_set_def first_in_words_def)
  also have "\<dots> = (if bits m = {} then MY_BIT_NONE else Min (bits m))"
    by (rule first_in_words_spec [OF assms]) (simp_all add: bits_def wbit_def)
  finally show ?thesis .
qed

lemma bit_fold_put_byte:
  "q \<le> 4 \<Longrightarrow> bit (fold (\<lambda>i w. put_byte w i 0) [0..<q] w) j \<longleftrightarrow> 8 * q \<le> j \<and> bit w j"
  by (induction q) (auto simp: bit_put_byte)

text \<open>The word \<open>bitmap_get_next_set\<close> starts with: the bits below \<open>b\<close> cleared.\<close>

lemma bit_first_word:
  fixes w :: u32 and b :: nat
  defines "q \<equiv> b mod 32 div 8"
  defines "v \<equiv> fold (\<lambda>i w. put_byte w i 0) [0..<q] w"
  shows "bit (put_byte v q (get_byte v q AND ucast (push_bit (b mod 8) 255 :: u32))) j
    \<longleftrightarrow> b mod 32 \<le> j \<and> bit w j"
proof -
  have q: "q < 4" by (simp add: q_def)
  have b: "b mod 32 = 8 * q + b mod 8"
    by (simp add: q_def word_index(2))
  have m: "bit (push_bit (b mod 8) 255 :: u32) k \<longleftrightarrow> b mod 8 \<le> k \<and> k < b mod 8 + 8 \<and> k < 32" for k
    unfolding byte_255_mask by (auto simp: bit_simps)
  have v: "bit v k \<longleftrightarrow> 8 * q \<le> k \<and> bit w k" for k
    using q by (simp add: v_def bit_fold_put_byte)
  have u: "bit (ucast (push_bit (b mod 8) 255 :: u32) :: u8) k \<longleftrightarrow> b mod 8 \<le> k" if "k < 8" for k
    using that m [of k] by (simp add: bit_ucast_iff)
  show ?thesis
  proof (cases "8 * q \<le> j \<and> j < 8 * q + 8")
    case True
    then have "j - 8 * q < 8" "8 * q + (j - 8 * q) = j" "8 * q + b mod 8 \<le> j \<longleftrightarrow> b mod 8 \<le> j - 8 * q"
      by linarith+
    with True q show ?thesis
      by (simp add: bit_put_byte bit_and_iff bit_get_byte v u b conj_commute)
  next
    case False
    then have "8 * q \<le> j \<longleftrightarrow> 8 * q + b mod 8 \<le> j"
      using mod_less_divisor [of 8 b] by linarith
    with False q show ?thesis by (auto simp: bit_put_byte v b)
  qed
qed

lemma get_next_set_eq:
  assumes ok: "map_ok m" and b: "b < 2 ^ 32 - 1"
  defines "S \<equiv> {i \<in> bits m. b < i}"
  shows "bitmap_get_next_set m b = (if S = {} then MY_BIT_NONE else Min S)"
proof (cases "Suc b < n_bits m")
  case False
  then have "S = {}" by (auto simp: S_def bits_def)
  with False b show ?thesis by (simp add: bitmap_get_next_set_def)
next
  case True
  define q where "q = Suc b mod 32 div 8"
  define v where "v = fold (\<lambda>i w. put_byte w i 0) [0..<q] (bitmap m ! (Suc b div 32))"
  define w where "w = put_byte v q (get_byte v q AND ucast (push_bit (Suc b mod 8) 255 :: u32))"
  define W where "W = ((!) (bitmap m)) (Suc b div 32 := w)"
  let ?e = "last_word_ptr m"
  have e: "Suc b div 32 \<le> ?e" using True map_okD(3) [OF ok] by simp
  have bw: "bit w j \<longleftrightarrow> Suc b mod 32 \<le> j \<and> bit (bitmap m ! (Suc b div 32)) j" for j
    unfolding w_def v_def q_def by (rule bit_first_word)
  have upt: "[Suc b div 32..<?e] = Suc b div 32 # [Suc (Suc b div 32)..<?e]" if "Suc b div 32 \<noteq> ?e"
    using that e by (simp add: upt_conv_Cons)
  have fnd: "find (\<lambda>i. W i \<noteq> 0) [Suc (Suc b div 32)..<?e] = find (\<lambda>i. bitmap m ! i \<noteq> 0) [Suc (Suc b div 32)..<?e]"
    by (rule find_cong) (auto simp: W_def)
  have "bitmap_get_next_set m b = first_in_words W (Suc b div 32) ?e (last_word_mask m)"
    using True b e upt fnd unfolding bitmap_get_next_set_def first_in_words_def
    by (auto simp: Let_def W_def q_def [symmetric] v_def [symmetric] w_def [symmetric]
        split: option.splits dest: find_upt_Some(1))
  also have "\<dots> = (if S = {} then MY_BIT_NONE else Min S)"
  proof (rule first_in_words_spec [OF ok e])
    have "bit (W (i div 32)) (i mod 32) \<longleftrightarrow> Suc b \<le> i \<and> wbit m i" if "32 * (Suc b div 32) \<le> i" for i
    proof (cases "i div 32 = Suc b div 32")
      case True
      then have "Suc b mod 32 \<le> i mod 32 \<longleftrightarrow> Suc b \<le> i"
        using div_mult_mod_eq [of i 32] div_mult_mod_eq [of "Suc b" 32] by linarith
      with True show ?thesis by (simp add: W_def bw wbit_def)
    next
      case False
      then have "Suc b div 32 < i div 32" using that by (simp add: div_le_mono le_neq_implies_less less_eq_div_iff_mult_less_eq mult.commute)
      then have "Suc b \<le> i" by (meson div_le_mono leD nat_le_linear)
      with False show ?thesis by (simp add: W_def wbit_def)
    qed
    moreover have "32 * (Suc b div 32) \<le> i" if "b < i" for i
      using that div_times_less_eq_dividend [of "Suc b" 32] by (simp add: mult.commute)
    ultimately show "S = {i. 32 * (Suc b div 32) \<le> i \<and> i < n_bits m \<and> bit (W (i div 32)) (i mod 32)}"
      by (auto simp: S_def bits_def Suc_le_eq)
  qed
  finally show ?thesis .
qed

lemma get_byte_not: "p < 4 \<Longrightarrow> get_byte (NOT v) p = NOT (get_byte v p)"
  by (auto simp: bit_eq_iff bit_get_byte bit_not_iff)

lemma not_eq_0_iff: "NOT w = 0 \<longleftrightarrow> w = (- 1 :: 'a::len word)"
  by (metis bit.compl_zero bit.double_compl)

lemma byte_max_eq: "(255 :: u8) = - 1"
  by simp

lemma test_bit_0_iff: "(x :: 'a::len word) AND push_bit k 1 = 0 \<longleftrightarrow> \<not> bit x k"
  using test_bit_iff [of x k] by blast

lemma found_eq:
  "(case find (\<lambda>j. get_byte v j \<noteq> 255) [0..<4] of None \<Rightarrow> MY_BIT_NONE
    | Some j \<Rightarrow> (case find (\<lambda>k. get_byte v j AND push_bit k 1 = 0) [0..<8] of
        None \<Rightarrow> MY_BIT_NONE | Some k \<Rightarrow> i * 32 + j * 8 + k)) = get_first_set (NOT v) i"
proof -
  have "find (\<lambda>j. get_byte v j \<noteq> 255) [0..<4] = find (\<lambda>j. get_byte (NOT v) j \<noteq> 0) [0..<4]"
    unfolding byte_max_eq by (rule find_cong) (simp_all add: get_byte_not not_eq_0_iff)
  moreover have "find (\<lambda>k. get_byte v j AND push_bit k 1 = 0) [0..<8] =
      find (\<lambda>k. get_byte (NOT v) j AND push_bit k 1 \<noteq> 0) [0..<8]" if "j < 4" for j
    unfolding test_bit_iff test_bit_0_iff
    by (rule find_cong) (use that in \<open>simp_all add: get_byte_not bit_not_iff\<close>)
  ultimately show ?thesis
    unfolding get_first_set_def by (auto split: option.splits dest: find_upt_Some(2))
qed

lemma get_first_eq:
  assumes ok: "map_ok m"
  defines "m' \<equiv> m\<lparr>bitmap := (bitmap m)[last_word_ptr m := last_word m OR last_word_mask m]\<rparr>"
  defines "S \<equiv> {0..<n_bits m} - bits m"
  shows "bitmap_get_first m = (if S = {} then MY_BIT_NONE else Min S, m')"
    and "map_ok m'" and "bits m' = bits m" and "n_bits m' = n_bits m"
proof -
  show ok': "map_ok m'" using ok by (simp add: m'_def map_ok_def no_words_in_map_def)
  show n: "n_bits m' = n_bits m" by (simp add: m'_def)
  have l: "last_word_ptr m' = last_word_ptr m" "last_word_mask m' = last_word_mask m"
    by (simp_all add: m'_def)
  have "wbit m' i = wbit m i" if "i < n_bits m" for i
    using that in_map_iff [OF ok, of "i mod 32" "i div 32"] map_okD(1) [OF ok]
    by (auto simp: m'_def wbit_def nth_list_update bit_or_iff)
  then show b: "bits m' = bits m" by (auto simp: bits_def n)
  have S: "S = {i. 32 * 0 \<le> i \<and> i < n_bits m' \<and> bit (NOT (bitmap m' ! (i div 32))) (i mod 32)}"
    unfolding S_def n b [symmetric] by (auto simp: bits_def n wbit_def bit_not_iff)
  have "fst (bitmap_get_first m) = first_in_words (\<lambda>i. NOT (bitmap m' ! i)) 0 (last_word_ptr m') (last_word_mask m')"
    unfolding bitmap_get_first_def m'_def [symmetric] Let_def found_eq first_in_words_def
    by (simp add: word_max_eq l not_eq_0_iff flip: bit.de_Morgan_disj split: option.splits)
  also have "\<dots> = (if S = {} then MY_BIT_NONE else Min S)"
    by (rule first_in_words_spec [OF ok' _ S]) simp
  finally show "bitmap_get_first m = (if S = {} then MY_BIT_NONE else Min S, m')"
    by (simp add: bitmap_get_first_def m'_def Let_def)
qed

lemma set_next_eq:
  assumes ok: "map_ok m"
  shows "bits m = {0..<n_bits m} \<Longrightarrow> fst (bitmap_set_next m) = MY_BIT_NONE \<and> bits (snd (bitmap_set_next m)) = bits m"
    and "bits m \<noteq> {0..<n_bits m} \<Longrightarrow>
      fst (bitmap_set_next m) = Min ({0..<n_bits m} - bits m)
      \<and> bits (snd (bitmap_set_next m)) = insert (Min ({0..<n_bits m} - bits m)) (bits m)"
    and "map_ok (snd (bitmap_set_next m))" and "n_bits (snd (bitmap_set_next m)) = n_bits m"
proof -
  let ?S = "{0..<n_bits m} - bits m"
  note g = get_first_eq [OF ok]
  have sub: "bits m \<subseteq> {0..<n_bits m}" by (auto simp: bits_def)
  show "bits m = {0..<n_bits m} \<Longrightarrow> fst (bitmap_set_next m) = MY_BIT_NONE \<and> bits (snd (bitmap_set_next m)) = bits m"
    using g(1,3) by (simp add: bitmap_set_next_def)
  show "map_ok (snd (bitmap_set_next m))" "n_bits (snd (bitmap_set_next m)) = n_bits m"
    using g by (simp_all add: bitmap_set_next_def)
  assume ne: "bits m \<noteq> {0..<n_bits m}"
  then have S: "?S \<noteq> {}" using sub by blast
  then have "Min ?S \<in> ?S" by (intro Min_in) auto
  then have lt: "Min ?S < n_bits m" by simp
  moreover have "Min ?S \<noteq> MY_BIT_NONE" using lt map_okD(4) [OF ok] by simp
  ultimately show "fst (bitmap_set_next m) = Min ?S
      \<and> bits (snd (bitmap_set_next m)) = insert (Min ?S) (bits m)"
    unfolding bitmap_set_next_def g(1) using S bits_single(1) [OF g(2), of "Min ?S"] g(3,4) by simp
qed

section \<open>Prefixes\<close>

lemma map_ok_fill_simps [simp]:
  "map_ok (bitmap_set_prefix m p) \<longleftrightarrow> map_ok m" "n_bits (bitmap_set_prefix m p) = n_bits m"
  "map_ok (bitmap_set_above m k u) \<longleftrightarrow> map_ok m" "n_bits (bitmap_set_above m k u) = n_bits m"
  by (simp_all add: bitmap_set_prefix_def bitmap_set_above_def Let_def)

lemma no_bytes_in_map_le: "map_ok m \<Longrightarrow> no_bytes_in_map m \<le> 4 * length (bitmap m)"
proof -
  assume ok: "map_ok m"
  have "n_bits m \<le> 32 * length (bitmap m)" using map_okD(1,3) [OF ok] by simp
  then show ?thesis unfolding no_bytes_in_map_def by linarith
qed

lemma octet_less_iff: "i < q \<longleftrightarrow> i div 8 < q div 8 \<or> i div 8 = q div 8 \<and> i mod 8 < q mod (8 :: nat)"
  using div_mult_mod_eq [of i 8] div_mult_mod_eq [of q 8] mod_less_divisor [of 8 i] mod_less_divisor [of 8 q]
  by linarith

lemma bits_set_prefix:
  assumes ok: "map_ok m"
  shows "bits (bitmap_set_prefix m p) = {i. i < n_bits m \<and> i < p}"
proof -
  define q where "q = min p (n_bits m)"
  have len: "no_bytes_in_map m \<le> 4 * length (bitmap m)" by (rule no_bytes_in_map_le [OF ok])
  have q: "q \<le> n_bits m" by (simp add: q_def)
  have nb: "n_bits m \<le> 8 * no_bytes_in_map m" by (simp add: no_bytes_in_map_def)
  have m8: "push_bit r 1 - 1 = (mask r :: u8)" for r :: nat
    by (simp add: mask_eq_exp_minus_1)
  have "wbit (bitmap_set_prefix m p) i \<longleftrightarrow> i < q" if i: "i < n_bits m" for i
  proof (cases "q mod 8 = 0")
    case True
    have "q div 8 \<le> no_bytes_in_map m" "i div 8 < no_bytes_in_map m" using q nb i by linarith+
    with True len show ?thesis
      unfolding bitmap_set_prefix_def q_def [symmetric] Let_def octet_less_iff [of i q] byte_255_mask
      by (auto simp: wbit_fill_bytes bit_mask_iff)
  next
    case False
    then have "q div 8 < no_bytes_in_map m" "i div 8 < no_bytes_in_map m"
      using q nb i div_mult_mod_eq [of q 8] by linarith+
    with False len show ?thesis
      unfolding bitmap_set_prefix_def q_def [symmetric] Let_def octet_less_iff [of i q] byte_255_mask m8
      by (auto simp: wbit_fill_bytes wbit_set_byte bit_mask_iff)
  qed
  then show ?thesis by (auto simp: bits_def q_def)
qed

lemma byte_eq_iff: "(a :: u8) = b \<longleftrightarrow> (\<forall>j < 8. bit a j \<longleftrightarrow> bit b j)"
  by (auto simp: bit_eq_iff)

lemma prefix_bytes_iff:
  fixes B :: "nat \<Rightarrow> nat \<Rightarrow> bool" and E e P N :: nat
  assumes "E \<le> e" "E = e \<Longrightarrow> P \<le> N"
  shows "(\<forall>k. \<forall>j < 8. k < e \<or> k = e \<and> j \<le> N \<longrightarrow> (B k j \<longleftrightarrow> k < E \<or> k = E \<and> j \<le> P)) \<longleftrightarrow>
    (\<forall>k < E. \<forall>j < 8. B k j) \<and>
    (if E = e then \<forall>j < 8. B E j \<and> j \<le> N \<longleftrightarrow> j \<le> P
     else (\<forall>j < 8. B E j \<longleftrightarrow> j \<le> P) \<and> (\<forall>k. E < k \<and> k < e \<longrightarrow> (\<forall>j < 8. \<not> B k j))
       \<and> (\<forall>j < 8. j \<le> N \<longrightarrow> \<not> B e j))" (is "?L \<longleftrightarrow> ?R")
proof (cases "E = e")
  case True
  then have le: "P \<le> N" using assms(2) by blast
  show ?thesis
  proof
    assume L: ?L
    have "B E j \<and> j \<le> N \<longleftrightarrow> j \<le> P" if "j < 8" for j
      using L [rule_format, of j E] that le True by linarith
    moreover have "B k j" if "k < E" "j < 8" for k j
      using L [rule_format, of j k] that True by blast
    ultimately show ?R using True by simp
  next
    assume R: ?R
    show ?L
    proof (intro allI impI)
      fix k j :: nat assume "j < 8" "k < e \<or> k = e \<and> j \<le> N"
      with R True show "B k j \<longleftrightarrow> k < E \<or> k = E \<and> j \<le> P" by auto
    qed
  qed
next
  case False
  with assms(1) have lt: "E < e" by simp
  show ?thesis
  proof
    assume ?L
    with lt show ?R by auto
  next
    assume R: ?R
    show ?L
    proof (intro allI impI)
      fix k j :: nat assume "j < 8" "k < e \<or> k = e \<and> j \<le> N"
      with R lt show "B k j \<longleftrightarrow> k < E \<or> k = E \<and> j \<le> P"
        by (cases k E rule: linorder_cases) auto
    qed
  qed
qed

lemma is_prefix_iff:
  assumes ok: "map_ok m" and p: "0 < p" "p \<le> n_bits m"
  shows "bitmap_is_prefix m p \<longleftrightarrow> bits m = {0..<p}"
proof -
  let ?E = "(p - 1) div 8" and ?e = "no_bytes_in_map m - 1" and ?B = "\<lambda>k j. wbit m (8 * k + j)"
  have n: "0 < n_bits m" using ok by (simp add: map_ok_def)
  have e: "?e = (n_bits m - 1) div 8" using n unfolding no_bytes_in_map_def by linarith
  have lt: "8 * k + j < q \<longleftrightarrow> k < (q - 1) div 8 \<or> k = (q - 1) div 8 \<and> j \<le> (q - 1) mod 8"
    if "j < 8" "0 < q" for k j q :: nat
    using that div_mult_mod_eq [of "q - 1" 8] mod_less_divisor [of 8 "q - 1"] by linarith
  have E: "?E \<le> ?e" unfolding e using p by (intro div_le_mono) simp
  have "bits m = {0..<p} \<longleftrightarrow> (\<forall>k. \<forall>j < 8. 8 * k + j < n_bits m \<longrightarrow> (?B k j \<longleftrightarrow> 8 * k + j < p))"
    (is "_ = ?R")
  proof
    assume ?R
    then have "wbit m i \<longleftrightarrow> i < p" if "i < n_bits m" for i
      using that by (metis div_mult_mod_eq mod_less_divisor mult.commute zero_less_numeral)
    then show "bits m = {0..<p}" using p by (auto simp: bits_def)
  qed (use p in \<open>auto simp: bits_def set_eq_iff\<close>)
  also have "\<dots> \<longleftrightarrow> (\<forall>k. \<forall>j < 8. k < ?e \<or> k = ?e \<and> j \<le> (n_bits m - 1) mod 8 \<longrightarrow>
      (?B k j \<longleftrightarrow> k < ?E \<or> k = ?E \<and> j \<le> (p - 1) mod 8))"
    unfolding e using p n by (simp add: lt)
  also have "\<dots> \<longleftrightarrow> bitmap_is_prefix m p"
  proof -
    have full: "byte_at m k = 255 \<longleftrightarrow> (\<forall>j < 8. ?B k j)" for k
      unfolding byte_255_mask by (auto simp: byte_eq_iff bit_byte_at bit_mask_iff)
    have zero: "byte_at m k = 0 \<longleftrightarrow> (\<forall>j < 8. \<not> ?B k j)" for k
      by (auto simp: byte_eq_iff bit_byte_at)
    have pm: "byte_at m k = last_byte_mask p \<longleftrightarrow> (\<forall>j < 8. ?B k j \<longleftrightarrow> j \<le> (p - 1) mod 8)" for k
      using p by (auto simp: byte_eq_iff bit_byte_at bit_last_byte_mask)
    have lm: "byte_at m k AND last_byte_mask (n_bits m) = last_byte_mask p \<longleftrightarrow>
        (\<forall>j < 8. ?B k j \<and> j \<le> (n_bits m - 1) mod 8 \<longleftrightarrow> j \<le> (p - 1) mod 8)"
      "byte_at m k AND last_byte_mask (n_bits m) = 0 \<longleftrightarrow>
        (\<forall>j < 8. j \<le> (n_bits m - 1) mod 8 \<longrightarrow> \<not> ?B k j)" for k
      using p n by (auto simp: byte_eq_iff bit_byte_at bit_last_byte_mask bit_and_iff)
    have "?E = ?e \<Longrightarrow> (p - 1) mod 8 \<le> (n_bits m - 1) mod 8"
      using p div_mult_mod_eq [of "p - 1" 8] div_mult_mod_eq [of "n_bits m - 1" 8] unfolding e by linarith
    then have P: "?E = ?e \<Longrightarrow> (p - 1) mod 8 \<le> (n_bits m - 1) mod 8" .
    have ex1: "list_ex (\<lambda>k. byte_at m k \<noteq> 255) [0..<?E] \<longleftrightarrow> \<not> (\<forall>k < ?E. \<forall>j < 8. ?B k j)"
      unfolding full by (auto simp: list_ex_iff)
    have ex2: "list_ex (\<lambda>k. byte_at m k \<noteq> 0) [Suc ?E..<?e] \<longleftrightarrow>
        \<not> (\<forall>k. ?E < k \<and> k < ?e \<longrightarrow> (\<forall>j < 8. \<not> ?B k j))"
      unfolding zero by (auto simp: list_ex_iff Suc_le_eq)
    have "p \<noteq> 0" using p by simp
    moreover note prefix_bytes_iff [of ?E ?e "(p - 1) mod 8" "(n_bits m - 1) mod 8" ?B, OF E P]
    ultimately show ?thesis
      unfolding bitmap_is_prefix_def Let_def ex1 ex2 pm lm by argo
  qed
  finally show ?thesis by blast
qed

section \<open>Several bitmaps\<close>

text \<open>The bits of \<open>m\<close> that are bits of \<open>m2\<close>, of any two lengths.\<close>

lemma intersect_simps [simp]:
  "n_bits (bitmap_intersect m m2) = n_bits m" "map_ok (bitmap_intersect m m2) \<longleftrightarrow> map_ok m"
  by (simp_all add: bitmap_intersect_def Let_def map_ok_def no_words_in_map_def)

lemma nth_intersect:
  assumes ok: "map_ok m" "map_ok m2" and k: "k \<le> last_word_ptr m"
  shows "bitmap (bitmap_intersect m m2) ! k =
    (if k < last_word_ptr m2 then bitmap m ! k AND bitmap m2 ! k
     else if k = last_word_ptr m2 then bitmap m ! k AND bitmap m2 ! k AND NOT (last_word_mask m2)
     else 0)"
proof -
  have l: "k < length (bitmap m)" using map_okD(1) [OF ok(1)] k by simp
  with k show ?thesis
    unfolding bitmap_intersect_def Let_def map_okD(5) [OF ok(1)] map_okD(5) [OF ok(2)]
    by (cases "last_word_ptr m2 \<le> last_word_ptr m")
      (auto simp: nth_list_update and.assoc min_def not_less_eq_eq)
qed

lemma bits_intersect:
  assumes ok: "map_ok m" "map_ok m2"
  shows "bits (bitmap_intersect m m2) = bits m \<inter> bits m2"
proof -
  have "wbit (bitmap_intersect m m2) i \<longleftrightarrow> i < n_bits m2 \<and> wbit m i \<and> wbit m2 i" if "i < n_bits m" for i
  proof -
    have "i div 32 \<le> last_word_ptr m" using that map_okD(3) [OF ok(1)] by auto
    moreover have "i < n_bits m2 \<longleftrightarrow>
        i div 32 < last_word_ptr m2 \<or> i div 32 = last_word_ptr m2 \<and> \<not> bit (last_word_mask m2) (i mod 32)"
      using in_map_iff [OF ok(2), of "i mod 32" "i div 32"] by simp
    ultimately show ?thesis
      unfolding wbit_def by (auto simp: nth_intersect [OF ok] bit_and_iff bit_not_iff)
  qed
  then show ?thesis by (auto simp: bits_def)
qed

lemma union_is_set_all_front:
  assumes ok: "map_ok m1" "map_ok m2" "n_bits m2 = n_bits m1"
  shows "bitmap_union_is_set_all m1 m2 \<longleftrightarrow>
    {0..<32 * last_word_ptr m1} \<subseteq> bits m1 \<union> bits m2 \<and> bits m1 \<union> bits m2 \<noteq> {0..<n_bits m1}"
proof -
  let ?e = "last_word_ptr m1"
  let ?U = "\<lambda>k j. bit (bitmap m1 ! k) j \<or> bit (bitmap m2 ! k) j"
  have "bits m1 \<union> bits m2 = {0..<n_bits m1} \<longleftrightarrow> (\<forall>i < n_bits m1. ?U (i div 32) (i mod 32))"
    unfolding set_eq_iff by (simp add: bits_def wbit_def ok(3)) blast
  note all = this [unfolded all_bits_iff [OF ok(1), of ?U]]
  have "{0..<32 * ?e} \<subseteq> bits m1 \<union> bits m2 \<longleftrightarrow> (\<forall>i < 32 * ?e. ?U (i div 32) (i mod 32))"
    using ok(3) map_okD(2) [OF ok(1)] by (auto simp: bits_def wbit_def subset_iff)
  also have "\<dots> \<longleftrightarrow> (\<forall>k < ?e. \<forall>j < 32. ?U k j)"
  proof (intro iffI allI impI)
    fix k j :: nat assume all: "\<forall>i < 32 * ?e. ?U (i div 32) (i mod 32)" and kj: "k < ?e" "j < 32"
    have "32 * k + j < 32 * ?e" "(32 * k + j) div 32 = k" "(32 * k + j) mod 32 = j" using kj by simp_all
    with all show "?U k j" by metis
  next
    fix i assume "\<forall>k < ?e. \<forall>j < 32. ?U k j" "i < 32 * ?e"
    moreover from this have "i div 32 < ?e" by simp
    ultimately show "?U (i div 32) (i mod 32)" by simp
  qed
  finally have front: "{0..<32 * ?e} \<subseteq> bits m1 \<union> bits m2 \<longleftrightarrow> (\<forall>k < ?e. \<forall>j < 32. ?U k j)" .
  have "(\<exists>k < ?e. bitmap m1 ! k OR bitmap m2 ! k \<noteq> 0xFFFFFFFF) \<longleftrightarrow> \<not> (\<forall>k < ?e. \<forall>j < 32. ?U k j)"
    unfolding word_eq_max_iff bit_or_iff by blast
  moreover have "last_word m1 OR bitmap m2 ! ?e OR last_word_mask m1 = 0xFFFFFFFF \<longleftrightarrow>
      (\<forall>j < 32. \<not> bit (last_word_mask m1) j \<longrightarrow> ?U ?e j)"
    unfolding word_eq_max_iff bit_or_iff by blast
  ultimately show ?thesis unfolding all front bitmap_union_is_set_all_def by argo
qed

lemma bit_and_words:
  "bit (and_words c ms k) j \<longleftrightarrow> bit c j \<and> (\<forall>m \<in> set ms. bit (bitmap m ! k) j)"
  by (induction c ms k rule: and_words.induct) (auto simp: bit_and_iff)

lemma exists_intersection_iff:
  assumes ok: "\<forall>m \<in> set arr. map_ok m \<and> e < n_bits m" and se: "s \<le> e"
    and out: "\<exists>m \<in> set arr. bits m \<subseteq> {s..e}"
  shows "bitmap_exists_intersection arr s e \<longleftrightarrow> (\<exists>i. s \<le> i \<and> i \<le> e \<and> (\<forall>m \<in> set arr. i \<in> bits m))"
    (is "_ \<longleftrightarrow> ?R")
proof -
  let ?all = "\<lambda>k j. \<forall>m \<in> set arr. bit (bitmap m ! k) j"
  have idx: "a div 8 div 4 = a div 32" for a :: nat by (simp flip: div_mult2_eq)
  have last: "bit (NOT (last_word_mask_of e)) j \<longleftrightarrow> j < 32 \<and> j \<le> e mod 32" for j
    unfolding last_word_mask_of_eq by (auto simp: bit_simps)
  have nz: "w \<noteq> 0 \<longleftrightarrow> (\<exists>j < 32. bit w j)" for w :: u32
    using word_eq_0_iff by blast
  have "bitmap_exists_intersection arr s e \<longleftrightarrow>
      (\<exists>k j. s div 32 \<le> k \<and> k < e div 32 \<and> j < 32 \<and> ?all k j) \<or> (\<exists>j < 32. j \<le> e mod 32 \<and> ?all (e div 32) j)"
    unfolding bitmap_exists_intersection_def Let_def idx nz bit_and_words last
    by (simp add: list_ex_iff) (metis atLeastLessThan_iff)
  also have "\<dots> \<longleftrightarrow> ?R"
  proof
    assume "(\<exists>k j. s div 32 \<le> k \<and> k < e div 32 \<and> j < 32 \<and> ?all k j) \<or> (\<exists>j < 32. j \<le> e mod 32 \<and> ?all (e div 32) j)"
    then obtain k j where kj: "j < 32" "?all k j" "k < e div 32 \<or> k = e div 32 \<and> j \<le> e mod 32"
      by blast
    then have kj: "j < 32" "?all k j" "32 * k + j \<le> e"
      using div_mult_mod_eq [of e 32] by (simp, blast, linarith)
    have "\<forall>m \<in> set arr. 32 * k + j \<in> bits m" using kj ok by (auto simp: bits_def wbit_def)
    moreover have "s \<le> 32 * k + j" using out calculation by auto
    ultimately show ?R using kj by blast
  next
    assume ?R
    then obtain i where i: "s \<le> i" "i \<le> e" "\<forall>m \<in> set arr. i \<in> bits m" by blast
    then have "?all (i div 32) (i mod 32)" by (auto simp: bits_def wbit_def)
    moreover have "s div 32 \<le> i div 32" "i div 32 \<le> e div 32" using i by (simp_all add: div_le_mono)
    moreover have "i mod 32 \<le> e mod 32" if "i div 32 = e div 32"
      using that i(2) div_mult_mod_eq [of i 32] div_mult_mod_eq [of e 32] by linarith
    ultimately show "(\<exists>k j. s div 32 \<le> k \<and> k < e div 32 \<and> j < 32 \<and> ?all k j) \<or> (\<exists>j < 32. j \<le> e mod 32 \<and> ?all (e div 32) j)"
      by (metis le_neq_implies_less mod_less_divisor zero_less_numeral)
  qed
  finally show ?thesis .
qed

lemma init_ok:
  assumes n: "0 < n" "n + 31 < 2 ^ 32" and len: "(n + 31) div 32 \<le> length buf"
    and b: "b = Some buf \<or> b = None \<and> alloc = Some buf"
  shows "fst (my_bitmap_init alloc m b n) = False"
    "map_ok (snd (my_bitmap_init alloc m b n))"
    "bits (snd (my_bitmap_init alloc m b n)) = {}"
    "n_bits (snd (my_bitmap_init alloc m b n)) = n"
proof -
  let ?m = "create_last_word_mask (m\<lparr>bitmap := buf, n_bits := n\<rparr>)"
  have e: "my_bitmap_init alloc m b n = (False, bitmap_clear_all ?m)"
    using b by (auto simp: my_bitmap_init_def)
  have ok: "map_ok ?m"
    using n len by (subst create_last_word_mask_eq) (simp_all add: map_ok_def no_words_in_map_def)
  have nb: "n_bits ?m = n" using n by (subst create_last_word_mask_eq) simp_all
  show "fst (my_bitmap_init alloc m b n) = False" "map_ok (snd (my_bitmap_init alloc m b n))"
    "bits (snd (my_bitmap_init alloc m b n)) = {}" "n_bits (snd (my_bitmap_init alloc m b n)) = n"
    using bits_fill_all [OF ok] nb by (simp_all add: e)
qed

section \<open>A bitmap as an allocator of numbers\<close>

text \<open>
  What the server uses \<open>bitmap_set_next\<close> for: handing out the smallest free number below a
  capacity.  \<open>none\<close> is the answer when there is none left.
\<close>

locale number_allocator =
  fixes inv :: "'s \<Rightarrow> bool" and used :: "'s \<Rightarrow> nat set" and capacity :: "'s \<Rightarrow> nat"
    and alloc :: "'s \<Rightarrow> nat \<times> 's" and release :: "'s \<Rightarrow> nat \<Rightarrow> 's" and none :: nat
  assumes used_sub: "inv s \<Longrightarrow> used s \<subseteq> {0..<capacity s}"
    and none_out: "inv s \<Longrightarrow> capacity s \<le> none"
    and alloc_inv: "inv s \<Longrightarrow> inv (snd (alloc s)) \<and> capacity (snd (alloc s)) = capacity s"
    and alloc_full: "inv s \<Longrightarrow> used s = {0..<capacity s} \<Longrightarrow>
      fst (alloc s) = none \<and> used (snd (alloc s)) = used s"
    and alloc_free: "inv s \<Longrightarrow> used s \<noteq> {0..<capacity s} \<Longrightarrow>
      fst (alloc s) = Min ({0..<capacity s} - used s) \<and> used (snd (alloc s)) = insert (fst (alloc s)) (used s)"
    and release_law: "inv s \<Longrightarrow> k < capacity s \<Longrightarrow>
      inv (release s k) \<and> capacity (release s k) = capacity s \<and> used (release s k) = used s - {k}"
begin

primrec alloc_many :: "nat \<Rightarrow> 's \<Rightarrow> nat list \<times> 's" where
  "alloc_many 0 s = ([], s)"
| "alloc_many (Suc n) s = (let (k, s) = alloc s; (ks, s) = alloc_many n s in (k # ks, s))"

lemma alloc_prefix:
  assumes "inv s" "used s = {0..<a}" "a < capacity s"
  shows "fst (alloc s) = a" "used (snd (alloc s)) = {0..<Suc a}"
proof -
  have ne: "used s \<noteq> {0..<capacity s}"
    using assms(2,3) by (metis atLeastLessThan_iff less_irrefl zero_le)
  have "Min ({0..<capacity s} - {0..<a}) = a"
    using assms(3) by (intro Min_eqI) auto
  then show "fst (alloc s) = a" "used (snd (alloc s)) = {0..<Suc a}"
    using alloc_free [OF assms(1) ne] assms(2) by auto
qed

lemma alloc_many_prefix:
  "inv s \<Longrightarrow> used s = {0..<a} \<Longrightarrow> a + n \<le> capacity s \<Longrightarrow>
    fst (alloc_many n s) = [a..<a + n] \<and> used (snd (alloc_many n s)) = {0..<a + n}
    \<and> inv (snd (alloc_many n s)) \<and> capacity (snd (alloc_many n s)) = capacity s"
proof (induction n arbitrary: s a)
  case (Suc n)
  note p = alloc_prefix [OF Suc.prems(1,2)] and i = alloc_inv [OF Suc.prems(1)]
  have "a < capacity s" using Suc.prems(3) by simp
  moreover have "Suc a + n \<le> capacity (snd (alloc s))" using Suc.prems(3) i by simp
  ultimately show ?case
    using Suc.IH [of "snd (alloc s)" "Suc a"] p i by (simp add: case_prod_beta upt_conv_Cons)
qed simp

lemma alloc_fresh:
  assumes "inv s" "fst (alloc s) \<noteq> none"
  shows "fst (alloc s) \<notin> used s" "fst (alloc s) < capacity s" "used (snd (alloc s)) = insert (fst (alloc s)) (used s)"
proof -
  have ne: "used s \<noteq> {0..<capacity s}" using alloc_full [OF assms(1)] assms(2) by blast
  then have "{0..<capacity s} - used s \<noteq> {}" using used_sub [OF assms(1)] by blast
  then have "Min ({0..<capacity s} - used s) \<in> {0..<capacity s} - used s" by (intro Min_in) auto
  then show "fst (alloc s) \<notin> used s" "fst (alloc s) < capacity s"
    "used (snd (alloc s)) = insert (fst (alloc s)) (used s)"
    using alloc_free [OF assms(1) ne] by auto
qed

end

interpretation bitmap_alloc: number_allocator map_ok bits n_bits bitmap_set_next bitmap_clear_bit MY_BIT_NONE
proof (rule number_allocator.intro, goal_cases)
  case (1 m) then show ?case by (auto simp: bits_def)
next
  case (2 m) then show ?case using map_okD(4) [of m] by simp
next
  case (3 m) then show ?case by (simp add: set_next_eq)
next
  case (4 m) then show ?case by (simp add: set_next_eq)
next
  case (5 m) then show ?case by (simp add: set_next_eq)
next
  case (6 m k) then show ?case by (simp add: bits_single)
qed

section \<open>Counting\<close>

lemma card_bits_words:
  assumes ok: "map_ok m"
  shows "card (bits m) = (\<Sum>k < last_word_ptr m. card {j. bit (bitmap m ! k) j})
    + card {j. bit (last_word m AND NOT (last_word_mask m)) j}"
proof -
  let ?e = "last_word_ptr m"
  define W where "W k = (if k < ?e then {j. bit (bitmap m ! k) j} else {j. bit (last_word m AND NOT (last_word_mask m)) j})" for k
  have W: "j \<in> W k \<longleftrightarrow> j < 32 \<and> 32 * k + j \<in> bits m" if "k \<le> ?e" for k j
  proof (cases "j < 32")
    case True
    have "wbit m (32 * k + j) = bit (bitmap m ! k) j" using True by (simp add: wbit_def)
    then show ?thesis
      using in_map_iff [OF ok True, of k] that True
      by (cases "k = ?e") (auto simp: W_def bits_def bit_simps)
  next
    case False
    then show ?thesis using bit_imp_le_length [of "bitmap m ! k" j] bit_imp_le_length [of "last_word m AND NOT (last_word_mask m)" j]
      by (auto simp: W_def)
  qed
  have "bits m = (\<Union>k \<le> ?e. (\<lambda>j. 32 * k + j) ` W k)"
  proof (rule set_eqI)
    fix i
    have "i \<in> bits m \<Longrightarrow> i div 32 \<le> ?e" using map_okD(3) [OF ok] by (auto simp: bits_def)
    then have "i \<in> bits m \<Longrightarrow> i \<in> (\<lambda>j. 32 * (i div 32) + j) ` W (i div 32) \<and> i div 32 \<le> ?e"
      by (auto simp: W intro!: image_eqI [of _ _ "i mod 32"])
    moreover have "i \<in> (\<Union>k \<le> ?e. (\<lambda>j. 32 * k + j) ` W k) \<Longrightarrow> i \<in> bits m"
      using W by auto
    ultimately show "i \<in> bits m \<longleftrightarrow> i \<in> (\<Union>k \<le> ?e. (\<lambda>j. 32 * k + j) ` W k)" by blast
  qed
  moreover have "card (\<Union>k \<le> ?e. (\<lambda>j. 32 * k + j) ` W k) = (\<Sum>k \<le> ?e. card ((\<lambda>j. 32 * k + j) ` W k))"
  proof (rule card_UN_disjoint)
    show "\<forall>k \<in> {..?e}. finite ((\<lambda>j. 32 * k + j) ` W k)"
    proof
      fix k assume "k \<in> {..?e}"
      then have "W k \<subseteq> {..<32}" using W by auto
      then show "finite ((\<lambda>j. 32 * k + j) ` W k)" by (simp add: finite_subset)
    qed
    show "\<forall>k \<in> {..?e}. \<forall>k' \<in> {..?e}. k \<noteq> k' \<longrightarrow> (\<lambda>j. 32 * k + j) ` W k \<inter> (\<lambda>j. 32 * k' + j) ` W k' = {}"
    proof (intro ballI impI, rule ccontr)
      fix k k' assume k: "k \<in> {..?e}" "k' \<in> {..?e}" "k \<noteq> k'"
        and "(\<lambda>j. 32 * k + j) ` W k \<inter> (\<lambda>j. 32 * k' + j) ` W k' \<noteq> {}"
      then obtain j j' where "j \<in> W k" "j' \<in> W k'" "32 * k + j = 32 * k' + j'" by blast
      then show False using k W [of k j] W [of k' j'] by auto
    qed
  qed simp
  moreover have "card ((\<lambda>j. 32 * k + j) ` W k) = card (W k)" for k by (rule card_image) simp
  moreover have "(\<Sum>k \<le> ?e. card (W k)) = (\<Sum>k < ?e. card {j. bit (bitmap m ! k) j}) + card {j. bit (last_word m AND NOT (last_word_mask m)) j}"
    by (simp add: W_def lessThan_Suc_atMost [symmetric])
  ultimately show ?thesis by simp
qed

lemma fold_count: "unat (fold (\<lambda>w res. res + my_count_bits_uint32 w) ws r)
    = (unat r + (\<Sum>w \<leftarrow> ws. card {j. bit w j})) mod 2 ^ 32"
proof (induction ws arbitrary: r)
  case Nil
  have "unat r < 2 ^ 32" using unsigned_less [of r, where ?'a = nat] by simp
  then show ?case by simp
next
  case (Cons w ws)
  show ?case
    unfolding fold.simps comp_apply Cons
    by (simp add: unat_word_ariths unat_count_bits_uint32 mod_simps add.assoc)
qed

lemma bits_set_eq:
  assumes ok: "map_ok m"
  shows "unat (bitmap_bits_set m) = card (bits m)"
proof -
  have sub: "bits m \<subseteq> {..<n_bits m}" by (auto simp: bits_def)
  have "card (bits m) \<le> n_bits m" using card_mono [OF _ sub] by simp
  then have lt: "card (bits m) < 2 ^ 32" using map_okD(4) [OF ok] by (simp add: MY_BIT_NONE_def)
  have "(\<Sum>w \<leftarrow> front m. card {j. bit w j}) = (\<Sum>k < last_word_ptr m. card {j. bit (bitmap m ! k) j})"
    using map_okD(1) [OF ok] by (simp add: sum_list_sum_nth atLeast0LessThan)
  then show ?thesis
    unfolding bitmap_bits_set_def
    using card_bits_words [OF ok] lt
    by (simp add: unat_word_ariths fold_count unat_count_bits_uint32 mod_simps)
qed

section \<open>Properties\<close>

text \<open>A bitmap of 40 bits in a buffer of two words, for the instances below.\<close>

definition sample_bitmap :: "u32 list \<Rightarrow> my_bitmap" where
  "sample_bitmap ws = (create_last_word_mask
     \<lparr>bitmap = ws, last_word_ptr = 0, last_word_mask = 0, n_bits = 40\<rparr>)"

lemma sample_bitmap_ok: "map_ok (sample_bitmap [a, b])"
  unfolding sample_bitmap_def
  by (subst create_last_word_mask_eq) (simp_all add: map_ok_def no_words_in_map_def)

lemma sample_bitmap_simps:
  "n_bits (sample_bitmap ws) = 40" "bitmap (sample_bitmap ws) = ws"
  unfolding sample_bitmap_def by (subst create_last_word_mask_eq, simp, simp)+

lemma wbit_sample:
  "wbit (sample_bitmap [a, b]) i \<longleftrightarrow> bit ([a, b] ! (i div 32)) (i mod 32)"
  by (simp add: wbit_def sample_bitmap_simps)

lemma bits_sample:
  "bits (sample_bitmap [a, b]) = set (filter (\<lambda>i. bit ([a, b] ! (i div 32)) (i mod 32)) [0..<40])"
  by (auto simp: bits_def sample_bitmap_simps wbit_sample)

text \<open>
  C23: the whole-bitmap operations are the set operations on the bits of the bitmaps, whatever
  the unused bits of the last word hold: intersection for bitmaps of any two lengths, the others
  for bitmaps of the same length, and all keep a bitmap well formed.
\<close>

theorem bitmap_set_operations:
  assumes "map_ok m" "map_ok m2" "n_bits m2 = n_bits m" "map_ok m3"
  shows "bits (bitmap_intersect m m3) = bits m \<inter> bits m3
    \<and> bits (bitmap_union m m2) = bits m \<union> bits m2
    \<and> bits (bitmap_subtract m m2) = bits m - bits m2
    \<and> bits (bitmap_xor m m2) = (bits m - bits m2) \<union> (bits m2 - bits m)
    \<and> bits (bitmap_copy m m2) = bits m2
    \<and> bits (bitmap_invert m) = {0..<n_bits m} - bits m
    \<and> map_ok (bitmap_intersect m m3) \<and> map_ok (bitmap_union m m2) \<and> map_ok (bitmap_subtract m m2)
    \<and> map_ok (bitmap_xor m m2) \<and> map_ok (bitmap_copy m m2) \<and> map_ok (bitmap_invert m)"
  using assms by (simp add: bits_intersect bits_zip map_ok_zip)

theorem bitmap_set_operations_witness:
  "35 \<in> bits (bitmap_union (sample_bitmap [1, 0]) (sample_bitmap [3, 8]))
   \<and> bits (bitmap_subtract (sample_bitmap [1, 0]) (sample_bitmap [3, 8])) = {}
   \<and> 0 \<in> bits (bitmap_intersect (sample_bitmap [1, 0]) (sample_bitmap [3, 8]))
   \<and> 39 \<in> bits (bitmap_invert (sample_bitmap [1, 0]))"
proof -
  note t = bitmap_set_operations [of "sample_bitmap [1, 0]" "sample_bitmap [3, 8]" "sample_bitmap [3, 8]"]
  have sub: "bits (sample_bitmap [1, 0]) \<subseteq> bits (sample_bitmap [3, 8])"
    by (auto simp: bits_def sample_bitmap_simps wbit_sample nth_Cons bit_1_iff bit_iff_odd split: nat.splits)
  have "35 \<in> bits (sample_bitmap [3, 8])" "0 \<in> bits (sample_bitmap [3, 8])" "0 \<in> bits (sample_bitmap [1, 0])"
    "39 \<notin> bits (sample_bitmap [1, 0])"
    by (simp_all add: bits_def sample_bitmap_simps wbit_sample bit_iff_odd)
  with t sub show ?thesis by (auto simp: sample_bitmap_ok sample_bitmap_simps)
qed

text \<open>
  C27: the tests on bitmaps decide the corresponding facts about their sets of bits, although
  they work word by word and mask the unused bits of the last word.
\<close>

theorem bitmap_tests_exact:
  assumes "map_ok m1" "map_ok m2" "n_bits m2 = n_bits m1"
  shows "(bitmap_is_set_all m1 \<longleftrightarrow> bits m1 = {0..<n_bits m1})
    \<and> (bitmap_is_clear_all m1 \<longleftrightarrow> bits m1 = {})
    \<and> (bitmap_is_subset m1 m2 \<longleftrightarrow> bits m1 \<subseteq> bits m2)
    \<and> (bitmap_is_overlapping m1 m2 \<longleftrightarrow> bits m1 \<inter> bits m2 \<noteq> {})
    \<and> (bitmap_cmp m1 m2 \<longleftrightarrow> bits m1 = bits m2)
    \<and> unat (bitmap_bits_set m1) = card (bits m1)"
  using assms is_set_all_iff is_clear_all_iff is_subset_iff is_overlapping_iff cmp_iff bits_set_eq by simp

theorem bitmap_tests_exact_witness:
  "bits (sample_bitmap [1, 0]) \<subseteq> bits (sample_bitmap [3, 0x108])
   \<and> bits (sample_bitmap [3, 8]) = bits (sample_bitmap [3, 0x108])
   \<and> card (bits (sample_bitmap [3, 0x108])) = 3"
proof -
  note t = bitmap_tests_exact [of "sample_bitmap [1, 0]" "sample_bitmap [3, 0x108]"]
    and t' = bitmap_tests_exact [of "sample_bitmap [3, 8]" "sample_bitmap [3, 0x108]"]
    and t'' = bitmap_tests_exact [of "sample_bitmap [3, 0x108]" "sample_bitmap [3, 0x108]"]
  have "bitmap_is_subset (sample_bitmap [1, 0]) (sample_bitmap [3, 0x108])" by code_simp
  moreover have "bitmap_cmp (sample_bitmap [3, 8]) (sample_bitmap [3, 0x108])" by code_simp
  moreover have "unat (bitmap_bits_set (sample_bitmap [3, 0x108])) = 3" by code_simp
  ultimately show ?thesis
    using t t' t'' by (simp add: sample_bitmap_ok sample_bitmap_simps)
qed

text \<open>
  The three searches return the least set bit, the least set bit after a given one and the
  least free bit, and \<open>MY_BIT_NONE\<close> exactly when there is none; the last one leaves the set of
  bits as it is.
\<close>

theorem bitmap_search_correct:
  assumes "map_ok m" "b < 2 ^ 32 - 1"
  shows "bitmap_get_first_set m = (if bits m = {} then MY_BIT_NONE else Min (bits m))
    \<and> bitmap_get_next_set m b = (let S = {i \<in> bits m. b < i} in if S = {} then MY_BIT_NONE else Min S)
    \<and> fst (bitmap_get_first m) = (let S = {0..<n_bits m} - bits m in if S = {} then MY_BIT_NONE else Min S)
    \<and> bits (snd (bitmap_get_first m)) = bits m"
  unfolding Let_def get_first_set_eq [OF assms(1)] get_next_set_eq [OF assms]
  by (simp add: get_first_eq [OF assms(1)])

theorem bitmap_search_correct_witness:
  "bitmap_get_first_set (sample_bitmap [3, 0x108]) = 0 \<and> bitmap_get_next_set (sample_bitmap [3, 0x108]) 1 = 35
   \<and> bitmap_get_next_set (sample_bitmap [3, 0x108]) 35 = MY_BIT_NONE"
proof -
  have "filter (\<lambda>i. bit ([3, 0x108 :: u32] ! (i div 32)) (i mod 32)) [0..<40] = [0, 1, 35]" by code_simp
  then have b: "bits (sample_bitmap [3, 0x108]) = {0, 1, 35}" by (simp only: bits_sample) simp
  have "{i \<in> {0, 1, 35}. 1 < i} = {35 :: nat}" "{i \<in> {0, 1, 35 :: nat}. 35 < i} = {}" by auto
  then show ?thesis
    using bitmap_search_correct [of "sample_bitmap [3, 0x108]" 1] bitmap_search_correct [of "sample_bitmap [3, 0x108]" 35]
    by (simp add: sample_bitmap_ok Let_def b)
qed

text \<open>
  Allocating \<open>k\<close> times from a bitmap whose first \<open>a\<close> numbers are taken hands out the numbers
  \<open>a, \<dots>, a + k - 1\<close> in order; a number it hands out was free, and when all are taken the answer
  is \<open>MY_BIT_NONE\<close> and the bits stay.
\<close>

theorem bitmap_set_next_allocates:
  assumes "map_ok m"
  shows "(bits m = {0..<a} \<and> a + k \<le> n_bits m \<longrightarrow>
      fst (bitmap_alloc.alloc_many k m) = [a..<a + k] \<and> bits (snd (bitmap_alloc.alloc_many k m)) = {0..<a + k})
    \<and> (fst (bitmap_set_next m) \<noteq> MY_BIT_NONE \<longrightarrow>
      fst (bitmap_set_next m) \<notin> bits m \<and> fst (bitmap_set_next m) < n_bits m
      \<and> bits (snd (bitmap_set_next m)) = insert (fst (bitmap_set_next m)) (bits m))
    \<and> (bits m = {0..<n_bits m} \<longrightarrow>
      fst (bitmap_set_next m) = MY_BIT_NONE \<and> bits (snd (bitmap_set_next m)) = bits m)"
  using bitmap_alloc.alloc_many_prefix [OF assms, of a k] bitmap_alloc.alloc_fresh [OF assms]
    bitmap_alloc.alloc_full [OF assms] by blast

theorem bitmap_set_next_allocates_witness:
  "fst (bitmap_alloc.alloc_many 35 (sample_bitmap [0, 0])) = [0..<35]
   \<and> fst (bitmap_set_next (sample_bitmap [3, 0])) = 2 \<and> 2 \<notin> bits (sample_bitmap [3, 0])
   \<and> fst (bitmap_set_next (sample_bitmap [0xFFFFFFFF, 0xFF])) = MY_BIT_NONE"
proof -
  have "bitmap_is_clear_all (sample_bitmap [0, 0])" "bitmap_is_set_all (sample_bitmap [0xFFFFFFFF, 0xFF])"
    by code_simp+
  then have b: "bits (sample_bitmap [0, 0]) = {0..<0}" "bits (sample_bitmap [0xFFFFFFFF, 0xFF]) = {0..<40}"
    using is_clear_all_iff [OF sample_bitmap_ok] is_set_all_iff [OF sample_bitmap_ok]
    by (simp_all add: sample_bitmap_simps)
  have "filter (\<lambda>i. bit ([3, 0 :: u32] ! (i div 32)) (i mod 32)) [0..<40] = [0..<2]" by code_simp
  then have b2: "bits (sample_bitmap [3, 0]) = {0..<2}" by (simp only: bits_sample) simp
  have "fst (bitmap_alloc.alloc_many 1 (sample_bitmap [3, 0])) = [2]"
    using bitmap_set_next_allocates [of "sample_bitmap [3, 0]" 2 1] b2
    by (simp add: sample_bitmap_ok sample_bitmap_simps)
  then have "fst (bitmap_set_next (sample_bitmap [3, 0])) = 2" by (simp add: case_prod_beta)
  then show ?thesis
    using bitmap_set_next_allocates [of "sample_bitmap [0, 0]" 0 35] b
      bitmap_set_next_allocates [of "sample_bitmap [3, 0]" 0 0]
      bitmap_set_next_allocates [of "sample_bitmap [0xFFFFFFFF, 0xFF]" 0 0]
    by (simp add: sample_bitmap_ok sample_bitmap_simps MY_BIT_NONE_def)
qed

text \<open>
  \<open>bitmap_set_prefix\<close> sets exactly the first bits, and \<open>bitmap_is_prefix\<close> recognises exactly
  the bitmaps it makes.
\<close>

theorem bitmap_prefix_roundtrip:
  assumes "map_ok m" "0 < p" "p \<le> n_bits m"
  shows "bits (bitmap_set_prefix m p) = {0..<p} \<and> bitmap_is_prefix (bitmap_set_prefix m p) p
    \<and> (bitmap_is_prefix m p \<longleftrightarrow> bits m = {0..<p})"
proof -
  have "bits (bitmap_set_prefix m p) = {0..<p}"
    unfolding bits_set_prefix [OF assms(1)] using assms(3) by auto
  then show ?thesis using is_prefix_iff [of "bitmap_set_prefix m p" p] is_prefix_iff [OF assms] assms by simp
qed

theorem bitmap_prefix_roundtrip_witness:
  "bits (bitmap_set_prefix (sample_bitmap [5, 9]) 37) = {0..<37} \<and> bits (sample_bitmap [0xFFFFFFFF, 0x301]) = {0..<33}"
proof -
  have "bitmap_is_prefix (sample_bitmap [0xFFFFFFFF, 0x301]) 33"
    by code_simp
  then show ?thesis
    using bitmap_prefix_roundtrip [of "sample_bitmap [5, 9]" 37] bitmap_prefix_roundtrip [of "sample_bitmap [0xFFFFFFFF, 0x301]" 33]
    by (simp add: sample_bitmap_ok sample_bitmap_simps)
qed

text \<open>
  C28: \<open>bitmap_union_is_set_all\<close> does not answer whether the union has all bits: it says yes when
  all words but the last are full and the union is \<^emph>\<open>not\<close> the whole set.
\<close>

theorem bitmap_union_is_set_all_inverted:
  assumes "map_ok m1" "map_ok m2" "n_bits m2 = n_bits m1"
  shows "bitmap_union_is_set_all m1 m2 \<longleftrightarrow>
    {0..<32 * last_word_ptr m1} \<subseteq> bits m1 \<union> bits m2 \<and> bits m1 \<union> bits m2 \<noteq> {0..<n_bits m1}"
  using assms by (rule union_is_set_all_front)

theorem bitmap_union_is_set_all_inverted_witness:
  "bitmap_is_set_all (sample_bitmap [0xFFFFFFFF, 0xFF])
   \<and> \<not> bitmap_union_is_set_all (sample_bitmap [0xFFFFFFFF, 0xFF]) (sample_bitmap [0xFFFFFFFF, 0xFF])
   \<and> bits (sample_bitmap [0xFFFFFFFF, 0]) \<union> bits (sample_bitmap [0xFFFFFFFF, 0]) \<noteq> {0..<40}"
proof -
  have "bitmap_is_set_all (sample_bitmap [0xFFFFFFFF, 0xFF])"
    "bitmap_union_is_set_all (sample_bitmap [0xFFFFFFFF, 0]) (sample_bitmap [0xFFFFFFFF, 0])" by code_simp+
  then show ?thesis
    using bitmap_union_is_set_all_inverted [OF sample_bitmap_ok sample_bitmap_ok refl, of "0xFFFFFFFF" 0]
      bitmap_union_is_set_all_inverted [OF sample_bitmap_ok sample_bitmap_ok, of "0xFFFFFFFF" "0xFF" "0xFFFFFFFF" "0xFF"]
      is_set_all_iff [OF sample_bitmap_ok, of "0xFFFFFFFF" "0xFF"]
    by (simp add: sample_bitmap_simps)
qed

end
