(* ===== verification/CInt.thy ===== *)
theory CInt
  imports Prelude
begin

text \<open>
  C integer arithmetic over the unbounded integers, for the components that compute with
  values and not with bit patterns: the conversions to the integer types of the LP64 platforms,
  and the division and remainder of C, which truncate towards zero.
\<close>

definition wrap_int :: "int \<Rightarrow> int" where
  "wrap_int i = (i + 2 ^ 31) mod 2 ^ 32 - 2 ^ 31"

definition wrap_long :: "int \<Rightarrow> int" where
  "wrap_long i = (i + 2 ^ 63) mod 2 ^ 64 - 2 ^ 63"

definition wrap_uint :: "int \<Rightarrow> int" where
  "wrap_uint i = i mod 2 ^ 32"

definition wrap_ulong :: "int \<Rightarrow> int" where
  "wrap_ulong i = i mod 2 ^ 64"

definition cdiv :: "int \<Rightarrow> int \<Rightarrow> int" where
  "cdiv a b = sgn a * sgn b * (\<bar>a\<bar> div \<bar>b\<bar>)"

definition cmod :: "int \<Rightarrow> int \<Rightarrow> int" where
  "cmod a b = a - cdiv a b * b"

named_theorems cint_simps \<open>conversions and divisions of values that fit\<close>

lemma wrap_int_id [cint_simps]: "- 2147483648 \<le> i \<Longrightarrow> i < 2147483648 \<Longrightarrow> wrap_int i = i"
  by (simp add: wrap_int_def)

lemma wrap_long_id [cint_simps]:
  "- 9223372036854775808 \<le> i \<Longrightarrow> i < 9223372036854775808 \<Longrightarrow> wrap_long i = i"
  by (simp add: wrap_long_def)

lemma wrap_uint_id [cint_simps]: "0 \<le> i \<Longrightarrow> i < 4294967296 \<Longrightarrow> wrap_uint i = i"
  by (simp add: wrap_uint_def)

lemma wrap_ulong_id [cint_simps]: "0 \<le> i \<Longrightarrow> i < 18446744073709551616 \<Longrightarrow> wrap_ulong i = i"
  by (simp add: wrap_ulong_def)

lemma wrap_ulong_neg: "- 18446744073709551616 \<le> i \<Longrightarrow> i < 0 \<Longrightarrow> wrap_ulong i = i + 18446744073709551616"
  using int_mod_pos_eq [of i "18446744073709551616" "- 1" "i + 18446744073709551616"] by (simp add: wrap_ulong_def)

lemma wrap_uint_neg: "- 4294967296 \<le> i \<Longrightarrow> i < 0 \<Longrightarrow> wrap_uint i = i + 4294967296"
  using int_mod_pos_eq [of i "4294967296" "- 1" "i + 4294967296"] by (simp add: wrap_uint_def)

lemma wrap_uint_bounds: "0 \<le> wrap_uint i \<and> wrap_uint i < 4294967296"
  by (simp add: wrap_uint_def)

lemma cdiv_nonneg [cint_simps]: "0 \<le> a \<Longrightarrow> 0 < b \<Longrightarrow> cdiv a b = a div b"
  by (cases "a = 0") (simp_all add: cdiv_def)

lemma cmod_nonneg [cint_simps]: "0 \<le> a \<Longrightarrow> 0 < b \<Longrightarrow> cmod a b = a mod b"
  by (simp add: cmod_def cdiv_nonneg minus_div_mult_eq_mod)

end
