(* ===== verification/Base64.thy ===== *)
theory Base64
  imports CInt
begin

text \<open>
  Base64 encoding and decoding, \<^verbatim>\<open>mysys/base64.c\<close>.  Characters are bytes; a source buffer is a
  list and a position in it an index; what the code stores through its destination pointer is
  the list of the bytes below that pointer.  \<open>int\<close> has 32 bits and wraps.
\<close>

section \<open>Definitions\<close>

definition base64_table :: "u8 list" where
  "base64_table = map of_char
     ''ABCDEFGHIJKLMNOPQRSTUVWXYZabcdefghijklmnopqrstuvwxyz0123456789+/''"

definition my_base64_encode_max_arg_length :: int where
  "my_base64_encode_max_arg_length = 0x5EC0D4C6"

definition my_base64_needed_encoded_length :: "int \<Rightarrow> int" where
  "my_base64_needed_encoded_length length_of_data =
     (let nb_base64_chars = wrap_int (cdiv (wrap_int (length_of_data + 2)) 3 * 4)
      in wrap_int (wrap_int (nb_base64_chars + cdiv (wrap_int (nb_base64_chars - 1)) 76) + 1))"

definition my_base64_decode_max_arg_length :: int where
  "my_base64_decode_max_arg_length = 0x7FFFFFFF"

text \<open>The cast to \<open>int\<close> applies to the sum, before the division.\<close>

definition my_base64_needed_decoded_length :: "int \<Rightarrow> int" where
  "my_base64_needed_decoded_length length_of_encoded_data =
     wrap_int (cdiv (wrap_int (length_of_encoded_data + 3)) 4 * 3)"

function base64_encode_loop :: "u8 list \<Rightarrow> nat \<Rightarrow> nat \<Rightarrow> u8 list \<Rightarrow> u8 list" where
  "base64_encode_loop s i len dst =
     (if i < length s then
        let (len, dst) = (if len = 76 then (0, dst @ [10]) else (len, dst));
            c = ucast (s ! i) :: u32;
            i = i + 1;
            c = push_bit 8 c;
            c = (if i < length s then c + ucast (s ! i) else c);
            c = push_bit 8 c;
            i = i + 1;
            c = (if i < length s then c + ucast (s ! i) else c);
            i = i + 1;
            dst = dst @ [base64_table ! unat (drop_bit 18 c AND 0x3F)];
            dst = dst @ [base64_table ! unat (drop_bit 12 c AND 0x3F)];
            dst = dst @ [if i > length s + 1 then 61 else base64_table ! unat (drop_bit 6 c AND 0x3F)];
            dst = dst @ [if i > length s then 61 else base64_table ! unat (c AND 0x3F)]
        in base64_encode_loop s i (len + 4) dst
      else dst)"
  by pat_completeness auto
termination
  by (relation "measure (\<lambda>(s, i, len, dst). length s - i)") auto

declare base64_encode_loop.simps [simp del]

definition my_base64_encode :: "u8 list \<Rightarrow> u8 list" where
  "my_base64_encode s = base64_encode_loop s 0 0 [] @ [0]"

record my_base64_decoder =
  src :: nat
  src_end :: nat
  acc :: u32
  error :: bool
  state :: nat
  mark :: nat

definition from_base64_table :: "int list" where
  "from_base64_table = [
     -1, -1, -1, -1, -1, -1, -1, -1, -1, -2, -2, -2, -2, -2, -1, -1,
     -1, -1, -1, -1, -1, -1, -1, -1, -1, -1, -1, -1, -1, -1, -1, -1,
     -2, -1, -1, -1, -1, -1, -1, -1, -1, -1, -1, 62, -1, -1, -1, 63,
     52, 53, 54, 55, 56, 57, 58, 59, 60, 61, -1, -1, -1, -1, -1, -1,
     -1, 0, 1, 2, 3, 4, 5, 6, 7, 8, 9, 10, 11, 12, 13, 14,
     15, 16, 17, 18, 19, 20, 21, 22, 23, 24, 25, -1, -1, -1, -1, -1,
     -1, 26, 27, 28, 29, 30, 31, 32, 33, 34, 35, 36, 37, 38, 39, 40,
     41, 42, 43, 44, 45, 46, 47, 48, 49, 50, 51, -1, -1, -1, -1, -1,
     -1, -1, -1, -1, -1, -1, -1, -1, -1, -1, -1, -1, -1, -1, -1, -1,
     -1, -1, -1, -1, -1, -1, -1, -1, -1, -1, -1, -1, -1, -1, -1, -1,
     -2, -1, -1, -1, -1, -1, -1, -1, -1, -1, -1, -1, -1, -1, -1, -1,
     -1, -1, -1, -1, -1, -1, -1, -1, -1, -1, -1, -1, -1, -1, -1, -1,
     -1, -1, -1, -1, -1, -1, -1, -1, -1, -1, -1, -1, -1, -1, -1, -1,
     -1, -1, -1, -1, -1, -1, -1, -1, -1, -1, -1, -1, -1, -1, -1, -1,
     -1, -1, -1, -1, -1, -1, -1, -1, -1, -1, -1, -1, -1, -1, -1, -1,
     -1, -1, -1, -1, -1, -1, -1, -1, -1, -1, -1, -1, -1, -1, -1, -1]"

function my_base64_decoder_skip_spaces ::
  "u8 list \<Rightarrow> my_base64_decoder \<Rightarrow> bool \<times> my_base64_decoder" where
  "my_base64_decoder_skip_spaces buf d =
     (if src d < src_end d then
        if from_base64_table ! unat (buf ! src d) \<noteq> - 2 then (False, d)
        else my_base64_decoder_skip_spaces buf (d\<lparr>src := src d + 1\<rparr>)
      else (True, if state d > 0 then d\<lparr>error := True\<rparr> else d))"
  by pat_completeness auto
termination
  by (relation "measure (\<lambda>(buf, d). src_end d - src d)") auto

declare my_base64_decoder_skip_spaces.simps [simp del]

definition my_base64_add :: "u8 list \<Rightarrow> my_base64_decoder \<Rightarrow> bool \<times> my_base64_decoder" where
  "my_base64_add buf d =
     (let d = d\<lparr>acc := push_bit 6 (acc d)\<rparr>;
          res = from_base64_table ! unat (buf ! src d);
          d = d\<lparr>src := src d + 1\<rparr>
      in if res < 0 then (True, d\<lparr>error := True\<rparr>)
         else (False, d\<lparr>acc := acc d + word_of_int res\<rparr>))"

definition my_base64_decoder_getch :: "u8 list \<Rightarrow> my_base64_decoder \<Rightarrow> bool \<times> my_base64_decoder" where
  "my_base64_decoder_getch buf d =
     (let (ret, d) = my_base64_decoder_skip_spaces buf d in
      if ret then (True, d)
      else
        let (ret, d) = my_base64_add buf d in
        if \<not> ret then
          if mark d \<noteq> 0 then (True, d\<lparr>error := True, src := src d - 1\<rparr>)
          else (False, d\<lparr>state := state d + 1\<rparr>)
        else if state d = 0 \<or> state d = 1 then (True, d\<lparr>src := src d - 1\<rparr>)
        else if state d = 2 \<or> state d = 3 then
          if buf ! (src d - 1) = 61
          then (False, d\<lparr>error := False, mark := mark d + 1, state := state d + 1\<rparr>)
          else (True, d\<lparr>src := src d - 1\<rparr>)
        else (True, d))"

text \<open>The four calls of the loop, left to right, stopping at the first that fails.\<close>

definition base64_getch4 :: "u8 list \<Rightarrow> my_base64_decoder \<Rightarrow> bool \<times> my_base64_decoder" where
  "base64_getch4 buf d =
     (let (r, d) = my_base64_decoder_getch buf d in if r then (True, d) else
      let (r, d) = my_base64_decoder_getch buf d in if r then (True, d) else
      let (r, d) = my_base64_decoder_getch buf d in if r then (True, d) else
      my_base64_decoder_getch buf d)"

text \<open>A call that succeeds has consumed a character.\<close>

lemma skip_spaces_mono:
  "src d \<le> src (snd (my_base64_decoder_skip_spaces buf d))
   \<and> src_end (snd (my_base64_decoder_skip_spaces buf d)) = src_end d
   \<and> state (snd (my_base64_decoder_skip_spaces buf d)) = state d
   \<and> mark (snd (my_base64_decoder_skip_spaces buf d)) = mark d
   \<and> (\<not> fst (my_base64_decoder_skip_spaces buf d) \<longrightarrow> src (snd (my_base64_decoder_skip_spaces buf d)) < src_end d)"
proof (induction buf d rule: my_base64_decoder_skip_spaces.induct)
  case (1 buf d)
  then show ?case
    by (subst (1 2 3 4 5 6) my_base64_decoder_skip_spaces.simps) auto
qed

lemma skip_spaces_src:
  "src d \<le> src_end d \<Longrightarrow> src (snd (my_base64_decoder_skip_spaces buf d)) \<le> src_end d"
proof (induction buf d rule: my_base64_decoder_skip_spaces.induct)
  case (1 buf d)
  then show ?case by (subst my_base64_decoder_skip_spaces.simps) auto
qed

lemma getch_mono:
  "my_base64_decoder_getch buf d = (False, d') \<Longrightarrow> src d < src d' \<and> src d' \<le> src_end d \<and> src_end d' = src_end d"
  using skip_spaces_mono [of d buf]
  by (auto simp: my_base64_decoder_getch_def my_base64_add_def Let_def case_prod_beta split: if_splits)

lemma getch4_mono:
  "base64_getch4 buf d = (False, d') \<Longrightarrow> src d + 4 \<le> src d' \<and> src d' \<le> src_end d \<and> src_end d' = src_end d"
  by (fastforce simp: base64_getch4_def split: if_splits prod.splits dest: getch_mono)

function base64_decode_loop ::
  "bool \<Rightarrow> u8 list \<Rightarrow> my_base64_decoder \<Rightarrow> mem \<Rightarrow> nat \<Rightarrow> my_base64_decoder \<times> mem \<times> nat" where
  "base64_decode_loop multi buf d m p =
     (let (r, d) = base64_getch4 buf (d\<lparr>acc := 0, state := 0\<rparr>) in
      if r then (d, m, p)
      else
        let m = m(p := ucast (drop_bit 16 (acc d) AND 0xFF)); p = p + 1;
            m = m(p := ucast (drop_bit 8 (acc d) AND 0xFF)); p = p + 1;
            m = m(p := ucast (acc d AND 0xFF)); p = p + 1
        in if mark d \<noteq> 0 then
             let p = p - mark d in
             if \<not> multi then (d, m, p)
             else base64_decode_loop multi buf (d\<lparr>mark := 0\<rparr>) m p
           else base64_decode_loop multi buf d m p)"
  by pat_completeness auto
termination
proof (relation "measure (\<lambda>(multi, buf, d, m, p). src_end d - src d)", goal_cases)
  case 1 then show ?case by simp
next
  case 2 then show ?case by (fastforce dest: getch4_mono [OF sym])
next
  case 3 then show ?case by (fastforce dest: getch4_mono [OF sym])
qed

declare base64_decode_loop.simps [simp del]

text \<open>
  The destination is a memory and an address in it. The results are the returned number, which is -1 for an
  error, the memory, in which bytes stay that were stored before an error, and the position behind the last
  character read. \<open>multi\<close> is the flag \<open>MY_BASE64_DECODE_ALLOW_MULTIPLE_CHUNKS\<close>.
\<close>

definition my_base64_decode :: "u8 list \<Rightarrow> nat \<Rightarrow> mem \<Rightarrow> nat \<Rightarrow> bool \<Rightarrow> int \<times> mem \<times> nat" where
  "my_base64_decode src_base len m dst multi =
     (let d = \<lparr>src = 0, src_end = len, acc = 0, error = False, state = 0, mark = 0\<rparr>;
          (d, m, p) = base64_decode_loop multi src_base d m dst;
          (r, d) = my_base64_decoder_skip_spaces src_base (d\<lparr>state := 0\<rparr>);
          d = (if \<not> r then d\<lparr>error := True\<rparr> else d)
      in (if error d then -1 else wrap_int (int p - int dst), m, src d))"

section \<open>A reference encoder\<close>

text \<open>The 24-bit number of a group of at most three bytes, and its four characters.\<close>

definition group_val :: "u8 list \<Rightarrow> nat" where
  "group_val bs = unat (bs ! 0) * 65536 + (if 1 < length bs then unat (bs ! 1) * 256 else 0)
     + (if 2 < length bs then unat (bs ! 2) else 0)"

definition group_chars :: "u8 list \<Rightarrow> u8 list" where
  "group_chars bs =
     (let n = group_val bs in
      [base64_table ! (n div 262144), base64_table ! (n div 4096 mod 64),
       if length bs < 2 then 61 else base64_table ! (n div 64 mod 64),
       if length bs < 3 then 61 else base64_table ! (n mod 64)])"

fun base64_ref :: "u8 list \<Rightarrow> nat \<Rightarrow> u8 list" where
  "base64_ref [] len = []"
| "base64_ref (b # bs) len =
     (if len = 76 then [10] else []) @ group_chars (take 3 (b # bs))
     @ base64_ref (drop 2 bs) ((if len = 76 then 0 else len) + 4)"

lemma byte_less: "unat (b :: u8) < 256"
  using unsigned_less [of b, where ?'a = nat] by simp

lemma group_val_less: "group_val bs < 16777216"
  using byte_less [of "bs ! 0"] byte_less [of "bs ! 1"] byte_less [of "bs ! 2"]
  by (auto simp: group_val_def)

lemma unat_word_of_nat: "n < 4294967296 \<Longrightarrow> unat (word_of_nat n :: u32) = n"
  unfolding unsigned_of_nat by (simp add: take_bit_nat_eq_self)

lemma unat_sextet:
  assumes "n < 16777216"
  shows "unat (drop_bit k (word_of_nat n :: u32) AND 0x3F) = n div 2 ^ k mod 64"
proof -
  have m: "(0x3F :: u32) = mask 6" by (simp add: mask_eq_exp_minus_1)
  have "unat (drop_bit k (word_of_nat n :: u32) AND 0x3F) = unat (drop_bit k (word_of_nat n :: u32)) mod 64"
    unfolding m take_bit_eq_mask [symmetric] unsigned_take_bit_eq by (simp add: take_bit_eq_mod)
  with assms show ?thesis by (simp only: unat_drop_bit unat_word_of_nat)
qed

lemma unat_octet:
  assumes "n < 16777216"
  shows "ucast (drop_bit k (word_of_nat n :: u32) AND 0xFF) = (word_of_nat (n div 2 ^ k) :: u8)"
proof -
  have m: "(0xFF :: u32) = mask 8" by (simp add: mask_eq_exp_minus_1)
  have "ucast (drop_bit k (word_of_nat n :: u32) AND 0xFF) = (ucast (drop_bit k (word_of_nat n :: u32)) :: u8)"
    unfolding m by (rule bit_word_eqI) (simp add: bit_simps)
  moreover have "unat (ucast (drop_bit k (word_of_nat n :: u32)) :: u8) = n div 2 ^ k mod 256"
    using assms by (simp only: unat_ucast_take_bit unat_drop_bit unat_word_of_nat) (simp add: take_bit_eq_mod)
  moreover have "unat (word_of_nat (n div 2 ^ k) :: u8) = n div 2 ^ k mod 256"
    unfolding unsigned_of_nat by (simp add: take_bit_eq_mod)
  ultimately show ?thesis by (simp only: word_unat_eq_iff)
qed

lemma encode_loop_step:
  assumes "i < length s"
  shows "base64_encode_loop s i len dst =
    base64_encode_loop s (i + 3) ((if len = 76 then 0 else len) + 4)
      (dst @ (if len = 76 then [10] else []) @ group_chars (take 3 (drop i s)))"
proof -
  define c0 where "c0 = push_bit 8 (ucast (s ! i) :: u32)"
  define c1 where "c1 = push_bit 8 (if i + 1 < length s then c0 + ucast (s ! (i + 1)) else c0)"
  define c where "c = (if i + 1 + 1 < length s then c1 + ucast (s ! (i + 1 + 1)) else c1)"
  let ?g = "take 3 (drop i s)"
  have c: "c = word_of_nat (group_val ?g)"
    using assms unfolding c_def c1_def c0_def group_val_def
    by (auto simp: push_bit_eq_mult algebra_simps)
  note x = unat_sextet [OF group_val_less [of ?g]]
  have x18: "group_val ?g div 262144 mod 64 = group_val ?g div 262144"
    using group_val_less [of ?g] by simp
  have "base64_encode_loop s i len dst =
    base64_encode_loop s (i + 1 + 1 + 1) ((if len = 76 then 0 else len) + 4)
      ((dst @ (if len = 76 then [10] else []))
       @ [base64_table ! unat (drop_bit 18 c AND 0x3F)] @ [base64_table ! unat (drop_bit 12 c AND 0x3F)]
       @ [if i + 1 + 1 + 1 > length s + 1 then 61 else base64_table ! unat (drop_bit 6 c AND 0x3F)]
       @ [if i + 1 + 1 + 1 > length s then 61 else base64_table ! unat (drop_bit 0 c AND 0x3F)])"
    using assms by (subst base64_encode_loop.simps) (simp add: c_def c1_def c0_def Let_def)
  moreover have "[base64_table ! unat (drop_bit 18 c AND 0x3F)] @ [base64_table ! unat (drop_bit 12 c AND 0x3F)]
       @ [if i + 1 + 1 + 1 > length s + 1 then 61 else base64_table ! unat (drop_bit 6 c AND 0x3F)]
       @ [if i + 1 + 1 + 1 > length s then 61 else base64_table ! unat (drop_bit 0 c AND 0x3F)] = group_chars ?g"
  proof -
    have l: "i + 1 + 1 + 1 > length s + 1 \<longleftrightarrow> length ?g < 2" "i + 1 + 1 + 1 > length s \<longleftrightarrow> length ?g < 3"
      using assms by auto
    show ?thesis unfolding c x l group_chars_def Let_def using x18 by simp
  qed
  moreover have "i + 1 + 1 + 1 = i + 3" by simp
  ultimately show ?thesis by (simp only: append_assoc)
qed

lemma encode_loop_ref: "base64_encode_loop s i len dst = dst @ base64_ref (drop i s) len"
proof (induction "length s - i" arbitrary: i len dst rule: less_induct)
  case less
  show ?case
  proof (cases "i < length s")
    case False
    then show ?thesis by (simp add: base64_encode_loop.simps)
  next
    case True
    then have d: "drop i s = s ! i # drop (Suc i) s" by (simp add: Cons_nth_drop_Suc)
    have "base64_ref (drop i s) len = (if len = 76 then [10] else []) @ group_chars (take 3 (drop i s))
        @ base64_ref (drop (i + 3) s) ((if len = 76 then 0 else len) + 4)"
    proof -
      have "2 + Suc i = i + 3" by simp
      then have "drop 2 (drop (Suc i) s) = drop (i + 3) s" by (simp only: drop_drop)
      then show ?thesis using base64_ref.simps(2) [of "s ! i" "drop (Suc i) s" len] by (simp only: d [symmetric])
    qed
    moreover have "length s - (i + 3) < length s - i" using True by simp
    ultimately show ?thesis by (simp only: encode_loop_step [OF True] less append_assoc)
  qed
qed

section \<open>A reference decoder\<close>

text \<open>The loop of the decoder over the list of the bytes below the destination pointer.\<close>

function base64_decode_bytes ::
  "bool \<Rightarrow> u8 list \<Rightarrow> my_base64_decoder \<Rightarrow> u8 list \<Rightarrow> my_base64_decoder \<times> u8 list" where
  "base64_decode_bytes multi buf d dst =
     (let (r, d) = base64_getch4 buf (d\<lparr>acc := 0, state := 0\<rparr>) in
      if r then (d, dst)
      else
        let dst = dst @ [ucast (drop_bit 16 (acc d) AND 0xFF)];
            dst = dst @ [ucast (drop_bit 8 (acc d) AND 0xFF)];
            dst = dst @ [ucast (acc d AND 0xFF)]
        in if mark d \<noteq> 0 then
             let dst = take (length dst - mark d) dst in
             if \<not> multi then (d, dst)
             else base64_decode_bytes multi buf (d\<lparr>mark := 0\<rparr>) dst
           else base64_decode_bytes multi buf d dst)"
  by pat_completeness auto
termination
proof (relation "measure (\<lambda>(multi, buf, d, dst). src_end d - src d)", goal_cases)
  case 1 then show ?case by simp
next
  case 2 then show ?case by (fastforce dest: getch4_mono [OF sym])
next
  case 3 then show ?case by (fastforce dest: getch4_mono [OF sym])
qed

declare base64_decode_bytes.simps [simp del]

section \<open>Decoding what was encoded\<close>

lemma table_inverse: "v < 64 \<Longrightarrow> from_base64_table ! unat (base64_table ! v) = int v"
proof -
  assume "v < 64"
  have u: "[0..<64] = [0, 1, 2, 3, 4, 5, 6, 7, 8, 9, 10, 11, 12, 13, 14, 15, 16, 17, 18, 19, 20, 21, 22, 23, 24,
      25, 26, 27, 28, 29, 30, 31, 32, 33, 34, 35, 36, 37, 38, 39, 40, 41, 42, 43, 44, 45, 46, 47, 48, 49, 50,
      51, 52, 53, 54, 55, 56, 57, 58, 59, 60, 61, 62, 63 :: nat]"
    by code_simp
  have "list_all (\<lambda>v. from_base64_table ! unat (base64_table ! v) = int v) [0..<64]"
    unfolding u base64_table_def from_base64_table_def by simp
  with \<open>v < 64\<close> show ?thesis by (simp add: list_all_iff)
qed

lemma getch_char:
  assumes "src d < src_end d" "buf ! src d = base64_table ! v" "v < 64" "mark d = 0"
  shows "my_base64_decoder_getch buf d =
    (False, d\<lparr>src := src d + 1, acc := push_bit 6 (acc d) + word_of_nat v, state := state d + 1\<rparr>)"
proof -
  have t: "from_base64_table ! unat (buf ! src d) = int v" using assms table_inverse by simp
  then have "my_base64_decoder_skip_spaces buf d = (False, d)"
    using assms(1) by (subst my_base64_decoder_skip_spaces.simps) simp
  then show ?thesis
    using t assms(4) by (simp add: my_base64_decoder_getch_def my_base64_add_def Let_def)
qed

lemma getch_pad:
  assumes "src d < src_end d" "buf ! src d = 61" "state d = 2 \<or> state d = 3"
  shows "my_base64_decoder_getch buf d =
    (False, d\<lparr>src := src d + 1, acc := push_bit 6 (acc d), error := False, mark := mark d + 1, state := state d + 1\<rparr>)"
proof -
  have t: "from_base64_table ! 61 = - 1" by (simp add: from_base64_table_def)
  then have "my_base64_decoder_skip_spaces buf d = (False, d)"
    using assms by (subst my_base64_decoder_skip_spaces.simps) simp
  then show ?thesis
    using t assms(2,3) by (auto simp: my_base64_decoder_getch_def my_base64_add_def Let_def)
qed

lemma getch_newline:
  assumes "src d < src_end d" "buf ! src d = 10"
  shows "my_base64_decoder_getch buf d = my_base64_decoder_getch buf (d\<lparr>src := src d + 1\<rparr>)"
proof -
  have "from_base64_table ! 10 = - 2" by (simp add: from_base64_table_def)
  then have "my_base64_decoder_skip_spaces buf d = my_base64_decoder_skip_spaces buf (d\<lparr>src := src d + 1\<rparr>)"
    using assms by (subst my_base64_decoder_skip_spaces.simps) simp
  then show ?thesis by (simp add: my_base64_decoder_getch_def)
qed

lemma acc_step: "push_bit 6 (word_of_nat x) + word_of_nat v = (word_of_nat (64 * x + v) :: u32)"
  by (simp add: push_bit_eq_mult algebra_simps)

lemma sextets_join:
  "64 * (64 * (64 * (n div 262144) + n div 4096 mod 64) + n div 64 mod 64) + n mod 64 = (n :: nat)"
proof -
  have "n div 4096 = n div 64 div 64" "n div 262144 = n div 64 div 64 div 64"
    by (simp_all flip: div_mult2_eq)
  then show ?thesis by (simp only: mult_div_mod_eq)
qed

lemma group_val_low:
  "length bs < 2 \<Longrightarrow> group_val bs div 64 mod 64 = 0" "length bs < 3 \<Longrightarrow> group_val bs mod 64 = 0"
proof -
  assume "length bs < 2"
  then have "group_val bs = 64 * (64 * (16 * unat (bs ! 0)))" by (simp add: group_val_def)
  then show "group_val bs div 64 mod 64 = 0" by simp
next
  assume "length bs < 3"
  then have "group_val bs = 64 * (1024 * unat (bs ! 0) + (if 1 < length bs then 4 * unat (bs ! 1) else 0))"
    by (simp add: group_val_def)
  then show "group_val bs mod 64 = 0" by simp
qed

lemma getch4_group:
  assumes b: "take 4 (drop (src d) buf) = group_chars bs" and e: "src_end d = length buf"
    and d: "mark d = 0" "\<not> error d" "acc d = 0" "state d = 0" and bs: "0 < length bs" "length bs \<le> 3"
  shows "base64_getch4 buf d =
    (False, d\<lparr>src := src d + 4, acc := word_of_nat (group_val bs), mark := 3 - length bs, state := 4\<rparr>)"
proof -
  let ?n = "group_val bs" and ?p = "src d"
  have len: "?p + 4 \<le> length buf"
    using arg_cong [OF b, of length] by (simp add: group_chars_def Let_def)
  have at: "buf ! (?p + k) = group_chars bs ! k" if "k < 4" for k
    using that len by (simp add: b [symmetric])
  have c0: "buf ! ?p = base64_table ! (?n div 262144)" and c1: "buf ! (?p + 1) = base64_table ! (?n div 4096 mod 64)"
    and c2: "buf ! (?p + 2) = (if length bs < 2 then 61 else base64_table ! (?n div 64 mod 64))"
    and c3: "buf ! (?p + 3) = (if length bs < 3 then 61 else base64_table ! (?n mod 64))"
    using at [of 0] at [of 1] at [of 2] at [of 3] by (simp_all add: group_chars_def Let_def)
  have l: "?n div 262144 < 64" using group_val_less [of bs] by simp
  define v1 where "v1 = ?n div 262144"
  define v2 where "v2 = 64 * v1 + ?n div 4096 mod 64"
  define v3 where "v3 = 64 * v2 + ?n div 64 mod 64"
  have v4: "64 * v3 + ?n mod 64 = ?n" unfolding v3_def v2_def v1_def by (rule sextets_join)
  have s: "push_bit 6 (word_of_nat v2) = (word_of_nat (64 * v2) :: u32)"
    "push_bit 6 (word_of_nat v3) = (word_of_nat (64 * v3) :: u32)"
    using acc_step [of v2 0] acc_step [of v3 0] by simp_all
  have noerr: "d\<lparr>error := False\<rparr> = d" using d(2) by simp
  define d1 where "d1 = d\<lparr>src := ?p + 1, acc := word_of_nat v1, state := 1\<rparr>"
  have 1: "my_base64_decoder_getch buf d = (False, d1)"
    using getch_char [of d buf v1] c0 l len e d by (simp add: d1_def v1_def)
  define d2 where "d2 = d\<lparr>src := ?p + 2, acc := word_of_nat v2, state := 2\<rparr>"
  have 2: "my_base64_decoder_getch buf d1 = (False, d2)"
    using getch_char [of d1 buf "?n div 4096 mod 64"] c1 len e d by (simp add: d1_def d2_def v2_def acc_step)
  define d3 where "d3 = d\<lparr>src := ?p + 3, acc := word_of_nat v3, mark := (if length bs < 2 then 1 else 0), state := 3\<rparr>"
  have 3: "my_base64_decoder_getch buf d2 = (False, d3)"
  proof (cases "length bs < 2")
    case True
    then have "v3 = 64 * v2" using group_val_low(1) [OF True] by (simp add: v3_def)
    then have "my_base64_decoder_getch buf d2 = (False, d\<lparr>error := False\<rparr>\<lparr>src := ?p + 3, acc := word_of_nat v3, mark := 1, state := 3\<rparr>)"
      using getch_pad [of d2 buf] c2 True len e d s(1) by (simp add: d2_def)
    then show ?thesis unfolding noerr by (simp add: d3_def True)
  next
    case False
    then show ?thesis
      using getch_char [of d2 buf "?n div 64 mod 64"] c2 len e d by (simp add: d2_def d3_def acc_step v3_def)
  qed
  have 4: "my_base64_decoder_getch buf d3 =
      (False, d\<lparr>src := ?p + 4, acc := word_of_nat ?n, mark := 3 - length bs, state := 4\<rparr>)"
  proof (cases "length bs < 3")
    case True
    then have "64 * v3 = ?n" using v4 group_val_low(2) [OF True] by simp
    moreover have "length bs = 1 \<or> length bs = 2" using True bs by linarith
    then have "3 - length bs = mark d3 + 1" by (auto simp: d3_def)
    ultimately have "my_base64_decoder_getch buf d3 = (False, d\<lparr>error := False\<rparr>\<lparr>src := ?p + 4, acc := word_of_nat ?n, mark := 3 - length bs, state := 4\<rparr>)"
      using getch_pad [of d3 buf] c3 True len e d s(2) by (simp add: d3_def)
    then show ?thesis unfolding noerr .
  next
    case False
    then have "length bs = 3" using bs by simp
    moreover have "push_bit 6 (word_of_nat v3) + word_of_nat (?n mod 64) = (word_of_nat ?n :: u32)"
      by (simp only: acc_step v4)
    ultimately show ?thesis
      using getch_char [of d3 buf "?n mod 64"] c3 len e d by (simp add: d3_def)
  qed
  show ?thesis using 1 2 3 4 by (simp add: base64_getch4_def)
qed

lemma group_bytes:
  assumes "0 < length bs" "length bs \<le> 3"
  shows "take (length bs) [word_of_nat (group_val bs div 65536), word_of_nat (group_val bs div 256), word_of_nat (group_val bs) :: u8] = bs"
proof -
  have w: "(word_of_nat (256 * x + y) :: u8) = word_of_nat y" for x y
  proof -
    have "(word_of_nat (256 * x + y) :: u8) = 256 * word_of_nat x + word_of_nat y" by (simp only: of_nat_add of_nat_mult of_nat_numeral)
    moreover have "(256 :: u8) = 0" by simp
    ultimately show ?thesis by (metis mult_zero_left add_0)
  qed
  consider "length bs = 1" | "length bs = 2" | "length bs = 3" using assms by linarith
  then show ?thesis
  proof cases
    case 1
    then obtain x where "bs = [x]" by (auto simp: length_Suc_conv)
    then show ?thesis by (simp add: group_val_def)
  next
    case 2
    then obtain x y where bs: "bs = [x, y]" by (auto simp: length_Suc_conv numeral_2_eq_2)
    have "group_val bs div 65536 = unat x" "group_val bs div 256 = 256 * unat x + unat y"
      using byte_less [of y] by (simp_all add: group_val_def bs)
    moreover have "(word_of_nat (256 * unat x + unat y) :: u8) = y" unfolding w by simp
    ultimately show ?thesis by (simp add: bs)
  next
    case 3
    then obtain x y z where bs: "bs = [x, y, z]" by (auto simp: length_Suc_conv numeral_3_eq_3)
    have g: "group_val bs = 256 * (256 * unat x + unat y) + unat z" by (simp add: group_val_def bs)
    have "group_val bs div 65536 = unat x" "group_val bs div 256 = 256 * unat x + unat y"
      using byte_less [of y] byte_less [of z] by (simp_all add: group_val_def bs)
    moreover have "(word_of_nat (256 * unat x + unat y) :: u8) = y" unfolding w by simp
    moreover have "(word_of_nat (group_val bs) :: u8) = z" unfolding g w by simp
    ultimately show ?thesis by (simp add: bs)
  qed
qed

lemma skip_spaces_end: "src d = src_end d \<Longrightarrow> state d = 0 \<Longrightarrow> my_base64_decoder_skip_spaces buf d = (True, d)"
  by (subst my_base64_decoder_skip_spaces.simps) simp

lemma getch4_end: "src d = src_end d \<Longrightarrow> state d = 0 \<Longrightarrow> base64_getch4 buf d = (True, d)"
  by (simp add: base64_getch4_def my_base64_decoder_getch_def skip_spaces_end)

lemma getch4_newline:
  "src d < src_end d \<Longrightarrow> buf ! src d = 10 \<Longrightarrow> base64_getch4 buf d = base64_getch4 buf (d\<lparr>src := src d + 1\<rparr>)"
  by (simp add: base64_getch4_def getch_newline)

lemma decode_bytes_ref:
  "drop (src d) buf = base64_ref s len \<Longrightarrow> src_end d = length buf \<Longrightarrow> src d \<le> length buf \<Longrightarrow> mark d = 0 \<Longrightarrow> \<not> error d \<Longrightarrow>
    (\<exists>d'. base64_decode_bytes multi buf d dst = (d', dst @ s) \<and> src d' = length buf \<and> src_end d' = length buf \<and> \<not> error d')"
proof (induction s len arbitrary: d dst rule: base64_ref.induct)
  case (1 len)
  then have "src d = length buf" by simp
  with 1 show ?case
    by (subst base64_decode_bytes.simps) (simp add: getch4_end)
next
  case (2 b bs len)
  define g where "g = take 3 (b # bs)"
  let ?nl = "if len = 76 then 1 else 0 :: nat" and ?len = "(if len = 76 then 0 else len) + 4"
  have ref: "base64_ref (b # bs) len = (if len = 76 then [10] else []) @ group_chars g @ base64_ref (drop 2 bs) ?len"
    by (simp only: base64_ref.simps g_def)
  have g: "0 < length g" "length g \<le> 3" "g @ drop 2 bs = b # bs"
    using append_take_drop_id [of 3 "b # bs"] by (simp_all add: g_def)
  let ?d0 = "d\<lparr>acc := 0, state := 0, src := src d + ?nl\<rparr>"
  have buf: "drop (src d + ?nl) buf = group_chars g @ base64_ref (drop 2 bs) ?len"
    using arg_cong [OF 2(2), of "drop ?nl"] unfolding ref by (auto simp: add.commute)
  have l4: "length (group_chars g) = 4" by (simp add: group_chars_def Let_def)
  have "take 4 (drop (src d + ?nl) buf) = group_chars g" unfolding buf by (simp add: l4)
  then have g4: "base64_getch4 buf ?d0 =
      (False, ?d0\<lparr>src := src d + ?nl + 4, acc := word_of_nat (group_val g), mark := 3 - length g, state := 4\<rparr>)"
    using getch4_group [of ?d0 buf g] 2 g by simp
  have "base64_getch4 buf (d\<lparr>acc := 0, state := 0\<rparr>) = base64_getch4 buf ?d0"
  proof (cases "len = 76")
    case True
    then have hd: "drop (src d) buf = 10 # group_chars g @ base64_ref (drop 2 bs) ?len" using 2(2) ref by simp
    then have lt: "src d < length buf" by (metis drop_eq_Nil2 list.distinct(1) not_less)
    then have "buf ! src d = 10" using hd hd_drop_conv_nth [OF lt] by simp
    then show ?thesis using getch4_newline [of "d\<lparr>acc := 0, state := 0\<rparr>" buf] 2 True lt by simp
  qed simp
  note step = this [unfolded g4]
  have rest: "drop (src d + ?nl + 4) buf = base64_ref (drop 2 bs) ?len"
    using arg_cong [OF buf, of "drop 4"] l4 by (simp add: add.commute)
  have le: "src d + ?nl + 4 \<le> length buf"
    using arg_cong [OF buf, of length] l4 by simp
  define n where "n = group_val g"
  have n: "n < 16777216" unfolding n_def by (rule group_val_less)
  note o = unat_octet [OF n]
  have bytes: "take (length g) [word_of_nat (n div 65536), word_of_nat (n div 256), word_of_nat n :: u8] = g"
    unfolding n_def by (rule group_bytes [OF g(1,2)])
  define d1 where "d1 = ?d0\<lparr>src := src d + ?nl + 4, acc := word_of_nat n, mark := 3 - length g, state := 4\<rparr>"
  have d1: "src d1 = src d + ?nl + 4" "src_end d1 = length buf" "\<not> error d1" "mark d1 = 3 - length g" "acc d1 = word_of_nat n"
    using 2 by (simp_all add: d1_def)
  have st: "base64_getch4 buf (d\<lparr>acc := 0, state := 0\<rparr>) = (False, d1)"
    using step by (simp only: n_def d1_def)
  have loop: "base64_decode_bytes multi buf d dst =
      (if mark d1 \<noteq> 0 then if \<not> multi then (d1, dst @ g) else base64_decode_bytes multi buf (d1\<lparr>mark := 0\<rparr>) (dst @ g)
       else base64_decode_bytes multi buf d1 (dst @ g))"
  proof -
    let ?B = "[word_of_nat (n div 65536), word_of_nat (n div 256), word_of_nat n :: u8]"
    have B: "dst @ [ucast (drop_bit 16 (acc d1) AND 0xFF)] @ [ucast (drop_bit 8 (acc d1) AND 0xFF)]
        @ [ucast (acc d1 AND 0xFF)] = dst @ ?B"
      using o [of 16] o [of 8] o [of 0] by (simp add: d1(5))
    have full: "mark d1 = 0 \<Longrightarrow> ?B = g" using bytes g(2) d1(4) by simp
    have "3 - mark d1 = length g" "mark d1 \<le> 3" using g(1,2) d1(4) by simp_all
    then have part: "take (length (dst @ ?B) - mark d1) (dst @ ?B) = dst @ g"
      using bytes by simp
    have "base64_decode_bytes multi buf d dst =
      (if mark d1 \<noteq> 0 then if \<not> multi then (d1, dst @ g) else base64_decode_bytes multi buf (d1\<lparr>mark := 0\<rparr>) (dst @ g)
       else base64_decode_bytes multi buf d1 (dst @ ?B))"
      by (subst base64_decode_bytes.simps) (simp only: st prod.case Let_def append_assoc B part if_False)
    then show ?thesis using full by (cases "mark d1 = 0") simp_all
  qed
  show ?case
  proof (cases "mark d1 \<noteq> 0 \<and> \<not> multi")
    case True
    then have "drop 2 bs = []" using d1(4) by (simp add: g_def)
    then have "src d1 = length buf" "g = b # bs" using rest le g(3) d1(1) by simp_all
    then show ?thesis using loop True d1 by simp
  next
    case False
    have "\<exists>d'. base64_decode_bytes multi buf (d1\<lparr>mark := 0\<rparr>) (dst @ g) = (d', (dst @ g) @ drop 2 bs) \<and> src d' = length buf
        \<and> src_end d' = length buf \<and> \<not> error d'"
      using rest le d1 by (intro 2(1)) simp_all
    moreover have "base64_decode_bytes multi buf d dst = base64_decode_bytes multi buf (d1\<lparr>mark := 0\<rparr>) (dst @ g)"
    proof (cases "mark d1 = 0")
      case True
      then have "d1\<lparr>mark := 0\<rparr> = d1" by simp
      with True show ?thesis by (simp only: loop) simp
    qed (use loop False in simp)
    ultimately show ?thesis using g(3) by simp
  qed
qed

section \<open>Lengths\<close>

lemma length_base64_ref:
  "len \<le> 76 \<Longrightarrow> 4 dvd len \<Longrightarrow>
    length (base64_ref s len) = (length s + 2) div 3 * 4 + (if s = [] then 0 else (len + (length s + 2) div 3 * 4 - 1) div 76)"
proof (induction s len rule: base64_ref.induct)
  case (2 b bs len)
  let ?len = "(if len = 76 then 0 else len) + 4"
  have ih: "length (base64_ref (drop 2 bs) ?len) = (length (drop 2 bs) + 2) div 3 * 4
      + (if drop 2 bs = [] then 0 else (?len + (length (drop 2 bs) + 2) div 3 * 4 - 1) div 76)"
    using 2 by (intro "2.IH") (auto elim!: dvdE)
  have l4: "length (group_chars (take 3 (b # bs))) = 4" by (simp add: group_chars_def Let_def)
  have step: "length (base64_ref (b # bs) len) = (if len = 76 then 1 else 0) + 4 + length (base64_ref (drop 2 bs) ?len)"
    by (simp only: base64_ref.simps length_append l4) simp
  show ?case
  proof (cases "length bs \<le> 2")
    case True
    then have "drop 2 bs = []" "(Suc (length bs) + 2) div 3 = 1" by auto
    moreover have "(len + 4 - 1) div 76 = (if len = 76 then 1 else 0)"
      using 2(2,3) by (auto elim!: dvdE)
    ultimately show ?thesis unfolding step ih by simp
  next
    case False
    let ?k = "(length (drop 2 bs) + 2) div 3"
    have k: "(Suc (length bs) + 2) div 3 = Suc ?k" and "drop 2 bs \<noteq> []" and "0 < ?k" using False by auto
    moreover have "(len + Suc ?k * 4 - 1) div 76 = (if len = 76 then 1 else 0) + (?len + ?k * 4 - 1) div 76"
    proof (cases "len = 76")
      case True
      have "len + Suc ?k * 4 - 1 = 76 + (?len + ?k * 4 - 1)" using True \<open>0 < ?k\<close> by simp
      then show ?thesis using True by (simp only: div_add_self1) simp
    qed (simp add: add.assoc)
    ultimately show ?thesis unfolding step ih by simp
  qed
qed simp

lemma decode_bytes_bounds:
  "src d \<le> src_end d \<Longrightarrow>
    length (snd (base64_decode_bytes multi buf d dst)) \<le> length dst + (src_end d - src d) div 4 * 3"
proof (induction "src_end d - src d" arbitrary: d dst rule: less_induct)
  case less
  obtain r d1 where g: "base64_getch4 buf (d\<lparr>acc := 0, state := 0\<rparr>) = (r, d1)" by (metis surj_pair)
  show ?case
  proof (cases r)
    case True
    then show ?thesis using g by (subst base64_decode_bytes.simps) simp
  next
    case False
    then have m: "src d + 4 \<le> src d1" "src d1 \<le> src_end d" "src_end d1 = src_end d"
      using getch4_mono [of buf "d\<lparr>acc := 0, state := 0\<rparr>" d1] g by simp_all
    then have q: "3 + (src_end d - src d1) div 4 * 3 \<le> (src_end d - src d) div 4 * 3"
    proof -
      have "(src_end d - src d1) + 4 \<le> src_end d - src d" using m by linarith
      from div_le_mono [OF this, of 4] have "(src_end d - src d1) div 4 + 1 \<le> (src_end d - src d) div 4"
        by (simp only: div_add_self2 numeral_eq_iff zero_neq_numeral[symmetric] not_False_eq_True)
      then show ?thesis by linarith
    qed
    have lt: "src_end d - src d1 < src_end d - src d" using m by linarith
    have ih: "length (snd (base64_decode_bytes multi buf d2 dst')) \<le> length dst' + (src_end d - src d1) div 4 * 3"
      if "src d2 = src d1" "src_end d2 = src_end d" for d2 dst'
      using less(1) [of d2 dst'] m lt that by simp
    have ih3: "length (snd (base64_decode_bytes multi buf d2 dst')) \<le> length dst + (src_end d - src d) div 4 * 3"
      if "src d2 = src d1" "src_end d2 = src_end d" "length dst' \<le> length dst + 3" for d2 dst'
      using ih [OF that(1,2), of dst'] that(3) q by linarith
    let ?dst = "dst @ [ucast (drop_bit 16 (acc d1) AND 0xFF)] @ [ucast (drop_bit 8 (acc d1) AND 0xFF)] @ [ucast (acc d1 AND 0xFF)]"
    have "base64_decode_bytes multi buf d dst =
        (if mark d1 \<noteq> 0 then if \<not> multi then (d1, take (length ?dst - mark d1) ?dst)
           else base64_decode_bytes multi buf (d1\<lparr>mark := 0\<rparr>) (take (length ?dst - mark d1) ?dst)
         else base64_decode_bytes multi buf d1 ?dst)"
      using False by (subst base64_decode_bytes.simps) (simp only: g prod.case Let_def append_assoc if_False)
    moreover have "length (take (length ?dst - mark d1) ?dst) \<le> length dst + 3" "length ?dst \<le> length dst + 3"
      by simp_all
    moreover have "length dst + 3 \<le> length dst + (src_end d - src d) div 4 * 3" using q by linarith
    ultimately show ?thesis
      using ih3 [of "d1\<lparr>mark := 0\<rparr>"] ih3 [of d1 ?dst] m(3)
      by (simp only: my_base64_decoder.simps my_base64_decoder.update_convs split: if_split) (auto simp del: length_append length_take)
  qed
qed

text \<open>Only the bytes in front of the end of the input matter.\<close>

lemma skip_spaces_cong:
  "\<forall>i < src_end d. buf ! i = buf' ! i \<Longrightarrow> my_base64_decoder_skip_spaces buf d = my_base64_decoder_skip_spaces buf' d"
proof (induction buf d rule: my_base64_decoder_skip_spaces.induct)
  case (1 buf d)
  then show ?case by (subst (1 2) my_base64_decoder_skip_spaces.simps) simp
qed

lemma getch_cong:
  assumes "\<forall>i < src_end d. buf ! i = buf' ! i"
  shows "my_base64_decoder_getch buf d = my_base64_decoder_getch buf' d"
proof -
  obtain r d1 where s: "my_base64_decoder_skip_spaces buf' d = (r, d1)" by (metis surj_pair)
  then have "\<not> r \<Longrightarrow> src d1 < src_end d" using skip_spaces_mono [of d buf'] by simp
  then have "\<not> r \<Longrightarrow> buf ! src d1 = buf' ! src d1" using assms by blast
  then show ?thesis
    using skip_spaces_cong [OF assms] s by (auto simp: my_base64_decoder_getch_def my_base64_add_def Let_def)
qed

lemma getch_end: "src_end (snd (my_base64_decoder_getch buf d)) = src_end d"
  using skip_spaces_mono [of d buf]
  by (auto simp: my_base64_decoder_getch_def my_base64_add_def Let_def case_prod_beta)

lemma getch4_cong:
  "\<forall>i < src_end d. buf ! i = buf' ! i \<Longrightarrow> base64_getch4 buf d = base64_getch4 buf' d"
proof -
  assume a: "\<forall>i < src_end d. buf ! i = buf' ! i"
  have "my_base64_decoder_getch buf d2 = my_base64_decoder_getch buf' d2" if "src_end d2 = src_end d" for d2
    by (rule getch_cong) (use a that in simp)
  then show ?thesis by (simp add: base64_getch4_def case_prod_beta getch_end)
qed

lemma getch4_end': "src_end (snd (base64_getch4 buf d)) = src_end d"
  by (simp add: base64_getch4_def case_prod_beta getch_end)

lemma decode_loop_cong:
  "src d \<le> src_end d \<Longrightarrow> \<forall>i < src_end d. buf ! i = buf' ! i \<Longrightarrow>
    base64_decode_loop multi buf d m p = base64_decode_loop multi buf' d m p
    \<and> src_end (fst (base64_decode_loop multi buf' d m p)) = src_end d"
proof (induction "src_end d - src d" arbitrary: d m p rule: less_induct)
  case less
  obtain r d1 where g: "base64_getch4 buf' (d\<lparr>acc := 0, state := 0\<rparr>) = (r, d1)" by (metis surj_pair)
  then have g': "base64_getch4 buf (d\<lparr>acc := 0, state := 0\<rparr>) = (r, d1)"
    using getch4_cong [of "d\<lparr>acc := 0, state := 0\<rparr>" buf buf'] less by simp
  have e: "src_end d1 = src_end d" using getch4_end' [of buf' "d\<lparr>acc := 0, state := 0\<rparr>"] g by simp
  have m: "\<not> r \<Longrightarrow> src d + 4 \<le> src d1 \<and> src d1 \<le> src_end d"
    using getch4_mono [of buf' "d\<lparr>acc := 0, state := 0\<rparr>" d1] g by simp
  have ih: "base64_decode_loop multi buf d2 m' p' = base64_decode_loop multi buf' d2 m' p'
      \<and> src_end (fst (base64_decode_loop multi buf' d2 m' p')) = src_end d"
    if "\<not> r" "src d2 = src d1" "src_end d2 = src_end d" for d2 m' p'
  proof -
    have "src_end d2 - src d2 < src_end d - src d" using m that by linarith
    then show ?thesis using less(1) [of d2 m' p'] m less(2,3) that by simp
  qed
  show ?case
    by (subst (1 2 3) base64_decode_loop.simps) (use g g' e ih in \<open>auto simp: Let_def\<close>)
qed

lemma decode_cong:
  assumes "\<forall>i < len. buf ! i = buf' ! i"
  shows "my_base64_decode buf len m dst multi = my_base64_decode buf' len m dst multi"
proof -
  let ?d = "\<lparr>src = 0, src_end = len, acc = 0, error = False, state = 0, mark = 0\<rparr>"
  obtain d1 m1 p1 where l: "base64_decode_loop multi buf' ?d m dst = (d1, m1, p1)" by (metis surj_pair)
  then have l': "base64_decode_loop multi buf ?d m dst = (d1, m1, p1)" "src_end d1 = len"
    using decode_loop_cong [of ?d buf buf' multi m dst] assms by simp_all
  have "my_base64_decoder_skip_spaces buf (d1\<lparr>state := 0\<rparr>) = my_base64_decoder_skip_spaces buf' (d1\<lparr>state := 0\<rparr>)"
    by (rule skip_spaces_cong) (use assms l'(2) in simp)
  then show ?thesis by (simp only: my_base64_decode_def Let_def l l'(1) prod.case)
qed

section \<open>The decoder in memory\<close>

lemma getch_mark:
  "my_base64_decoder_getch buf d = (False, d') \<Longrightarrow>
    state d' = state d + 1 \<and> mark d' \<le> mark d + (if 2 \<le> state d then 1 else 0)"
  using skip_spaces_mono [of d buf]
  by (auto simp: my_base64_decoder_getch_def my_base64_add_def Let_def case_prod_beta split: if_splits)

lemma getch4_mark:
  assumes "base64_getch4 buf d = (False, d')" "state d = 0" "mark d = 0"
  shows "mark d' \<le> 2"
proof -
  obtain d1 d2 d3 where g: "my_base64_decoder_getch buf d = (False, d1)" "my_base64_decoder_getch buf d1 = (False, d2)"
    "my_base64_decoder_getch buf d2 = (False, d3)" "my_base64_decoder_getch buf d3 = (False, d')"
    using assms(1) by (auto simp: base64_getch4_def split: prod.splits if_splits)
  show ?thesis using getch_mark [OF g(1)] getch_mark [OF g(2)] getch_mark [OF g(3)] getch_mark [OF g(4)] assms(2,3)
    by (simp split: if_splits)
qed

lemma getch_src: "src d \<le> src_end d \<Longrightarrow> src (snd (my_base64_decoder_getch buf d)) \<le> src_end d"
  using skip_spaces_mono [of d buf] skip_spaces_src [of d buf]
  by (auto simp: my_base64_decoder_getch_def my_base64_add_def Let_def case_prod_beta)

lemma getch4_src:
  assumes "src d \<le> src_end d"
  shows "src (snd (base64_getch4 buf d)) \<le> src_end d"
proof -
  define d1 where "d1 = snd (my_base64_decoder_getch buf d)"
  define d2 where "d2 = snd (my_base64_decoder_getch buf d1)"
  define d3 where "d3 = snd (my_base64_decoder_getch buf d2)"
  have e: "src_end d1 = src_end d" "src_end d2 = src_end d" "src_end d3 = src_end d"
    by (simp_all add: d1_def d2_def d3_def getch_end)
  have 1: "src d1 \<le> src_end d" using getch_src [OF assms] by (simp add: d1_def)
  have 2: "src d2 \<le> src_end d" using getch_src [of d1 buf] 1 e by (simp add: d2_def)
  have 3: "src d3 \<le> src_end d" using getch_src [of d2 buf] 2 e by (simp add: d3_def)
  have 4: "src (snd (my_base64_decoder_getch buf d3)) \<le> src_end d" using getch_src [of d3 buf] 3 e by simp
  have "snd (base64_getch4 buf d) \<in> {d1, d2, d3, snd (my_base64_decoder_getch buf d3)}"
    by (simp add: base64_getch4_def case_prod_beta d1_def d2_def d3_def)
  then show ?thesis using 1 2 3 4 by auto
qed

text \<open>
  The destination holds what the reference decoder gives, and the decoder stores only behind the address it
  starts at, three bytes for every four characters at most.
\<close>

definition holds :: "mem \<Rightarrow> nat \<Rightarrow> u8 list \<Rightarrow> bool" where
  "holds m a bs \<longleftrightarrow> (\<forall>i < length bs. m (a + i) = bs ! i)"

lemma holds_take: "holds m a bs \<Longrightarrow> holds m a (take n bs)"
  by (simp add: holds_def)

lemma holds_store3:
  assumes "holds m a bs"
  shows "holds (m(a + length bs := x, a + length bs + 1 := y, a + length bs + 2 := z)) a (bs @ [x, y, z])"
  using assms by (auto simp: holds_def nth_append less_Suc_eq)

lemma decode_loop_memory:
  assumes "src d \<le> src_end d" "mark d = 0" "holds m a bs"
  shows "\<exists>m'. base64_decode_loop multi buf d m (a + length bs) =
      (fst (base64_decode_bytes multi buf d bs), m', a + length (snd (base64_decode_bytes multi buf d bs)))
    \<and> holds m' a (snd (base64_decode_bytes multi buf d bs))
    \<and> src (fst (base64_decode_bytes multi buf d bs)) \<le> src_end d \<and> src_end (fst (base64_decode_bytes multi buf d bs)) = src_end d
    \<and> (\<forall>x. x < a \<or> a + length bs + (src_end d - src d) div 4 * 3 \<le> x \<longrightarrow> m' x = m x)"
  using assms
proof (induction "src_end d - src d" arbitrary: d m bs rule: less_induct)
  case less
  obtain r d1 where g: "base64_getch4 buf (d\<lparr>acc := 0, state := 0\<rparr>) = (r, d1)" by (metis surj_pair)
  have e: "src_end d1 = src_end d" using getch4_end' [of buf "d\<lparr>acc := 0, state := 0\<rparr>"] g by simp
  have sl: "src d1 \<le> src_end d" using getch4_src [of "d\<lparr>acc := 0, state := 0\<rparr>" buf] g less(2) by simp
  show ?case
  proof (cases r)
    case True
    then have "base64_decode_loop multi buf d m (a + length bs) = (d1, m, a + length bs)" "base64_decode_bytes multi buf d bs = (d1, bs)"
      using g by (subst base64_decode_loop.simps base64_decode_bytes.simps, simp)+
    then show ?thesis using less(4) e sl by simp
  next
    case False
    have st: "src d + 4 \<le> src d1" using getch4_mono [of buf "d\<lparr>acc := 0, state := 0\<rparr>" d1] g False by simp
    have mk: "mark d1 \<le> 2" using getch4_mark [of buf "d\<lparr>acc := 0, state := 0\<rparr>" d1] g False less(3) by simp
    define x y z :: u8 where "x = ucast (drop_bit 16 (acc d1) AND 0xFF)" and "y = ucast (drop_bit 8 (acc d1) AND 0xFF)"
      and "z = ucast (acc d1 AND 0xFF)"
    define m1 where "m1 = m(a + length bs := x, a + length bs + 1 := y, a + length bs + 2 := z)"
    define bs1 where "bs1 = take (length bs + 3 - mark d1) (bs @ [x, y, z])"
    have len: "length bs1 = length bs + 3 - mark d1" by (simp add: bs1_def)
    have h: "holds m1 a bs1" unfolding m1_def bs1_def by (rule holds_take [OF holds_store3 [OF less(4)]])
    let ?d = "d1\<lparr>mark := 0\<rparr>"
    have d0: "mark d1 = 0 \<Longrightarrow> ?d = d1" by simp
    have p: "a + length bs + 1 + 1 + 1 - mark d1 = a + length bs1" using mk by (simp add: len)
    have loop: "base64_decode_loop multi buf d m (a + length bs) =
      (if mark d1 \<noteq> 0 \<and> \<not> multi then (d1, m1, a + length bs1) else base64_decode_loop multi buf ?d m1 (a + length bs1))"
    proof (cases "mark d1 = 0")
      case True
      then have l: "a + length bs1 = Suc (Suc (Suc (a + length bs)))" using len by simp
      show ?thesis using False True unfolding d0 [OF True] l
        by (subst base64_decode_loop.simps) (simp add: g Let_def m1_def x_def y_def z_def)
    next
      case m: False
      then show ?thesis using False p
        by (subst base64_decode_loop.simps) (simp add: g Let_def m1_def x_def y_def z_def)
    qed
    have bytes: "base64_decode_bytes multi buf d bs =
      (if mark d1 \<noteq> 0 \<and> \<not> multi then (d1, bs1) else base64_decode_bytes multi buf ?d bs1)"
    proof (cases "mark d1 = 0")
      case True
      then show ?thesis using False unfolding d0 [OF True]
        by (subst base64_decode_bytes.simps) (simp add: g Let_def bs1_def x_def y_def z_def)
    next
      case m: False
      then show ?thesis using False
        by (subst base64_decode_bytes.simps) (simp add: g Let_def bs1_def x_def y_def z_def numeral_3_eq_3)
    qed
    have q: "3 + (src_end d - src d1) div 4 * 3 \<le> (src_end d - src d) div 4 * 3"
    proof -
      have "(src_end d - src d1) + 4 \<le> src_end d - src d" using st sl by linarith
      from div_le_mono [OF this, of 4] have "(src_end d - src d1) div 4 + 1 \<le> (src_end d - src d) div 4"
        by (simp only: div_add_self2 numeral_eq_iff zero_neq_numeral [symmetric] not_False_eq_True)
      then show ?thesis by linarith
    qed
    have fr: "m1 v = m v" if "v < a \<or> a + length bs + (src_end d - src d) div 4 * 3 \<le> v" for v
      using that q by (auto simp: m1_def)
    show ?thesis
    proof (cases "mark d1 \<noteq> 0 \<and> \<not> multi")
      case True
      then show ?thesis unfolding loop bytes using h e sl fr by simp
    next
      case go: False
      have "src_end ?d - src ?d < src_end d - src d" using st sl e by simp
      from less(1) [OF this, of m1 bs1] obtain m' where m':
        "base64_decode_loop multi buf ?d m1 (a + length bs1) =
          (fst (base64_decode_bytes multi buf ?d bs1), m', a + length (snd (base64_decode_bytes multi buf ?d bs1)))"
        "holds m' a (snd (base64_decode_bytes multi buf ?d bs1))"
        "src (fst (base64_decode_bytes multi buf ?d bs1)) \<le> src_end d" "src_end (fst (base64_decode_bytes multi buf ?d bs1)) = src_end d"
        "\<forall>v. v < a \<or> a + length bs1 + (src_end d - src d1) div 4 * 3 \<le> v \<longrightarrow> m' v = m1 v"
        using h e sl by auto
      have "m' v = m v" if "v < a \<or> a + length bs + (src_end d - src d) div 4 * 3 \<le> v" for v
      proof -
        have "v < a \<or> a + length bs1 + (src_end d - src d1) div 4 * 3 \<le> v" using that q len by linarith
        then have "m' v = m1 v" using m'(5) by blast
        then show ?thesis using fr [OF that] by (rule trans)
      qed
      then show ?thesis unfolding loop bytes if_not_P [OF go] using m' by blast
    qed
  qed
qed

lemma decode_memory:
  fixes buf :: "u8 list" and len :: nat and multi :: bool
  defines "d0 \<equiv> \<lparr>src = 0, src_end = len, acc = 0, error = False, state = 0, mark = 0\<rparr>"
  shows "\<exists>ret m' e. my_base64_decode buf len m dst multi = (ret, m', e) \<and> e \<le> len
    \<and> holds m' dst (snd (base64_decode_bytes multi buf d0 []))
    \<and> (ret = -1 \<or> ret = wrap_int (int (length (snd (base64_decode_bytes multi buf d0 [])))))
    \<and> (\<forall>x. x < dst \<or> dst + len div 4 * 3 \<le> x \<longrightarrow> m' x = m x)"
proof -
  define out where "out = base64_decode_bytes multi buf d0 []"
  obtain m' where m': "base64_decode_loop multi buf d0 m dst = (fst out, m', dst + length (snd out))" "holds m' dst (snd out)"
    "src (fst out) \<le> len" "src_end (fst out) = len" "\<forall>x. x < dst \<or> dst + len div 4 * 3 \<le> x \<longrightarrow> m' x = m x"
    using decode_loop_memory [of d0 m dst "[]" multi buf] unfolding out_def d0_def holds_def by auto
  obtain r d2 where sk: "my_base64_decoder_skip_spaces buf ((fst out)\<lparr>state := 0\<rparr>) = (r, d2)" by (metis surj_pair)
  have "src d2 \<le> len" using skip_spaces_src [of "(fst out)\<lparr>state := 0\<rparr>" buf] sk m'(3,4) by simp
  moreover have "my_base64_decode buf len m dst multi =
    (if error d2 \<or> \<not> r then -1 else wrap_int (int (length (snd out))), m', src d2)"
    using m'(1) sk unfolding d0_def by (simp add: my_base64_decode_def Let_def)
  ultimately show ?thesis using m'(2,5) unfolding out_def by auto
qed

section \<open>Properties\<close>

text \<open>
  C20: decoding what \<open>my_base64_encode\<close> wrote, line feeds and padding included, stores the original bytes,
  returns their number (as an \<open>int\<close>) and consumes the whole text, for every input and in both decoding modes.
\<close>

theorem base64_roundtrip:
  "\<exists>m'. my_base64_decode (my_base64_encode s) (length (my_base64_encode s) - 1) m dst multi =
      (wrap_int (int (length s)), m', length (my_base64_encode s) - 1)
    \<and> map (\<lambda>i. m' (dst + i)) [0..<length s] = s"
proof -
  let ?b = "base64_ref s 0" and ?d = "\<lparr>src = 0, src_end = length (base64_ref s 0), acc = 0, error = False, state = 0, mark = 0\<rparr>"
  have e: "my_base64_encode s = ?b @ [0]" by (simp add: my_base64_encode_def encode_loop_ref)
  have c: "my_base64_decode (?b @ [0]) (length ?b) m dst multi = my_base64_decode ?b (length ?b) m dst multi"
    by (rule decode_cong) (simp add: nth_append)
  obtain d' where b: "base64_decode_bytes multi ?b ?d [] = (d', [] @ s)" "src d' = length ?b" "src_end d' = length ?b" "\<not> error d'"
    using decode_bytes_ref [of ?d ?b s 0 multi "[]"] by auto
  obtain m' where m': "base64_decode_loop multi ?b ?d m dst = (d', m', dst + length s)" "holds m' dst s"
    using decode_loop_memory [of ?d m dst "[]" multi ?b] b(1) by (auto simp: holds_def)
  have "my_base64_decode ?b (length ?b) m dst multi = (wrap_int (int (length s)), m', length ?b)"
    using m'(1) b(2-4) by (simp add: my_base64_decode_def skip_spaces_end)
  moreover have "map (\<lambda>i. m' (dst + i)) [0..<length s] = s" using m'(2) by (intro nth_equalityI) (simp_all add: holds_def)
  ultimately show ?thesis using c by (simp add: e)
qed

text \<open>
  The encoder writes exactly \<open>my_base64_needed_encoded_length\<close> bytes, the terminating NUL
  included, for every length up to \<open>my_base64_encode_max_arg_length\<close>, and the computation of that
  number does not overflow there; one byte more and it is negative.
\<close>

theorem base64_encoded_length:
  assumes "int (length s) \<le> my_base64_encode_max_arg_length"
  shows "int (length (my_base64_encode s)) = my_base64_needed_encoded_length (int (length s))
    \<and> my_base64_needed_encoded_length (my_base64_encode_max_arg_length + 1) < 0"
proof -
  have e: "length (my_base64_encode s) = length (base64_ref s 0) + 1"
    by (simp add: my_base64_encode_def encode_loop_ref)
  define k where "k = (length s + 2) div 3"
  have n: "int (length s) \<le> 1589695686" using assms by (simp add: my_base64_encode_max_arg_length_def)
  have k: "int k = (int (length s) + 2) div 3" by (simp add: k_def zdiv_int)
  have k3: "3 * int k \<le> int (length s) + 2" unfolding k by linarith
  have c3: "cdiv (wrap_int (int (length s) + 2)) 3 = int k" using n by (simp add: wrap_int_id cdiv_nonneg k)
  have nl: "cdiv (wrap_int (int k * 4 - 1)) 76 = (if s = [] then 0 else (int k * 4 - 1) div 76)"
  proof (cases "s = []")
    case True
    then show ?thesis by (simp add: k_def wrap_int_id cdiv_def)
  next
    case False
    then have "1 \<le> int k" by (simp add: k_def Suc_le_eq div_greater_zero_iff)
    then show ?thesis using False n k3 by (simp add: wrap_int_id cdiv_nonneg)
  qed
  have "int k \<le> 529898562" using k3 n by presburger
  then have "int k * 4 - 1 \<le> 2119594247" by linarith
  from zdiv_mono1 [OF this, of 76] have le: "(int k * 4 - 1) div 76 \<le> 27889397" by simp
  have l: "int (length (base64_ref s 0)) = int k * 4 + (if s = [] then 0 else (int k * 4 - 1) div 76)"
  proof (cases "s = []")
    case False
    then have "1 \<le> k" by (simp add: k_def Suc_le_eq div_greater_zero_iff)
    moreover have "length (base64_ref s 0) = k * 4 + (k * 4 - 1) div 76"
      using False length_base64_ref [of 0 s] unfolding k_def by simp
    moreover have "int ((k * 4 - 1) div 76) = (int k * 4 - 1) div 76"
      using \<open>1 \<le> k\<close> by (simp add: zdiv_int of_nat_diff)
    ultimately show ?thesis using False by simp
  qed (simp add: k_def)
  have "my_base64_needed_encoded_length (int (length s)) = int (length (base64_ref s 0)) + 1"
  proof -
    define v where "v = (if s = [] then 0 else (int k * 4 - 1) div 76)"
    have v: "0 \<le> v" "v \<le> 27889397"
      using le by (auto simp: v_def k_def pos_imp_zdiv_nonneg_iff Suc_le_eq div_greater_zero_iff)
    have k4: "int k * 4 \<le> 2119594248" using \<open>int k \<le> 529898562\<close> by linarith
    have w4: "wrap_int (int k * 4) = int k * 4" using k4 by (simp add: wrap_int_id)
    have "my_base64_needed_encoded_length (int (length s)) = wrap_int (wrap_int (int k * 4 + v) + 1)"
      unfolding my_base64_needed_encoded_length_def Let_def c3 w4 nl v_def ..
    also have "\<dots> = int k * 4 + v + 1" using v k4 by (simp add: wrap_int_id)
    finally show ?thesis by (simp only: l v_def)
  qed
  moreover have "my_base64_needed_encoded_length (my_base64_encode_max_arg_length + 1) < 0"
    by (simp add: my_base64_needed_encoded_length_def my_base64_encode_max_arg_length_def wrap_int_def cdiv_def)
  ultimately show ?thesis by (simp add: e)
qed

theorem base64_encoded_length_witness:
  "int (length (my_base64_encode [77, 97, 114])) = my_base64_needed_encoded_length 3"
proof -
  have "int (length [77, 97, 114 :: u8]) \<le> my_base64_encode_max_arg_length"
    by (simp add: my_base64_encode_max_arg_length_def)
  from base64_encoded_length [OF this] show ?thesis by simp
qed

text \<open>
  C29: whatever the input, malformed texts included, the decoder stores at most three bytes for every four
  characters, from the address of the destination on, and changes nothing else in the memory. This is never
  more than \<open>my_base64_needed_decoded_length\<close> where that number is right. It reads only the first \<open>len\<close>
  characters and stops at one of them or at their end, and it returns -1 or a number of bytes below the bound.
\<close>

theorem base64_decode_bounds:
  "(\<exists>ret m' e. my_base64_decode buf len m dst multi = (ret, m', e) \<and> e \<le> len
      \<and> (\<forall>x. x < dst \<or> dst + len div 4 * 3 \<le> x \<longrightarrow> m' x = m x)
      \<and> (int len < 2147483648 \<longrightarrow> - 1 \<le> ret \<and> ret \<le> int (len div 4 * 3)))
   \<and> (len \<le> length buf \<longrightarrow> my_base64_decode (buf @ xs) len m dst multi = my_base64_decode buf len m dst multi)
   \<and> (int len < 2147483645 \<longrightarrow> int (len div 4 * 3) \<le> my_base64_needed_decoded_length (int len))"
proof (intro conjI impI)
  let ?out = "snd (base64_decode_bytes multi buf \<lparr>src = 0, src_end = len, acc = 0, error = False, state = 0, mark = 0\<rparr> [])"
  have l: "length ?out \<le> len div 4 * 3"
    using decode_bytes_bounds [of "\<lparr>src = 0, src_end = len, acc = 0, error = False, state = 0, mark = 0\<rparr>" multi buf "[]"] by simp
  have w: "wrap_int (int (length ?out)) = int (length ?out)" if "int len < 2147483648"
  proof -
    have "int (length ?out) \<le> int len" using l div_times_less_eq_dividend [of len 4] by linarith
    then show ?thesis using that by (intro wrap_int_id) simp_all
  qed
  show "\<exists>ret m' e. my_base64_decode buf len m dst multi = (ret, m', e) \<and> e \<le> len
      \<and> (\<forall>x. x < dst \<or> dst + len div 4 * 3 \<le> x \<longrightarrow> m' x = m x)
      \<and> (int len < 2147483648 \<longrightarrow> - 1 \<le> ret \<and> ret \<le> int (len div 4 * 3))"
    using decode_memory [of buf len m dst multi] l w by fastforce
  show "my_base64_decode (buf @ xs) len m dst multi = my_base64_decode buf len m dst multi" if "len \<le> length buf"
    by (rule decode_cong) (use that in \<open>simp add: nth_append\<close>)
  show "int (len div 4 * 3) \<le> my_base64_needed_decoded_length (int len)" if "int len < 2147483645"
  proof -
    have "my_base64_needed_decoded_length (int len) = (int len + 3) div 4 * 3"
      using that by (simp add: my_base64_needed_decoded_length_def wrap_int_id cdiv_nonneg)
    moreover have "int (len div 4) \<le> (int len + 3) div 4" by (simp add: zdiv_int zdiv_mono1)
    ultimately show ?thesis by simp
  qed
qed

text \<open>A text with a good and a malformed group, "TWFyTW!x": the bytes of the first group are stored, then the result is -1.\<close>

theorem base64_decode_bounds_witness:
  "\<exists>m'. my_base64_decode [84, 87, 70, 121, 84, 87, 33, 120] 8 (\<lambda>_. 0) 100 False = (-1, m', 6) \<and>
     m' 100 = 77 \<and> m' 101 = 97 \<and> m' 102 = 114 \<and> m' 99 = 0 \<and> m' 106 = 0"
proof -
  obtain m' where m': "my_base64_decode [84, 87, 70, 121, 84, 87, 33, 120] 8 (\<lambda>_. 0) 100 False = (-1, m', 6)"
    "m' 100 = 77" "m' 101 = 97" "m' 102 = 114"
    by (simp add: my_base64_decode_def base64_decode_loop.simps base64_getch4_def my_base64_decoder_getch_def my_base64_add_def
        my_base64_decoder_skip_spaces.simps from_base64_table_def Let_def)
  show ?thesis
    using base64_decode_bounds [where buf = "[84, 87, 70, 121, 84, 87, 33, 120]" and len = 8 and multi = False and xs = "[]"
        and m = "\<lambda>_. 0" and dst = 100] m' by auto
qed

text \<open>
  For the longest inputs \<open>my_base64_decode_max_arg_length\<close> admits, the computed buffer size is
  negative: the cast to \<open>int\<close> is applied to the length plus 3, before the division.
\<close>

theorem base64_decoded_length_overflow:
  assumes "0 \<le> n" "n \<le> my_base64_decode_max_arg_length"
  shows "my_base64_needed_decoded_length n < 0 \<longleftrightarrow> 2147483645 \<le> n"
proof (cases "2147483645 \<le> n")
  case False
  then have "my_base64_needed_decoded_length n = (n + 3) div 4 * 3"
    using assms(1) by (simp add: my_base64_needed_decoded_length_def wrap_int_id cdiv_nonneg)
  with False assms(1) show ?thesis by (simp add: pos_imp_zdiv_nonneg_iff not_less)
next
  case True
  then have "n = 2147483645 \<or> n = 2147483646 \<or> n = 2147483647"
    using assms(2) unfolding my_base64_decode_max_arg_length_def by linarith
  then show ?thesis
    by (elim disjE) (simp_all add: my_base64_needed_decoded_length_def wrap_int_def cdiv_def)
qed

theorem base64_decoded_length_overflow_witness:
  "my_base64_needed_decoded_length my_base64_decode_max_arg_length < 0"
  using base64_decoded_length_overflow [of my_base64_decode_max_arg_length]
  by (simp add: my_base64_decode_max_arg_length_def)

end
