(* ===== verification/DynArray.thy ===== *)
theory DynArray
  imports Prelude
begin

text \<open>
  The dynamic arrays of \<^verbatim>\<open>mysys/array.c\<close>.  The code moves and clears whole elements only, so
  the buffer is the list of its slots of \<open>size_of_element\<close> bytes and an index stands for the
  pointer \<open>buffer + idx * size_of_element\<close>; the NULL buffer is the empty list.  \<open>zero\<close> is the
  element of zero bytes.  The memory that \<open>my_malloc\<close> or \<open>my_realloc\<close> obtained, with whatever it
  holds, is a parameter, and \<open>None\<close> when there was none.  A store outside of the buffer is the
  result \<open>None\<close> of the operation.
\<close>

section \<open>Definitions\<close>

record 'e dynamic_array =
  buffer :: "'e list"
  elements :: nat
  max_element :: nat
  alloc_increment :: nat
  size_of_element :: nat
  init_buffer_used :: bool

definition MALLOC_OVERHEAD :: nat where
  "MALLOC_OVERHEAD = 8"

text \<open>\<open>my_realloc\<close> to \<open>n\<close> slots: the old slots move to the new block.\<close>

definition realloc_slots :: "'e list \<Rightarrow> nat \<Rightarrow> 'e list option \<Rightarrow> 'e list option" where
  "realloc_slots buf n mem =
     (case mem of None \<Rightarrow> None | Some junk \<Rightarrow> Some (take n buf @ take (n - length buf) junk))"

definition malloc_slots :: "nat \<Rightarrow> 'e list option \<Rightarrow> 'e list option" where
  "malloc_slots n mem = (case mem of None \<Rightarrow> None | Some junk \<Rightarrow> Some (take n junk))"

definition init_dynamic_array2 ::
  "nat \<Rightarrow> 'e list option \<Rightarrow> nat \<Rightarrow> nat \<Rightarrow> 'e list option \<Rightarrow> bool \<times> 'e dynamic_array" where
  "init_dynamic_array2 element_size init_buffer init_alloc alloc_incr mem =
     (let alloc_incr =
            (if alloc_incr = 0 then
               let a = max ((8192 - MALLOC_OVERHEAD) div element_size) 16
               in if init_alloc > 8 \<and> a > init_alloc * 2 then init_alloc * 2 else a
             else alloc_incr);
          array = \<lparr>buffer = [], elements = 0, max_element = init_alloc,
                   alloc_increment = alloc_incr, size_of_element = element_size,
                   init_buffer_used = False\<rparr>
      in case init_buffer of
           Some buf \<Rightarrow> (False, array\<lparr>buffer := buf, init_buffer_used := True\<rparr>)
         | None \<Rightarrow>
             if init_alloc \<noteq> 0 then
               case malloc_slots init_alloc mem of
                 None \<Rightarrow> (False, array\<lparr>max_element := 0\<rparr>)
               | Some buf \<Rightarrow> (False, array\<lparr>buffer := buf\<rparr>)
             else (False, array))"

text \<open>A \<open>memcpy\<close> or \<open>bzero\<close> of whole elements into the buffer.\<close>

definition store_slot :: "'e dynamic_array \<Rightarrow> nat \<Rightarrow> 'e \<Rightarrow> 'e dynamic_array option" where
  "store_slot array idx e =
     (if idx < length (buffer array) then Some (array\<lparr>buffer := (buffer array)[idx := e]\<rparr>) else None)"

fun zero_slots :: "'e \<Rightarrow> 'e dynamic_array \<Rightarrow> nat \<Rightarrow> nat \<Rightarrow> 'e dynamic_array option" where
  "zero_slots zero array idx 0 = Some array"
| "zero_slots zero array idx (Suc n) =
     (case store_slot array idx zero of
        None \<Rightarrow> None
      | Some array \<Rightarrow> zero_slots zero array (Suc idx) n)"

text \<open>The index of the slot that the returned pointer refers to, or \<open>None\<close> for the pointer 0.\<close>

definition alloc_dynamic :: "'e list option \<Rightarrow> 'e dynamic_array \<Rightarrow> nat option \<times> 'e dynamic_array" where
  "alloc_dynamic mem array =
     (let grown =
        (if elements array = max_element array then
           let n = max_element array + alloc_increment array in
           if init_buffer_used array then
             case malloc_slots n mem of
               None \<Rightarrow> None
             | Some new_ptr \<Rightarrow>
                 let new_ptr =
                   (if elements array \<noteq> 0
                    then take (elements array) (buffer array) @ drop (elements array) new_ptr
                    else new_ptr)
                 in Some (array\<lparr>init_buffer_used := False, buffer := new_ptr, max_element := n\<rparr>)
           else
             case realloc_slots (buffer array) n mem of
               None \<Rightarrow> None
             | Some new_ptr \<Rightarrow> Some (array\<lparr>buffer := new_ptr, max_element := n\<rparr>)
         else Some array)
      in case grown of
           None \<Rightarrow> (None, array)
         | Some array \<Rightarrow> (Some (elements array), array\<lparr>elements := elements array + 1\<rparr>))"

definition insert_dynamic ::
  "'e list option \<Rightarrow> 'e dynamic_array \<Rightarrow> 'e \<Rightarrow> (bool \<times> 'e dynamic_array) option" where
  "insert_dynamic mem array element =
     (let (slot, array) =
        (if elements array = max_element array then alloc_dynamic mem array
         else (Some (elements array), array\<lparr>elements := elements array + 1\<rparr>))
      in case slot of
           None \<Rightarrow> Some (True, array)
         | Some idx \<Rightarrow>
             (case store_slot array idx element of
                None \<Rightarrow> None
              | Some array \<Rightarrow> Some (False, array)))"

definition pop_dynamic :: "'e dynamic_array \<Rightarrow> nat option \<times> 'e dynamic_array" where
  "pop_dynamic array =
     (if elements array \<noteq> 0
      then (Some (elements array - 1), array\<lparr>elements := elements array - 1\<rparr>)
      else (None, array))"

text \<open>The branch for a static buffer returns 0, which is \<open>FALSE\<close>, when there is no memory.\<close>

definition allocate_dynamic :: "'e list option \<Rightarrow> 'e dynamic_array \<Rightarrow> nat \<Rightarrow> bool \<times> 'e dynamic_array" where
  "allocate_dynamic mem array max_elements =
     (if max_elements \<ge> max_element array then
        let size = (max_elements + alloc_increment array) div alloc_increment array;
            size = size * alloc_increment array
        in if init_buffer_used array then
             case malloc_slots size mem of
               None \<Rightarrow> (False, array)
             | Some new_ptr \<Rightarrow>
                 (False, array\<lparr>init_buffer_used := False,
                   buffer := take (elements array) (buffer array) @ drop (elements array) new_ptr,
                   max_element := size\<rparr>)
           else
             case realloc_slots (buffer array) size mem of
               None \<Rightarrow> (True, array)
             | Some new_ptr \<Rightarrow> (False, array\<lparr>buffer := new_ptr, max_element := size\<rparr>)
      else (False, array))"

definition set_dynamic ::
  "'e \<Rightarrow> 'e list option \<Rightarrow> 'e dynamic_array \<Rightarrow> 'e \<Rightarrow> nat \<Rightarrow> (bool \<times> 'e dynamic_array) option" where
  "set_dynamic zero mem array element idx =
     (let (failed, array) =
        (if idx \<ge> elements array \<and> idx \<ge> max_element array then allocate_dynamic mem array idx
         else (False, array))
      in if failed then Some (True, array)
         else
           let extended =
             (if idx \<ge> elements array then
                case zero_slots zero array (elements array) (idx - elements array) of
                  None \<Rightarrow> None
                | Some array \<Rightarrow> Some (array\<lparr>elements := idx + 1\<rparr>)
              else Some array)
           in case extended of
                None \<Rightarrow> None
              | Some array \<Rightarrow>
                  (case store_slot array idx element of
                     None \<Rightarrow> None
                   | Some array \<Rightarrow> Some (False, array)))"

definition get_dynamic :: "'e \<Rightarrow> 'e dynamic_array \<Rightarrow> nat \<Rightarrow> 'e" where
  "get_dynamic zero array idx = (if idx \<ge> elements array then zero else buffer array ! idx)"

definition delete_dynamic :: "'e dynamic_array \<Rightarrow> 'e dynamic_array" where
  "delete_dynamic array = array\<lparr>buffer := [], elements := 0, max_element := 0\<rparr>"

text \<open>\<open>memmove\<close> of the elements behind \<open>idx\<close> one slot down.\<close>

definition delete_dynamic_element :: "'e dynamic_array \<Rightarrow> nat \<Rightarrow> 'e dynamic_array" where
  "delete_dynamic_element array idx =
     (let array = array\<lparr>elements := elements array - 1\<rparr>; n = elements array - idx; buf = buffer array
      in array\<lparr>buffer := take idx buf @ take n (drop (idx + 1) buf) @ drop (idx + n) buf\<rparr>)"

text \<open>The elements \<open>f\<close> is called on, in this order, and the array afterwards.\<close>

definition delete_dynamic_with_callback :: "'e dynamic_array \<Rightarrow> 'e list \<times> 'e dynamic_array" where
  "delete_dynamic_with_callback array =
     (map (\<lambda>i. buffer array ! i) [0..<elements array], delete_dynamic array)"

text \<open>The result of \<open>my_realloc\<close> is stored without a test.\<close>

definition freeze_size :: "'e list option \<Rightarrow> 'e dynamic_array \<Rightarrow> 'e dynamic_array" where
  "freeze_size mem array =
     (if init_buffer_used array then array
      else
        let n = max (elements array) 1 in
        if buffer array \<noteq> [] \<and> max_element array > n then
          array\<lparr>buffer := (case realloc_slots (buffer array) n mem of None \<Rightarrow> [] | Some b \<Rightarrow> b),
                max_element := n\<rparr>
        else array)"

definition reset_dynamic :: "'e dynamic_array \<Rightarrow> 'e dynamic_array" where
  "reset_dynamic array = array\<lparr>elements := 0\<rparr>"

section \<open>The array as a list\<close>

definition contents :: "'e dynamic_array \<Rightarrow> 'e list" where
  "contents array = take (elements array) (buffer array)"

definition da_inv :: "'e dynamic_array \<Rightarrow> bool" where
  "da_inv array \<longleftrightarrow> elements array \<le> max_element array \<and> max_element array \<le> length (buffer array)
     \<and> 0 < alloc_increment array"

text \<open>A block that was obtained has at least the requested number of slots.\<close>

definition mem_ok :: "nat \<Rightarrow> 'e list option \<Rightarrow> bool" where
  "mem_ok n mem \<longleftrightarrow> (case mem of None \<Rightarrow> True | Some junk \<Rightarrow> n \<le> length junk)"

definition grow_to :: "'e dynamic_array \<Rightarrow> nat \<Rightarrow> nat" where
  "grow_to array idx = (idx + alloc_increment array) div alloc_increment array * alloc_increment array"

lemma grow_to_gt: "0 < alloc_increment array \<Longrightarrow> idx < grow_to array idx"
  using div_mult_mod_eq [of "idx + alloc_increment array" "alloc_increment array"]
    mod_less_divisor [of "alloc_increment array" "idx + alloc_increment array"]
  unfolding grow_to_def by linarith

lemma da_invD:
  "da_inv array \<Longrightarrow> elements array \<le> length (buffer array)"
  "da_inv array \<Longrightarrow> length (contents array) = elements array"
  by (simp_all add: da_inv_def contents_def)

lemma init_inv:
  assumes "0 < sz" "case ib of Some b \<Rightarrow> n \<le> length b | None \<Rightarrow> True" "mem_ok n mem"
  shows "fst (init_dynamic_array2 sz ib n inc mem) = False"
    and "da_inv (snd (init_dynamic_array2 sz ib n inc mem))"
    and "contents (snd (init_dynamic_array2 sz ib n inc mem)) = []"
  using assms
  by (auto simp: init_dynamic_array2_def Let_def da_inv_def contents_def malloc_slots_def mem_ok_def
      split: option.splits)

lemma alloc_dynamic_spec:
  assumes "da_inv array" "mem_ok (max_element array + alloc_increment array) mem"
    and r: "alloc_dynamic mem array = (slot, array')"
  shows "case slot of
      None \<Rightarrow> mem = None \<and> elements array = max_element array \<and> array' = array
    | Some idx \<Rightarrow> idx = elements array \<and> da_inv array' \<and> elements array' = Suc (elements array)
        \<and> take (elements array) (buffer array') = contents array \<and> idx < length (buffer array')"
  using assms
  by (auto simp: alloc_dynamic_def da_inv_def mem_ok_def contents_def Let_def malloc_slots_def realloc_slots_def
      min_def split: option.splits if_splits)

lemma contents_store:
  assumes "n < length b" "take n b = xs"
  shows "take (Suc n) (b[n := e]) = xs @ [e]"
  using assms by (simp add: take_Suc_conv_app_nth)

lemma insert_dynamic_spec:
  assumes inv: "da_inv array" and mem: "mem_ok (max_element array + alloc_increment array) mem"
  shows "if mem = None \<and> elements array = max_element array
    then insert_dynamic mem array e = Some (True, array)
    else \<exists>array'. insert_dynamic mem array e = Some (False, array') \<and> da_inv array' \<and> contents array' = contents array @ [e]"
proof (cases "elements array = max_element array")
  case True
  obtain slot a where r: "alloc_dynamic mem array = (slot, a)" by (metis surj_pair)
  note sp = alloc_dynamic_spec [OF inv mem r]
  show ?thesis
  proof (cases slot)
    case None
    with sp True r show ?thesis by (simp add: insert_dynamic_def)
  next
    case (Some idx)
    have "mem \<noteq> None"
      using r True Some by (cases mem) (auto simp: alloc_dynamic_def malloc_slots_def realloc_slots_def Let_def split: if_splits)
    then show ?thesis
      using sp True r Some
      by (auto simp: insert_dynamic_def store_slot_def da_inv_def contents_def contents_store)
  qed
next
  case False
  then have "elements array < length (buffer array)" using inv by (simp add: da_inv_def)
  then show ?thesis
    using False inv by (auto simp: insert_dynamic_def store_slot_def da_inv_def contents_def contents_store)
qed

lemma zero_slots_spec:
  "idx + n \<le> length (buffer array) \<Longrightarrow>
    zero_slots zero array idx n =
      Some (array\<lparr>buffer := take idx (buffer array) @ replicate n zero @ drop (idx + n) (buffer array)\<rparr>)"
proof (induction zero array idx n rule: zero_slots.induct)
  case (2 zero array idx n)
  have "take (Suc idx) ((buffer array)[idx := zero]) = take idx (buffer array) @ [zero]"
    using 2(2) by (intro contents_store) simp_all
  moreover have "drop (Suc (idx + n)) ((buffer array)[idx := zero]) = drop (Suc (idx + n)) (buffer array)"
    by (simp add: drop_update_cancel)
  ultimately show ?case using 2 by (simp add: store_slot_def)
qed simp

lemma zero_slots_length: "zero_slots zero array idx n = Some a \<Longrightarrow> length (buffer a) = length (buffer array)"
proof (induction zero array idx n rule: zero_slots.induct)
  case (2 zero array idx n)
  then show ?case by (cases "idx < length (buffer array)") (simp_all add: store_slot_def)
qed simp

lemma allocate_dynamic_spec:
  assumes "da_inv array" "mem_ok (grow_to array idx) mem" "mem \<noteq> None"
  shows "fst (allocate_dynamic mem array idx) = False"
    "da_inv (snd (allocate_dynamic mem array idx))"
    "elements (snd (allocate_dynamic mem array idx)) = elements array"
    "contents (snd (allocate_dynamic mem array idx)) = contents array"
    "idx < max_element (snd (allocate_dynamic mem array idx))"
proof -
  have lt: "idx < grow_to array idx" using assms(1) by (intro grow_to_gt) (simp add: da_inv_def)
  note d = allocate_dynamic_def Let_def malloc_slots_def realloc_slots_def
  show "fst (allocate_dynamic mem array idx) = False"
    using assms(3) by (auto simp: d)
  show "da_inv (snd (allocate_dynamic mem array idx))"
    "elements (snd (allocate_dynamic mem array idx)) = elements array"
    "contents (snd (allocate_dynamic mem array idx)) = contents array"
    "idx < max_element (snd (allocate_dynamic mem array idx))"
    using assms lt
    by (auto simp: d da_inv_def mem_ok_def contents_def min_def grow_to_def [symmetric])
qed

lemma set_dynamic_spec:
  assumes inv: "da_inv array" and mem: "mem_ok (grow_to array idx) mem" and m: "mem \<noteq> None \<or> idx < max_element array"
  shows "\<exists>array'. set_dynamic zero mem array e idx = Some (False, array') \<and> da_inv array'
    \<and> contents array' = (contents array @ replicate (Suc idx - elements array) zero)[idx := e]"
proof -
  let ?g = "idx \<ge> elements array \<and> idx \<ge> max_element array"
  define a where "a = (if ?g then snd (allocate_dynamic mem array idx) else array)"
  have al: "(if ?g then allocate_dynamic mem array idx else (False, array)) = (False, a)"
    using allocate_dynamic_spec(1) [OF inv mem] m by (cases ?g) (auto simp: a_def prod_eq_iff)
  have a: "da_inv a" "elements a = elements array" "contents a = contents array" "idx < max_element a"
    using allocate_dynamic_spec(2-5) [OF inv mem] m inv by (auto simp: a_def da_inv_def)
  have len: "idx < length (buffer a)" using a(1,4) by (simp add: da_inv_def)
  show ?thesis
  proof (cases "elements array \<le> idx")
    case True
    let ?b = "take (elements a) (buffer a) @ replicate (idx - elements a) zero @ drop idx (buffer a)"
    have z: "zero_slots zero a (elements a) (idx - elements a) = Some (a\<lparr>buffer := ?b\<rparr>)"
      using zero_slots_spec [of "elements a" "idx - elements a" a zero] True a(2) len by simp
    have lb: "length ?b = length (buffer a)" using True a(2) len by simp
    have "set_dynamic zero mem array e idx = Some (False, a\<lparr>buffer := ?b[idx := e], elements := idx + 1\<rparr>)"
      using al z True len lb a(2) by (simp add: set_dynamic_def store_slot_def Let_def del: length_append)
    moreover have "take (idx + 1) (?b[idx := e]) = (contents array @ replicate (Suc idx - elements array) zero)[idx := e]"
    proof -
      define C where "C = take (elements a) (buffer a)"
      define k where "k = idx - elements a"
      have C: "C = contents array" "length C = elements array" "idx = elements array + k"
        using a(1-3) True da_invD(2) [OF a(1)] by (simp_all add: C_def k_def contents_def)
      have d: "drop idx (buffer a) = buffer a ! idx # drop (Suc idx) (buffer a)"
        using len by (simp add: Cons_nth_drop_Suc)
      have "?b[idx := e] = C @ replicate k zero @ e # drop (Suc idx) (buffer a)"
        unfolding C_def [symmetric] k_def [symmetric] d using C(2,3) by (simp add: list_update_append)
      moreover have "(C @ replicate (Suc k) zero)[idx := e] = C @ replicate k zero @ [e]"
      proof -
        have "replicate (Suc k) zero = replicate k zero @ [zero]" by (simp add: replicate_append_same)
        then show ?thesis using C(2,3) by (simp only: list_update_append) (simp add: list_update_append)
      qed
      moreover have "Suc idx - elements array = Suc k" using C(3) by simp
      ultimately show ?thesis using C by simp
    qed
    ultimately show ?thesis using a lb by (auto simp: da_inv_def contents_def)
  next
    case False
    then have lt: "idx < elements array" "idx < length (buffer array)"
      using da_invD(1) [OF inv] by simp_all
    then have "set_dynamic zero mem array e idx = Some (False, array\<lparr>buffer := (buffer array)[idx := e]\<rparr>)"
      by (simp add: set_dynamic_def store_slot_def Let_def)
    moreover have "take (elements array) ((buffer array)[idx := e]) = (contents array)[idx := e]"
      by (simp add: contents_def take_update_swap)
    moreover have "Suc idx - elements array = 0" using lt by simp
    ultimately show ?thesis using inv by (simp add: da_inv_def contents_def)
  qed
qed

lemma pop_dynamic_spec:
  assumes "da_inv array"
  shows "if contents array = [] then pop_dynamic array = (None, array)
    else \<exists>array'. pop_dynamic array = (Some (elements array - 1), array') \<and> da_inv array'
      \<and> buffer array' ! (elements array - 1) = last (contents array) \<and> contents array' = butlast (contents array)"
proof (cases "elements array")
  case 0
  then show ?thesis by (simp add: pop_dynamic_def contents_def)
next
  case (Suc n)
  then have "n < length (buffer array)" using da_invD(1) [OF assms] by simp
  then have "contents array = take n (buffer array) @ [buffer array ! n]"
    by (simp add: contents_def Suc take_Suc_conv_app_nth)
  then show ?thesis using Suc assms by (auto simp: pop_dynamic_def da_inv_def contents_def)
qed

lemma delete_element_spec:
  assumes "da_inv array" "idx < elements array"
  shows "da_inv (delete_dynamic_element array idx)"
    and "contents (delete_dynamic_element array idx) = take idx (contents array) @ drop (Suc idx) (contents array)"
proof -
  let ?b = "buffer array" and ?n = "elements array - 1 - idx"
  have l: "elements array \<le> length ?b" using da_invD(1) [OF assms(1)] .
  have e: "idx + ?n = elements array - 1" using assms(2) by simp
  have lb: "length (take idx ?b @ take ?n (drop (Suc idx) ?b) @ drop (idx + ?n) ?b) = length ?b"
    using l assms(2) by simp
  then show "da_inv (delete_dynamic_element array idx)"
    using assms by (auto simp: da_inv_def delete_dynamic_element_def Let_def simp del: length_append)
  have "take (elements array - 1) (take idx ?b @ take ?n (drop (Suc idx) ?b) @ drop (idx + ?n) ?b)
      = take idx ?b @ take ?n (drop (Suc idx) ?b)"
    using l assms(2) by simp
  also have "\<dots> = take idx (contents array) @ drop (Suc idx) (contents array)"
    using assms(2) by (simp add: contents_def take_drop min_def)
  finally show "contents (delete_dynamic_element array idx) = take idx (contents array) @ drop (Suc idx) (contents array)"
    by (simp add: contents_def delete_dynamic_element_def Let_def)
qed

lemma get_dynamic_spec:
  "da_inv array \<Longrightarrow> get_dynamic zero array idx = (if idx < length (contents array) then contents array ! idx else zero)"
  using da_invD [of array] by (simp add: get_dynamic_def contents_def)

lemma freeze_size_spec:
  assumes "da_inv array" "mem \<noteq> None"
  shows "contents (freeze_size mem array) = contents array" "da_inv (freeze_size mem array)"
  using assms
  by (auto simp: freeze_size_def contents_def da_inv_def Let_def realloc_slots_def min_def split: option.splits)

lemma freeze_size_capacity:
  "\<not> init_buffer_used array \<Longrightarrow> buffer array \<noteq> [] \<Longrightarrow>
   max_element (freeze_size mem array) = min (max_element array) (max (elements array) 1)"
  by (auto simp: freeze_size_def Let_def)

text \<open>
  A list that grows at the end: what the clients of the array rely on when memory is not
  exhausted.
\<close>

locale growing_list =
  fixes inv :: "'s \<Rightarrow> bool" and list_of :: "'s \<Rightarrow> 'e list"
    and push :: "'s \<Rightarrow> 'e \<Rightarrow> 's" and pop :: "'s \<Rightarrow> ('e \<times> 's) option"
  assumes push_law: "inv s \<Longrightarrow> inv (push s e) \<and> list_of (push s e) = list_of s @ [e]"
    and pop_empty: "inv s \<Longrightarrow> list_of s = [] \<Longrightarrow> pop s = None"
    and pop_law: "inv s \<Longrightarrow> list_of s \<noteq> [] \<Longrightarrow>
      (case pop s of None \<Rightarrow> False
       | Some (e, s') \<Rightarrow> e = last (list_of s) \<and> list_of s' = butlast (list_of s) \<and> inv s')"
begin

lemma push_all: "inv s \<Longrightarrow> inv (fold (\<lambda>e s. push s e) es s) \<and> list_of (fold (\<lambda>e s. push s e) es s) = list_of s @ es"
  by (induction es arbitrary: s) (auto simp: push_law)

fun pop_all :: "nat \<Rightarrow> 's \<Rightarrow> 'e list \<times> 's" where
  "pop_all 0 s = ([], s)"
| "pop_all (Suc n) s =
     (case pop s of None \<Rightarrow> ([], s) | Some (e, s) \<Rightarrow> (let (es, s) = pop_all n s in (e # es, s)))"

lemma pop_all_rev:
  "inv s \<Longrightarrow> length (list_of s) \<le> n \<Longrightarrow> fst (pop_all n s) = rev (list_of s) \<and> list_of (snd (pop_all n s)) = []"
proof (induction n arbitrary: s)
  case (Suc n)
  show ?case
  proof (cases "list_of s = []")
    case True
    then show ?thesis using pop_empty [OF Suc.prems(1)] by simp
  next
    case False
    then obtain e s' where p: "pop s = Some (e, s')" "e = last (list_of s)" "list_of s' = butlast (list_of s)" "inv s'"
      using pop_law [OF Suc.prems(1)] by (auto split: option.splits)
    then have "length (list_of s') \<le> n" using Suc.prems(2) by simp
    then have ih: "fst (pop_all n s') = rev (butlast (list_of s)) \<and> list_of (snd (pop_all n s')) = []"
      using Suc.IH [OF p(4)] p(3) by simp
    obtain ys y where ys: "list_of s = ys @ [y]" using False by (meson rev_exhaust)
    then show ?thesis using p(1,2) ih by (simp add: case_prod_beta)
  qed
qed simp

end

text \<open>Inserting and taking back with an allocator that always finds memory.\<close>

definition push_slot :: "'e \<Rightarrow> 'e dynamic_array \<Rightarrow> 'e \<Rightarrow> 'e dynamic_array" where
  "push_slot junk array e =
     (case insert_dynamic (Some (replicate (max_element array + alloc_increment array) junk)) array e of
        Some (_, array') \<Rightarrow> array' | None \<Rightarrow> array)"

definition pop_element :: "'e dynamic_array \<Rightarrow> ('e \<times> 'e dynamic_array) option" where
  "pop_element array =
     (case pop_dynamic array of (None, _) \<Rightarrow> None | (Some idx, array') \<Rightarrow> Some (buffer array' ! idx, array'))"

interpretation da: growing_list da_inv contents "push_slot junk" pop_element for junk
proof (unfold_locales, goal_cases)
  case (1 s e)
  then show ?case
    using insert_dynamic_spec [of s "Some (replicate (max_element s + alloc_increment s) junk)" e]
    by (auto simp: push_slot_def mem_ok_def)
next
  case (2 s)
  then show ?case using pop_dynamic_spec [of s] by (simp add: pop_element_def)
next
  case (3 s)
  then show ?case using pop_dynamic_spec [of s] by (auto simp: pop_element_def)
qed

section \<open>Properties\<close>

definition sample_array :: "nat dynamic_array" where
  "sample_array = \<lparr>buffer = [7, 8, 9], elements = 2, max_element = 3, alloc_increment = 4, size_of_element = 8,
     init_buffer_used = True\<rparr>"

lemma sample_array_inv: "da_inv sample_array" "contents sample_array = [7, 8]"
  by (simp_all add: da_inv_def sample_array_def contents_def)

text \<open>
  C24: on a well-formed array, static buffer or not, the operations are the list operations as
  long as memory is found: insertion appends, \<open>set_dynamic\<close> stores and fills the gap with zero
  elements, deletion drops one position, \<open>get_dynamic\<close> reads or gives the zero element, \<open>pop_dynamic\<close> takes
  the last element and nothing from an empty array, \<open>freeze_size\<close> keeps the elements and leaves an allocated
  buffer room for them only; nothing is stored outside of the buffer and the array stays well formed.
\<close>

theorem dynamic_array_refines_list:
  assumes "da_inv array" "mem_ok (max_element array + alloc_increment array) (Some mem)"
    "mem_ok (grow_to array idx) (Some mem)"
  shows "(\<exists>a. insert_dynamic (Some mem) array e = Some (False, a) \<and> da_inv a \<and> contents a = contents array @ [e])
    \<and> (\<exists>a. set_dynamic zero (Some mem) array e idx = Some (False, a) \<and> da_inv a
        \<and> contents a = (contents array @ replicate (Suc idx - length (contents array)) zero)[idx := e])
    \<and> (idx < length (contents array) \<longrightarrow>
        da_inv (delete_dynamic_element array idx)
        \<and> contents (delete_dynamic_element array idx) = take idx (contents array) @ drop (Suc idx) (contents array))
    \<and> get_dynamic zero array idx = (if idx < length (contents array) then contents array ! idx else zero)
    \<and> (if contents array = [] then pop_dynamic array = (None, array)
       else \<exists>a. pop_dynamic array = (Some (elements array - 1), a) \<and> da_inv a
          \<and> buffer a ! (elements array - 1) = last (contents array) \<and> contents a = butlast (contents array))
    \<and> da_inv (freeze_size (Some mem) array) \<and> contents (freeze_size (Some mem) array) = contents array
    \<and> (\<not> init_buffer_used array \<and> buffer array \<noteq> [] \<longrightarrow>
        max_element (freeze_size (Some mem) array) = min (max_element array) (max (elements array) 1))"
proof -
  note da_invD(2) [OF assms(1)]
  moreover note insert_dynamic_spec [OF assms(1,2), of e] set_dynamic_spec [OF assms(1,3), of zero e]
    delete_element_spec [OF assms(1), of idx] get_dynamic_spec [OF assms(1), of zero idx]
  moreover have "if contents array = [] then pop_dynamic array = (None, array)
       else \<exists>a. pop_dynamic array = (Some (elements array - 1), a) \<and> da_inv a
          \<and> buffer a ! (elements array - 1) = last (contents array) \<and> contents a = butlast (contents array)"
    using pop_dynamic_spec [OF assms(1)] by (simp split: if_splits)
  moreover have "da_inv (freeze_size (Some mem) array)" "contents (freeze_size (Some mem) array) = contents array"
    using freeze_size_spec [OF assms(1), of "Some mem"] by simp_all
  moreover note freeze_size_capacity [of array "Some mem"]
  ultimately show ?thesis by simp
qed

theorem dynamic_array_refines_list_witness:
  "(\<exists>a. set_dynamic 0 (Some (replicate 12 1)) sample_array 5 6 = Some (False, a) \<and> contents a = [7, 8, 0, 0, 0, 0, 5])
   \<and> contents (delete_dynamic_element sample_array 0) = [8]
   \<and> (let a = freeze_size (Some (replicate 12 1)) (sample_array\<lparr>init_buffer_used := False\<rparr>)
      in da_inv a \<and> contents a = [7, 8] \<and> max_element a = 2)"
proof -
  let ?a = "sample_array\<lparr>init_buffer_used := False\<rparr>"
  have a: "da_inv ?a" "contents ?a = [7, 8]" by (simp_all add: da_inv_def sample_array_def contents_def)
  have am: "mem_ok (max_element ?a + alloc_increment ?a) (Some (replicate 12 (1 :: nat)))"
    "mem_ok (grow_to ?a 0) (Some (replicate 12 (1 :: nat)))"
    by (simp_all add: mem_ok_def sample_array_def grow_to_def)
  have f: "da_inv (freeze_size (Some (replicate 12 1)) ?a) \<and> contents (freeze_size (Some (replicate 12 1)) ?a) = contents ?a
    \<and> (\<not> init_buffer_used ?a \<and> buffer ?a \<noteq> [] \<longrightarrow>
        max_element (freeze_size (Some (replicate 12 1)) ?a) = min (max_element ?a) (max (elements ?a) 1))"
    using dynamic_array_refines_list [OF a(1) am] by blast
  have "\<not> init_buffer_used ?a" "buffer ?a \<noteq> []" "min (max_element ?a) (max (elements ?a) 1) = 2"
    by (simp_all add: sample_array_def)
  with f have fr: "da_inv (freeze_size (Some (replicate 12 1)) ?a)" "contents (freeze_size (Some (replicate 12 1)) ?a) = [7, 8]"
    "max_element (freeze_size (Some (replicate 12 1)) ?a) = 2" using a(2) by simp_all
  have m: "mem_ok (max_element sample_array + alloc_increment sample_array) (Some (replicate 12 (1 :: nat)))"
    "mem_ok (grow_to sample_array 6) (Some (replicate 12 (1 :: nat)))"
    "mem_ok (grow_to sample_array 0) (Some (replicate 12 (1 :: nat)))"
    by (simp_all add: mem_ok_def sample_array_def grow_to_def)
  have z: "replicate 5 (0 :: nat) = [0, 0, 0, 0, 0]" by code_simp
  have "\<exists>a. set_dynamic 0 (Some (replicate 12 1)) sample_array 5 6 = Some (False, a) \<and> contents a = [7, 8, 0, 0, 0, 0, 5]"
    using dynamic_array_refines_list [OF sample_array_inv(1) m(1,2), of 5 0] by (auto simp: sample_array_inv(2) z)
  moreover have "contents (delete_dynamic_element sample_array 0) = [8]"
    using dynamic_array_refines_list [OF sample_array_inv(1) m(1,3), of 5 0] by (auto simp: sample_array_inv(2))
  ultimately show ?thesis using fr unfolding Let_def by blast
qed

text \<open>
  Elements pushed to an array come back in reverse order when they are popped, whatever the
  array held before.
\<close>

theorem dynamic_array_stack:
  assumes "da_inv array"
  shows "fst (da.pop_all (length (contents array) + length es) (fold (\<lambda>e a. push_slot junk a e) es array))
    = rev es @ rev (contents array)"
  using da.push_all [OF assms, of junk es]
    da.pop_all_rev [of "fold (\<lambda>e a. push_slot junk a e) es array" "length (contents array) + length es"]
  by simp

theorem dynamic_array_stack_witness:
  "fst (da.pop_all 4 (fold (\<lambda>e a. push_slot 0 a e) [1, 2] sample_array)) = [2, 1, 8, 7]"
proof -
  have "length (contents sample_array) + length [1, 2 :: nat] = 4" by (simp add: sample_array_inv(2))
  with dynamic_array_stack [OF sample_array_inv(1), of "[1, 2]" 0] show ?thesis
    by (simp only: sample_array_inv(2)) simp
qed

text \<open>
  C30: without memory, \<open>insert_dynamic\<close> reports the failure and leaves the array alone, and so does
  \<open>set_dynamic\<close> on an allocated buffer; on a static buffer \<open>set_dynamic\<close> misses the failure, because
  \<open>allocate_dynamic\<close> returns 0, and stores behind the end of the buffer.
\<close>

theorem dynamic_array_out_of_memory:
  assumes "da_inv array" "elements array \<le> idx" "length (buffer array) \<le> idx"
  shows "(elements array = max_element array \<longrightarrow> insert_dynamic None array e = Some (True, array))
    \<and> (\<not> init_buffer_used array \<longrightarrow> set_dynamic zero None array e idx = Some (True, array))
    \<and> (init_buffer_used array \<longrightarrow> set_dynamic zero None array e idx = None)"
proof -
  have g: "elements array \<le> idx \<and> max_element array \<le> idx" using assms by (simp add: da_inv_def)
  have i: "elements array = max_element array \<Longrightarrow> insert_dynamic None array e = Some (True, array)"
    using insert_dynamic_spec [OF assms(1), of None e] by (simp add: mem_ok_def)
  show ?thesis
  proof (cases "init_buffer_used array")
    case False
    then have "allocate_dynamic None array idx = (True, array)"
      using g by (simp add: allocate_dynamic_def realloc_slots_def Let_def)
    then show ?thesis using i False g by (simp add: set_dynamic_def)
  next
    case True
    then have "allocate_dynamic None array idx = (False, array)"
      using g by (simp add: allocate_dynamic_def malloc_slots_def Let_def)
    then have "set_dynamic zero None array e idx = None"
      using g assms(3) zero_slots_length [of zero array "elements array" "idx - elements array"]
      by (auto simp: set_dynamic_def store_slot_def split: option.split)
    then show ?thesis using i True by simp
  qed
qed

theorem dynamic_array_out_of_memory_witness:
  "set_dynamic 0 None sample_array 5 3 = None
   \<and> set_dynamic 0 None (sample_array\<lparr>init_buffer_used := False\<rparr>) 5 3 = Some (True, sample_array\<lparr>init_buffer_used := False\<rparr>)"
  using dynamic_array_out_of_memory [of sample_array 3 5 0]
    dynamic_array_out_of_memory [of "sample_array\<lparr>init_buffer_used := False\<rparr>" 3 5 0] sample_array_inv(1)
  by (simp add: da_inv_def) (simp add: sample_array_def)

end
