(* ===== verification/LinkedList.thy ===== *)
theory LinkedList
  imports Prelude "HOL-Library.Monad_Syntax"
begin

text \<open>
  The doubly linked lists of \<^verbatim>\<open>mysys/list.c\<close>.  A node lives at an address and 0 is the NULL
  pointer; the store maps addresses to nodes, so that the code's updates through \<open>prev\<close> and
  \<open>next\<close> pointers are updates of the store and may alias.  Loops along the \<open>next\<close> pointers need
  not end on a damaged list: they are partial functions, and \<open>None\<close> is not returning.
\<close>

section \<open>Definitions\<close>

record list_node =
  prev :: nat
  succ :: nat
  node_data :: nat

type_synonym store = "nat \<Rightarrow> list_node"

definition set_prev :: "store \<Rightarrow> nat \<Rightarrow> nat \<Rightarrow> store" where
  "set_prev h a p = h(a := (h a)\<lparr>prev := p\<rparr>)"

definition set_next :: "store \<Rightarrow> nat \<Rightarrow> nat \<Rightarrow> store" where
  "set_next h a p = h(a := (h a)\<lparr>succ := p\<rparr>)"

definition list_add :: "store \<Rightarrow> nat \<Rightarrow> nat \<Rightarrow> nat \<times> store" where
  "list_add h root element =
     (let h =
        (if root \<noteq> 0 then
           let h = (if prev (h root) \<noteq> 0 then set_next h (prev (h root)) element else h);
               h = set_prev h element (prev (h root))
           in set_prev h root element
         else set_prev h element 0)
      in (element, set_next h element root))"

definition list_delete :: "store \<Rightarrow> nat \<Rightarrow> nat \<Rightarrow> nat \<times> store" where
  "list_delete h root element =
     (let (root, h) =
        (if prev (h element) \<noteq> 0 then (root, set_next h (prev (h element)) (succ (h element)))
         else (succ (h element), h));
          h = (if succ (h element) \<noteq> 0 then set_prev h (succ (h element)) (prev (h element)) else h)
      in (root, h))"

text \<open>The addresses given to \<open>my_free\<close>, in this order.\<close>

partial_function (option) list_free :: "store \<Rightarrow> nat \<Rightarrow> bool \<Rightarrow> nat list option" where
  "list_free h root free_data =
     (if root = 0 then Some []
      else
        let nxt = succ (h root) in
        do { freed \<leftarrow> list_free h nxt free_data;
             Some ((if free_data then [node_data (h root)] else []) @ [root] @ freed) })"

text \<open>\<open>mem\<close> is the address that \<open>my_malloc\<close> returned, 0 when there is no memory.\<close>

definition list_cons :: "nat \<Rightarrow> store \<Rightarrow> nat \<Rightarrow> nat \<Rightarrow> nat \<times> store" where
  "list_cons mem h data root =
     (if mem = 0 then (0, h)
      else list_add (h(mem := (h mem)\<lparr>node_data := data\<rparr>)) root mem)"

partial_function (option) list_reverse_loop :: "store \<Rightarrow> nat \<Rightarrow> nat \<Rightarrow> (nat \<times> store) option" where
  "list_reverse_loop h root lst =
     (if root = 0 then Some (lst, h)
      else
        let lst = root;
            root = succ (h root);
            h = set_next h lst (prev (h lst));
            h = set_prev h lst root
        in list_reverse_loop h root lst)"

definition list_reverse :: "store \<Rightarrow> nat \<Rightarrow> (nat \<times> store) option" where
  "list_reverse h root = list_reverse_loop h root root"

partial_function (option) list_length_loop :: "store \<Rightarrow> nat \<Rightarrow> u32 \<Rightarrow> u32 option" where
  "list_length_loop h list cnt =
     (if list = 0 then Some cnt else list_length_loop h (succ (h list)) (cnt + 1))"

definition list_length :: "store \<Rightarrow> nat \<Rightarrow> u32 option" where
  "list_length h list = list_length_loop h list 0"

text \<open>The error returned, and the data the action was called on.\<close>

partial_function (option) list_walk :: "store \<Rightarrow> nat \<Rightarrow> (nat \<Rightarrow> nat \<Rightarrow> int) \<Rightarrow> nat \<Rightarrow> (int \<times> nat list) option" where
  "list_walk h list action argument =
     (if list = 0 then Some (0, [])
      else
        let d = node_data (h list); error = action d argument in
        if error \<noteq> 0 then Some (error, [d])
        else do { (e, ds) \<leftarrow> list_walk h (succ (h list)) action argument; Some (e, d # ds) })"

text \<open>\<open>list_pop\<close>: the new head, the store and the address given to \<open>my_free\<close>.\<close>

definition list_pop :: "store \<Rightarrow> nat \<Rightarrow> nat \<times> store \<times> nat" where
  "list_pop h A = (let (root, h) = list_delete h A A in (root, h, A))"

section \<open>Paths through the store\<close>

text \<open>
  \<open>dpath h p x xs p' y\<close>: starting at \<open>x\<close> with predecessor \<open>p\<close>, the nodes \<open>xs\<close> are linked in both
  directions and lead to \<open>y\<close> with predecessor \<open>p'\<close>.
\<close>

fun dpath :: "store \<Rightarrow> nat \<Rightarrow> nat \<Rightarrow> nat list \<Rightarrow> nat \<Rightarrow> nat \<Rightarrow> bool" where
  "dpath h p x [] p' y \<longleftrightarrow> p = p' \<and> x = y"
| "dpath h p x (a # as) p' y \<longleftrightarrow> x = a \<and> a \<noteq> 0 \<and> prev (h a) = p \<and> dpath h a (succ (h a)) as p' y"

definition is_list :: "store \<Rightarrow> nat \<Rightarrow> nat list \<Rightarrow> bool" where
  "is_list h root xs \<longleftrightarrow> distinct xs \<and> (\<exists>l. dpath h 0 root xs l 0)"

lemma dpath_append: "dpath h p x (as @ bs) p' y \<longleftrightarrow> (\<exists>m n. dpath h p x as m n \<and> dpath h m n bs p' y)"
  by (induction as arbitrary: p x) auto

lemma dpath_frame: "u \<notin> set as \<Longrightarrow> dpath (h(u := v)) p x as p' y \<longleftrightarrow> dpath h p x as p' y"
  by (induction as arbitrary: p x) auto

lemma dpath_frames [simp]:
  "u \<notin> set as \<Longrightarrow> dpath (set_prev h u q) p x as p' y \<longleftrightarrow> dpath h p x as p' y"
  "u \<notin> set as \<Longrightarrow> dpath (set_next h u q) p x as p' y \<longleftrightarrow> dpath h p x as p' y"
  by (simp_all add: set_prev_def set_next_def dpath_frame)

lemma field_simps [simp]:
  "prev (set_prev h a p b) = (if b = a then p else prev (h b))" "succ (set_prev h a p b) = succ (h b)"
  "prev (set_next h a p b) = prev (h b)" "succ (set_next h a p b) = (if b = a then p else succ (h b))"
  "node_data (set_prev h a p b) = node_data (h b)" "node_data (set_next h a p b) = node_data (h b)"
  by (simp_all add: set_prev_def set_next_def)

text \<open>The last node of a segment is the predecessor of what follows it.\<close>

lemma dpath_last: "dpath h p x as p' y \<Longrightarrow> p' = (if as = [] then p else last as)"
  by (induction as arbitrary: p x) auto

lemma dpath_snoc:
  "dpath h p x (as @ [a]) p' y \<longleftrightarrow> dpath h p x as (prev (h a)) a \<and> a \<noteq> 0 \<and> p' = a \<and> succ (h a) = y"
  by (auto simp: dpath_append)

lemma dpath_no_null: "dpath h p x as p' y \<Longrightarrow> 0 \<notin> set as"
  by (induction as arbitrary: p x) auto

lemma dpath_upd_next_last:
  "a \<notin> set as \<Longrightarrow> dpath h p x (as @ [a]) a y \<Longrightarrow> dpath (set_next h a z) p x (as @ [a]) a z"
  by (simp add: dpath_snoc)

lemma dpath_upd_prev_first:
  "b \<notin> set bs \<Longrightarrow> dpath h p b (b # bs) p' y \<Longrightarrow> dpath (set_prev h b q) q b (b # bs) p' y"
  by simp

lemma list_add_middle:
  assumes "is_list h root (as @ y # bs)" "e \<noteq> 0" "e \<notin> set (as @ y # bs)"
    and r: "list_add h y e = (r, h')"
  shows "r = e" "is_list h' (if as = [] then e else root) (as @ e # y # bs)"
proof -
  show "r = e" using r by (simp add: list_add_def Let_def)
  obtain l m where d: "distinct (as @ y # bs)" "dpath h 0 root as m y" "dpath h m y (y # bs) l 0"
    using assms(1) by (auto simp: is_list_def dpath_append)
  have y: "y \<noteq> 0" "prev (h y) = m" "dpath h y (succ (h y)) bs l 0" using d(3) by auto
  show "is_list h' (if as = [] then e else root) (as @ e # y # bs)"
  proof (cases as rule: rev_cases)
    case Nil
    then have "m = 0" using d(2) by simp
    then have h': "h' = set_next (set_prev (set_prev h e 0) y e) e y"
      using r y by (auto simp: list_add_def Let_def)
    show ?thesis using Nil d(1) y assms(2,3) by (auto simp: is_list_def h')
  next
    case (snoc as' a)
    then have a: "m = a" "a \<noteq> 0" "dpath h 0 root as' (prev (h a)) a" using d(2) by (auto simp: dpath_snoc)
    then have h': "h' = set_next (set_prev (set_prev (set_next h a e) e a) y e) e y"
      using r y assms(3) snoc by (auto simp: list_add_def Let_def)
    have "dpath h' 0 root (as' @ [a]) a e"
      using a snoc d(1) assms(3) by (auto simp: h' dpath_snoc)
    moreover have "dpath h' a e (e # y # bs) l 0" using y a snoc d(1) assms(2,3) by (auto simp: h')
    ultimately have "dpath h' 0 root ((as' @ [a]) @ e # y # bs) l 0"
      unfolding dpath_append by blast
    then show ?thesis using snoc d(1) assms(3) by (auto simp: is_list_def)
  qed
qed

lemma list_add_empty:
  assumes "e \<noteq> 0" "list_add h 0 e = (r, h')"
  shows "r = e" "is_list h' e [e]"
  using assms by (auto simp: list_add_def is_list_def Let_def)

lemma list_delete_spec:
  assumes "is_list h root (as @ x # bs)" and r: "list_delete h root x = (root', h')"
  shows "is_list h' root' (as @ bs)"
proof -
  obtain l m where d: "distinct (as @ x # bs)" "dpath h 0 root as m x" "dpath h m x (x # bs) l 0"
    using assms(1) by (auto simp: is_list_def dpath_append)
  have x: "x \<noteq> 0" "prev (h x) = m" "dpath h x (succ (h x)) bs l 0" using d(3) by auto
  define n where "n = succ (h x)"
  have n: "n \<noteq> 0 \<longleftrightarrow> bs \<noteq> []" "bs \<noteq> [] \<Longrightarrow> n = hd bs" using x(3) by (cases bs; auto simp: n_def)+
  have m: "m = 0 \<longleftrightarrow> as = []" "as \<noteq> [] \<Longrightarrow> m = last as"
    using dpath_last [OF d(2)] dpath_no_null [OF d(2)] by (metis last_in_set, simp)
  define h1 where "h1 = (if m \<noteq> 0 then set_next h m n else h)"
  have e: "root' = (if m \<noteq> 0 then root else n)" "h' = (if n \<noteq> 0 then set_prev h1 n m else h1)"
  proof -
    have "m \<noteq> x" using m d(1) x(1) by (cases "as = []") auto
    then have f: "succ (h1 x) = n" "prev (h1 x) = m" using x by (simp_all add: h1_def n_def)
    show "root' = (if m \<noteq> 0 then root else n)" "h' = (if n \<noteq> 0 then set_prev h1 n m else h1)"
      using r f x by (auto simp: list_delete_def Let_def h1_def n_def split: if_splits)
  qed
  have left: "dpath h' 0 root' as m n"
  proof (cases as rule: rev_cases)
    case Nil
    then show ?thesis using d(2) m e by auto
  next
    case (snoc as' a)
    then have a: "m = a" "a \<noteq> 0" "dpath h 0 root as' (prev (h a)) a" using d(2) by (auto simp: dpath_snoc)
    have "bs \<noteq> [] \<Longrightarrow> n \<notin> set as" using n(2) d(1) by (cases bs) auto
    then show ?thesis using a snoc d(1) n(1) by (auto simp: e h1_def dpath_snoc)
  qed
  have right: "dpath h' m n bs (if bs = [] then m else l) 0"
  proof (cases bs)
    case Nil
    then show ?thesis using n(1) by simp
  next
    case (Cons b bs')
    then have b: "n = b" "b \<noteq> 0" "dpath h b (succ (h b)) bs' l 0" using x(3) by (auto simp: n_def)
    have "as \<noteq> [] \<Longrightarrow> m \<notin> set bs" using m(2) d(1) last_in_set [of as] by (simp add: disjoint_iff)
    then show ?thesis using b Cons d(1) m(1) by (auto simp: e h1_def)
  qed
  have "dpath h' 0 root' (as @ bs) (if bs = [] then m else l) 0"
    using left right unfolding dpath_append by blast
  then show ?thesis using d(1) by (auto simp: is_list_def)
qed

lemma reverse_loop_spec:
  "dpath h p x xs l 0 \<Longrightarrow> distinct (ys @ xs) \<Longrightarrow> dpath h x p ys l' 0 \<Longrightarrow> (xs = [] \<longrightarrow> lst = p) \<Longrightarrow>
    \<exists>r h' l''. list_reverse_loop h x lst = Some (r, h') \<and> dpath h' 0 r (rev xs @ ys) l'' 0"
proof (induction xs arbitrary: h p x ys l' lst)
  case Nil
  then show ?case by (subst list_reverse_loop.simps) auto
next
  case (Cons a xs)
  then have a: "x = a" "a \<noteq> 0" "prev (h a) = p" "dpath h a (succ (h a)) xs l 0" by auto
  define h1 where "h1 = set_prev (set_next h a p) a (succ (h a))"
  have step: "list_reverse_loop h x lst = list_reverse_loop h1 (succ (h a)) a"
    using a by (subst list_reverse_loop.simps) (simp add: h1_def Let_def)
  have "dpath h1 a (succ (h a)) xs l 0" using a Cons.prems(2) by (simp add: h1_def)
  moreover have "dpath h1 (succ (h a)) a (a # ys) l' 0" using a Cons.prems(2,3) by (simp add: h1_def)
  moreover have "distinct ((a # ys) @ xs)" using Cons.prems(2) by auto
  ultimately show ?case using Cons.IH [of h1 a "succ (h a)" "a # ys" l' a] by (simp add: step)
qed

lemma list_reverse_spec:
  assumes "is_list h root xs"
  shows "\<exists>r h'. list_reverse h root = Some (r, h') \<and> is_list h' r (rev xs)"
proof -
  obtain l where l: "distinct xs" "dpath h 0 root xs l 0" using assms by (auto simp: is_list_def)
  have "xs = [] \<longrightarrow> root = 0" using l(2) by auto
  then show ?thesis
    using reverse_loop_spec [OF l(2), of "[]" root root] l(1) by (auto simp: list_reverse_def is_list_def)
qed

lemma list_length_spec:
  "dpath h p x xs l 0 \<Longrightarrow> list_length_loop h x c = Some (c + word_of_nat (length xs))"
  by (induction xs arbitrary: p x c; subst list_length_loop.simps) auto

lemma list_free_spec:
  "dpath h p x xs l 0 \<Longrightarrow>
    list_free h x fd = Some (concat (map (\<lambda>a. (if fd then [node_data (h a)] else []) @ [a]) xs))"
  by (induction xs arbitrary: p x; subst list_free.simps) (auto simp: Let_def)

text \<open>The data up to and including the first on which the action fails.\<close>

fun walk_ref :: "(nat \<Rightarrow> nat \<Rightarrow> int) \<Rightarrow> nat \<Rightarrow> nat list \<Rightarrow> int \<times> nat list" where
  "walk_ref action arg [] = (0, [])"
| "walk_ref action arg (d # ds) =
     (if action d arg \<noteq> 0 then (action d arg, [d]) else (fst (walk_ref action arg ds), d # snd (walk_ref action arg ds)))"

lemma list_walk_spec:
  "dpath h p x xs l 0 \<Longrightarrow> list_walk h x action arg = Some (walk_ref action arg (map (\<lambda>a. node_data (h a)) xs))"
  by (induction xs arbitrary: p x; subst list_walk.simps) (auto simp: Let_def case_prod_beta)

section \<open>Properties\<close>

text \<open>A list of two nodes at 8 and 16.\<close>

definition sample_store :: store where
  "sample_store = (\<lambda>_. \<lparr>prev = 0, succ = 0, node_data = 0\<rparr>)
     (8 := \<lparr>prev = 0, succ = 16, node_data = 100\<rparr>, 16 := \<lparr>prev = 8, succ = 0, node_data = 200\<rparr>)"

lemma sample_store_list: "is_list sample_store 8 [8, 16]"
  by (simp add: is_list_def sample_store_def)

text \<open>
  C31: \<open>list_add\<close> puts an element in front of any node of a list, the head or one in the middle,
  and \<open>list_delete\<close> takes any node out; what remains is a doubly linked list of exactly the other
  nodes in their order.  Adding and deleting the same element gives the old list back.
\<close>

theorem list_add_delete:
  assumes "is_list h root (as @ y # bs)" "e \<noteq> 0" "e \<notin> set (as @ y # bs)"
  shows "(\<exists>h'. list_add h y e = (e, h') \<and> is_list h' (if as = [] then e else root) (as @ e # y # bs)
      \<and> is_list (snd (list_delete h' (if as = [] then e else root) e)) (fst (list_delete h' (if as = [] then e else root) e)) (as @ y # bs))
    \<and> is_list (snd (list_delete h root y)) (fst (list_delete h root y)) (as @ bs)"
proof -
  obtain h' where r: "list_add h y e = (e, h')" using list_add_middle(1) [OF assms] by (metis surj_pair)
  note l = list_add_middle(2) [OF assms r]
  show ?thesis using r l list_delete_spec [OF l] list_delete_spec [OF assms(1)] by (metis prod.collapse)
qed

theorem list_add_delete_witness:
  "\<exists>h'. list_add sample_store 16 24 = (24, h') \<and> is_list h' 8 [8, 24, 16]"
proof -
  have l: "is_list sample_store 8 ([8] @ 16 # [])" using sample_store_list by simp
  have "\<exists>h'. list_add sample_store 16 24 = (24, h') \<and> is_list h' (if [8] = [] then 24 else 8) ([8] @ 24 # 16 # [])"
    using list_add_delete [OF l, of 24] by (simp only: list.simps) fastforce
  then show ?thesis by simp
qed

text \<open>
  On a list the loops return: \<open>list_reverse\<close> makes the doubly linked list in the opposite order,
  \<open>list_length\<close> counts the nodes modulo \<open>2 ^ 32\<close>, \<open>list_free\<close> frees every node once, and \<open>list_walk\<close>
  calls the action along the list until it fails.
\<close>

theorem list_loops_correct:
  assumes "is_list h root xs"
  shows "(\<exists>r h'. list_reverse h root = Some (r, h') \<and> is_list h' r (rev xs))
    \<and> list_length h root = Some (word_of_nat (length xs))
    \<and> list_free h root False = Some xs
    \<and> list_walk h root action arg = Some (walk_ref action arg (map (\<lambda>a. node_data (h a)) xs))"
proof -
  obtain l where "dpath h 0 root xs l 0" using assms by (auto simp: is_list_def)
  then show ?thesis
    using list_reverse_spec [OF assms] list_length_spec [of h 0 root xs l 0] list_free_spec [of h 0 root xs l False]
      list_walk_spec [of h 0 root xs l action arg] by (simp add: list_length_def)
qed

theorem list_loops_correct_witness:
  "list_length sample_store 8 = Some 2 \<and> list_walk sample_store 8 (\<lambda>d _. if d = 100 then 5 else 0) 0 = Some (5, [100])"
  using list_loops_correct [OF sample_store_list, of "\<lambda>d _. if d = 100 then 5 else 0" 0]
  by (simp add: sample_store_def)

end
