(* ===== verification/MyTime.thy ===== *)
theory MyTime
  imports CInt
begin

text \<open>
  Dates and times, \<^verbatim>\<open>sql-common/my_time.c\<close> with \<^verbatim>\<open>include/my_time.h\<close> and
  \<^verbatim>\<open>include/mysql_time.h\<close>: the broken-down time, the validity and range checks, the day
  number of a date, and the conversions from and to numbers.  Integers are unbounded with the
  wrap-around of their C type written out where a value can leave it; an output parameter is a
  component of the result.
\<close>

section \<open>Data\<close>

datatype timestamp_type = MYSQL_TIMESTAMP_NONE | MYSQL_TIMESTAMP_ERROR | MYSQL_TIMESTAMP_DATE
  | MYSQL_TIMESTAMP_DATETIME | MYSQL_TIMESTAMP_TIME

record MYSQL_TIME =
  t_year :: int
  t_month :: int
  t_day :: int
  t_hour :: int
  t_minute :: int
  t_second :: int
  t_second_part :: int
  t_neg :: bool
  t_time_type :: timestamp_type

definition C_TIME_NO_ZERO_IN_DATE :: int where "C_TIME_NO_ZERO_IN_DATE = 2 ^ 23"
definition C_TIME_NO_ZERO_DATE :: int where "C_TIME_NO_ZERO_DATE = 2 ^ 24"
definition C_TIME_INVALID_DATES :: int where "C_TIME_INVALID_DATES = 2 ^ 25"

definition MYSQL_TIME_WARN_TRUNCATED :: int where "MYSQL_TIME_WARN_TRUNCATED = 1"
definition MYSQL_TIME_WARN_OUT_OF_RANGE :: int where "MYSQL_TIME_WARN_OUT_OF_RANGE = 2"
definition MYSQL_TIME_WARN_EDOM :: int where "MYSQL_TIME_WARN_EDOM = 4"
definition MYSQL_TIME_WARN_ZERO_DATE :: int where "MYSQL_TIME_WARN_ZERO_DATE = 8"
definition MYSQL_TIME_NOTE_TRUNCATED :: int where "MYSQL_TIME_NOTE_TRUNCATED = 16"

definition TIME_MAX_HOUR :: int where "TIME_MAX_HOUR = 838"
definition TIME_MAX_MINUTE :: int where "TIME_MAX_MINUTE = 59"
definition TIME_MAX_SECOND :: int where "TIME_MAX_SECOND = 59"
definition TIME_MAX_SECOND_PART :: int where "TIME_MAX_SECOND_PART = 999999"
definition TIME_SECOND_PART_DIGITS :: int where "TIME_SECOND_PART_DIGITS = 6"
definition AUTO_SEC_PART_DIGITS :: int where "AUTO_SEC_PART_DIGITS = 39"
definition YY_PART_YEAR :: int where "YY_PART_YEAR = 70"
definition UINT_MAX32 :: int where "UINT_MAX32 = 0xFFFFFFFF"

definition days_in_month :: "int list" where
  "days_in_month = [31, 28, 31, 30, 31, 30, 31, 31, 30, 31, 30, 31, 0]"

definition log_10_int :: "int list" where
  "log_10_int = [1, 10, 100, 1000, 10000, 100000, 1000000, 10000000, 100000000, 1000000000,
     10000000000, 100000000000, 1000000000000, 10000000000000, 100000000000000,
     1000000000000000, 10000000000000000, 100000000000000000, 1000000000000000000,
     10000000000000000000]"

definition set_zero_time :: "timestamp_type \<Rightarrow> MYSQL_TIME" where
  "set_zero_time ty = \<lparr>t_year = 0, t_month = 0, t_day = 0, t_hour = 0, t_minute = 0,
     t_second = 0, t_second_part = 0, t_neg = False, t_time_type = ty\<rparr>"

section \<open>Checks\<close>

definition calc_days_in_year :: "int \<Rightarrow> int" where
  "calc_days_in_year y =
     (if y AND 3 = 0 \<and> (y mod 100 \<noteq> 0 \<or> (y mod 400 = 0 \<and> y \<noteq> 0)) then 366 else 365)"

definition check_date :: "MYSQL_TIME \<Rightarrow> bool \<Rightarrow> int \<Rightarrow> int \<Rightarrow> bool \<times> int" where
  "check_date ltime not_zero_date flags was_cut =
     (if t_time_type ltime = MYSQL_TIMESTAMP_TIME then (False, was_cut)
      else if not_zero_date then
        if (flags AND C_TIME_NO_ZERO_IN_DATE \<noteq> 0 \<and> (t_month ltime = 0 \<or> t_day ltime = 0)) \<or>
           t_neg ltime \<or>
           (flags AND C_TIME_INVALID_DATES = 0 \<and>
            t_month ltime \<noteq> 0 \<and> t_day ltime > days_in_month ! nat (t_month ltime - 1) \<and>
            (t_month ltime \<noteq> 2 \<or> calc_days_in_year (t_year ltime) \<noteq> 366 \<or> t_day ltime \<noteq> 29))
        then (True, 2)
        else (False, was_cut)
      else if flags AND C_TIME_NO_ZERO_DATE \<noteq> 0
        then (True, was_cut OR MYSQL_TIME_WARN_ZERO_DATE)
      else (False, was_cut))"

definition check_datetime_range :: "MYSQL_TIME \<Rightarrow> bool" where
  "check_datetime_range ltime \<longleftrightarrow>
     t_year ltime > 9999 \<or> t_month ltime > 12 \<or> t_day ltime > 31 \<or>
     t_minute ltime > 59 \<or> t_second ltime > 59 \<or>
     t_second_part ltime > TIME_MAX_SECOND_PART \<or>
     t_hour ltime > (if t_time_type ltime = MYSQL_TIMESTAMP_TIME then TIME_MAX_HOUR else 23)"

definition max_sec_part :: "int list" where
  "max_sec_part = [000000, 900000, 990000, 999000, 999900, 999990, 999999]"

definition check_time_range_internal ::
    "MYSQL_TIME \<Rightarrow> int \<Rightarrow> int \<Rightarrow> int \<Rightarrow> int \<Rightarrow> bool \<times> MYSQL_TIME \<times> int" where
  "check_time_range_internal my_time max_hour err_hour dec warning =
     (if t_minute my_time \<ge> 60 \<or> t_second my_time \<ge> 60 \<or> t_hour my_time > err_hour
      then (True, my_time, warning OR MYSQL_TIME_WARN_TRUNCATED)
      else
        let hour = wrap_uint (t_hour my_time + 24 * t_day my_time);
            dec = (if dec = AUTO_SEC_PART_DIGITS then TIME_SECOND_PART_DIGITS else dec)
        in if hour \<le> max_hour \<and>
              (hour \<noteq> max_hour \<or> t_minute my_time \<noteq> TIME_MAX_MINUTE \<or>
               t_second my_time \<noteq> TIME_MAX_SECOND \<or>
               t_second_part my_time \<le> max_sec_part ! nat dec)
           then (False, my_time, warning)
           else (False,
                 my_time\<lparr>t_day := 0, t_hour := wrap_uint max_hour, t_minute := TIME_MAX_MINUTE,
                   t_second := TIME_MAX_SECOND, t_second_part := max_sec_part ! nat dec\<rparr>,
                 warning OR MYSQL_TIME_WARN_OUT_OF_RANGE))"

definition check_time_range :: "MYSQL_TIME \<Rightarrow> int \<Rightarrow> int \<Rightarrow> bool \<times> MYSQL_TIME \<times> int" where
  "check_time_range ltime dec warning =
     check_time_range_internal ltime TIME_MAX_HOUR UINT_MAX32 dec warning"

section \<open>Years and day numbers\<close>

definition year_2000_handling :: "int \<Rightarrow> int" where
  "year_2000_handling y =
     (let y = wrap_uint (y + 1900)
      in if y < 1900 + YY_PART_YEAR then wrap_uint (y + 100) else y)"

definition calc_daynr :: "int \<Rightarrow> int \<Rightarrow> int \<Rightarrow> int" where
  "calc_daynr year month day =
     (let y = wrap_int year
      in if y = 0 \<and> month = 0 then 0
         else
           let delsum = 365 * y + 31 * (wrap_int month - 1) + wrap_int day;
               (y, delsum) =
                 (if month \<le> 2 then (y - 1, delsum)
                  else (y, delsum - cdiv (wrap_int month * 4 + 23) 10));
               temp = cdiv ((cdiv y 100 + 1) * 3) 4
           in delsum + cdiv y 4 - temp)"

section \<open>Numbers\<close>

definition sec_part_shift :: "int \<Rightarrow> int \<Rightarrow> int" where
  "sec_part_shift second_part digits =
     cdiv second_part (log_10_int ! nat (TIME_SECOND_PART_DIGITS - digits))"

definition sec_part_unshift :: "int \<Rightarrow> int \<Rightarrow> int" where
  "sec_part_unshift second_part digits =
     second_part * log_10_int ! nat (TIME_SECOND_PART_DIGITS - digits)"

definition my_time_fraction_remainder :: "int \<Rightarrow> int \<Rightarrow> int" where
  "my_time_fraction_remainder nr decimals =
     cmod nr (log_10_int ! nat (TIME_SECOND_PART_DIGITS - decimals))"

definition my_datetime_trunc :: "MYSQL_TIME \<Rightarrow> int \<Rightarrow> MYSQL_TIME" where
  "my_datetime_trunc ltime decimals =
     ltime\<lparr>t_second_part := t_second_part ltime -
       my_time_fraction_remainder (t_second_part ltime) decimals\<rparr>"

definition my_time_trunc :: "MYSQL_TIME \<Rightarrow> int \<Rightarrow> MYSQL_TIME" where
  "my_time_trunc ltime decimals =
     (let ltime = ltime\<lparr>t_second_part := t_second_part ltime -
            my_time_fraction_remainder (t_second_part ltime) decimals\<rparr>
      in if t_second_part ltime = 0 \<and> t_neg ltime \<and>
            t_hour ltime = 0 \<and> t_minute ltime = 0 \<and> t_second ltime = 0
         then ltime\<lparr>t_neg := False\<rparr> else ltime)"

text \<open>
  The first part of \<open>number_to_datetime_or_date\<close>: the value in \<open>YYYYMMDDHHMMSS\<close> form and the
  type it has, or the type left behind when the code jumps to \<open>err\<close>.
\<close>

definition number_expand :: "int \<Rightarrow> timestamp_type + timestamp_type \<times> int" where
  "number_expand nr =
     (let d = MYSQL_TIMESTAMP_DATE; dt = MYSQL_TIMESTAMP_DATETIME
      in if nr = 0 \<or> nr \<ge> 10000101000000 then Inr (dt, nr)
         else if nr < 101 then Inl d
         else if nr \<le> (YY_PART_YEAR - 1) * 10000 + 1231 then Inr (d, (nr + 20000000) * 1000000)
         else if nr < YY_PART_YEAR * 10000 + 101 then Inl d
         else if nr \<le> 991231 then Inr (d, (nr + 19000000) * 1000000)
         else if nr < 10000101 then Inl d
         else if nr \<le> 99991231 then Inr (d, nr * 1000000)
         else if nr < 101000000 then Inl d
         else if nr \<le> (YY_PART_YEAR - 1) * 10000000000 + 1231235959
           then Inr (dt, nr + 20000000000000)
         else if nr < YY_PART_YEAR * 10000000000 + 101000000 then Inl dt
         else if nr \<le> 991231235959 then Inr (dt, nr + 19000000000000)
         else Inr (dt, nr))"

text \<open>
  The rest of it, from the label \<open>ok\<close>, where \<open>nr\<close> is not negative: the fields, and then the
  return value, the broken-down time and \<open>was_cut\<close>.
\<close>

definition number_split :: "timestamp_type \<Rightarrow> int \<Rightarrow> int \<Rightarrow> MYSQL_TIME" where
  "number_split ty nr sec_part =
     (let part1 = nr div 1000000;
          part2 = nr - part1 * 1000000
      in \<lparr>t_year = wrap_uint (wrap_int (part1 div 10000)),
           t_month = part1 mod 10000 div 100, t_day = part1 mod 10000 mod 100,
           t_hour = part2 div 10000, t_minute = part2 mod 10000 div 100,
           t_second = part2 mod 10000 mod 100,
           t_second_part = sec_part, t_neg = False, t_time_type = ty\<rparr>)"

definition number_to_datetime_or_date ::
    "int \<Rightarrow> int \<Rightarrow> int \<Rightarrow> int \<times> MYSQL_TIME \<times> int" where
  "number_to_datetime_or_date nr sec_part flags =
     (case number_expand nr of
        Inl ty \<Rightarrow> (- 1, set_zero_time ty, MYSQL_TIME_WARN_TRUNCATED)
      | Inr (ty, nr) \<Rightarrow>
          let time_res = number_split ty nr sec_part;
              (bad, was_cut) =
                (if t_year time_res \<le> 9999 \<and> t_month time_res \<le> 12 \<and> t_day time_res \<le> 31 \<and>
                    t_hour time_res \<le> 23 \<and> t_minute time_res \<le> 59 \<and> t_second time_res \<le> 59 \<and>
                    sec_part \<le> TIME_MAX_SECOND_PART
                 then check_date time_res (nr \<noteq> 0 \<or> sec_part \<noteq> 0) flags 0
                 else (True, 0))
          in if \<not> bad then
               if t_time_type time_res = MYSQL_TIMESTAMP_DATE \<and> sec_part \<noteq> 0
               then (nr, time_res\<lparr>t_second_part := 0\<rparr>, MYSQL_TIME_NOTE_TRUNCATED)
               else (nr, time_res, was_cut)
             else if nr \<noteq> 0 \<or> flags AND C_TIME_NO_ZERO_DATE = 0
               then (- 1, time_res, MYSQL_TIME_WARN_TRUNCATED)
             else (- 1, time_res, was_cut))"

definition number_to_time_only ::
    "bool \<Rightarrow> int \<Rightarrow> int \<Rightarrow> int \<Rightarrow> int \<times> MYSQL_TIME \<times> int" where
  "number_to_time_only neg nr sec_part max_hour =
     (let time_max_mmss = TIME_MAX_MINUTE * 100 + TIME_MAX_SECOND;
          time_max_value = wrap_ulong (max_hour * 10000 + time_max_mmss);
          (nr, sec_part, was_cut) =
            (if nr > time_max_value
             then (time_max_value, TIME_MAX_SECOND_PART, MYSQL_TIME_WARN_OUT_OF_RANGE)
             else (nr, sec_part, 0));
          ltime = \<lparr>t_year = 0, t_month = 0, t_day = 0,
            t_hour = wrap_uint (nr div 100 div 100), t_minute = nr div 100 mod 100,
            t_second = nr mod 100, t_second_part = sec_part,
            t_neg = neg, t_time_type = MYSQL_TIMESTAMP_TIME\<rparr>
      in if t_minute ltime < 60 \<and> t_second ltime < 60 \<and> sec_part \<le> TIME_MAX_SECOND_PART
         then (0, ltime, was_cut)
         else (- 1, ltime, MYSQL_TIME_WARN_TRUNCATED))"

definition TIME_to_ulonglong_datetime :: "MYSQL_TIME \<Rightarrow> int" where
  "TIME_to_ulonglong_datetime t =
     wrap_ulong ((t_year t * 10000 + t_month t * 100 + t_day t) * 1000000 +
       (t_hour t * 10000 + t_minute t * 100 + t_second t))"

definition TIME_to_ulonglong_date :: "MYSQL_TIME \<Rightarrow> int" where
  "TIME_to_ulonglong_date t = t_year t * 10000 + t_month t * 100 + t_day t"

definition TIME_to_ulonglong_time :: "MYSQL_TIME \<Rightarrow> int" where
  "TIME_to_ulonglong_time t = t_hour t * 10000 + t_minute t * 100 + t_second t"

definition TIME_to_ulonglong :: "MYSQL_TIME \<Rightarrow> int" where
  "TIME_to_ulonglong t =
     (case t_time_type t of
        MYSQL_TIMESTAMP_DATETIME \<Rightarrow> TIME_to_ulonglong_datetime t
      | MYSQL_TIMESTAMP_DATE \<Rightarrow> TIME_to_ulonglong_date t
      | MYSQL_TIMESTAMP_TIME \<Rightarrow> TIME_to_ulonglong_time t
      | MYSQL_TIMESTAMP_NONE \<Rightarrow> 0
      | MYSQL_TIMESTAMP_ERROR \<Rightarrow> 0)"

section \<open>The calendar\<close>

definition month_length :: "int \<Rightarrow> int \<Rightarrow> int" where
  "month_length y m =
     days_in_month ! nat (m - 1) + (if m = 2 \<and> calc_days_in_year y = 366 then 1 else 0)"

definition valid_date :: "int \<Rightarrow> int \<Rightarrow> int \<Rightarrow> bool" where
  "valid_date y m d \<longleftrightarrow>
     0 \<le> y \<and> y \<le> 9999 \<and> 1 \<le> m \<and> m \<le> 12 \<and> 1 \<le> d \<and> d \<le> month_length y m"

definition next_day :: "int \<Rightarrow> int \<Rightarrow> int \<Rightarrow> int \<times> int \<times> int" where
  "next_day y m d =
     (if d < month_length y m then (y, m, d + 1)
      else if m < 12 then (y, m + 1, 1) else (y + 1, 1, 1))"

lemma and_three: "(y :: int) AND 3 = y mod 4"
proof -
  have "(3 :: int) = mask 2" by (simp add: mask_eq_exp_minus_1)
  then show ?thesis using take_bit_eq_mask [of 2 y] by (simp only: take_bit_eq_mod) simp
qed

lemma div_pred:
  assumes "(0 :: int) < k"
  shows "y div k = (y - 1) div k + (if y mod k = 0 then 1 else 0)"
proof -
  define q r where "q = y div k" and "r = y mod k"
  have y: "y = k * q + r" by (simp add: q_def r_def)
  have r: "0 \<le> r" "r < k" using assms by (simp_all add: r_def)
  have "(y - 1) div k = (if r = 0 then q - 1 else q)"
  proof (cases "r = 0")
    case True
    have "y - 1 = k * (q - 1) + (k - 1)" using y True by (simp add: algebra_simps)
    then show ?thesis using True assms by (metis int_div_pos_eq diff_ge_0_iff_ge
          int_one_le_iff_zero_less le_add_diff_inverse2 less_add_one)
  next
    case False
    have "y - 1 = k * q + (r - 1)" using y by simp
    then show ?thesis using False r by (simp add: int_div_pos_eq)
  qed
  then show ?thesis by (simp add: q_def [symmetric] r_def [symmetric])
qed

lemma leap_by_hundreds:
  "calc_days_in_year y =
     (if y mod 4 = 0 \<and> (y mod 100 \<noteq> 0 \<or> y div 100 mod 4 = 0 \<and> y \<noteq> 0) then 366 else 365)"
proof -
  have "y mod 400 = 100 * (y div 100 mod 4) + y mod 100"
    using zmod_zmult2_eq [of 4 y 100] by simp
  then have "y mod 400 = 0 \<longleftrightarrow> y mod 100 = 0 \<and> y div 100 mod 4 = 0"
    using pos_mod_sign [of 100 y] pos_mod_sign [of 4 "y div 100"]
    by (metis add_nonneg_eq_0_iff mult_eq_0_iff mult_nonneg_nonneg zero_le_numeral zero_less_numeral
        zero_neq_numeral)
  then show ?thesis unfolding calc_days_in_year_def and_three by auto
qed

definition year_start :: "int \<Rightarrow> int" where
  "year_start y = (if y = 0 then 0 else 365 * y + (y - 1) div 4 - ((y - 1) div 100 + 1) * 3 div 4)"

lemma year_start_step:
  assumes "0 \<le> y"
  shows "year_start (y + 1) = year_start y + calc_days_in_year y"
proof (cases "y = 0")
  case True
  then show ?thesis by (simp add: year_start_def leap_by_hundreds)
next
  case False
  define q where "q = (y - 1) div 100"
  have q0: "0 \<le> q" using False assms by (simp add: q_def pos_imp_zdiv_nonneg_iff)
  have h: "y div 100 = q + (if y mod 100 = 0 then 1 else 0)"
    unfolding q_def by (rule div_pred) simp
  have f: "y div 4 = (y - 1) div 4 + (if y mod 4 = 0 then 1 else 0)"
    by (rule div_pred) simp
  have four: "y mod 100 = 0 \<Longrightarrow> y mod 4 = 0"
    using mod_mod_cancel [of 4 100 y] by simp
  have three: "(n + 2) * 3 div 4 = (n + 1) * 3 div 4 + (if (n + 1) mod 4 = 0 then 0 else 1)"
    for n :: int by presburger
  define A T T' where "A = (y - 1) div 4" and "T = (q + 1) * 3 div 4" and "T' = (q + 2) * 3 div 4"
  have T': "T' = T + (if (q + 1) mod 4 = 0 then 0 else 1)" unfolding T_def T'_def by (rule three)
  have "year_start y = 365 * y + A - T"
    using False by (simp only: year_start_def if_False q_def [symmetric] A_def T_def)
  moreover have "year_start (y + 1) =
      365 * y + 365 + (A + (if y mod 4 = 0 then 1 else 0)) - (if y mod 100 = 0 then T' else T)"
  proof -
    have "(y div 100 + 1) * 3 div 4 = (if y mod 100 = 0 then T' else T)"
      by (simp only: h T_def T'_def) (simp only: add.assoc one_add_one split: if_split; simp)
    then show ?thesis
      using assms by (simp only: year_start_def add_diff_cancel_right' f A_def) simp
  qed
  moreover have "calc_days_in_year y = (if y mod 4 = 0 \<and> (y mod 100 \<noteq> 0 \<or> (q + 1) mod 4 = 0)
      then 366 else 365)"
    using False by (simp only: leap_by_hundreds h) simp
  ultimately show ?thesis using four T' by (simp only: split: if_splits) simp_all
qed

fun days_before :: "int \<Rightarrow> nat \<Rightarrow> int" where
  "days_before y 0 = 0"
| "days_before y (Suc k) = days_before y k + month_length y (int k + 1)"

lemma month_cases:
  assumes "1 \<le> m" "m \<le> (12 :: int)"
  obtains "m = 1" | "m = 2" | "m = 3" | "m = 4" | "m = 5" | "m = 6" | "m = 7" | "m = 8"
    | "m = 9" | "m = 10" | "m = 11" | "m = 12"
proof -
  have "m = 1 \<or> m = 2 \<or> m = 3 \<or> m = 4 \<or> m = 5 \<or> m = 6 \<or> m = 7 \<or> m = 8 \<or> m = 9 \<or>
      m = 10 \<or> m = 11 \<or> m = 12"
    using assms by presburger
  then show thesis using that by blast
qed

lemma calc_daynr_early:
  assumes "0 \<le> y" "y \<le> 9999" "1 \<le> m" "m \<le> 2" "0 \<le> d" "d \<le> 31"
  shows "calc_daynr y m d = year_start y + 31 * (m - 1) + d"
proof (cases "y = 0")
  case True
  then show ?thesis
    using assms by (simp add: calc_daynr_def year_start_def wrap_int_id cdiv_def)
next
  case False
  have "0 \<le> (y - 1) div 100" using False assms by (simp add: pos_imp_zdiv_nonneg_iff)
  then show ?thesis
    using assms False by (simp add: calc_daynr_def year_start_def wrap_int_id cdiv_nonneg)
qed

lemma calc_daynr_late:
  assumes "0 \<le> y" "y \<le> 9999" "3 \<le> m" "m \<le> 12" "0 \<le> d" "d \<le> 31"
  shows "calc_daynr y m d =
    year_start y + (calc_days_in_year y - 365) + 31 * (m - 1) - (m * 4 + 23) div 10 + d"
proof -
  have step: "365 * y + y div 4 - (y div 100 + 1) * 3 div 4 =
      year_start y + calc_days_in_year y - 365"
  proof -
    have "year_start (y + 1) = 365 * (y + 1) + y div 4 - (y div 100 + 1) * 3 div 4"
      using assms(1) by (simp only: year_start_def add_diff_cancel_right') simp
    moreover have "a = 365 * (y + 1) + b - c \<Longrightarrow> a = u + l \<Longrightarrow> 365 * y + b - c = u + l - 365"
      for a b c u l :: int by simp
    ultimately show ?thesis using year_start_step [OF assms(1)] by blast
  qed
  have "0 \<le> y div 100" using assms by (simp add: pos_imp_zdiv_nonneg_iff)
  then have c: "cdiv ((cdiv y 100 + 1) * 3) 4 = (y div 100 + 1) * 3 div 4" "cdiv y 4 = y div 4"
      "cdiv (m * 4 + 23) 10 = (m * 4 + 23) div 10" "wrap_int y = y" "wrap_int m = m" "wrap_int d = d"
    using assms by (simp_all add: cdiv_nonneg wrap_int_id)
  have "\<not> (y = 0 \<and> m = 0)" "\<not> m \<le> 2" using assms by simp_all
  then have "calc_daynr y m d =
      365 * y + 31 * (m - 1) + d - (m * 4 + 23) div 10 + y div 4 - (y div 100 + 1) * 3 div 4"
    by (simp only: calc_daynr_def Let_def c if_False prod.case)
  moreover have "a = u + k + d - l + b - c \<Longrightarrow> u + b - c = v + w - 365 \<Longrightarrow>
      a = v + (w - 365) + k - l + d" for a b c u v w k l :: int by simp
  ultimately show ?thesis using step by blast
qed

lemma days_before_eq:
  assumes "1 \<le> m" "m \<le> 12"
  shows "days_before y (nat (m - 1)) =
    (if m \<le> 2 then 31 * (m - 1)
     else (calc_days_in_year y - 365) + 31 * (m - 1) - (m * 4 + 23) div 10)"
proof -
  have "calc_days_in_year y = 365 \<or> calc_days_in_year y = 366"
    by (simp add: calc_days_in_year_def)
  note c = this
  show ?thesis
    using assms by (cases m rule: month_cases)
      (use c in \<open>auto simp: month_length_def days_in_month_def eval_nat_numeral\<close>)
qed

lemma calc_daynr_eq:
  assumes "0 \<le> y" "y \<le> 9999" "1 \<le> m" "m \<le> 12" "0 \<le> d" "d \<le> 31"
  shows "calc_daynr y m d = year_start y + days_before y (nat (m - 1)) + d"
proof (cases "m \<le> 2")
  case True
  with assms show ?thesis by (simp add: calc_daynr_early days_before_eq)
next
  case False
  with assms show ?thesis by (simp add: calc_daynr_late days_before_eq)
qed

lemma days_before_december: "days_before y 12 = calc_days_in_year y"
  by (auto simp: month_length_def days_in_month_def eval_nat_numeral calc_days_in_year_def)

lemma month_length_bounds: "1 \<le> m \<Longrightarrow> m \<le> 12 \<Longrightarrow> 28 \<le> month_length y m \<and> month_length y m \<le> 31"
  by (cases m rule: month_cases) (auto simp: month_length_def days_in_month_def)

lemma days_before_Suc:
  "1 \<le> m \<Longrightarrow> days_before y (nat m) = days_before y (nat (m - 1)) + month_length y m"
  using days_before.simps(2) [of y "nat (m - 1)"] by (simp add: Suc_nat_eq_nat_zadd1)

section \<open>Properties\<close>

lemma valid_date_bounds:
  "valid_date y m d \<Longrightarrow> 0 \<le> y \<and> y \<le> 9999 \<and> 1 \<le> m \<and> m \<le> 12 \<and> 1 \<le> d \<and> d \<le> 31"
  using month_length_bounds [of m y] by (auto simp: valid_date_def)

text \<open>
  C32: \<open>calc_daynr\<close> counts the days of the calendar: day 1 is the first of January of year 0,
  and the day after a valid date, where February has a 29th exactly in the leap years of
  \<open>calc_days_in_year\<close>, has the next number.
\<close>

theorem calc_daynr_counts_days:
  assumes "valid_date y m d" and "next_day y m d = (y', m', d')" and "y' \<le> 9999"
  shows "calc_daynr 0 1 1 = 1 \<and> valid_date y' m' d' \<and>
    calc_daynr y' m' d' = calc_daynr y m d + 1"
proof -
  have one: "calc_daynr 0 1 1 = 1" by (simp add: calc_daynr_eq year_start_def)
  note b = valid_date_bounds [OF assms(1)]
  have d: "d \<le> month_length y m" using assms(1) by (simp add: valid_date_def)
  consider "d < month_length y m" | "d = month_length y m" "m < 12" | "d = month_length y m" "m = 12"
    using d b by linarith
  then show ?thesis
  proof cases
    case 1
    with assms b month_length_bounds [of m y] one show ?thesis
      by (auto simp: next_day_def valid_date_def calc_daynr_eq)
  next
    case 2
    then have "y' = y" "m' = m + 1" "d' = 1" using assms(2) by (auto simp: next_day_def)
    with 2 assms b one show ?thesis
      using month_length_bounds [of "m + 1" y] days_before_Suc [of m y]
      by (simp add: valid_date_def calc_daynr_eq)
  next
    case 3
    then have e: "y' = y + 1" "m' = 1" "d' = 1" using assms(2) by (auto simp: next_day_def)
    have "days_before y (nat (12 - 1)) + d = calc_days_in_year y"
      using days_before_Suc [of 12 y] days_before_december [of y] 3 by simp
    with 3 e assms b one show ?thesis
      using month_length_bounds [of 1 "y + 1"] year_start_step [of y]
      by (simp add: valid_date_def calc_daynr_eq)
  qed
qed

theorem calc_daynr_counts_days_witness:
  "calc_daynr 0 1 1 = 1 \<and> valid_date 2000 2 29 \<and> calc_daynr 2000 2 29 = calc_daynr 2000 2 28 + 1"
  using calc_daynr_counts_days [of 2000 2 28 2000 2 29]
  by (simp add: valid_date_def next_day_def month_length_def days_in_month_def
      calc_days_in_year_def)

lemma check_date_accepts:
  assumes "0 \<le> t_month t" and "t_month t \<le> 12" and "t_time_type t \<noteq> MYSQL_TIMESTAMP_TIME"
  shows "fst (check_date t True f w) \<longleftrightarrow>
    (f AND C_TIME_NO_ZERO_IN_DATE \<noteq> 0 \<and> (t_month t = 0 \<or> t_day t = 0)) \<or> t_neg t \<or>
    (f AND C_TIME_INVALID_DATES = 0 \<and> t_month t \<noteq> 0 \<and>
      month_length (t_year t) (t_month t) < t_day t)"
proof (cases "t_month t = 0")
  case True
  then show ?thesis using assms(3) by (simp add: check_date_def)
next
  case False
  have "t_day t > days_in_month ! nat (t_month t - 1) \<and>
      (t_month t \<noteq> 2 \<or> calc_days_in_year (t_year t) \<noteq> 366 \<or> t_day t \<noteq> 29) \<longleftrightarrow>
      month_length (t_year t) (t_month t) < t_day t"
    using False by (auto simp: month_length_def days_in_month_def)
  with False show ?thesis using assms(3) by (simp add: check_date_def)
qed

lemmas time_limits = TIME_MAX_HOUR_def TIME_MAX_MINUTE_def TIME_MAX_SECOND_def
  TIME_MAX_SECOND_PART_def TIME_SECOND_PART_DIGITS_def AUTO_SEC_PART_DIGITS_def YY_PART_YEAR_def
  UINT_MAX32_def

text \<open>The fields of a \<open>MYSQL_TIME\<close> are unsigned.\<close>

definition time_wf :: "MYSQL_TIME \<Rightarrow> bool" where
  "time_wf t \<longleftrightarrow> 0 \<le> t_year t \<and> 0 \<le> t_month t \<and> 0 \<le> t_day t \<and> 0 \<le> t_hour t \<and>
     0 \<le> t_minute t \<and> 0 \<le> t_second t \<and> 0 \<le> t_second_part t"

lemma digit_groups:
  fixes a b c :: int
  assumes "0 \<le> b" "b < 100" "0 \<le> c" "c < 100"
  shows "(a * 10000 + b * 100 + c) div 10000 = a"
    and "(a * 10000 + b * 100 + c) mod 10000 = b * 100 + c"
    and "(b * 100 + c) div 100 = b" and "(b * 100 + c) mod 100 = c"
proof -
  have "a * 10000 + b * 100 + c = 10000 * a + (b * 100 + c)" "0 \<le> b * 100 + c" "b * 100 + c < 10000"
    using assms by linarith+
  then show "(a * 10000 + b * 100 + c) div 10000 = a"
    and "(a * 10000 + b * 100 + c) mod 10000 = b * 100 + c"
    by (metis int_div_pos_eq, metis int_mod_pos_eq)
  have "b * 100 + c = 100 * b + c" by simp
  then show "(b * 100 + c) div 100 = b" "(b * 100 + c) mod 100 = c"
    using assms by (simp_all add: int_div_pos_eq)
qed

lemma datetime_number:
  assumes "time_wf t" "\<not> check_datetime_range t" "t_time_type t \<noteq> MYSQL_TIMESTAMP_TIME"
  shows "TIME_to_ulonglong_datetime t =
      (t_year t * 10000 + t_month t * 100 + t_day t) * 1000000 +
       (t_hour t * 10000 + t_minute t * 100 + t_second t)"
    and "TIME_to_ulonglong_datetime t div 1000000 = TIME_to_ulonglong_date t"
    and "TIME_to_ulonglong_datetime t - TIME_to_ulonglong_date t * 1000000 = TIME_to_ulonglong_time t"
proof -
  have b: "0 \<le> t_hour t * 10000 + t_minute t * 100 + t_second t"
      "t_hour t * 10000 + t_minute t * 100 + t_second t < 1000000"
      "0 \<le> t_year t * 10000 + t_month t * 100 + t_day t"
      "t_year t * 10000 + t_month t * 100 + t_day t < 100000000"
    using assms by (auto simp: time_wf_def check_datetime_range_def)
  show e: "TIME_to_ulonglong_datetime t =
      (t_year t * 10000 + t_month t * 100 + t_day t) * 1000000 +
       (t_hour t * 10000 + t_minute t * 100 + t_second t)"
    unfolding TIME_to_ulonglong_datetime_def using b by (intro wrap_ulong_id) (simp_all add: distrib_right)
  show "TIME_to_ulonglong_datetime t div 1000000 = TIME_to_ulonglong_date t"
    unfolding e TIME_to_ulonglong_date_def using b
    by (intro int_div_pos_eq [of _ _ _ "t_hour t * 10000 + t_minute t * 100 + t_second t"]) simp_all
  show "TIME_to_ulonglong_datetime t - TIME_to_ulonglong_date t * 1000000 = TIME_to_ulonglong_time t"
    unfolding e TIME_to_ulonglong_date_def TIME_to_ulonglong_time_def by simp
qed

text \<open>
  C33: a number made from a datetime is read back as that datetime: for every datetime in range
  whose date the flags allow, from the year 100 on (smaller years are read as two-digit years),
  \<open>number_to_datetime_or_date\<close> undoes \<open>TIME_to_ulonglong_datetime\<close> without a warning.
\<close>

theorem datetime_number_roundtrip:
  assumes "time_wf t" and "\<not> check_datetime_range t"
    and "t_time_type t = MYSQL_TIMESTAMP_DATETIME" and "\<not> fst (check_date t True flags 0)"
    and "100 \<le> t_year t"
  shows "number_to_datetime_or_date (TIME_to_ulonglong_datetime t) (t_second_part t) flags =
    (TIME_to_ulonglong_datetime t, t, 0)"
proof -
  define n where "n = TIME_to_ulonglong_datetime t"
  have ty: "t_time_type t \<noteq> MYSQL_TIMESTAMP_TIME" using assms(3) by simp
  note num = datetime_number [OF assms(1,2) ty, folded n_def]
  have r: "t_month t < 100" "t_day t < 100" "t_hour t < 100" "t_minute t < 100" "t_second t < 100"
      "t_year t \<le> 9999" "0 \<le> t_month t" "0 \<le> t_day t" "0 \<le> t_hour t" "0 \<le> t_minute t"
      "0 \<le> t_second t"
    using assms(1-3) by (auto simp: check_datetime_range_def time_wf_def)
  have big: "991231235959 < n" using num(1) r assms(5) by (simp add: distrib_right)
  have e: "number_expand n = Inr (MYSQL_TIMESTAMP_DATETIME, n)"
    using big by (simp add: number_expand_def time_limits)
  have y: "wrap_uint (wrap_int (t_year t)) = t_year t"
    using r assms(5) by (simp add: wrap_int_id wrap_uint_id)
  have neg: "\<not> t_neg t" using assms(4) ty by (auto simp: check_date_def split: if_splits)
  have f: "number_split MYSQL_TIMESTAMP_DATETIME n (t_second_part t) = t"
    unfolding number_split_def Let_def num(2) num(3)
    unfolding TIME_to_ulonglong_date_def TIME_to_ulonglong_time_def digit_groups [OF r(7) r(1) r(8) r(2)]
      digit_groups [OF r(10) r(4) r(11) r(5)] y
    using neg assms(3) by simp
  have nz: "n \<noteq> 0" using big by simp
  have "snd (check_date t True flags 0) = 0"
    using assms(4) by (auto simp: check_date_def split: if_splits)
  then have c: "check_date t True flags 0 = (False, 0)" using assms(4) by (simp add: prod_eq_iff)
  have "t_year t \<le> 9999 \<and> t_month t \<le> 12 \<and> t_day t \<le> 31 \<and> t_hour t \<le> 23 \<and>
      t_minute t \<le> 59 \<and> t_second t \<le> 59 \<and> t_second_part t \<le> TIME_MAX_SECOND_PART"
    using assms(2,3) by (simp add: check_datetime_range_def)
  then show ?thesis
    using nz assms(3) c unfolding n_def [symmetric] number_to_datetime_or_date_def e
    by (simp add: f)
qed

theorem datetime_number_roundtrip_witness:
  "number_to_datetime_or_date 20240229235958 7 0 =
    (20240229235958, \<lparr>t_year = 2024, t_month = 2, t_day = 29, t_hour = 23, t_minute = 59,
       t_second = 58, t_second_part = 7, t_neg = False, t_time_type = MYSQL_TIMESTAMP_DATETIME\<rparr>, 0)"
  using datetime_number_roundtrip [of "\<lparr>t_year = 2024, t_month = 2, t_day = 29, t_hour = 23,
       t_minute = 59, t_second = 58, t_second_part = 7, t_neg = False,
       t_time_type = MYSQL_TIMESTAMP_DATETIME\<rparr>" 0]
  by (simp add: time_wf_def check_datetime_range_def time_limits check_date_def days_in_month_def
      calc_days_in_year_def TIME_to_ulonglong_datetime_def wrap_ulong_def)

lemma split_number:
  assumes "0 \<le> nr" "nr < 9223372036854775808"
  shows "TIME_to_ulonglong_datetime (number_split ty nr sp) = nr \<and>
    time_wf ((number_split ty nr sp)\<lparr>t_second_part := 0\<rparr>) \<and>
    t_second_part (number_split ty nr sp) = sp \<and> \<not> t_neg (number_split ty nr sp) \<and>
    t_time_type (number_split ty nr sp) = ty \<and>
    TIME_to_ulonglong_time (number_split ty nr sp) = nr mod 1000000"
proof -
  define p1 p2 where "p1 = nr div 1000000" and "p2 = nr - p1 * 1000000"
  have p2: "p2 = nr mod 1000000" by (simp add: p1_def p2_def minus_div_mult_eq_mod)
  have p1: "0 \<le> p1" "p1 < 9223372036855"
    using assms by (auto simp: p1_def pos_imp_zdiv_nonneg_iff)
  then have q: "0 \<le> p1 div 10000" "p1 div 10000 < 922337204"
    by (auto simp: pos_imp_zdiv_nonneg_iff)
  have y: "wrap_uint (wrap_int (p1 div 10000)) = p1 div 10000"
    using q by (simp add: wrap_int_id wrap_uint_id)
  have r: "x div 10000 * 10000 + x mod 10000 div 100 * 100 + x mod 10000 mod 100 = x" for x :: int
    by (metis add.assoc div_mult_mod_eq)
  have "(p1 div 10000 * 10000 + p1 mod 10000 div 100 * 100 + p1 mod 10000 mod 100) * 1000000 +
      (p2 div 10000 * 10000 + p2 mod 10000 div 100 * 100 + p2 mod 10000 mod 100) = nr"
    unfolding r p1_def p2_def by simp
  moreover have "wrap_ulong nr = nr" using assms by (simp add: wrap_ulong_id)
  ultimately have total: "wrap_ulong ((p1 div 10000 * 10000 + p1 mod 10000 div 100 * 100 +
      p1 mod 10000 mod 100) * 1000000 +
      (p2 div 10000 * 10000 + p2 mod 10000 div 100 * 100 + p2 mod 10000 mod 100)) = nr"
    by (simp only:)
  have "0 \<le> p2" by (simp add: p2)
  then have nonneg: "0 \<le> p1 mod 10000 div 100" "0 \<le> p2 div 10000" "0 \<le> p2 mod 10000 div 100"
      "0 \<le> p1 mod 10000 mod 100" "0 \<le> p2 mod 10000 mod 100"
    by (simp_all add: pos_imp_zdiv_nonneg_iff)
  have f: "number_split ty nr sp = \<lparr>t_year = p1 div 10000, t_month = p1 mod 10000 div 100,
      t_day = p1 mod 10000 mod 100, t_hour = p2 div 10000, t_minute = p2 mod 10000 div 100,
      t_second = p2 mod 10000 mod 100, t_second_part = sp, t_neg = False, t_time_type = ty\<rparr>"
    unfolding number_split_def Let_def p1_def [symmetric] p2_def [symmetric] y ..
  show ?thesis
    unfolding f TIME_to_ulonglong_datetime_def TIME_to_ulonglong_time_def time_wf_def
    by (simp only: MYSQL_TIME.simps total [unfolded r] q nonneg r p2 [symmetric]) simp
qed

lemma number_expand_bounds:
  assumes "number_expand nr = Inr (ty, n)" and "nr < 9223372036854775808"
  shows "0 \<le> n \<and> n < 9223372036854775808 \<and>
    (ty = MYSQL_TIMESTAMP_DATE \<and> n mod 1000000 = 0 \<or> ty = MYSQL_TIMESTAMP_DATETIME)"
  using assms by (auto simp: number_expand_def Let_def time_limits split: if_splits)

text \<open>
  Whatever \<open>number_to_datetime_or_date\<close> accepts is a date or a datetime in range: the value
  it returns is the number of the time it fills in, no field exceeds its limit, a date has no
  time of day, and unless invalid dates are allowed the day exists in its month; every other
  input gives \<open>- 1\<close>.
\<close>

theorem number_to_datetime_in_range:
  assumes "number_to_datetime_or_date nr sec_part flags = (ret, t, was_cut)"
    and "nr < 9223372036854775808" and "0 \<le> sec_part" and "ret \<noteq> - 1"
  shows "ret = TIME_to_ulonglong_datetime t \<and> time_wf t \<and> \<not> check_datetime_range t \<and>
    (t_time_type t = MYSQL_TIMESTAMP_DATE \<and> TIME_to_ulonglong_time t = 0 \<and> t_second_part t = 0 \<or>
     t_time_type t = MYSQL_TIMESTAMP_DATETIME) \<and>
    (flags AND C_TIME_INVALID_DATES = 0 \<and> t_month t \<noteq> 0 \<longrightarrow>
       t_day t \<le> month_length (t_year t) (t_month t))"
proof -
  obtain ty n where e: "number_expand nr = Inr (ty, n)"
    using assms(1,4) by (cases "number_expand nr") (auto simp: number_to_datetime_or_date_def)
  note n = number_expand_bounds [OF e assms(2)]
  define u where "u = number_split ty n sec_part"
  have s: "TIME_to_ulonglong_datetime u = n" "time_wf (u\<lparr>t_second_part := 0\<rparr>)"
      "t_second_part u = sec_part" "\<not> t_neg u" "t_time_type u = ty"
      "TIME_to_ulonglong_time u = n mod 1000000"
    using split_number [of n ty sec_part] n by (simp_all add: u_def)
  define range_ok where "range_ok \<longleftrightarrow> t_year u \<le> 9999 \<and> t_month u \<le> 12 \<and> t_day u \<le> 31 \<and>
    t_hour u \<le> 23 \<and> t_minute u \<le> 59 \<and> t_second u \<le> 59 \<and> sec_part \<le> TIME_MAX_SECOND_PART"
  define c where "c = check_date u (n \<noteq> 0 \<or> sec_part \<noteq> 0) flags 0"
  have eq: "(ret, t, was_cut) = (case if range_ok then c else (True, 0) of (bad, was_cut) \<Rightarrow>
      if \<not> bad then
        if t_time_type u = MYSQL_TIMESTAMP_DATE \<and> sec_part \<noteq> 0
        then (n, u\<lparr>t_second_part := 0\<rparr>, MYSQL_TIME_NOTE_TRUNCATED)
        else (n, u, was_cut)
      else if n \<noteq> 0 \<or> flags AND C_TIME_NO_ZERO_DATE = 0
        then (- 1, u, MYSQL_TIME_WARN_TRUNCATED)
      else (- 1, u, was_cut))"
    unfolding assms(1) [symmetric] number_to_datetime_or_date_def e sum.case prod.case Let_def
      range_ok_def c_def u_def ..
  have ok: "range_ok" "\<not> fst c" and ret: "ret = n"
    and t: "t = (if ty = MYSQL_TIMESTAMP_DATE \<and> sec_part \<noteq> 0 then u\<lparr>t_second_part := 0\<rparr> else u)"
    using eq assms(4) s(5) by (cases c; auto split: if_splits)+
  have day: "t_day u \<le> month_length (t_year u) (t_month u)"
    if f: "flags AND C_TIME_INVALID_DATES = 0" and m: "t_month u \<noteq> 0"
  proof -
    have "n \<noteq> 0" using m by (auto simp: u_def number_split_def)
    moreover have "0 \<le> t_month u" "t_month u \<le> 12" using s(2) ok(1) by (auto simp: time_wf_def range_ok_def)
    moreover have "ty \<noteq> MYSQL_TIMESTAMP_TIME" using n by auto
    ultimately show ?thesis
      using ok(2) f m s(5) check_date_accepts [of u flags 0] by (simp add: c_def not_less)
  qed
  have "\<not> check_datetime_range t" using ok(1) s(3,5) n t
    by (auto simp: range_ok_def check_datetime_range_def TIME_MAX_SECOND_PART_def)
  moreover have "TIME_to_ulonglong_datetime t = n" "TIME_to_ulonglong_time t = n mod 1000000"
    using s(1,6) t by (auto simp: TIME_to_ulonglong_datetime_def TIME_to_ulonglong_time_def)
  moreover have "time_wf t" using s(2,3) assms(3) t by (auto simp: time_wf_def)
  moreover have "t_time_type t = ty" "t_second_part t = (if ty = MYSQL_TIMESTAMP_DATE then 0 else sec_part)"
      "t_month t = t_month u" "t_day t = t_day u" "t_year t = t_year u"
    using t s(3,5) by auto
  ultimately show ?thesis using day ret n by auto
qed

theorem number_to_datetime_in_range_witness:
  "20240131000000 = TIME_to_ulonglong_datetime \<lparr>t_year = 2024, t_month = 1, t_day = 31, t_hour = 0,
     t_minute = 0, t_second = 0, t_second_part = 0, t_neg = False,
     t_time_type = MYSQL_TIMESTAMP_DATE\<rparr>"
proof -
  have "number_to_datetime_or_date 240131 0 0 = (20240131000000, \<lparr>t_year = 2024, t_month = 1,
     t_day = 31, t_hour = 0, t_minute = 0, t_second = 0, t_second_part = 0, t_neg = False,
     t_time_type = MYSQL_TIMESTAMP_DATE\<rparr>, 0)"
  proof -
    have e: "number_expand 240131 = Inr (MYSQL_TIMESTAMP_DATE, 20240131000000)"
      by (simp add: number_expand_def time_limits)
    have f: "number_split MYSQL_TIMESTAMP_DATE 20240131000000 0 = \<lparr>t_year = 2024, t_month = 1,
       t_day = 31, t_hour = 0, t_minute = 0, t_second = 0, t_second_part = 0, t_neg = False,
       t_time_type = MYSQL_TIMESTAMP_DATE\<rparr>"
      by (simp add: number_split_def wrap_int_def wrap_uint_def)
    show ?thesis
      unfolding number_to_datetime_or_date_def e sum.case prod.case f
      by (simp add: time_limits check_date_def days_in_month_def)
  qed
  from number_to_datetime_in_range [OF this] show ?thesis by simp
qed

definition time_usecs :: "MYSQL_TIME \<Rightarrow> int" where
  "time_usecs t = (((t_day t * 24 + t_hour t) * 60 + t_minute t) * 60 + t_second t) * 1000000 +
     t_second_part t"

text \<open>
  \<open>check_time_range\<close> refuses exactly the times whose minutes or seconds are not below 60,
  and cuts every other one to the limit \<open>838:59:59\<close> with as many nines as the precision has: the
  length of the time becomes the smaller of the two, and the warning is raised exactly when the
  time was cut.
\<close>

theorem check_time_range_clamps:
  assumes "check_time_range t dec w = (err, t', w')" and "time_wf t"
    and "t_day t * 24 + t_hour t < 4294967296" and "t_second_part t \<le> 999999"
    and "0 \<le> dec" and "dec \<le> 6"
  shows "(err \<longleftrightarrow> 60 \<le> t_minute t \<or> 60 \<le> t_second t) \<and>
    (err \<longrightarrow> t' = t \<and> w' = w OR MYSQL_TIME_WARN_TRUNCATED) \<and>
    (\<not> err \<longrightarrow>
      time_usecs t' = min (time_usecs t) (3020399000000 + max_sec_part ! nat dec) \<and>
      (if time_usecs t' = time_usecs t then t' = t \<and> w' = w
       else w' = w OR MYSQL_TIME_WARN_OUT_OF_RANGE))"
proof -
  define cap where "cap = max_sec_part ! nat dec"
  have "nat dec < 7" using assms(5,6) by linarith
  then have cap: "0 \<le> cap" "cap \<le> 999999"
    unfolding cap_def max_sec_part_def by (auto simp: less_Suc_eq numeral_eq_Suc)
  define h where "h = t_hour t + 24 * t_day t"
  have h: "wrap_uint h = h" "t_hour t \<le> 4294967295" "0 \<le> h"
    using assms(2,3) by (auto simp: h_def time_wf_def intro: wrap_uint_id)
  have d: "dec \<noteq> 39" using assms(6) by simp
  show ?thesis
  proof (cases "60 \<le> t_minute t \<or> 60 \<le> t_second t")
    case True
    then show ?thesis
      using assms(1) h(2) by (auto simp: check_time_range_def check_time_range_internal_def time_limits)
  next
    case False
    define keep where "keep \<longleftrightarrow> h \<le> 838 \<and> (h \<noteq> 838 \<or> t_minute t \<noteq> 59 \<or> t_second t \<noteq> 59 \<or>
      t_second_part t \<le> cap)"
    have us: "time_usecs t = ((h * 60 + t_minute t) * 60 + t_second t) * 1000000 + t_second_part t"
      by (simp add: time_usecs_def h_def algebra_simps)
    have m: "0 \<le> t_minute t" "t_minute t \<le> 59" "0 \<le> t_second t" "t_second t \<le> 59"
        "0 \<le> t_second_part t"
      using False assms(2) by (auto simp: time_wf_def)
    have iff: "keep \<longleftrightarrow> time_usecs t \<le> 3020399000000 + cap"
      unfolding us keep_def using m h(3) cap assms(4) by (simp add: distrib_right) linarith
    have r: "(err, t', w') = (if keep then (False, t, w)
        else (False, t\<lparr>t_day := 0, t_hour := 838, t_minute := 59, t_second := 59,
          t_second_part := cap\<rparr>, w OR MYSQL_TIME_WARN_OUT_OF_RANGE))"
      using False h d unfolding assms(1) [symmetric] check_time_range_def keep_def
      by (simp add: check_time_range_internal_def Let_def time_limits h_def [symmetric]
          cap_def [symmetric] wrap_uint_id) blast
    show ?thesis
      using r iff False by (auto simp: cap_def [symmetric] time_usecs_def split: if_splits)
  qed
qed

theorem check_time_range_clamps_witness:
  "time_usecs \<lparr>t_year = 0, t_month = 0, t_day = 0, t_hour = 838, t_minute = 59, t_second = 59,
     t_second_part = 990000, t_neg = False, t_time_type = MYSQL_TIMESTAMP_TIME\<rparr> = 3020399990000"
  using check_time_range_clamps [of "\<lparr>t_year = 0, t_month = 0, t_day = 35, t_hour = 0, t_minute = 0,
     t_second = 0, t_second_part = 0, t_neg = False, t_time_type = MYSQL_TIMESTAMP_TIME\<rparr>" 2 0 False
     "\<lparr>t_year = 0, t_month = 0, t_day = 0, t_hour = 838, t_minute = 59, t_second = 59,
     t_second_part = 990000, t_neg = False, t_time_type = MYSQL_TIMESTAMP_TIME\<rparr>" 2]
  by (simp add: check_time_range_def check_time_range_internal_def time_limits wrap_uint_def
      max_sec_part_def time_wf_def time_usecs_def MYSQL_TIME_WARN_OUT_OF_RANGE_def)

text \<open>
  A time in range is read back from its number \<open>HHMMSS\<close>, and a number above the greatest
  time is read as that time with a warning.
\<close>

theorem time_number_roundtrip:
  assumes "time_wf t" and "\<not> check_datetime_range t" and "t_time_type t = MYSQL_TIMESTAMP_TIME"
    and "t_year t = 0" and "t_month t = 0" and "t_day t = 0"
  shows "number_to_time_only (t_neg t) (TIME_to_ulonglong_time t) (t_second_part t) TIME_MAX_HOUR =
      (0, t, 0) \<and>
    (8385959 < nr \<longrightarrow> number_to_time_only n nr sp TIME_MAX_HOUR =
      (0, t\<lparr>t_hour := 838, t_minute := 59, t_second := 59, t_second_part := 999999, t_neg := n\<rparr>,
       MYSQL_TIME_WARN_OUT_OF_RANGE))"
proof -
  have r: "0 \<le> t_minute t" "t_minute t < 100" "0 \<le> t_second t" "t_second t < 100"
      "t_minute t \<le> 59" "t_second t \<le> 59" "0 \<le> t_hour t" "t_hour t \<le> 838"
      "t_second_part t \<le> 999999"
    using assms by (auto simp: time_wf_def check_datetime_range_def time_limits)
  define n' where "n' = TIME_to_ulonglong_time t"
  have n': "n' = t_hour t * 10000 + t_minute t * 100 + t_second t"
    by (simp add: n'_def TIME_to_ulonglong_time_def)
  have le: "\<not> n' > 8385959" using r by (simp add: n')
  have d: "n' div 100 = t_hour t * 100 + t_minute t" "n' mod 100 = t_second t"
    using digit_groups(3,4) [of "t_hour t * 100 + t_minute t" "t_second t"] r
    unfolding n' by (simp_all add: int_div_pos_eq [of _ _ "t_hour t * 100 + t_minute t"]
        int_mod_pos_eq [of _ _ "t_hour t * 100 + t_minute t"])
  have d2: "n' div 100 div 100 = t_hour t" "n' div 100 mod 100 = t_minute t"
    unfolding d(1) using r by (simp_all add: int_div_pos_eq [of _ _ "t_hour t"]
        int_mod_pos_eq [of _ _ "t_hour t"])
  have "number_to_time_only (t_neg t) n' (t_second_part t) TIME_MAX_HOUR = (0, t, 0)"
    using le r assms(3-6) unfolding number_to_time_only_def
    by (simp add: Let_def d2 d(2) time_limits wrap_ulong_def wrap_uint_id)
  moreover have "number_to_time_only n nr sp TIME_MAX_HOUR =
      (0, t\<lparr>t_hour := 838, t_minute := 59, t_second := 59, t_second_part := 999999, t_neg := n\<rparr>,
       MYSQL_TIME_WARN_OUT_OF_RANGE)" if "8385959 < nr"
    using that assms(3-6) by (simp add: number_to_time_only_def time_limits wrap_ulong_def wrap_uint_def)
  ultimately show ?thesis by (simp add: n'_def)
qed

theorem time_number_roundtrip_witness:
  "number_to_time_only True 102030 5 TIME_MAX_HOUR =
    (0, \<lparr>t_year = 0, t_month = 0, t_day = 0, t_hour = 10, t_minute = 20, t_second = 30,
     t_second_part = 5, t_neg = True, t_time_type = MYSQL_TIMESTAMP_TIME\<rparr>, 0)"
  using time_number_roundtrip [of "\<lparr>t_year = 0, t_month = 0, t_day = 0, t_hour = 10, t_minute = 20,
     t_second = 30, t_second_part = 5, t_neg = True, t_time_type = MYSQL_TIMESTAMP_TIME\<rparr>" 0]
  by (simp add: time_wf_def check_datetime_range_def time_limits TIME_to_ulonglong_time_def)

end
