(* ===== verification/SqlTime.thy ===== *)
theory SqlTime
  imports MyTime
begin

text \<open>
  The calendar arithmetic of the server, \<^verbatim>\<open>sql/sql_time.cc\<close>: weekdays and weeks, the date of a
  day number, periods, adding an interval to a date, the difference of two times, and the
  conversions between TIME and DATETIME.
\<close>

section \<open>Weekdays and weeks\<close>

definition MAX_DAY_NUMBER :: int where "MAX_DAY_NUMBER = 3652424"
definition SECONDS_IN_24H :: int where "SECONDS_IN_24H = 86400"

definition WEEK_MONDAY_FIRST :: int where "WEEK_MONDAY_FIRST = 1"
definition WEEK_YEAR :: int where "WEEK_YEAR = 2"
definition WEEK_FIRST_WEEKDAY :: int where "WEEK_FIRST_WEEKDAY = 4"

definition calc_weekday :: "int \<Rightarrow> bool \<Rightarrow> int" where
  "calc_weekday daynr sunday_first_day_of_week =
     wrap_int (cmod (daynr + 5 + (if sunday_first_day_of_week then 1 else 0)) 7)"

text \<open>The result is the week and the year it belongs to.\<close>

definition calc_week :: "MYSQL_TIME \<Rightarrow> int \<Rightarrow> int \<times> int" where
  "calc_week l_time week_behaviour =
     (let daynr = wrap_ulong (calc_daynr (t_year l_time) (t_month l_time) (t_day l_time));
          first_daynr = wrap_ulong (calc_daynr (t_year l_time) 1 1);
          monday_first = (week_behaviour AND WEEK_MONDAY_FIRST \<noteq> 0);
          week_year = (week_behaviour AND WEEK_YEAR \<noteq> 0);
          first_weekday = (week_behaviour AND WEEK_FIRST_WEEKDAY \<noteq> 0);
          weekday = wrap_uint (calc_weekday (wrap_long first_daynr) (\<not> monday_first));
          y = t_year l_time;
          january = (t_month l_time = 1 \<and> t_day l_time \<le> wrap_uint (7 - weekday))
      in if january \<and> \<not> week_year \<and>
            ((first_weekday \<and> weekday \<noteq> 0) \<or> (\<not> first_weekday \<and> weekday \<ge> 4))
         then (0, y)
         else
           let (week_year, y, first_daynr, weekday) =
                 (if january then
                    let y = wrap_uint (y - 1); days = calc_days_in_year y
                    in (True, y, wrap_ulong (first_daynr - days),
                        wrap_uint (weekday + 53 * 7 - days) mod 7)
                  else (week_year, y, first_daynr, weekday));
               days =
                 (if (first_weekday \<and> weekday \<noteq> 0) \<or> (\<not> first_weekday \<and> weekday \<ge> 4)
                  then wrap_uint (daynr - (first_daynr + (7 - weekday)))
                  else wrap_uint (daynr - (first_daynr - weekday)));
               weekday' = wrap_uint (weekday + calc_days_in_year y) mod 7
           in if week_year \<and> days \<ge> 52 * 7 \<and>
                 ((\<not> first_weekday \<and> weekday' < 4) \<or> (first_weekday \<and> weekday' = 0))
              then (1, wrap_uint (y + 1))
              else (days div 7 + 1, y))"

section \<open>The date of a day number\<close>

function year_scan :: "int \<Rightarrow> int \<Rightarrow> int \<times> int" where
  "year_scan year day_of_year =
     (if day_of_year > calc_days_in_year year
      then year_scan (wrap_uint (year + 1)) (day_of_year - calc_days_in_year year)
      else (year, day_of_year))"
  by pat_completeness auto
termination
  by (relation "measure (\<lambda>(y, d). nat d)") (auto simp: calc_days_in_year_def split: if_splits)

declare year_scan.simps [simp del]

text \<open>\<open>None\<close> is a read past the end of \<open>days_in_month\<close>.\<close>

fun month_scan :: "int list \<Rightarrow> int \<Rightarrow> int \<Rightarrow> (int \<times> int) option" where
  "month_scan [] ret_month day_of_year = None"
| "month_scan (n # month_pos) ret_month day_of_year =
     (if day_of_year > n then month_scan month_pos (ret_month + 1) (day_of_year - n)
      else Some (ret_month, day_of_year))"

datatype 'a outcome = Ok 'a | Refused | Undefined

definition get_date_from_daynr :: "int \<Rightarrow> (int \<times> int \<times> int) outcome" where
  "get_date_from_daynr daynr =
     (if daynr < 366 \<or> daynr > MAX_DAY_NUMBER then Refused
      else
        let year = wrap_uint (daynr * 100 div 36525);
            temp = (wrap_uint (year - 1) div 100 + 1) * 3 div 4;
            day_of_year = wrap_uint (wrap_uint (daynr - year * 365) -
              wrap_uint (year - 1) div 4 + temp);
            (year, day_of_year) = year_scan year day_of_year;
            (leap_day, day_of_year) =
              (if calc_days_in_year year = 366 \<and> day_of_year > 31 + 28
               then (if day_of_year - 1 = 31 + 28 then 1 else 0, day_of_year - 1)
               else (0, day_of_year))
        in case month_scan days_in_month 1 day_of_year of
             None \<Rightarrow> Undefined
           | Some (month, day_of_year) \<Rightarrow> Ok (year, month, day_of_year + leap_day))"

section \<open>Periods\<close>

definition convert_period_to_month :: "int \<Rightarrow> int" where
  "convert_period_to_month period =
     (if period = 0 \<or> period > 999912 then 0
      else
        let a = period div 100;
            a = (if a < YY_PART_YEAR then a + 2000 else if a < 100 then a + 1900 else a);
            b = period mod 100
        in wrap_ulong (a * 12 + b - 1))"

definition convert_month_to_period :: "int \<Rightarrow> int" where
  "convert_month_to_period month =
     (if month = 0 then 0
      else
        let year = month div 12;
            year = (if year < 100 then year + (if year < YY_PART_YEAR then 2000 else 1900) else year)
        in wrap_ulong (year * 100 + month mod 12 + 1))"

section \<open>Adding an interval\<close>

datatype interval_type = INTERVAL_YEAR | INTERVAL_QUARTER | INTERVAL_MONTH | INTERVAL_WEEK
  | INTERVAL_DAY | INTERVAL_HOUR | INTERVAL_MINUTE | INTERVAL_SECOND | INTERVAL_MICROSECOND
  | INTERVAL_YEAR_MONTH | INTERVAL_DAY_HOUR | INTERVAL_DAY_MINUTE | INTERVAL_DAY_SECOND
  | INTERVAL_HOUR_MINUTE | INTERVAL_HOUR_SECOND | INTERVAL_MINUTE_SECOND
  | INTERVAL_DAY_MICROSECOND | INTERVAL_HOUR_MICROSECOND | INTERVAL_MINUTE_MICROSECOND
  | INTERVAL_SECOND_MICROSECOND | INTERVAL_LAST

record INTERVAL =
  i_year :: int
  i_month :: int
  i_day :: int
  i_hour :: int
  i_minute :: int
  i_second :: int
  i_second_part :: int
  i_neg :: bool

definition COMBINE :: "int \<Rightarrow> int \<Rightarrow> int \<Rightarrow> int \<Rightarrow> int \<Rightarrow> int" where
  "COMBINE day hour minute second second_part =
     (((day * 24 + hour) * 60 + minute) * 60 + second) * 1000000 + second_part"

text \<open>
  The branches of \<open>date_add_interval\<close>, one definition for each group of \<open>case\<close> labels.
  \<open>Refused\<close> is the return value 1; the warning that may go with it is not modelled, nor what is
  left in \<open>ltime\<close> then.
\<close>

definition get_parts :: "MYSQL_TIME \<Rightarrow> int \<Rightarrow> MYSQL_TIME \<times> int" where
  "get_parts ltime usec =
     (ltime\<lparr>t_second_part := usec mod 1000000, t_second := usec div 1000000 mod 60,
        t_minute := usec div 1000000 div 60 mod 60\<rparr>,
      usec div 1000000 div 60 div 60)"

definition add_time_units ::
    "interval_type \<Rightarrow> INTERVAL \<Rightarrow> int \<Rightarrow> MYSQL_TIME \<Rightarrow> MYSQL_TIME outcome" where
  "add_time_units int_type interval sign ltime =
     (if wrap_ulong (i_day interval + i_hour interval div 24 + i_minute interval div 24 div 60 +
           i_second interval div 24 div 60 div 60) > MAX_DAY_NUMBER
      then Refused
      else
        let time_type = t_time_type ltime;
            day = (if time_type \<noteq> MYSQL_TIMESTAMP_TIME
              then wrap_uint (t_day ltime + (calc_daynr (t_year ltime) (t_month ltime) 1 - 1))
              else t_day ltime);
            usec = wrap_long
              (COMBINE day (t_hour ltime) (t_minute ltime) (t_second ltime) (t_second_part ltime) +
               sign * COMBINE (i_day interval) (i_hour interval) (i_minute interval)
                 (i_second interval) (i_second_part interval));
            neg = (usec < 0);
            usec = (if neg then - usec else usec);
            (ltime, usec) = get_parts (ltime\<lparr>t_day := day\<rparr>) usec;
            ltime = ltime\<lparr>t_neg := (t_neg ltime \<noteq> neg)\<rparr>
        in if time_type = MYSQL_TIMESTAMP_TIME then
             if usec > TIME_MAX_HOUR then Refused
             else Ok (ltime\<lparr>t_hour := wrap_uint usec, t_day := 0\<rparr>)
           else if t_neg ltime then Refused
           else
             let ltime = (if int_type \<noteq> INTERVAL_DAY
                   then ltime\<lparr>t_time_type := MYSQL_TIMESTAMP_DATETIME\<rparr> else ltime);
                 ltime = ltime\<lparr>t_hour := usec mod 24\<rparr>;
                 daynr = usec div 24
             in case get_date_from_daynr daynr of
                  Ok (y, m, d) \<Rightarrow> Ok (ltime\<lparr>t_year := y, t_month := m, t_day := d\<rparr>)
                | Refused \<Rightarrow> Refused
                | Undefined \<Rightarrow> Undefined)"

definition add_weeks :: "INTERVAL \<Rightarrow> int \<Rightarrow> MYSQL_TIME \<Rightarrow> MYSQL_TIME outcome" where
  "add_weeks interval sign ltime =
     (let period = wrap_long (calc_daynr (t_year ltime) (t_month ltime) (t_day ltime) +
            sign * wrap_long (i_day interval))
      in case get_date_from_daynr period of
           Ok (y, m, d) \<Rightarrow> Ok (ltime\<lparr>t_year := y, t_month := m, t_day := d\<rparr>)
         | Refused \<Rightarrow> Refused
         | Undefined \<Rightarrow> Undefined)"

definition add_years :: "INTERVAL \<Rightarrow> int \<Rightarrow> MYSQL_TIME \<Rightarrow> MYSQL_TIME outcome" where
  "add_years interval sign ltime =
     (let ltime = ltime\<lparr>t_year := wrap_uint (t_year ltime + sign * wrap_long (i_year interval))\<rparr>
      in if t_year ltime \<ge> 10000 then Refused
         else if t_month ltime = 2 \<and> t_day ltime = 29 \<and> calc_days_in_year (t_year ltime) \<noteq> 366
         then Ok (ltime\<lparr>t_day := 28\<rparr>)
         else Ok ltime)"

definition add_months :: "INTERVAL \<Rightarrow> int \<Rightarrow> MYSQL_TIME \<Rightarrow> MYSQL_TIME outcome" where
  "add_months interval sign ltime =
     (let period = wrap_long (wrap_uint (t_year ltime * 12) + sign * wrap_long (i_year interval) * 12 +
            t_month ltime - 1 + sign * wrap_long (i_month interval))
      in if wrap_ulong period \<ge> 120000 then Refused
         else
           let ltime = ltime\<lparr>t_year := period div 12, t_month := period mod 12 + 1\<rparr>
           in if t_day ltime > days_in_month ! nat (t_month ltime - 1)
              then Ok (ltime\<lparr>t_day := days_in_month ! nat (t_month ltime - 1) +
                     (if t_month ltime = 2 \<and> calc_days_in_year (t_year ltime) = 366
                      then 1 else 0)\<rparr>)
              else Ok ltime)"

definition is_time_unit :: "interval_type \<Rightarrow> bool" where
  "is_time_unit int_type \<longleftrightarrow> int_type \<in> {INTERVAL_SECOND, INTERVAL_SECOND_MICROSECOND,
     INTERVAL_MICROSECOND, INTERVAL_MINUTE, INTERVAL_HOUR, INTERVAL_MINUTE_MICROSECOND,
     INTERVAL_MINUTE_SECOND, INTERVAL_HOUR_MICROSECOND, INTERVAL_HOUR_SECOND,
     INTERVAL_HOUR_MINUTE, INTERVAL_DAY_MICROSECOND, INTERVAL_DAY_SECOND, INTERVAL_DAY_MINUTE,
     INTERVAL_DAY_HOUR, INTERVAL_DAY}"

definition date_add_interval ::
    "MYSQL_TIME \<Rightarrow> interval_type \<Rightarrow> INTERVAL \<Rightarrow> MYSQL_TIME outcome" where
  "date_add_interval ltime int_type interval =
     (let sign = (if i_neg interval = t_neg ltime then 1 else - 1);
          not_time = (\<lambda>r. case r of
            Ok t \<Rightarrow> if t_time_type t \<noteq> MYSQL_TIMESTAMP_TIME then Ok t else Refused
          | Refused \<Rightarrow> Refused | Undefined \<Rightarrow> Undefined)
      in if is_time_unit int_type then add_time_units int_type interval sign ltime
         else if int_type = INTERVAL_WEEK then not_time (add_weeks interval sign ltime)
         else if int_type = INTERVAL_YEAR then not_time (add_years interval sign ltime)
         else if int_type \<in> {INTERVAL_YEAR_MONTH, INTERVAL_QUARTER, INTERVAL_MONTH}
           then not_time (add_months interval sign ltime)
         else Refused)"

section \<open>Differences and conversions\<close>

definition calc_time_from_sec :: "MYSQL_TIME \<Rightarrow> int \<Rightarrow> int \<Rightarrow> MYSQL_TIME" where
  "calc_time_from_sec to seconds microseconds =
     (let t_seconds = seconds mod 3600
      in to\<lparr>t_time_type := MYSQL_TIMESTAMP_TIME, t_year := 0, t_month := 0, t_day := 0,
           t_hour := wrap_uint (seconds div 3600), t_minute := t_seconds div 60,
           t_second := t_seconds mod 60, t_second_part := microseconds\<rparr>)"

text \<open>The sign, the seconds and the microseconds of the difference.\<close>

definition calc_time_diff :: "MYSQL_TIME \<Rightarrow> MYSQL_TIME \<Rightarrow> int \<Rightarrow> bool \<times> int \<times> int" where
  "calc_time_diff l_time1 l_time2 l_sign =
     (let days =
        (if t_time_type l_time1 = MYSQL_TIMESTAMP_TIME
         then t_day l_time1 - l_sign * t_day l_time2
         else calc_daynr (t_year l_time1) (t_month l_time1) (t_day l_time1) -
           (if t_time_type l_time2 = MYSQL_TIMESTAMP_TIME then l_sign * t_day l_time2
            else l_sign * calc_daynr (t_year l_time2) (t_month l_time2) (t_day l_time2)));
        microseconds = wrap_long
          ((days * SECONDS_IN_24H +
            (t_hour l_time1 * 3600 + t_minute l_time1 * 60 + t_second l_time1) -
            l_sign * (t_hour l_time2 * 3600 + t_minute l_time2 * 60 + t_second l_time2)) * 1000000 +
           t_second_part l_time1 - l_sign * t_second_part l_time2);
        neg = (microseconds < 0);
        microseconds = (if neg then - microseconds else microseconds)
      in (neg, microseconds div 1000000, microseconds mod 1000000))"

definition INT_MAX32 :: int where "INT_MAX32 = 0x7FFFFFFF"

definition calc_time_diff_time ::
    "MYSQL_TIME \<Rightarrow> MYSQL_TIME \<Rightarrow> int \<Rightarrow> bool \<Rightarrow> bool \<times> MYSQL_TIME" where
  "calc_time_diff_time l_time1 l_time2 l_sign no_zero_date =
     (let (neg, seconds, microseconds) = calc_time_diff l_time1 l_time2 l_sign;
          neg = (if t_neg l_time1 \<and> (seconds \<noteq> 0 \<or> microseconds \<noteq> 0) then \<not> neg else neg);
          seconds = min seconds INT_MAX32;
          l_time3 = calc_time_from_sec
            ((set_zero_time MYSQL_TIMESTAMP_DATE)\<lparr>t_neg := neg\<rparr>) seconds microseconds
      in (no_zero_date \<and> seconds = 0 \<and> microseconds = 0, l_time3))"

definition time_to_datetime :: "MYSQL_TIME \<Rightarrow> MYSQL_TIME option" where
  "time_to_datetime ltime =
     (if t_neg ltime then None
      else
        let day = t_hour ltime div 24
        in Some (ltime\<lparr>t_hour := t_hour ltime mod 24, t_month := day div 31, t_day := day mod 31\<rparr>))"

definition mix_date_and_time_simple :: "MYSQL_TIME \<Rightarrow> MYSQL_TIME \<Rightarrow> MYSQL_TIME" where
  "mix_date_and_time_simple ldate ltime =
     ldate\<lparr>t_hour := t_hour ltime, t_minute := t_minute ltime, t_second := t_second ltime,
       t_second_part := t_second_part ltime, t_time_type := MYSQL_TIMESTAMP_DATETIME\<rparr>"

definition mix_date_and_time_complex :: "MYSQL_TIME \<Rightarrow> MYSQL_TIME \<Rightarrow> MYSQL_TIME outcome" where
  "mix_date_and_time_complex ldate ltime =
     (let sign = (if t_neg ltime then 1 else - 1);
          (neg, seconds, useconds) = calc_time_diff ldate ltime sign;
          ldate = ldate\<lparr>t_neg := neg\<rparr>;
          days = seconds div SECONDS_IN_24H;
          ldate = calc_time_from_sec ldate (seconds mod SECONDS_IN_24H) useconds
      in case get_date_from_daynr days of
           Ok (y, m, d) \<Rightarrow> Ok (ldate\<lparr>t_year := y, t_month := m, t_day := d,
             t_time_type := MYSQL_TIMESTAMP_DATETIME\<rparr>)
         | Refused \<Rightarrow> Ok (ldate\<lparr>t_time_type := MYSQL_TIMESTAMP_DATETIME\<rparr>)
         | Undefined \<Rightarrow> Undefined)"

definition mix_date_and_time :: "MYSQL_TIME \<Rightarrow> MYSQL_TIME \<Rightarrow> MYSQL_TIME outcome" where
  "mix_date_and_time to from =
     (if \<not> t_neg from \<and> t_hour from < 24 then Ok (mix_date_and_time_simple to from)
      else mix_date_and_time_complex to from)"

section \<open>Day numbers\<close>

lemma calc_days_in_year_cases: "calc_days_in_year y = 365 \<or> calc_days_in_year y = 366"
  by (simp add: calc_days_in_year_def)

lemma year_start_mono:
  assumes "0 \<le> y" "y \<le> y'"
  shows "year_start y + 365 * (y' - y) \<le> year_start y'"
proof -
  have "year_start y + 365 * int n \<le> year_start (y + int n)" for n
  proof (induction n)
    case (Suc n)
    then show ?case
      using year_start_step [of "y + int n"] calc_days_in_year_cases [of "y + int n"] assms(1)
      by (simp add: algebra_simps) linarith
  qed simp
  from this [of "nat (y' - y)"] assms show ?thesis by simp
qed

lemma year_start_10000: "year_start 10000 = 3652424" by (simp add: year_start_def)

lemma year_scan_correct:
  assumes "1 \<le> y" "y \<le> 9999" "1 \<le> d" "year_start y + d \<le> MAX_DAY_NUMBER"
  shows "\<exists>y' d'. year_scan y d = (y', d') \<and> 1 \<le> y' \<and> y' \<le> 9999 \<and> 1 \<le> d' \<and>
    d' \<le> calc_days_in_year y' \<and> year_start y' + d' = year_start y + d"
  using assms
proof (induction y d rule: year_scan.induct)
  case (1 y d)
  show ?case
  proof (cases "calc_days_in_year y < d")
    case False
    then show ?thesis using 1 by (subst year_scan.simps) simp
  next
    case True
    have s: "year_start (y + 1) = year_start y + calc_days_in_year y"
      using 1(2) by (intro year_start_step) simp
    have "y \<noteq> 9999" using True s 1(5) year_start_10000 by (auto simp: MAX_DAY_NUMBER_def)
    then have w: "wrap_uint (y + 1) = y + 1" and y: "y + 1 \<le> 9999"
      using 1(2,3) by (simp_all add: wrap_uint_id)
    have "\<exists>y' d'. year_scan (y + 1) (d - calc_days_in_year y) = (y', d') \<and> 1 \<le> y' \<and> y' \<le> 9999 \<and>
        1 \<le> d' \<and> d' \<le> calc_days_in_year y' \<and>
        year_start y' + d' = year_start (y + 1) + (d - calc_days_in_year y)"
      using 1(1) [OF True, unfolded w] 1(2,5) y True s by simp
    then show ?thesis using True s by (subst year_scan.simps) (simp add: w)
  qed
qed

lemma month_scan_correct:
  assumes "0 < d" "d \<le> sum_list ns"
  shows "\<exists>i r. month_scan ns k d = Some (k + int i, r) \<and> i < length ns \<and>
    d = sum_list (take i ns) + r \<and> 0 < r \<and> r \<le> ns ! i"
  using assms
proof (induction ns arbitrary: k d)
  case (Cons n ns)
  show ?case
  proof (cases "n < d")
    case True
    have "0 < d - n" "d - n \<le> sum_list ns" using True Cons.prems by simp_all
    from Cons.IH [OF this, of "k + 1"] obtain i r where
      "month_scan ns (k + 1) (d - n) = Some (k + 1 + int i, r)" "i < length ns"
      "d - n = sum_list (take i ns) + r" "0 < r" "r \<le> ns ! i" by blast
    then show ?thesis using True by (intro exI [of _ "Suc i"] exI [of _ r]) simp
  next
    case False
    then show ?thesis using Cons.prems by (intro exI [of _ 0] exI [of _ d]) simp
  qed
qed simp

lemma common_year_months:
  assumes "1 \<le> d" "d \<le> 365"
  shows "\<exists>m r. month_scan days_in_month 1 d = Some (m, r) \<and> 1 \<le> m \<and> m \<le> 12 \<and> 1 \<le> r \<and>
    r \<le> days_in_month ! nat (m - 1) \<and> d = days_before 1 (nat (m - 1)) + r"
proof -
  have sum: "sum_list days_in_month = 365" and len: "length days_in_month = 13"
    by (simp_all add: days_in_month_def)
  have "0 < d" "d \<le> sum_list days_in_month" using assms sum by simp_all
  from month_scan_correct [OF this, of 1] obtain i r where ir: "month_scan days_in_month 1 d = Some (1 + int i, r)" "i < 13"
    "d = sum_list (take i days_in_month) + r" "0 < r" "r \<le> days_in_month ! i"
    unfolding len by blast
  have "i \<noteq> 12" using ir(4,5) by (auto simp: days_in_month_def)
  then have i: "i < 12" using ir(2) by simp
  have "\<forall>i < 12. sum_list (take i days_in_month) = days_before 1 i" by code_simp
  then show ?thesis using ir i by (intro exI [of _ "1 + int i"] exI [of _ r]) simp
qed

lemma days_before_common:
  assumes "1 \<le> m" "m \<le> 12"
  shows "days_before y (nat (m - 1)) =
    days_before 1 (nat (m - 1)) + (if 2 < m then calc_days_in_year y - 365 else 0)"
  using assms by (simp add: days_before_eq leap_by_hundreds [of 1])

lemma days_before_59:
  assumes "1 \<le> m" "m \<le> 12"
  shows "59 \<le> days_before 1 (nat (m - 1)) \<longleftrightarrow> 3 \<le> m"
  unfolding days_before_eq [OF assms] using assms
  by (cases m rule: month_cases) (simp_all add: leap_by_hundreds [of 1])

lemma days_before_31:
  assumes "1 \<le> m" "m \<le> 12"
  shows "31 \<le> days_before 1 (nat (m - 1)) \<longleftrightarrow> 2 \<le> m"
  unfolding days_before_eq [OF assms] using assms
  by (cases m rule: month_cases) (simp_all add: leap_by_hundreds [of 1])

text \<open>The search for the month, with the leap day taken out and put back.\<close>

lemma month_of_day:
  assumes "1 \<le> d" "d \<le> calc_days_in_year y" "0 \<le> y" "y \<le> 9999"
  defines "d' \<equiv> (if calc_days_in_year y = 366 \<and> 59 < d then d - 1 else d)"
    and "l \<equiv> (if calc_days_in_year y = 366 \<and> 59 < d \<and> d - 1 = 59 then 1 else 0)"
  shows "\<exists>m r. month_scan days_in_month 1 d' = Some (m, r) \<and> valid_date y m (r + l) \<and>
    d = days_before y (nat (m - 1)) + (r + l)"
proof -
  have "1 \<le> d'" "d' \<le> 365"
    using assms(1,2) calc_days_in_year_cases [of y] by (auto simp: d'_def)
  then obtain m r where mr: "month_scan days_in_month 1 d' = Some (m, r)" "1 \<le> m" "m \<le> 12" "1 \<le> r"
      "r \<le> days_in_month ! nat (m - 1)" "d' = days_before 1 (nat (m - 1)) + r"
    using common_year_months by blast
  note b = days_before_common [OF mr(2,3), of y] days_before_59 [OF mr(2,3)] days_before_31 [OF mr(2,3)]
  have feb: "d' \<le> 59" if "m \<le> 2"
  proof -
    have "m = 1 \<or> m = 2" using that mr(2) by linarith
    then show ?thesis using mr(5,6)
      by (auto simp: days_in_month_def month_length_def leap_by_hundreds [of 1])
  qed
  have third: "59 < d'" if "2 < m" using that b(2) mr(4,6) by simp
  have "d = days_before y (nat (m - 1)) + (r + l)"
    using b(1) feb third mr(6) calc_days_in_year_cases [of y] by (auto simp: d'_def l_def split: if_splits)
  moreover have "r + l \<le> month_length y m"
  proof (cases "l = 0")
    case True
    then show ?thesis using mr(5) by (auto simp: month_length_def)
  next
    case False
    then have e: "calc_days_in_year y = 366" "d' = 59" "l = 1" by (auto simp: l_def d'_def split: if_splits)
    have "\<not> 2 < m" using third e by auto
    moreover have "m \<noteq> 1" using mr(5,6) e by (auto simp: days_in_month_def)
    ultimately have "m = 2" using mr(2) by linarith
    then show ?thesis using e mr(5) by (simp add: month_length_def)
  qed
  moreover have "0 \<le> l" by (simp add: l_def)
  ultimately show ?thesis using mr assms(3,4) by (auto simp: valid_date_def)
qed

lemma first_guess:
  assumes "366 \<le> n" "n \<le> 3652424"
  defines "y \<equiv> n * 100 div 36525"
  shows "1 \<le> y \<and> y \<le> 9999 \<and> year_start y < n"
proof -
  have m: "36525 * y \<le> n * 100" "n * 100 < 36525 * y + 36525"
    using div_mult_mod_eq [of "n * 100" 36525] pos_mod_bound [of 36525 "n * 100"]
      pos_mod_sign [of 36525 "n * 100"] unfolding y_def by linarith+
  then have y: "1 \<le> y" "y \<le> 9999" using assms(1,2) by linarith+
  define a t where "a = (y - 1) div 4" and "t = ((y - 1) div 100 + 1) * 3 div 4"
  have a: "4 * a \<le> y - 1"
    using div_mult_mod_eq [of "y - 1" 4] pos_mod_sign [of 4 "y - 1"] unfolding a_def by linarith
  have "0 \<le> (y - 1) div 100" using y by (simp add: pos_imp_zdiv_nonneg_iff)
  then have t: "0 \<le> t" by (simp add: t_def pos_imp_zdiv_nonneg_iff)
  have "year_start y = 365 * y + a - t"
    using y by (simp only: year_start_def a_def t_def) simp
  then show ?thesis using y a t m by simp
qed

lemma day_of_year_value:
  assumes "366 \<le> n" "n \<le> 3652424"
  defines "y \<equiv> n * 100 div 36525"
  shows "wrap_uint (wrap_uint (n - y * 365) - wrap_uint (y - 1) div 4 +
      (wrap_uint (y - 1) div 100 + 1) * 3 div 4) = n - year_start y"
proof -
  note g = first_guess [OF assms(1,2), folded y_def]
  have "36525 * y \<le> n * 100"
    using div_mult_mod_eq [of "n * 100" 36525] pos_mod_sign [of 36525 "n * 100"]
    unfolding y_def by linarith
  then have w: "wrap_uint (y - 1) = y - 1" "wrap_uint (n - y * 365) = n - y * 365"
    using g assms(1,2) by (simp_all add: wrap_uint_id)
  define a t where "a = (y - 1) div 4" and "t = ((y - 1) div 100 + 1) * 3 div 4"
  have s: "year_start y = 365 * y + a - t"
    using g by (simp only: year_start_def a_def t_def) simp
  have "n - y * 365 - a + t = n - year_start y" by (simp add: s)
  moreover have "0 \<le> year_start y" using year_start_mono [of 0 y] g by (simp add: year_start_def)
  then have "wrap_uint (n - year_start y) = n - year_start y"
    using g assms(1,2) by (intro wrap_uint_id) linarith+
  ultimately show ?thesis unfolding w a_def [symmetric] t_def [symmetric] by (simp only:)
qed

lemma get_date_from_daynr_ok:
  assumes "366 \<le> n" "n \<le> 3652424"
  shows "\<exists>y m d. get_date_from_daynr n = Ok (y, m, d) \<and> 1 \<le> y \<and> valid_date y m d \<and>
    calc_daynr y m d = n"
proof -
  define y0 where "y0 = n * 100 div 36525"
  note g = first_guess [OF assms, folded y0_def] and v = day_of_year_value [OF assms, folded y0_def]
  have "year_start y0 + (n - year_start y0) \<le> MAX_DAY_NUMBER"
    using assms by (simp add: MAX_DAY_NUMBER_def)
  then obtain y d where s: "year_scan y0 (n - year_start y0) = (y, d)" "1 \<le> y" "y \<le> 9999" "1 \<le> d"
      "d \<le> calc_days_in_year y" "year_start y + d = n"
    using year_scan_correct [of y0 "n - year_start y0"] g by auto
  define d' where "d' = (if calc_days_in_year y = 366 \<and> 59 < d then d - 1 else d)"
  define l :: int where "l = (if calc_days_in_year y = 366 \<and> 59 < d \<and> d - 1 = 59 then 1 else 0)"
  obtain m r where mr: "month_scan days_in_month 1 d' = Some (m, r)" "valid_date y m (r + l)"
      "d = days_before y (nat (m - 1)) + (r + l)"
    using month_of_day [OF s(4,5) _ s(3)] s(2) unfolding d'_def l_def by auto
  have w: "wrap_uint y0 = y0" using g by (simp add: wrap_uint_id)
  have "get_date_from_daynr n = (case month_scan days_in_month 1 d' of None \<Rightarrow> Undefined
      | Some (month, day_of_year) \<Rightarrow> Ok (y, month, day_of_year + l))"
  proof -
    have "\<not> (n < 366 \<or> n > MAX_DAY_NUMBER)" using assms by (simp add: MAX_DAY_NUMBER_def)
    then show ?thesis
      by (simp only: get_date_from_daynr_def if_False Let_def y0_def [symmetric] w v s(1) prod.case)
        (auto simp: d'_def l_def split: option.splits)
  qed
  then have "get_date_from_daynr n = Ok (y, m, r + l)" using mr(1) by simp
  moreover have "calc_daynr y m (r + l) = n"
    using valid_date_bounds [OF mr(2)] mr(3) s(6) by (simp add: calc_daynr_eq)
  ultimately show ?thesis using s(2) mr(2) by blast
qed

lemma days_before_mono: "j \<le> k \<Longrightarrow> k \<le> 12 \<Longrightarrow> days_before y j \<le> days_before y k"
proof (induction k)
  case (Suc k)
  then show ?case using month_length_bounds [of "int k + 1" y] by (cases "j = Suc k") auto
qed simp

lemma day_in_year:
  assumes "valid_date y m d"
  shows "year_start y < calc_daynr y m d \<and> calc_daynr y m d \<le> year_start (y + 1)"
proof -
  note b = valid_date_bounds [OF assms]
  have "0 \<le> days_before y (nat (m - 1))" using days_before_mono [of 0 "nat (m - 1)" y] b by (simp add: nat_le_iff)
  moreover have "days_before y (nat m) \<le> calc_days_in_year y"
    using days_before_mono [of "nat m" 12 y] b nat_le_iff [of m 12] days_before_december [of y] by simp
  ultimately show ?thesis
    using b assms days_before_Suc [of m y] year_start_step [of y]
    by (simp add: calc_daynr_eq valid_date_def)
qed

lemma calc_daynr_less:
  assumes "valid_date y m d" "valid_date y' m' d'"
    and "y < y' \<or> y = y' \<and> (m < m' \<or> m = m' \<and> d < d')"
  shows "calc_daynr y m d < calc_daynr y' m' d'"
proof (cases "y = y'")
  case True
  note b = valid_date_bounds [OF assms(1)] valid_date_bounds [OF assms(2)]
  have "days_before y (nat m) \<le> days_before y (nat (m' - 1))" if "m < m'"
    using that b by (intro days_before_mono) auto
  then show ?thesis
    using True assms b days_before_Suc [of m y] by (auto simp: calc_daynr_eq valid_date_def)
next
  case False
  then have "y + 1 \<le> y'" using assms(3) by auto
  moreover have "0 \<le> y" using assms(1) by (simp add: valid_date_def)
  ultimately have "year_start (y + 1) \<le> year_start y'" using year_start_mono [of "y + 1" y'] by simp
  then show ?thesis using day_in_year [OF assms(1)] day_in_year [OF assms(2)] by linarith
qed

lemma calc_daynr_inj:
  assumes "valid_date y m d" "valid_date y' m' d'" "calc_daynr y m d = calc_daynr y' m' d'"
  shows "y = y' \<and> m = m' \<and> d = d'"
  using calc_daynr_less [OF assms(1,2)] calc_daynr_less [OF assms(2,1)] assms(3)
  by (metis linorder_neqE less_irrefl)

text \<open>
  C22: \<open>calc_daynr\<close> and \<open>get_date_from_daynr\<close> are inverse to each other between the first of
  January of year 1 and the end of year 9999: every valid date is found again from its day
  number, every day number from 366 to \<open>MAX_DAY_NUMBER\<close> gives a valid date with that number
  (the two loops end and the table of months is never left), and every other one is refused, also
  0, of which a comment in the source says that it gives the zero date.
\<close>

theorem get_date_from_daynr_inverse:
  "(1 \<le> y \<and> valid_date y m d \<longrightarrow> get_date_from_daynr (calc_daynr y m d) = Ok (y, m, d)) \<and>
   (366 \<le> n \<and> n \<le> MAX_DAY_NUMBER \<longrightarrow>
     (\<exists>y m d. get_date_from_daynr n = Ok (y, m, d) \<and> valid_date y m d \<and> calc_daynr y m d = n)) \<and>
   (n < 366 \<or> MAX_DAY_NUMBER < n \<longrightarrow> get_date_from_daynr n = Refused)"
proof -
  have "get_date_from_daynr (calc_daynr y m d) = Ok (y, m, d)" if "1 \<le> y" and v: "valid_date y m d"
  proof -
    have y: "0 \<le> y + 1" "y + 1 \<le> 10000" using v by (auto simp: valid_date_def)
    have "year_start 1 = 365" by (simp add: year_start_def)
    then have "365 \<le> year_start y" "year_start (y + 1) \<le> 3652424"
      using year_start_mono [OF _ that(1)] year_start_mono [OF y] y year_start_10000 that(1)
      by simp_all
    then have "366 \<le> calc_daynr y m d" "calc_daynr y m d \<le> 3652424"
      using day_in_year [OF v] by linarith+
    from get_date_from_daynr_ok [OF this] obtain y' m' d' where
      "get_date_from_daynr (calc_daynr y m d) = Ok (y', m', d')" "valid_date y' m' d'"
      "calc_daynr y' m' d' = calc_daynr y m d" by blast
    with calc_daynr_inj [OF _ v] show ?thesis by blast
  qed
  moreover have "\<exists>y m d. get_date_from_daynr n = Ok (y, m, d) \<and> valid_date y m d \<and> calc_daynr y m d = n"
    if "366 \<le> n \<and> n \<le> MAX_DAY_NUMBER"
    using get_date_from_daynr_ok [of n] that by (auto simp: MAX_DAY_NUMBER_def)
  moreover have "n < 366 \<or> MAX_DAY_NUMBER < n \<Longrightarrow> get_date_from_daynr n = Refused"
    by (simp only: get_date_from_daynr_def if_True)
  ultimately show ?thesis by blast
qed

theorem get_date_from_daynr_inverse_witness:
  "get_date_from_daynr (calc_daynr 2024 2 29) = Ok (2024, 2, 29) \<and>
   (\<exists>y m d. get_date_from_daynr 366 = Ok (y, m, d) \<and> valid_date y m d \<and> calc_daynr y m d = 366)"
proof -
  have "valid_date 2024 2 29"
    by (simp add: valid_date_def month_length_def days_in_month_def calc_days_in_year_def)
  then show ?thesis
    using get_date_from_daynr_inverse [of 2024 2 29 366] by (simp add: MAX_DAY_NUMBER_def)
qed

section \<open>Instants\<close>

text \<open>The microseconds from day 0 to a datetime.\<close>

definition instant :: "MYSQL_TIME \<Rightarrow> int" where
  "instant t = COMBINE (calc_daynr (t_year t) (t_month t) (t_day t)) (t_hour t) (t_minute t)
     (t_second t) (t_second_part t)"

definition interval_usecs :: "INTERVAL \<Rightarrow> int" where
  "interval_usecs i = (if i_neg i then - 1 else 1) *
     COMBINE (i_day i) (i_hour i) (i_minute i) (i_second i) (i_second_part i)"

definition usecs_per_day :: int where "usecs_per_day = 86400000000"

definition valid_datetime :: "MYSQL_TIME \<Rightarrow> bool" where
  "valid_datetime t \<longleftrightarrow> \<not> t_neg t \<and> t_time_type t \<in> {MYSQL_TIMESTAMP_DATE, MYSQL_TIMESTAMP_DATETIME} \<and>
     valid_date (t_year t) (t_month t) (t_day t) \<and> 0 \<le> t_hour t \<and> t_hour t < 24 \<and>
     0 \<le> t_minute t \<and> t_minute t < 60 \<and> 0 \<le> t_second t \<and> t_second t < 60 \<and>
     0 \<le> t_second_part t \<and> t_second_part t \<le> TIME_MAX_SECOND_PART"

definition interval_wf :: "INTERVAL \<Rightarrow> bool" where
  "interval_wf i \<longleftrightarrow> (\<forall>v \<in> {i_year i, i_month i, i_day i, i_hour i, i_minute i, i_second i,
     i_second_part i}. 0 \<le> v \<and> v < 2 ^ 62)"

lemma COMBINE_split:
  fixes n :: int
  defines "a \<equiv> n div 1000000"
  defines "b \<equiv> a div 60"
  defines "c \<equiv> b div 60"
  shows "COMBINE (c div 24) (c mod 24) (b mod 60) (a mod 60) (n mod 1000000) = n"
  unfolding COMBINE_def c_def by (simp only: div_mult_mod_eq) (simp add: a_def b_def)

lemma COMBINE_less:
  assumes "0 \<le> h" "h < 24" "0 \<le> m" "m < 60" "0 \<le> s" "s < 60" "0 \<le> p" "p \<le> 999999"
  shows "d * usecs_per_day \<le> COMBINE d h m s p \<and> COMBINE d h m s p < (d + 1) * usecs_per_day"
proof -
  have "COMBINE d h m s p = d * usecs_per_day + (((h * 60 + m) * 60 + s) * 1000000 + p)"
    by (simp add: COMBINE_def usecs_per_day_def)
  moreover have "h * 60 + m \<le> 1439" using assms by simp
  then have "(h * 60 + m) * 60 + s \<le> 86399" using assms by simp
  then have "((h * 60 + m) * 60 + s) * 1000000 + p < usecs_per_day" using assms by (simp add: usecs_per_day_def)
  moreover have "0 \<le> ((h * 60 + m) * 60 + s) * 1000000 + p" using assms by simp
  moreover have "(d + 1) * usecs_per_day = d * usecs_per_day + usecs_per_day" by (simp add: distrib_right)
  ultimately show ?thesis by linarith
qed

lemma COMBINE_nonneg: "0 \<le> d \<Longrightarrow> 0 \<le> h \<Longrightarrow> 0 \<le> m \<Longrightarrow> 0 \<le> s \<Longrightarrow> 0 \<le> p \<Longrightarrow> 0 \<le> COMBINE d h m s p"
  by (simp add: COMBINE_def)

lemma daynr_bounds:
  assumes "valid_date y m d"
  shows "1 \<le> calc_daynr y m d \<and> calc_daynr y m d \<le> MAX_DAY_NUMBER"
proof -
  have y: "0 \<le> y" "0 \<le> y + 1" "y + 1 \<le> 10000" using assms by (auto simp: valid_date_def)
  have "year_start 0 = 0" by (simp add: year_start_def)
  then show ?thesis
    using day_in_year [OF assms] year_start_mono [of 0 y] year_start_mono [OF y(2,3)] y
      year_start_10000 by (simp add: MAX_DAY_NUMBER_def)
qed

lemma less_div_step: "0 < k \<Longrightarrow> x < k * (x div k) + k" for k x :: int
  using mult_div_mod_eq [of k x] pos_mod_bound [of k x] by linarith

lemma interval_bounds:
  assumes "interval_wf i" and "i_day i + i_hour i div 24 + i_minute i div 24 div 60 +
    i_second i div 24 div 60 div 60 \<le> MAX_DAY_NUMBER"
  shows "0 \<le> COMBINE (i_day i) (i_hour i) (i_minute i) (i_second i) (i_second_part i) \<and>
    COMBINE (i_day i) (i_hour i) (i_minute i) (i_second i) (i_second_part i) < 6000000000000000000"
proof -
  have w: "0 \<le> i_day i" "0 \<le> i_hour i" "0 \<le> i_minute i" "0 \<le> i_second i" "0 \<le> i_second_part i"
      "i_second_part i < 4611686018427387904"
    using assms(1) by (auto simp: interval_wf_def)
  have m: "0 \<le> i_hour i div 24" "0 \<le> i_minute i div 1440" "0 \<le> i_second i div 86400"
    using w by (simp_all add: pos_imp_zdiv_nonneg_iff)
  have e: "i_minute i div 24 div 60 = i_minute i div 1440"
      "i_second i div 24 div 60 div 60 = i_second i div 86400"
    by (simp_all only: zdiv_zmult2_eq [symmetric] zero_le_numeral) simp_all
  note s = assms(2) [unfolded e MAX_DAY_NUMBER_def]
  have b: "i_hour i < 24 * (i_hour i div 24) + 24" "i_minute i < 1440 * (i_minute i div 1440) + 1440"
      "i_second i < 86400 * (i_second i div 86400) + 86400"
    by (simp_all only: less_div_step zero_less_numeral)
  define q1 q2 q3 where "q1 = i_hour i div 24" and "q2 = i_minute i div 1440"
    and "q3 = i_second i div 86400"
  have "COMBINE (i_day i) (i_hour i) (i_minute i) (i_second i) (i_second_part i) =
      i_day i * 86400000000 + i_hour i * 3600000000 + i_minute i * 60000000 + i_second i * 1000000 +
      i_second_part i"
    by (simp add: COMBINE_def)
  then show ?thesis
    using w m s b unfolding q1_def [symmetric] q2_def [symmetric] q3_def [symmetric] by linarith
qed

lemma calc_daynr_day:
  assumes "valid_date y m d"
  shows "d + (calc_daynr y m 1 - 1) = calc_daynr y m d"
proof -
  have b: "0 \<le> y" "y \<le> 9999" "1 \<le> m" "m \<le> 12" "0 \<le> d" "d \<le> 31"
    using valid_date_bounds [OF assms] by simp_all
  show ?thesis
    unfolding calc_daynr_eq [OF b] calc_daynr_eq [OF b(1-4) zero_le_one one_le_numeral] by simp
qed

lemma le_div_iff: "0 < u \<Longrightarrow> k \<le> n div u \<longleftrightarrow> k * u \<le> n" for k n u :: int
proof
  assume u: "0 < u" and "k \<le> n div u"
  then have "k * u \<le> n div u * u" by simp
  also have "\<dots> \<le> n" using div_mult_mod_eq [of n u] pos_mod_sign [OF u, of n] by linarith
  finally show "k * u \<le> n" .
next
  assume u: "0 < u" and "k * u \<le> n"
  then have "k * u div u \<le> n div u" by (intro zdiv_mono1)
  then show "k \<le> n div u" using u by simp
qed

lemma day_of_instant:
  "366 \<le> n div 1000000 div 60 div 60 div 24 \<and> n div 1000000 div 60 div 60 div 24 \<le> MAX_DAY_NUMBER \<longleftrightarrow>
    366 * usecs_per_day \<le> n \<and> n < (MAX_DAY_NUMBER + 1) * usecs_per_day"
proof -
  have e: "n div 1000000 div 60 div 60 div 24 = n div usecs_per_day"
    unfolding usecs_per_day_def by (simp only: zdiv_zmult2_eq [symmetric] zero_le_numeral) simp
  have u: "0 < usecs_per_day" by (simp add: usecs_per_day_def)
  have le: "k \<le> n div usecs_per_day \<longleftrightarrow> k * usecs_per_day \<le> n" for k by (rule le_div_iff [OF u])
  have "n div usecs_per_day \<le> k \<longleftrightarrow> \<not> k + 1 \<le> n div usecs_per_day" for k by linarith
  then show ?thesis unfolding e le by (simp only: le not_le)
qed

lemma add_time_units_date:
  assumes t: "valid_datetime t" and i: "interval_wf i" and sg: "sg = (if i_neg i then - 1 else 1)"
    and fits: "i_day i + i_hour i div 24 + i_minute i div 24 div 60 +
      i_second i div 24 div 60 div 60 \<le> MAX_DAY_NUMBER"
  defines "n \<equiv> instant t + interval_usecs i"
  shows "(366 * usecs_per_day \<le> n \<and> n < (MAX_DAY_NUMBER + 1) * usecs_per_day \<longrightarrow>
      (\<exists>t'. add_time_units ty i sg t = Ok t' \<and> valid_datetime t' \<and> instant t' = n)) \<and>
    (\<not> (366 * usecs_per_day \<le> n \<and> n < (MAX_DAY_NUMBER + 1) * usecs_per_day) \<longrightarrow>
      add_time_units ty i sg t = Refused)"
proof -
  note ib = interval_bounds [OF i fits]
  have v: "valid_date (t_year t) (t_month t) (t_day t)" using t by (simp add: valid_datetime_def)
  note db = daynr_bounds [OF v]
  have day: "wrap_uint (t_day t + (calc_daynr (t_year t) (t_month t) 1 - 1)) =
      calc_daynr (t_year t) (t_month t) (t_day t)"
    unfolding calc_daynr_day [OF v] using db by (intro wrap_uint_id) (auto simp: MAX_DAY_NUMBER_def)
  have inst: "0 \<le> instant t" "instant t < 400000000000000000"
    using COMBINE_less [of "t_hour t" "t_minute t" "t_second t" "t_second_part t"
        "calc_daynr (t_year t) (t_month t) (t_day t)"] t db
    by (auto simp: instant_def valid_datetime_def usecs_per_day_def TIME_MAX_SECOND_PART_def
        MAX_DAY_NUMBER_def)
  have n: "instant t + sg * COMBINE (i_day i) (i_hour i) (i_minute i) (i_second i) (i_second_part i) = n"
    by (simp add: n_def interval_usecs_def sg)
  have w: "wrap_long n = n"
    using ib inst by (intro wrap_long_id) (auto simp: n_def interval_usecs_def)
  have ty: "t_time_type t \<noteq> MYSQL_TIMESTAMP_TIME" and neg: "\<not> t_neg t"
    using t by (auto simp: valid_datetime_def)
  have pos: "0 \<le> i_hour i div 24" "0 \<le> i_minute i div 24 div 60" "0 \<le> i_second i div 24 div 60 div 60"
      "0 \<le> i_day i"
    using i by (auto simp: interval_wf_def pos_imp_zdiv_nonneg_iff)
  define k where "k = i_day i + i_hour i div 24 + i_minute i div 24 div 60 +
      i_second i div 24 div 60 div 60"
  have "0 \<le> k" unfolding k_def using pos by (intro add_nonneg_nonneg)
  then have nowrap: "\<not> wrap_ulong k > MAX_DAY_NUMBER"
    using fits [folded k_def] by (simp add: wrap_ulong_id MAX_DAY_NUMBER_def)
  define u where "u = fst (get_parts (t\<lparr>t_day := calc_daynr (t_year t) (t_month t) (t_day t)\<rparr>) n)"
  define c where "c = n div 1000000 div 60 div 60"
  have parts: "get_parts (t\<lparr>t_day := calc_daynr (t_year t) (t_month t) (t_day t)\<rparr>) n = (u, c)"
    by (simp add: u_def c_def get_parts_def)
  have u: "t_time_type u = t_time_type t" "\<not> t_neg u" "t_second_part u = n mod 1000000"
      "t_second u = n div 1000000 mod 60" "t_minute u = n div 1000000 div 60 mod 60"
    using neg by (simp_all add: u_def get_parts_def)
  have unf: "add_time_units ty i sg t =
      (let usec = n; neg = (usec < 0); usec = (if neg then - usec else usec);
           (ltime, usec) = get_parts (t\<lparr>t_day := calc_daynr (t_year t) (t_month t) (t_day t)\<rparr>) usec;
           ltime = ltime\<lparr>t_neg := (t_neg ltime \<noteq> neg)\<rparr>
       in if t_neg ltime then Refused
          else
            let ltime = (if ty \<noteq> INTERVAL_DAY
                  then ltime\<lparr>t_time_type := MYSQL_TIMESTAMP_DATETIME\<rparr> else ltime);
                ltime = ltime\<lparr>t_hour := usec mod 24\<rparr>;
                daynr = usec div 24
            in case get_date_from_daynr daynr of
                 Ok (y, m, d) \<Rightarrow> Ok (ltime\<lparr>t_year := y, t_month := m, t_day := d\<rparr>)
               | Refused \<Rightarrow> Refused
               | Undefined \<Rightarrow> Undefined)"
    unfolding add_time_units_def k_def [symmetric]
    using ty nowrap by (simp only: if_False Let_def day instant_def [symmetric] n w if_True
        simp_thms split: prod.split)
  show ?thesis
  proof (cases "n < 0")
    case True
    have "add_time_units ty i sg t = Refused"
      unfolding unf using True neg by (simp add: get_parts_def)
    moreover have "\<not> 366 * usecs_per_day \<le> n" using True by (simp add: usecs_per_day_def)
    ultimately show ?thesis by blast
  next
    case False
    define v where "v = (if ty \<noteq> INTERVAL_DAY then u\<lparr>t_time_type := MYSQL_TIMESTAMP_DATETIME\<rparr> else u)
      \<lparr>t_hour := c mod 24\<rparr>"
    have r: "add_time_units ty i sg t = (case get_date_from_daynr (c div 24) of
        Ok (y, m, d) \<Rightarrow> Ok (v\<lparr>t_year := y, t_month := m, t_day := d\<rparr>)
      | Refused \<Rightarrow> Refused | Undefined \<Rightarrow> Undefined)"
      unfolding unf using False u(2)
      by (auto simp: parts v_def split: outcome.splits)
    have v: "t_hour v = c mod 24" "t_minute v = t_minute u" "t_second v = t_second u"
        "t_second_part v = t_second_part u" "\<not> t_neg v"
        "t_time_type v \<in> {MYSQL_TIMESTAMP_DATE, MYSQL_TIMESTAMP_DATETIME}"
      using u(1,2) t by (auto simp: v_def valid_datetime_def)
    have vb: "0 \<le> t_hour v" "t_hour v < 24" "0 \<le> t_minute v" "t_minute v < 60" "0 \<le> t_second v"
        "t_second v < 60" "0 \<le> t_second_part v" "t_second_part v < 1000000"
      by (simp_all only: v(1-4) u(3-5) pos_mod_sign pos_mod_bound zero_less_numeral)
    note range = day_of_instant [of n, folded c_def]
    show ?thesis
    proof (cases "366 \<le> c div 24 \<and> c div 24 \<le> MAX_DAY_NUMBER")
      case True
      then obtain y m d where g: "get_date_from_daynr (c div 24) = Ok (y, m, d)" "valid_date y m d"
          "calc_daynr y m d = c div 24"
        using get_date_from_daynr_ok [of "c div 24"] by (auto simp: MAX_DAY_NUMBER_def)
      define t' where "t' = v\<lparr>t_year := y, t_month := m, t_day := d\<rparr>"
      have e: "t_year t' = y" "t_month t' = m" "t_day t' = d" "t_hour t' = t_hour v"
          "t_minute t' = t_minute v" "t_second t' = t_second v" "t_second_part t' = t_second_part v"
          "t_neg t' = t_neg v" "t_time_type t' = t_time_type v"
        by (simp_all add: t'_def)
      have "instant t' = COMBINE (c div 24) (c mod 24) (n div 1000000 div 60 mod 60)
          (n div 1000000 mod 60) (n mod 1000000)"
        by (simp only: instant_def e g(3) v(1-4) u(3-5))
      also have "\<dots> = n" unfolding c_def by (rule COMBINE_split)
      finally have "instant t' = n" .
      moreover have "t_second_part v \<le> TIME_MAX_SECOND_PART" using vb(8) by (simp add: TIME_MAX_SECOND_PART_def)
      then have "valid_datetime t'"
        unfolding valid_datetime_def e using vb v(5,6) g(2) by blast
      moreover have "add_time_units ty i sg t = Ok t'" by (simp add: r g(1) t'_def)
      ultimately show ?thesis using range True False by auto
    next
      case 2: False
      then have "get_date_from_daynr (c div 24) = Refused"
        by (simp only: get_date_from_daynr_def) (simp add: not_le)
      then show ?thesis using range r 2 False by auto
    qed
  qed
qed

text \<open>
  C15: adding an interval of days, hours, minutes, seconds or microseconds to a valid date or
  datetime is exact: the result is a valid datetime that lies the length of the interval
  after (for a negative interval before) the argument, and the addition is refused exactly when
  the interval is longer than \<open>MAX_DAY_NUMBER\<close> days or the result would lie before year 1 or
  after year 9999.
\<close>

theorem date_add_interval_exact:
  assumes "is_time_unit ty" and "valid_datetime t" and "interval_wf i"
    and "fits \<longleftrightarrow> i_day i + i_hour i div 24 + i_minute i div 24 div 60 +
      i_second i div 24 div 60 div 60 \<le> MAX_DAY_NUMBER"
    and "n = instant t + interval_usecs i"
    and "in_range \<longleftrightarrow> 366 * usecs_per_day \<le> n \<and> n < (MAX_DAY_NUMBER + 1) * usecs_per_day"
  shows "if fits \<and> in_range
    then \<exists>t'. date_add_interval t ty i = Ok t' \<and> valid_datetime t' \<and> instant t' = n
    else date_add_interval t ty i = Refused"
proof -
  have neg: "\<not> t_neg t" using assms(2) by (simp add: valid_datetime_def)
  define sg :: int where "sg = (if i_neg i then - 1 else 1)"
  have r: "date_add_interval t ty i = add_time_units ty i sg t"
    using assms(1) neg by (auto simp: date_add_interval_def sg_def)
  show ?thesis
  proof (cases fits)
    case True
    then show ?thesis
      using add_time_units_date [OF assms(2,3) sg_def, of ty] assms(4-6) r by auto
  next
    case False
    define k where "k = i_day i + i_hour i div 24 + i_minute i div 24 div 60 +
      i_second i div 24 div 60 div 60"
    have d: "0 \<le> x div y" "x div y \<le> x" if "0 \<le> x" "0 < y" for x y :: int
      using that zdiv_mono2 [of x 1 y] by (simp_all add: pos_imp_zdiv_nonneg_iff)
    have w: "0 \<le> i_day i" "0 \<le> i_hour i" "0 \<le> i_minute i" "0 \<le> i_second i"
        "i_day i < 2 ^ 62" "i_hour i < 2 ^ 62" "i_minute i < 2 ^ 62" "i_second i < 2 ^ 62"
      using assms(3) by (auto simp: interval_wf_def)
    have "0 \<le> k \<and> k \<le> i_day i + i_hour i + i_minute i + i_second i"
      unfolding k_def using w by (intro conjI add_nonneg_nonneg add_mono)
        (auto intro: d order_trans [OF d(2)])
    then have "wrap_ulong k = k" using w by (intro wrap_ulong_id) simp_all
    then have "add_time_units ty i sg t = Refused"
      using False assms(4) unfolding add_time_units_def k_def [symmetric] by simp
    then show ?thesis using False r by simp
  qed
qed

theorem date_add_interval_exact_witness:
  "\<exists>t'. date_add_interval (\<lparr>t_year = 2024, t_month = 2, t_day = 28, t_hour = 23, t_minute = 59,
      t_second = 59, t_second_part = 0, t_neg = False, t_time_type = MYSQL_TIMESTAMP_DATETIME\<rparr>)
      INTERVAL_SECOND \<lparr>i_year = 0, i_month = 0, i_day = 0, i_hour = 0, i_minute = 0, i_second = 1,
        i_second_part = 0, i_neg = False\<rparr> = Ok t' \<and>
    valid_datetime t' \<and> instant t' = calc_daynr 2024 2 29 * usecs_per_day"
proof -
  define t where "t = \<lparr>t_year = 2024, t_month = 2, t_day = 28, t_hour = 23, t_minute = 59,
      t_second = 59, t_second_part = 0, t_neg = False, t_time_type = MYSQL_TIMESTAMP_DATETIME\<rparr>"
  define i where "i = \<lparr>i_year = 0, i_month = 0, i_day = 0, i_hour = 0, i_minute = 0, i_second = 1,
        i_second_part = 0, i_neg = False\<rparr>"
  have c: "calc_daynr 2024 2 28 = 739309" "calc_daynr 2024 2 29 = 739310"
    by (simp_all add: calc_daynr_def wrap_int_def cdiv_def)
  have "is_time_unit INTERVAL_SECOND" "interval_wf i"
    by (simp_all add: is_time_unit_def interval_wf_def i_def)
  moreover have "valid_datetime t"
    by (simp add: valid_datetime_def t_def valid_date_def month_length_def days_in_month_def
        TIME_MAX_SECOND_PART_def)
  moreover have "instant t + interval_usecs i = calc_daynr 2024 2 29 * usecs_per_day"
    by (simp add: instant_def t_def i_def c interval_usecs_def COMBINE_def usecs_per_day_def)
  ultimately show ?thesis
    using date_add_interval_exact [of INTERVAL_SECOND t i True "instant t + interval_usecs i" True]
    unfolding t_def [symmetric] i_def [symmetric]
    by (simp add: i_def MAX_DAY_NUMBER_def usecs_per_day_def c)
qed

lemma clip_valid:
  assumes "valid_datetime t" "0 \<le> y" "y \<le> 9999" "1 \<le> m" "m \<le> 12"
  shows "valid_datetime (t\<lparr>t_year := y, t_month := m, t_day := min (t_day t) (month_length y m)\<rparr>)"
  using assms month_length_bounds [OF assms(4,5), of y]
  by (simp add: valid_datetime_def valid_date_def)




text \<open>
  C35: adding years moves the year and cuts the 29th of February to the 28th when the new year is
  not a leap year, or is refused when the year leaves 0 to 9999, for intervals shorter than
  2147483648 years.  The sum is taken in 32 bits before the range is checked, so an interval
  that is 4294967296 years longer has the same effect.
\<close>

theorem date_add_interval_years:
  assumes "valid_datetime t" and "interval_wf i" and "i_year i < 2 ^ 31"
    and "y = t_year t + (if i_neg i then - 1 else 1) * i_year i"
    and "t' = t\<lparr>t_year := y, t_day := min (t_day t) (month_length y (t_month t))\<rparr>"
  shows "(if 0 \<le> y \<and> y < 10000 then date_add_interval t INTERVAL_YEAR i = Ok t' \<and> valid_datetime t'
      else date_add_interval t INTERVAL_YEAR i = Refused) \<and>
    date_add_interval t INTERVAL_YEAR (i\<lparr>i_year := i_year i + 4294967296\<rparr>) =
      date_add_interval t INTERVAL_YEAR i"
proof -
  have neg: "\<not> t_neg t" and ty: "t_time_type t \<noteq> MYSQL_TIMESTAMP_TIME"
    using assms(1) by (auto simp: valid_datetime_def)
  define sg :: int where "sg = (if i_neg i then - 1 else 1)"
  have w: "0 \<le> i_year i" using assms(2) by (auto simp: interval_wf_def)
  have b: "0 \<le> t_year t" "t_year t \<le> 9999" "1 \<le> t_month t" "t_month t \<le> 12"
      "t_day t \<le> month_length (t_year t) (t_month t)"
    using assms(1) by (auto simp: valid_datetime_def valid_date_def)
  have r: "date_add_interval t INTERVAL_YEAR (i\<lparr>i_year := j\<rparr>) = (case add_years (i\<lparr>i_year := j\<rparr>) sg t of
      Ok t \<Rightarrow> if t_time_type t \<noteq> MYSQL_TIMESTAMP_TIME then Ok t else Refused
    | Refused \<Rightarrow> Refused | Undefined \<Rightarrow> Undefined)" for j
    using neg by (auto simp: date_add_interval_def sg_def is_time_unit_def)
  have same: "add_years (i\<lparr>i_year := i_year i + 4294967296\<rparr>) sg t = add_years i sg t"
  proof -
    have "wrap_long (i_year i) = i_year i" "wrap_long (i_year i + 4294967296) = i_year i + 4294967296"
      using w assms(3) by (simp_all add: wrap_long_id)
    moreover have "wrap_uint (t_year t + sg * (i_year i + 4294967296)) = wrap_uint (t_year t + sg * i_year i)"
    proof -
      have "t_year t + sg * (i_year i + 4294967296) = t_year t + sg * i_year i + sg * 4294967296"
        by (simp add: distrib_left)
      then show ?thesis unfolding wrap_uint_def by (simp only:) simp
    qed
    ultimately show ?thesis by (simp add: add_years_def)
  qed
  have yv: "t_year t + sg * wrap_long (i_year i) = y"
    using w assms(3,4) by (simp add: wrap_long_id sg_def)
  have day: "t_day t \<le> month_length y (t_month t) \<or>
      t_month t = 2 \<and> t_day t = 29 \<and> calc_days_in_year y \<noteq> 366"
    using b(5) by (auto simp: month_length_def days_in_month_def split: if_splits)
  have ml: "t_month t = 2 \<Longrightarrow> calc_days_in_year y \<noteq> 366 \<Longrightarrow> month_length y (t_month t) = 28"
    by (simp add: month_length_def days_in_month_def)
  have leap: "t_month t = 2 \<and> t_day t = 29 \<and> calc_days_in_year y \<noteq> 366 \<Longrightarrow>
      min (t_day t) (month_length y (t_month t)) = 28"
    using ml by simp
  have main: "if 0 \<le> y \<and> y < 10000 then add_years i sg t = Ok t' else add_years i sg t = Refused"
  proof (cases "0 \<le> y \<and> y < 10000")
    case True
    then have "wrap_uint y = y" by (simp add: wrap_uint_id)
    moreover have "t' = t\<lparr>t_year := y\<rparr>"
      if "\<not> (t_month t = 2 \<and> t_day t = 29 \<and> calc_days_in_year y \<noteq> 366)"
      using that day by (cases t) (auto simp: assms(5))
    ultimately show ?thesis using True leap
      by (cases "t_month t = 2 \<and> t_day t = 29 \<and> calc_days_in_year y \<noteq> 366")
        (auto simp: add_years_def yv Let_def assms(5))
  next
    case False
    have "- 2147483648 < y" "y < 2147500000" using b w assms(3,4) by (auto split: if_splits)
    then have "wrap_uint y \<ge> 10000" using False by (cases "0 \<le> y") (auto simp: wrap_uint_id wrap_uint_neg)
    then show ?thesis using False by (auto simp: add_years_def yv)
  qed
  have "valid_datetime t'" if "0 \<le> y" "y < 10000"
    using clip_valid [OF assms(1) that(1) _ b(3,4)] that(2) by (simp add: assms(5))
  moreover have "t_time_type t' = t_time_type t" by (simp add: assms(5))
  ultimately show ?thesis
    using main ty same r [of "i_year i"] r [of "i_year i + 4294967296"] by auto
qed

theorem date_add_interval_years_witness:
  "date_add_interval \<lparr>t_year = 2024, t_month = 2, t_day = 29, t_hour = 0, t_minute = 0, t_second = 0,
      t_second_part = 0, t_neg = False, t_time_type = MYSQL_TIMESTAMP_DATE\<rparr> INTERVAL_YEAR
      \<lparr>i_year = 1, i_month = 0, i_day = 0, i_hour = 0, i_minute = 0, i_second = 0,
        i_second_part = 0, i_neg = False\<rparr> =
    Ok \<lparr>t_year = 2025, t_month = 2, t_day = 28, t_hour = 0, t_minute = 0, t_second = 0,
      t_second_part = 0, t_neg = False, t_time_type = MYSQL_TIMESTAMP_DATE\<rparr>"
  using date_add_interval_years [of "\<lparr>t_year = 2024, t_month = 2, t_day = 29,
      t_hour = 0, t_minute = 0, t_second = 0,
      t_second_part = 0, t_neg = False, t_time_type = MYSQL_TIMESTAMP_DATE\<rparr>"
      "\<lparr>i_year = 1, i_month = 0, i_day = 0, i_hour = 0, i_minute = 0, i_second = 0,
        i_second_part = 0, i_neg = False\<rparr>" 2025]
  by (simp add: interval_wf_def valid_datetime_def valid_date_def month_length_def
      days_in_month_def TIME_MAX_SECOND_PART_def calc_days_in_year_def)

definition time_value :: "MYSQL_TIME \<Rightarrow> int" where
  "time_value t = (if t_time_type t = MYSQL_TIMESTAMP_TIME then time_usecs t else instant t)"

lemma calc_time_diff_value:
  assumes "t_time_type t1 = MYSQL_TIMESTAMP_TIME \<Longrightarrow> t_time_type t2 = MYSQL_TIMESTAMP_TIME"
    and "\<bar>time_value t1 - sg * time_value t2\<bar> < 9223372036854775808"
    and "v = \<bar>time_value t1 - sg * time_value t2\<bar>"
  shows "calc_time_diff t1 t2 sg =
    (time_value t1 < sg * time_value t2, v div 1000000, v mod 1000000)"
proof -
  define d where "d = time_value t1 - sg * time_value t2"
  define days where "days =
        (if t_time_type t1 = MYSQL_TIMESTAMP_TIME
         then t_day t1 - sg * t_day t2
         else calc_daynr (t_year t1) (t_month t1) (t_day t1) -
           (if t_time_type t2 = MYSQL_TIMESTAMP_TIME then sg * t_day t2
            else sg * calc_daynr (t_year t2) (t_month t2) (t_day t2)))"
  have e: "(days * SECONDS_IN_24H +
            (t_hour t1 * 3600 + t_minute t1 * 60 + t_second t1) -
            sg * (t_hour t2 * 3600 + t_minute t2 * 60 + t_second t2)) * 1000000 +
           t_second_part t1 - sg * t_second_part t2 = d"
    using assms(1) by (auto simp: d_def days_def time_value_def instant_def time_usecs_def COMBINE_def
        SECONDS_IN_24H_def algebra_simps)
  have w: "wrap_long d = d" using assms(2) by (intro wrap_long_id) (auto simp: d_def [symmetric])
  have "(if d < 0 then - d else d) = v" by (simp add: assms(3) d_def)
  then show ?thesis
    unfolding calc_time_diff_def days_def [symmetric] Let_def e w by (simp add: d_def)
qed

text \<open>
  C36: \<open>calc_time_diff\<close> gives the exact difference of two valid datetimes, as a sign, the whole
  seconds and the microseconds below one second.
\<close>

theorem calc_time_diff_exact:
  assumes "valid_datetime t1" and "valid_datetime t2" and "calc_time_diff t1 t2 1 = (neg, s, us)"
  shows "(if neg then - 1 else 1) * (s * 1000000 + us) = instant t1 - instant t2 \<and>
    (neg \<longleftrightarrow> instant t1 < instant t2) \<and> 0 \<le> s \<and> 0 \<le> us \<and> us < 1000000"
proof -
  have b: "0 \<le> instant t \<and> instant t < 400000000000000000" if "valid_datetime t" for t
    using COMBINE_less [of "t_hour t" "t_minute t" "t_second t" "t_second_part t"
        "calc_daynr (t_year t) (t_month t) (t_day t)"] that
      daynr_bounds [of "t_year t" "t_month t" "t_day t"]
    by (auto simp: instant_def valid_datetime_def usecs_per_day_def TIME_MAX_SECOND_PART_def
        MAX_DAY_NUMBER_def)
  have v: "time_value t1 = instant t1" "time_value t2 = instant t2"
    using assms(1,2) by (auto simp: time_value_def valid_datetime_def)
  define d where "d = \<bar>instant t1 - instant t2\<bar>"
  have "calc_time_diff t1 t2 1 = (instant t1 < instant t2, d div 1000000, d mod 1000000)"
    using calc_time_diff_value [of t1 t2 1 d] assms(1,2) b [OF assms(1)] b [OF assms(2)]
    by (auto simp: v d_def valid_datetime_def)
  then have e: "neg \<longleftrightarrow> instant t1 < instant t2" "s = d div 1000000" "us = d mod 1000000"
    using assms(3) by auto
  have "s * 1000000 + us = d" by (simp add: e)
  moreover have "0 \<le> s" by (simp add: e d_def pos_imp_zdiv_nonneg_iff)
  moreover have "0 \<le> us" "us < 1000000" by (simp_all add: e)
  ultimately show ?thesis using e(1) by (auto simp: d_def)
qed

theorem calc_time_diff_exact_witness:
  "calc_daynr 2024 3 1 * usecs_per_day - calc_daynr 2024 2 28 * usecs_per_day = 2 * usecs_per_day"
proof -
  define t where "t m d = \<lparr>t_year = 2024, t_month = m, t_day = d, t_hour = 0, t_minute = 0,
      t_second = 0, t_second_part = 0, t_neg = False, t_time_type = MYSQL_TIMESTAMP_DATE\<rparr>" for m d
  have i: "instant (t m d) = calc_daynr 2024 m d * usecs_per_day" for m d
    by (simp add: t_def instant_def COMBINE_def usecs_per_day_def)
  have "valid_datetime (t 3 1)" "valid_datetime (t 2 28)"
    by (simp_all add: t_def valid_datetime_def valid_date_def month_length_def days_in_month_def
        TIME_MAX_SECOND_PART_def)
  moreover have "calc_time_diff (t 3 1) (t 2 28) 1 = (False, 172800, 0)"
    by (simp add: calc_time_diff_def t_def calc_daynr_def wrap_int_def wrap_long_def cdiv_def
        SECONDS_IN_24H_def)
  ultimately show ?thesis
    using calc_time_diff_exact [of "t 3 1" "t 2 28" False 172800 0] by (simp add: i usecs_per_day_def)
qed

text \<open>
  C37: a TIME added to a DATE by \<open>mix_date_and_time\<close>, on the fast path for a time of day and on the
  slow path for a negative time or one of 24 hours and more, gives the valid datetime that lies
  the signed length of the time after the start of that date, as long as it falls into the years
  1 to 9999.
\<close>

theorem mix_date_and_time_exact:
  assumes "valid_datetime ldate" and "t_hour ldate = 0" and "t_minute ldate = 0"
    and "t_second ldate = 0" and "t_second_part ldate = 0"
    and "t_time_type ltime = MYSQL_TIMESTAMP_TIME" and "time_wf ltime"
    and "\<not> check_datetime_range ltime" and "t_day ltime = 0"
    and "n = instant ldate + (if t_neg ltime then - 1 else 1) * time_usecs ltime"
    and "366 * usecs_per_day \<le> n" and "n < (MAX_DAY_NUMBER + 1) * usecs_per_day"
  shows "\<exists>t. mix_date_and_time ldate ltime = Ok t \<and> valid_datetime t \<and> instant t = n"
proof (cases "\<not> t_neg ltime \<and> t_hour ltime < 24")
  case True
  have "valid_datetime (mix_date_and_time_simple ldate ltime)"
    using assms(1,6-8) True
    by (auto simp: valid_datetime_def mix_date_and_time_simple_def time_wf_def check_datetime_range_def)
  moreover have "instant (mix_date_and_time_simple ldate ltime) = n"
    using True assms(2-5,9,10) by (simp add: instant_def mix_date_and_time_simple_def time_usecs_def COMBINE_def)
  ultimately show ?thesis using True by (simp add: mix_date_and_time_def)
next
  case False
  define sg :: int where "sg = (if t_neg ltime then 1 else - 1)"
  have ty: "t_time_type ldate \<noteq> MYSQL_TIMESTAMP_TIME" using assms(1) by (auto simp: valid_datetime_def)
  have n: "0 \<le> n" "n < 400000000000000000"
    using assms(11,12) by (simp_all add: usecs_per_day_def MAX_DAY_NUMBER_def)
  have v: "time_value ldate - sg * time_value ltime = n"
    using ty assms(6,10) by (simp add: time_value_def sg_def)
  have "calc_time_diff ldate ltime sg =
      (time_value ldate < sg * time_value ltime, n div 1000000, n mod 1000000)"
    by (rule calc_time_diff_value) (use ty n v in auto)
  moreover have "\<not> time_value ldate < sg * time_value ltime" using v n(1) by linarith
  ultimately have d: "calc_time_diff ldate ltime sg = (False, n div 1000000, n mod 1000000)" by simp
  define days where "days = n div 1000000 div SECONDS_IN_24H"
  define r where "r = n div 1000000 mod SECONDS_IN_24H"
  define p where "p = n mod 1000000"
  have np: "(days * 86400 + r) * 1000000 + p = n"
    unfolding days_def r_def p_def SECONDS_IN_24H_def by (simp only: div_mult_mod_eq)
  have "days = n div usecs_per_day"
    unfolding days_def SECONDS_IN_24H_def usecs_per_day_def
    by (simp only: zdiv_zmult2_eq [symmetric] zero_le_numeral) simp
  moreover have "0 < usecs_per_day" by (simp add: usecs_per_day_def)
  ultimately have "366 \<le> days" "\<not> MAX_DAY_NUMBER + 1 \<le> days"
    using assms(11,12) by (simp_all only: le_div_iff not_le)
  then have "366 \<le> days" "days \<le> 3652424" by (simp_all add: MAX_DAY_NUMBER_def)
  then obtain y m dd where g: "get_date_from_daynr days = Ok (y, m, dd)" "valid_date y m dd"
      "calc_daynr y m dd = days"
    using get_date_from_daynr_ok by blast
  have r: "0 \<le> r" "r < 86400" by (simp_all add: r_def SECONDS_IN_24H_def)
  have p: "0 \<le> p" "p < 1000000" by (simp_all add: p_def)
  define q where "q = r mod 3600"
  define h mi sc where "h = r div 3600" and "mi = q div 60" and "sc = q mod 60"
  have e: "h * 3600 + q = r" "mi * 60 + sc = q"
    unfolding h_def mi_def sc_def q_def by (simp_all only: div_mult_mod_eq)
  have "0 \<le> q" "q < 3600" "0 \<le> sc" "sc < 60" by (simp_all add: q_def sc_def)
  then have b: "0 \<le> h" "h < 24" "0 \<le> mi" "mi < 60" "0 \<le> sc" "sc < 60" using e r by linarith+
  have w: "wrap_uint h = h" using b by (simp add: wrap_uint_id)
  have "mix_date_and_time_complex ldate ltime = Ok (ldate\<lparr>t_year := y, t_month := m, t_day := dd,
      t_hour := h, t_minute := mi, t_second := sc, t_second_part := p, t_neg := False,
      t_time_type := MYSQL_TIMESTAMP_DATETIME\<rparr>)" (is "_ = Ok ?t")
    unfolding mix_date_and_time_complex_def Let_def sg_def [symmetric] d prod.case
      days_def [symmetric] g(1) outcome.case calc_time_from_sec_def r_def [symmetric]
      q_def [symmetric] h_def [symmetric] w mi_def [symmetric] sc_def [symmetric] p_def [symmetric]
    by simp
  moreover have "instant ?t = n"
    using np e by (simp add: instant_def g(3) COMBINE_def)
  moreover have "valid_datetime ?t"
    using g(2) b p by (simp add: valid_datetime_def TIME_MAX_SECOND_PART_def)
  ultimately show ?thesis
    using False by (intro exI [of _ ?t]) (simp only: mix_date_and_time_def if_False simp_thms)
qed

theorem mix_date_and_time_exact_witness:
  "\<exists>t. mix_date_and_time \<lparr>t_year = 2024, t_month = 3, t_day = 1, t_hour = 0, t_minute = 0,
      t_second = 0, t_second_part = 0, t_neg = False, t_time_type = MYSQL_TIMESTAMP_DATE\<rparr>
      \<lparr>t_year = 0, t_month = 0, t_day = 0, t_hour = 0, t_minute = 0, t_second = 1,
       t_second_part = 0, t_neg = True, t_time_type = MYSQL_TIMESTAMP_TIME\<rparr> = Ok t \<and>
    valid_datetime t \<and> instant t = calc_daynr 2024 3 1 * usecs_per_day - 1000000"
proof -
  define a where "a = \<lparr>t_year = 2024, t_month = 3, t_day = 1, t_hour = 0, t_minute = 0,
      t_second = 0, t_second_part = 0, t_neg = False, t_time_type = MYSQL_TIMESTAMP_DATE\<rparr>"
  define b where "b = \<lparr>t_year = 0, t_month = 0, t_day = 0, t_hour = 0, t_minute = 0, t_second = 1,
       t_second_part = 0, t_neg = True, t_time_type = MYSQL_TIMESTAMP_TIME\<rparr>"
  have c: "calc_daynr 2024 3 1 = 739311" by (simp add: calc_daynr_def wrap_int_def cdiv_def)
  have va: "valid_datetime a"
    by (simp add: a_def valid_datetime_def valid_date_def month_length_def days_in_month_def
        TIME_MAX_SECOND_PART_def)
  have vb: "time_wf b" "\<not> check_datetime_range b"
    by (simp_all add: b_def time_wf_def check_datetime_range_def TIME_MAX_SECOND_PART_def
        TIME_MAX_HOUR_def)
  have i: "instant a + (if t_neg b then - 1 else 1) * time_usecs b =
      calc_daynr 2024 3 1 * usecs_per_day - 1000000"
    by (simp add: a_def b_def instant_def COMBINE_def usecs_per_day_def time_usecs_def)
  show ?thesis
    using mix_date_and_time_exact [OF va _ _ _ _ _ vb _ i [symmetric]]
    unfolding a_def [symmetric] b_def [symmetric]
    by (simp add: a_def b_def c usecs_per_day_def MAX_DAY_NUMBER_def)
qed

section \<open>Weeks\<close>

text \<open>The Monday that begins week 1 of a year after ISO 8601, the week with the fourth of January.\<close>

definition iso_week_one :: "int \<Rightarrow> int" where
  "iso_week_one y = (let f = year_start y + 1; w = (f + 5) mod 7 in if w < 4 then f - w else f + 7 - w)"

lemma weekday_cases:
  fixes w :: int
  assumes "0 \<le> w" "w < 7"
  obtains "w = 0" | "w = 1" | "w = 2" | "w = 3" | "w = 4" | "w = 5" | "w = 6"
proof -
  have "w = 0 \<or> w = 1 \<or> w = 2 \<or> w = 3 \<or> w = 4 \<or> w = 5 \<or> w = 6" using assms by presburger
  then show thesis using that by blast
qed

lemma iso_week_one_eq:
  assumes "w = (year_start y + 6) mod 7"
  shows "iso_week_one y = year_start y + (if w < 4 then 1 - w else 8 - w)"
proof -
  have "(year_start y + 1 + 5) mod 7 = w" by (simp add: assms add.commute)
  then show ?thesis unfolding iso_week_one_def Let_def by simp
qed

lemma iso_week_one_step:
  assumes "0 \<le> y" and "w = (year_start y + 6) mod 7"
  shows "(year_start (y + 1) + 6) mod 7 = (w + calc_days_in_year y) mod 7"
  using assms(2) year_start_step [OF assms(1)]
  by (simp add: mod_simps add.commute add.left_commute)

lemma week_offset_step:
  fixes w D :: int
  assumes "0 \<le> w" "w < 7" "D = 365 \<or> D = 366" and "w' = (w + D) mod 7"
  defines "o0 \<equiv> (if w < 4 then 1 - w else 8 - w)" and "o1 \<equiv> (if w' < 4 then 1 - w' else 8 - w')"
  shows "o0 + 364 \<le> D + o1 \<and> D + o1 \<le> o0 + 371 \<and> (w' < 4 \<longrightarrow> D + o1 = o0 + 364)"
  using assms(1,2) unfolding o0_def o1_def assms(4)
  by (cases w rule: weekday_cases; use assms(3) in \<open>elim disjE; simp\<close>)

lemma iso_year_length:
  assumes "0 \<le> y"
  shows "iso_week_one y + 364 \<le> iso_week_one (y + 1) \<and> iso_week_one (y + 1) \<le> iso_week_one y + 371 \<and>
    ((year_start (y + 1) + 6) mod 7 < 4 \<longrightarrow> iso_week_one (y + 1) = iso_week_one y + 364)"
proof -
  define w w' where "w = (year_start y + 6) mod 7" and "w' = (year_start (y + 1) + 6) mod 7"
  define o0 o1 where "o0 = (if w < 4 then 1 - w else 8 - w)" and "o1 = (if w' < 4 then 1 - w' else 8 - w')"
  have "0 \<le> w" "w < 7" by (simp_all add: w_def)
  moreover have "w' = (w + calc_days_in_year y) mod 7"
    unfolding w'_def by (rule iso_week_one_step [OF assms w_def])
  ultimately have "o0 + 364 \<le> calc_days_in_year y + o1 \<and> calc_days_in_year y + o1 \<le> o0 + 371 \<and>
      (w' < 4 \<longrightarrow> calc_days_in_year y + o1 = o0 + 364)"
    unfolding o0_def o1_def by (intro week_offset_step calc_days_in_year_cases)
  moreover have "iso_week_one y = year_start y + o0" "iso_week_one (y + 1) = year_start (y + 1) + o1"
    unfolding o0_def o1_def by (rule iso_week_one_eq [OF w_def], rule iso_week_one_eq [OF w'_def])
  ultimately show ?thesis
    using year_start_step [OF assms] unfolding w'_def [symmetric] by linarith
qed

lemma first_of_year: "0 \<le> y \<Longrightarrow> y \<le> 9999 \<Longrightarrow> calc_daynr y 1 1 = year_start y + 1"
  by (simp add: calc_daynr_early)

lemma year_start_bounds: "0 \<le> y \<Longrightarrow> y \<le> 10000 \<Longrightarrow> 0 \<le> year_start y \<and> year_start y \<le> 3652424"
  using year_start_mono [of 0 y] year_start_mono [of y 10000] year_start_10000
  by (simp add: year_start_def [of 0])

text \<open>The arithmetic of \<open>calc_week\<close> for a given year, with the first day and its weekday known.\<close>

lemma week_days:
  assumes "0 \<le> y" "y \<le> 9999" "w = (year_start y + 6) mod 7" "iso_week_one y \<le> N" "N \<le> 3652424"
  shows "(if w \<ge> 4 then wrap_uint (N - (year_start y + 1 + (7 - w)))
      else wrap_uint (N - (year_start y + 1 - w))) = N - iso_week_one y"
proof -
  have w: "0 \<le> w" "w < 7" using assms(3) by simp_all
  have "N - iso_week_one y = (if w \<ge> 4 then N - (year_start y + 1 + (7 - w)) else N - (year_start y + 1 - w))"
    by (simp add: iso_week_one_eq [OF assms(3)])
  moreover have "wrap_uint (N - iso_week_one y) = N - iso_week_one y"
    using assms w year_start_bounds [of y] by (intro wrap_uint_id) (auto simp: iso_week_one_eq [OF assms(3)])
  ultimately show ?thesis by auto
qed

lemma iso_week_one_bounds:
  "year_start y - 2 \<le> iso_week_one y \<and> iso_week_one y \<le> year_start y + 4 \<and>
   iso_week_one y \<le> year_start y + 8 - (year_start y + 6) mod 7"
proof -
  define w where "w = (year_start y + 6) mod 7"
  have "0 \<le> w" "w < 7" by (simp_all add: w_def)
  then show ?thesis using iso_week_one_eq [OF w_def] unfolding w_def [symmetric] by auto
qed

lemma after_first_week:
  assumes "valid_date y m d" "\<not> (m = 1 \<and> d \<le> 7 - (year_start y + 6) mod 7)"
  shows "iso_week_one y \<le> calc_daynr y m d"
proof (cases "m = 1")
  case True
  then have "calc_daynr y m d = year_start y + d"
    using valid_date_bounds [OF assms(1)] by (simp add: calc_daynr_eq)
  then show ?thesis using True assms(2) iso_week_one_bounds [of y] by simp
next
  case False
  note b = valid_date_bounds [OF assms(1)]
  have k: "1 \<le> nat (m - 1)" "nat (m - 1) \<le> 12" using False b by linarith+
  have "days_before y 1 = 31" by (simp add: month_length_def days_in_month_def)
  then have "31 \<le> days_before y (nat (m - 1))" using days_before_mono [OF k, of y] by simp
  then have "year_start y + 32 \<le> calc_daynr y m d" using b by (simp add: calc_daynr_eq)
  then show ?thesis using iso_week_one_bounds [of y] by simp
qed

lemma calc_week_iso_unfold:
  assumes v: "valid_date y m d" and y: "1 \<le> y" and t: "t_year t = y" "t_month t = m" "t_day t = d"
  defines "w \<equiv> (year_start y + 6) mod 7" and "N \<equiv> calc_daynr y m d"
  shows "calc_week t 3 =
    (if m = 1 \<and> d \<le> 7 - w
     then if N - iso_week_one (y - 1) \<ge> 364 \<and> w < 4 then (1, y)
       else ((N - iso_week_one (y - 1)) div 7 + 1, y - 1)
     else if N - iso_week_one y \<ge> 364 \<and> (year_start (y + 1) + 6) mod 7 < 4 then (1, y + 1)
       else ((N - iso_week_one y) div 7 + 1, y))"
proof -
  note b = valid_date_bounds [OF v]
  have N: "1 \<le> N" "N \<le> 3652424" using daynr_bounds [OF v] by (simp_all add: N_def MAX_DAY_NUMBER_def)
  have S: "0 \<le> year_start y" "year_start y \<le> 3652424" using year_start_bounds [of y] b by simp_all
  have w: "0 \<le> w" "w < 7" by (simp_all add: w_def)
  define S0 D0 w0 where "S0 = year_start (y - 1)" and "D0 = calc_days_in_year (y - 1)"
    and "w0 = (S0 + 6) mod 7"
  have S0: "year_start y = S0 + D0" using year_start_step [of "y - 1"] y by (simp add: S0_def D0_def)
  have D0: "D0 = 365 \<or> D0 = 366" unfolding D0_def by (rule calc_days_in_year_cases)
  have S0b: "0 \<le> S0" using year_start_bounds [of "y - 1"] y b by (simp add: S0_def)
  have first: "wrap_ulong (calc_daynr y 1 1) = year_start y + 1" "wrap_long (year_start y + 1) = year_start y + 1"
    using first_of_year b S by (simp_all add: wrap_ulong_id wrap_long_id)
  have wd: "wrap_uint (calc_weekday (year_start y + 1) False) = w"
    using S w by (simp add: calc_weekday_def cmod_nonneg w_def wrap_int_id wrap_uint_id add.commute)
  have w0: "wrap_uint (w + 53 * 7 - D0) mod 7 = w0"
  proof -
    have "wrap_uint (w + 53 * 7 - D0) = w + 53 * 7 - D0" using w D0 by (intro wrap_uint_id) auto
    moreover have "(w + 53 * 7 - D0) mod 7 = (S0 + 6) mod 7"
    proof -
      have "(w + 53 * 7 - D0) mod 7 = ((year_start y + 6) mod 7 + (53 * 7 - D0)) mod 7"
        by (simp add: w_def add_diff_eq)
      also have "\<dots> = (year_start y + 6 + (53 * 7 - D0)) mod 7" by (rule mod_add_left_eq)
      also have "year_start y + 6 + (53 * 7 - D0) = S0 + 6 + 53 * 7" by (simp add: S0)
      finally show ?thesis by (simp only: mod_mult_self1)
    qed
    ultimately show ?thesis by (simp only: w0_def)
  qed
  have w0w: "wrap_uint (w0 + D0) mod 7 = w"
  proof -
    have "0 \<le> w0" "w0 < 7" by (simp_all add: w0_def)
    then have "wrap_uint (w0 + D0) = w0 + D0" using D0 by (intro wrap_uint_id) auto
    then show ?thesis by (simp add: w0_def w_def S0 mod_simps ac_simps)
  qed
  have w1: "wrap_uint (w + calc_days_in_year y) mod 7 = (year_start (y + 1) + 6) mod 7"
    using iso_week_one_step [of y w] y w calc_days_in_year_cases [of y]
    by (subst wrap_uint_id) (auto simp: w_def)
  have gt: "year_start y < N" using day_in_year [OF v] by (simp add: N_def)
  have n: "wrap_ulong (calc_daynr y m d) = N" using N by (simp add: N_def [symmetric] wrap_ulong_id)
  have y0: "wrap_uint (y - 1) = y - 1" "wrap_uint (y + 1) = y + 1" "wrap_uint (y - 1 + 1) = y"
    using b y by (simp_all add: wrap_uint_id)
  have f0: "wrap_ulong (year_start y + 1 - D0) = S0 + 1" using S0 S0b S D0 by (auto intro: wrap_ulong_id)
  have d7: "wrap_uint (7 - w) = 7 - w" using w by (simp add: wrap_uint_id)
  have jan: "(if w0 \<ge> 4 then wrap_uint (N - (S0 + 1 + (7 - w0))) else wrap_uint (N - (S0 + 1 - w0))) =
      N - iso_week_one (y - 1)"
    unfolding S0_def using iso_week_one_bounds [of "y - 1"] y b N gt S0 D0
    by (intro week_days) (auto simp: w0_def S0_def)
  have rest: "(if w \<ge> 4 then wrap_uint (N - (year_start y + 1 + (7 - w)))
      else wrap_uint (N - (year_start y + 1 - w))) = N - iso_week_one y" if "\<not> (m = 1 \<and> d \<le> 7 - w)"
  proof -
    have "iso_week_one y \<le> N" unfolding N_def by (rule after_first_week [OF v that [unfolded w_def]])
    then show ?thesis using b N y by (intro week_days) (auto simp: w_def)
  qed
  have c52: "(52 :: int) * 7 = 364" by simp
  have bits: "((3 :: int) AND WEEK_MONDAY_FIRST \<noteq> 0) = True" "((3 :: int) AND WEEK_YEAR \<noteq> 0) = True"
      "((3 :: int) AND WEEK_FIRST_WEEKDAY \<noteq> 0) = False"
    by (simp_all add: WEEK_MONDAY_FIRST_def WEEK_YEAR_def WEEK_FIRST_WEEKDAY_def)
  show ?thesis
  proof (cases "m = 1 \<and> d \<le> 7 - w")
    case True
    show ?thesis
      by (simp only: calc_week_def Let_def t n bits first wd d7 simp_thms True [THEN eqTrueI]
          if_True if_False prod.case y0 D0_def [symmetric] f0 w0 jan w0w c52)
  next
    case False
    show ?thesis
      by (simp only: calc_week_def Let_def t n bits first wd d7 simp_thms False
          if_True if_False prod.case y0 rest [OF False] w1 c52)
  qed
qed

text \<open>
  C38: with weeks that begin on Monday and belong to a year (mode 3), \<open>calc_week\<close> numbers the weeks
  after ISO 8601: the date lies in the year that is returned, counted from the Monday of the week
  that contains the fourth of January up to the same Monday of the next year, and in the
  returned week of it, which is between 1 and 53.
\<close>

theorem calc_week_iso8601:
  assumes "valid_date (t_year t) (t_month t) (t_day t)" and "1 \<le> t_year t"
    and "calc_week t 3 = (week, year)" and "n = calc_daynr (t_year t) (t_month t) (t_day t)"
  shows "iso_week_one year + 7 * (week - 1) \<le> n \<and> n < iso_week_one year + 7 * week \<and>
    iso_week_one year \<le> n \<and> n < iso_week_one (year + 1) \<and> 1 \<le> week \<and> week \<le> 53"
proof -
  define y w where "y = t_year t" and "w = (year_start y + 6) mod 7"
  have u: "calc_week t 3 =
      (if t_month t = 1 \<and> t_day t \<le> 7 - w
       then if n - iso_week_one (y - 1) \<ge> 364 \<and> w < 4 then (1, y)
         else ((n - iso_week_one (y - 1)) div 7 + 1, y - 1)
       else if n - iso_week_one y \<ge> 364 \<and> (year_start (y + 1) + 6) mod 7 < 4 then (1, y + 1)
         else ((n - iso_week_one y) div 7 + 1, y))"
    unfolding y_def w_def assms(4) by (rule calc_week_iso_unfold [OF assms(1,2) refl refl refl])
  have y: "1 \<le> y" using assms(2) by (simp add: y_def)
  have l0: "iso_week_one (y - 1) + 364 \<le> iso_week_one y \<and> iso_week_one y \<le> iso_week_one (y - 1) + 371 \<and>
      (w < 4 \<longrightarrow> iso_week_one y = iso_week_one (y - 1) + 364)"
    using iso_year_length [of "y - 1"] y by (simp add: w_def)
  have l1: "iso_week_one y + 364 \<le> iso_week_one (y + 1) \<and> iso_week_one (y + 1) \<le> iso_week_one y + 371 \<and>
      ((year_start (y + 1) + 6) mod 7 < 4 \<longrightarrow> iso_week_one (y + 1) = iso_week_one y + 364)"
    using iso_year_length [of y] y by simp
  have l2: "iso_week_one (y + 1) + 364 \<le> iso_week_one (y + 1 + 1)"
    using iso_year_length [of "y + 1"] y by simp
  have b: "year_start y < n" "n \<le> year_start (y + 1)"
    using day_in_year [OF assms(1)] by (simp_all add: y_def assms(4))
  have in_week: "W + 7 * ((n - W) div 7 + 1 - 1) \<le> n \<and> n < W + 7 * ((n - W) div 7 + 1) \<and>
      1 \<le> (n - W) div 7 + 1 \<and> (n - W) div 7 + 1 \<le> 53"
    if "W \<le> n" "n < W'" "W' \<le> W + 371" for W W'
  proof -
    define q where "q = (n - W) div 7"
    have "q * 7 \<le> n - W" "n - W < q * 7 + 7"
      using div_mult_mod_eq [of "n - W" 7] pos_mod_sign [of 7 "n - W"] pos_mod_bound [of 7 "n - W"]
      unfolding q_def by linarith+
    then show ?thesis using that unfolding q_def [symmetric] by auto
  qed
  show ?thesis
  proof (cases "t_month t = 1 \<and> t_day t \<le> 7 - w")
    case True
    have n: "n = year_start y + t_day t" "1 \<le> t_day t"
      using True valid_date_bounds [OF assms(1)] by (simp_all add: assms(4) y_def calc_daynr_eq)
    have W: "iso_week_one y = year_start y + (if w < 4 then 1 - w else 8 - w)"
      by (rule iso_week_one_eq [OF w_def])
    show ?thesis
    proof (cases "w < 4")
      case lt: True
      have "364 \<le> n - iso_week_one (y - 1)" using lt n W l0 w_def pos_mod_sign [of 7 "year_start y + 6"] by auto
      then have "week = 1" "year = y" using u True lt assms(3) by auto
      then show ?thesis using lt n W True l1 w_def pos_mod_sign [of 7 "year_start y + 6"] by auto
    next
      case ge: False
      have "n < iso_week_one y" using ge n W True by auto
      moreover have "iso_week_one (y - 1) \<le> n" using n W l0 ge True w_def pos_mod_bound [of 7 "year_start y + 6"] by auto
      moreover have "week = (n - iso_week_one (y - 1)) div 7 + 1" "year = y - 1"
        using u True ge assms(3) by auto
      ultimately show ?thesis using in_week [of "iso_week_one (y - 1)" "iso_week_one y"] l0 by auto
    qed
  next
    case False
    define w1 where "w1 = (year_start (y + 1) + 6) mod 7"
    have ge: "iso_week_one y \<le> n"
      using after_first_week [OF assms(1)] False by (simp add: assms(4) y_def w_def)
    have W1: "iso_week_one (y + 1) = year_start (y + 1) + (if w1 < 4 then 1 - w1 else 8 - w1)"
      by (rule iso_week_one_eq [OF w1_def])
    have w1: "0 \<le> w1" "w1 < 7" by (simp_all add: w1_def)
    show ?thesis
    proof (cases "n - iso_week_one y \<ge> 364 \<and> w1 < 4")
      case True
      then have "week = 1" "year = y + 1" using u False assms(3) by (auto simp: w1_def)
      then show ?thesis using True l1 l2 W1 w1 b by (auto simp: w1_def [symmetric])
    next
      case small: False
      then have "week = (n - iso_week_one y) div 7 + 1" "year = y"
        using u False assms(3) by (auto simp: w1_def)
      moreover have "n < iso_week_one (y + 1)"
        using small l1 W1 w1 b by (cases "w1 < 4") auto
      ultimately show ?thesis using in_week [OF ge, of "iso_week_one (y + 1)"] l1 ge by auto
    qed
  qed
qed

theorem calc_week_iso8601_witness:
  "iso_week_one 2025 \<le> calc_daynr 2024 12 31 \<and> calc_daynr 2024 12 31 < iso_week_one 2025 + 7"
proof -
  define t where "t = \<lparr>t_year = 2024, t_month = 12, t_day = 31, t_hour = 0, t_minute = 0,
      t_second = 0, t_second_part = 0, t_neg = False, t_time_type = MYSQL_TIMESTAMP_DATE\<rparr>"
  have "valid_date 2024 12 31"
    by (simp add: valid_date_def month_length_def days_in_month_def)
  from calc_week_iso_unfold [OF this, of t] have "calc_week t 3 = (1, 2025)"
    by (simp add: t_def calc_daynr_late iso_week_one_def year_start_def leap_by_hundreds)
  then show ?thesis
    using calc_week_iso8601 [of t 1 2025 "calc_daynr 2024 12 31"]
    by (simp add: t_def valid_date_def month_length_def days_in_month_def)
qed

end
