(* ===== verification/CType.thy ===== *)
theory CType
  imports CInt
begin

text \<open>
  Character classes of the latin1 character set: the table of \<^verbatim>\<open>strings/ctype-latin1.c\<close> and the
  tests of \<^verbatim>\<open>include/m_ctype.h\<close>.  Text is a list of characters; a pair of pointers to the
  next character and to the end of a buffer is the list of the characters between them.
\<close>

definition ctype_latin1 :: "int list" where
  "ctype_latin1 =
    [0,
     32, 32, 32, 32, 32, 32, 32, 32, 32, 40, 40, 40, 40, 40, 32, 32,
     32, 32, 32, 32, 32, 32, 32, 32, 32, 32, 32, 32, 32, 32, 32, 32,
     72, 16, 16, 16, 16, 16, 16, 16, 16, 16, 16, 16, 16, 16, 16, 16,
     132, 132, 132, 132, 132, 132, 132, 132, 132, 132, 16, 16, 16, 16, 16, 16,
     16, 129, 129, 129, 129, 129, 129, 1, 1, 1, 1, 1, 1, 1, 1, 1,
     1, 1, 1, 1, 1, 1, 1, 1, 1, 1, 1, 16, 16, 16, 16, 16,
     16, 130, 130, 130, 130, 130, 130, 2, 2, 2, 2, 2, 2, 2, 2, 2,
     2, 2, 2, 2, 2, 2, 2, 2, 2, 2, 2, 16, 16, 16, 16, 32,
     16, 0, 16, 2, 16, 16, 16, 16, 16, 16, 1, 16, 1, 0, 1, 0,
     0, 16, 16, 16, 16, 16, 16, 16, 16, 16, 2, 16, 2, 0, 2, 1,
     72, 16, 16, 16, 16, 16, 16, 16, 16, 16, 16, 16, 16, 16, 16, 16,
     16, 16, 16, 16, 16, 16, 16, 16, 16, 16, 16, 16, 16, 16, 16, 16,
     1, 1, 1, 1, 1, 1, 1, 1, 1, 1, 1, 1, 1, 1, 1, 1,
     1, 1, 1, 1, 1, 1, 1, 16, 1, 1, 1, 1, 1, 1, 1, 2,
     2, 2, 2, 2, 2, 2, 2, 2, 2, 2, 2, 2, 2, 2, 2, 2,
     2, 2, 2, 2, 2, 2, 2, 16, 2, 2, 2, 2, 2, 2, 2, 2]"

definition MY_NMR :: int where "MY_NMR = 4"
definition MY_SPC :: int where "MY_SPC = 8"
definition MY_PNT :: int where "MY_PNT = 16"

definition my_isdigit :: "char \<Rightarrow> bool" where
  "my_isdigit c \<longleftrightarrow> ctype_latin1 ! (of_char c + 1) AND MY_NMR \<noteq> 0"

definition my_isspace :: "char \<Rightarrow> bool" where
  "my_isspace c \<longleftrightarrow> ctype_latin1 ! (of_char c + 1) AND MY_SPC \<noteq> 0"

definition my_ispunct :: "char \<Rightarrow> bool" where
  "my_ispunct c \<longleftrightarrow> ctype_latin1 ! (of_char c + 1) AND MY_PNT \<noteq> 0"

section \<open>What the table says\<close>

lemma ctype_entry:
  assumes "map (\<lambda>x. x AND m \<noteq> 0) (tl ctype_latin1) = map p [0..<256]" and "n < 256"
  shows "(ctype_latin1 ! (n + 1) AND m \<noteq> 0) = p n"
proof -
  have "ctype_latin1 ! (n + 1) = tl ctype_latin1 ! n" by (simp add: ctype_latin1_def)
  moreover have "map (\<lambda>x. x AND m \<noteq> 0) (tl ctype_latin1) ! n = map p [0..<256] ! n"
    by (simp only: assms(1))
  moreover have "length (tl ctype_latin1) = 256" by (simp add: ctype_latin1_def)
  ultimately show ?thesis using assms(2) by simp
qed

lemma my_isdigit_nat: "my_isdigit c \<longleftrightarrow> 48 \<le> (of_char c :: nat) \<and> (of_char c :: nat) \<le> 57"
  unfolding my_isdigit_def
  by (rule ctype_entry [where p = "\<lambda>n. 48 \<le> n \<and> n \<le> 57"], code_simp, rule nat_of_char_less_256)

lemma my_isspace_nat:
  "my_isspace c \<longleftrightarrow> (9 \<le> (of_char c :: nat) \<and> (of_char c :: nat) \<le> 13) \<or> (of_char c :: nat) = 32 \<or>
    (of_char c :: nat) = 160"
  unfolding my_isspace_def
  by (rule ctype_entry [where p = "\<lambda>n. (9 \<le> n \<and> n \<le> 13) \<or> n = 32 \<or> n = 160"], code_simp,
      rule nat_of_char_less_256)

definition latin1_punct :: "nat \<Rightarrow> bool" where
  "latin1_punct n \<longleftrightarrow> (33 \<le> n \<and> n \<le> 47) \<or> (58 \<le> n \<and> n \<le> 64) \<or> (91 \<le> n \<and> n \<le> 96) \<or> (123 \<le> n \<and> n \<le> 126) \<or>
     n = 128 \<or> n = 130 \<or> (132 \<le> n \<and> n \<le> 137) \<or> n = 139 \<or>
     (145 \<le> n \<and> n \<le> 153) \<or> n = 155 \<or> (161 \<le> n \<and> n \<le> 191) \<or> n = 215 \<or>
     n = 247"

lemma my_ispunct_nat: "my_ispunct c \<longleftrightarrow> latin1_punct (of_char c)"
  unfolding my_ispunct_def
  by (rule ctype_entry [where p = latin1_punct], code_simp, rule nat_of_char_less_256)

lemma digit_not_punct: "my_isdigit c \<Longrightarrow> \<not> my_ispunct c \<and> \<not> my_isspace c"
  by (auto simp: my_isdigit_nat my_ispunct_nat my_isspace_nat latin1_punct_def)

section \<open>Digits\<close>

text \<open>The value \<open>c - '0'\<close> of a digit, and the digit of a value.\<close>

definition digit_val :: "char \<Rightarrow> int" where
  "digit_val c = of_char c - 48"

definition digit_char :: "int \<Rightarrow> char" where
  "digit_char d = char_of (48 + d)"

lemma my_isdigit_iff: "my_isdigit c \<longleftrightarrow> 0 \<le> digit_val c \<and> digit_val c \<le> 9"
proof -
  have "(of_char c :: int) = int (of_char c)" by (simp add: of_nat_of_char)
  then show ?thesis by (simp only: my_isdigit_nat digit_val_def) linarith
qed

lemma digit_val_digit_char [simp]: "0 \<le> d \<Longrightarrow> d \<le> 9 \<Longrightarrow> digit_val (digit_char d) = d"
  by (simp add: digit_val_def digit_char_def)

lemma my_isdigit_digit_char [simp]: "0 \<le> d \<Longrightarrow> d \<le> 9 \<Longrightarrow> my_isdigit (digit_char d)"
  by (simp add: my_isdigit_iff)

lemma digit_char_digit_val: "my_isdigit c \<Longrightarrow> digit_char (digit_val c) = c"
  by (simp add: digit_val_def digit_char_def)

end
