(* ===== verification/IntStr.thy ===== *)
theory IntStr
  imports CType
begin

text \<open>
  Integers and their text: \<open>int2str\<close> and \<open>int10_to_str\<close> of \<^verbatim>\<open>strings/int2str.c\<close> and \<open>my_strtoll10\<close>
  of \<^verbatim>\<open>strings/my_strtoll10.c\<close>.  What a function writes to its destination is the returned text,
  without the final NUL.  \<open>long\<close> has 64 bits.
\<close>

section \<open>Printing\<close>

definition dig_vec_upper :: string where
  "dig_vec_upper = ''0123456789ABCDEFGHIJKLMNOPQRSTUVWXYZ''"

definition dig_vec_lower :: string where
  "dig_vec_lower = ''0123456789abcdefghijklmnopqrstuvwxyz''"

text \<open>The loop over the remaining value; \<open>p\<close> is the text that is already in the buffer.\<close>

function digit_loop :: "string \<Rightarrow> int \<Rightarrow> int \<Rightarrow> string \<Rightarrow> string" where
  "digit_loop dig_vec radix val p =
     (if val \<noteq> 0 \<and> 2 \<le> radix then
        let new_val = cdiv val radix
        in digit_loop dig_vec radix new_val (dig_vec ! nat ((val - new_val * radix) mod 256) # p)
      else p)"
  by pat_completeness auto
termination
proof (relation "measure (\<lambda>(v, r, n, p). nat \<bar>n\<bar>)")
  fix v :: string and r n x :: int and p :: string
  assume "n \<noteq> 0 \<and> 2 \<le> r" "x = cdiv n r"
  moreover have "\<bar>cdiv n r\<bar> = \<bar>n\<bar> div r" if "2 \<le> r" for n r
    using that by (auto simp: cdiv_def abs_mult pos_imp_zdiv_nonneg_iff sgn_if)
  moreover have "\<bar>n\<bar> div r < \<bar>n\<bar>" if "n \<noteq> 0" "2 \<le> r" for n r :: int
    using that by (intro int_div_less_self) auto
  ultimately show "((v, r, x, v ! nat ((n - x * r) mod 256) # p), v, r, n, p) \<in>
      measure (\<lambda>(v, r, n, p). nat \<bar>n\<bar>)" by simp
qed simp

declare digit_loop.simps [simp del]

text \<open>\<open>None\<close> stands for a bad radix.\<close>

definition int2str :: "int \<Rightarrow> int \<Rightarrow> bool \<Rightarrow> string option" where
  "int2str val radix upcase =
     (let dig_vec = (if upcase then dig_vec_upper else dig_vec_lower); uval = wrap_ulong val
      in if radix < 0 \<and> (radix < - 36 \<or> radix > - 2) then None
         else if \<not> radix < 0 \<and> (radix > 36 \<or> radix < 2) then None
         else
           let (sign, uval) = (if radix < 0 \<and> val < 0 then (''-'', wrap_ulong (0 - uval)) else ('''', uval));
               radix = (if radix < 0 then - radix else radix);
               new_val = wrap_long (uval div radix);
               p = [dig_vec ! nat (wrap_ulong (uval - new_val * radix) mod 256)]
           in Some (sign @ digit_loop dig_vec radix new_val p))"

function digit10_loop :: "int \<Rightarrow> string \<Rightarrow> string" where
  "digit10_loop val p =
     (if val \<noteq> 0 then
        let new_val = cdiv val 10
        in digit10_loop new_val (digit_char (val - new_val * 10) # p)
      else p)"
  by pat_completeness auto
termination
proof (relation "measure (\<lambda>(n, p). nat \<bar>n\<bar>)")
  fix n x :: int and p :: string
  assume "n \<noteq> 0" "x = cdiv n 10"
  moreover have "\<bar>cdiv n 10\<bar> = \<bar>n\<bar> div 10" for n
    by (auto simp: cdiv_def abs_mult pos_imp_zdiv_nonneg_iff sgn_if)
  moreover have "\<bar>n\<bar> div 10 < \<bar>n\<bar>" if "n \<noteq> 0" for n :: int
    using that by (intro int_div_less_self) auto
  ultimately show "((x, digit_char (n - x * 10) # p), n, p) \<in> measure (\<lambda>(n, p). nat \<bar>n\<bar>)"
    by simp
qed simp

declare digit10_loop.simps [simp del]

definition int10_to_str :: "int \<Rightarrow> int \<Rightarrow> string" where
  "int10_to_str val radix =
     (let uval = wrap_ulong val;
          (sign, uval) = (if radix < 0 \<and> val < 0 then (''-'', wrap_ulong (0 - uval)) else ('''', uval));
          new_val = wrap_long (uval div 10);
          p = [digit_char (wrap_ulong (uval - new_val * 10))]
      in sign @ digit10_loop new_val p)"

section \<open>Reading\<close>

definition MAX_NEGATIVE_NUMBER :: int where "MAX_NEGATIVE_NUMBER = 0x8000000000000000"
definition ULONGLONG_MAX :: int where "ULONGLONG_MAX = 0xFFFFFFFFFFFFFFFF"
definition LONGLONG_MIN :: int where "LONGLONG_MIN = - 0x8000000000000000"
definition LFACTOR :: int where "LFACTOR = 1000000000"
definition LFACTOR1 :: int where "LFACTOR1 = 10000000000"
definition LFACTOR2 :: int where "LFACTOR2 = 100000000000"
definition MY_ERRNO_EDOM :: int where "MY_ERRNO_EDOM = 33"
definition MY_ERRNO_ERANGE :: int where "MY_ERRNO_ERANGE = 34"

definition lfactor :: "int list" where
  "lfactor = [1, 10, 100, 1000, 10000, 100000, 1000000, 10000000, 100000000]"

text \<open>The unsigned character \<open>*s - '0'\<close>.\<close>

definition digit_byte :: "char \<Rightarrow> int" where
  "digit_byte c = (of_char c - 48) mod 256"

text \<open>
  A loop that reads at most \<open>n\<close> digits, up to the end of the text: the flag says that the loop
  ran to its limit and did not leave at a character that is no digit.
\<close>

fun read_digits :: "nat \<Rightarrow> int \<Rightarrow> string \<Rightarrow> bool \<times> int \<times> string" where
  "read_digits 0 i s = (True, i, s)"
| "read_digits (Suc n) i [] = (True, i, [])"
| "read_digits (Suc n) i (c # s) =
     (if digit_byte c > 9 then (False, i, c # s) else read_digits n (i * 10 + digit_byte c) s)"

text \<open>
  The results of the labels at the end of \<open>my_strtoll10\<close>: the value, the error code and the text
  from the stop character on.
\<close>

definition strtoll_overflow :: "bool \<Rightarrow> string \<Rightarrow> int \<times> int \<times> string" where
  "strtoll_overflow negative s =
     (if negative then LONGLONG_MIN else wrap_long ULONGLONG_MAX, MY_ERRNO_ERANGE, s)"

definition strtoll_end :: "bool \<Rightarrow> int \<Rightarrow> string \<Rightarrow> int \<times> int \<times> string" where
  "strtoll_end negative li s =
     (if negative then wrap_long (- wrap_long li) else wrap_long li, if negative then - 1 else 0, s)"

text \<open>The part after the first nine digits \<open>i\<close>, with \<open>s\<close> not empty.\<close>

definition strtoll_rest :: "bool \<Rightarrow> int \<Rightarrow> string \<Rightarrow> int \<times> int \<times> string" where
  "strtoll_rest negative i start =
     (let cutoff_from = (if negative then MAX_NEGATIVE_NUMBER else ULONGLONG_MAX);
          cutoff = cutoff_from div LFACTOR2;
          cutoff2 = cutoff_from mod LFACTOR2 div 100;
          cutoff3 = cutoff_from mod 100;
          (full, j, s) = read_digits 9 0 start;
          len = length start - length s;
          end_i_and_j = strtoll_end negative (wrap_ulong (i * lfactor ! len + j)) s;
          end3 = strtoll_end negative (wrap_ulong (i * LFACTOR + j)) s
      in if \<not> full then end_i_and_j
         else case s of
           [] \<Rightarrow> if len \<noteq> 9 then end_i_and_j else end3
         | c # s1 \<Rightarrow>
             if digit_byte c > 9 then end3
             else
               let k = digit_byte c
               in if s1 = [] \<or> digit_byte (hd s1) > 9 then
                    let li = wrap_ulong (i * LFACTOR1 + j * 10 + k)
                    in if negative \<and> li > MAX_NEGATIVE_NUMBER then strtoll_overflow negative s1
                       else strtoll_end negative li s1
                  else
                    let k = k * 10 + digit_byte (hd s1); s2 = tl s1
                    in if s2 \<noteq> [] \<and> digit_byte (hd s2) \<le> 9 then strtoll_overflow negative s2
                       else if i > cutoff \<or> (i = cutoff \<and> (j > cutoff2 \<or> (j = cutoff2 \<and> k > cutoff3)))
                         then strtoll_overflow negative s2
                       else (wrap_long (wrap_ulong (i * LFACTOR2 + j * 100 + k)),
                             if negative then - 1 else 0, s2))"

text \<open>From the first digit on; \<open>s\<close> is not empty, and \<open>nptr\<close> is the whole text.\<close>

definition strtoll_digits :: "string \<Rightarrow> bool \<Rightarrow> string \<Rightarrow> int \<times> int \<times> string" where
  "strtoll_digits nptr negative s =
     (let read = (if hd s = CHR ''0''
            then (let s = dropWhile (\<lambda>c. c = CHR ''0'') s in Some (read_digits 9 0 s))
            else if digit_byte (hd s) > 9 then None
            else Some (read_digits 8 (digit_byte (hd s)) (tl s)))
      in case read of
           None \<Rightarrow> (0, MY_ERRNO_EDOM, nptr)
         | Some (full, i, s) \<Rightarrow>
             if \<not> full \<or> s = [] then strtoll_end negative i s else strtoll_rest negative i s)"

definition strtoll_sign :: "string \<Rightarrow> string \<Rightarrow> int \<times> int \<times> string" where
  "strtoll_sign nptr s =
     (let no_conv = (0, MY_ERRNO_EDOM, nptr)
      in if hd s = CHR ''-'' then
           if tl s = [] then no_conv else strtoll_digits nptr True (tl s)
         else if hd s = CHR ''+'' then
           if tl s = [] then no_conv else strtoll_digits nptr False (tl s)
         else strtoll_digits nptr False s)"

text \<open>With a given end, and for a text that ends with a NUL.\<close>

definition my_strtoll10 :: "string \<Rightarrow> int \<times> int \<times> string" where
  "my_strtoll10 nptr =
     (let s = dropWhile my_isspace nptr
      in if s = [] then (0, MY_ERRNO_EDOM, nptr) else strtoll_sign nptr s)"

definition my_strtoll10_nul :: "string \<Rightarrow> int \<times> int" where
  "my_strtoll10_nul nptr =
     (let s = dropWhile my_isspace nptr
      in if s = [] then (0, MY_ERRNO_EDOM)
         else case strtoll_sign nptr (take 65535 (s @ [CHR 0x00])) of (v, err, _) \<Rightarrow> (v, err))"

section \<open>Decimal text\<close>

definition dec_val :: "string \<Rightarrow> int" where
  "dec_val s = foldl (\<lambda>a c. a * 10 + digit_val c) 0 s"

lemma foldl_dec: "foldl (\<lambda>a c. a * 10 + digit_val c) v s = v * 10 ^ length s + dec_val s"
proof (induction s arbitrary: v)
  case (Cons c s)
  show ?case
    using Cons.IH [of "v * 10 + digit_val c"] Cons.IH [of "digit_val c"]
    by (simp add: dec_val_def algebra_simps)
qed (simp add: dec_val_def)

lemma dec_val_append: "dec_val (s @ t) = dec_val s * 10 ^ length t + dec_val t"
  using foldl_dec [of "dec_val s" t] by (simp add: dec_val_def)

lemma dec_val_simps [simp]: "dec_val [] = 0" "dec_val [c] = digit_val c"
  "dec_val (c # s) = digit_val c * 10 ^ length s + dec_val s"
  using foldl_dec [of "digit_val c" s] by (simp_all add: dec_val_def)

definition all_digits :: "string \<Rightarrow> bool" where
  "all_digits s \<longleftrightarrow> list_all my_isdigit s"

lemma all_digits_simps [simp]:
  "all_digits []" "all_digits (c # s) \<longleftrightarrow> my_isdigit c \<and> all_digits s"
  "all_digits (s @ t) \<longleftrightarrow> all_digits s \<and> all_digits t"
  by (simp_all add: all_digits_def)

lemma all_digits_take_drop: "all_digits s \<Longrightarrow> all_digits (take n s) \<and> all_digits (drop n s)"
  by (auto simp: all_digits_def list_all_iff dest: in_set_takeD in_set_dropD)

lemma dec_val_bounds: "all_digits s \<Longrightarrow> 0 \<le> dec_val s \<and> dec_val s < 10 ^ length s"
proof (induction s)
  case (Cons c s)
  then have d: "0 \<le> digit_val c" "digit_val c \<le> 9" by (simp_all add: my_isdigit_iff)
  then have "digit_val c * 10 ^ length s \<le> 9 * 10 ^ length s" "0 \<le> digit_val c * 10 ^ length s"
    by (auto intro: mult_right_mono)
  moreover have "0 \<le> dec_val s" "dec_val s < 10 ^ length s" using Cons by simp_all
  ultimately have "0 \<le> digit_val c * 10 ^ length s + dec_val s"
      "digit_val c * 10 ^ length s + dec_val s < 10 * 10 ^ length s" by linarith+
  then show ?case by simp
qed simp

lemma dec_val_leading:
  assumes "all_digits (c # s)" "c \<noteq> CHR ''0''"
  shows "10 ^ length s \<le> dec_val (c # s)"
proof -
  have "digit_val c \<noteq> 0"
  proof
    assume "digit_val c = 0"
    then have "digit_char 0 = c" using assms(1) digit_char_digit_val [of c] by simp
    then show False using assms(2) by (simp add: digit_char_def char_of_def)
  qed
  then have "1 \<le> digit_val c" using assms(1) by (simp add: my_isdigit_iff)
  then have "1 * 10 ^ length s \<le> digit_val c * 10 ^ length s" by (intro mult_right_mono) auto
  moreover have "0 \<le> dec_val s" using dec_val_bounds [of s] assms(1) by simp
  ultimately show ?thesis unfolding dec_val_simps by linarith
qed

lemma digit_byte_eq: "digit_byte c \<le> 9 \<longleftrightarrow> my_isdigit c"
  "my_isdigit c \<Longrightarrow> digit_byte c = digit_val c"
proof -
  have "(of_char c :: int) = int (of_char c)" "(of_char c :: nat) < 256"
    by (simp_all add: of_nat_of_char)
  then have b: "- 48 \<le> digit_val c" "digit_val c < 208" by (simp_all add: digit_val_def)
  have e: "digit_byte c = digit_val c mod 256" by (simp add: digit_byte_def digit_val_def)
  have "digit_val c mod 256 = (if digit_val c < 0 then digit_val c + 256 else digit_val c)"
    using b int_mod_pos_eq [of "digit_val c" 256 "- 1" "digit_val c + 256"] by auto
  then show "digit_byte c \<le> 9 \<longleftrightarrow> my_isdigit c" "my_isdigit c \<Longrightarrow> digit_byte c = digit_val c"
    using b by (auto simp: e my_isdigit_iff split: if_splits)
qed

text \<open>A text that begins with digits, up to a character that is none.\<close>

definition stops :: "string \<Rightarrow> bool" where
  "stops r \<longleftrightarrow> (case r of [] \<Rightarrow> True | c # _ \<Rightarrow> \<not> my_isdigit c)"

lemma read_digits_split:
  assumes "all_digits ds" "stops r"
  shows "read_digits n v (ds @ r) =
    (if length ds < n then (r = [], v * 10 ^ length ds + dec_val ds, r)
     else (True, v * 10 ^ n + dec_val (take n ds), drop n ds @ r))"
  using assms
proof (induction n v "ds @ r" arbitrary: ds rule: read_digits.induct)
  case (1 i)
  then show ?case by simp
next
  case (2 n i)
  then show ?case by simp
next
  case (3 n i c s)
  show ?case
  proof (cases ds)
    case Nil
    with 3 have "\<not> my_isdigit c" "r = c # s" by (auto simp: stops_def)
    then show ?thesis using Nil by (auto simp: digit_byte_eq [symmetric])
  next
    case (Cons d ds')
    with 3 have c: "c = d" "s = ds' @ r" "my_isdigit c" "all_digits ds'" by auto
    then have "\<not> digit_byte c > 9" "digit_byte c = digit_val c"
      using digit_byte_eq [of c] by (simp_all add: not_less)
    then show ?thesis
      using 3(1) [of ds'] c 3(4) Cons by (simp add: distrib_right mult.assoc)
  qed
qed

lemma wrap_long_minus: "wrap_long (- wrap_long i) = wrap_long (- i)"
proof -
  have "(- ((i + 9223372036854775808) mod 18446744073709551616 - 9223372036854775808) +
      9223372036854775808) mod 18446744073709551616 =
      (- i + 9223372036854775808) mod (18446744073709551616 :: int)"
  proof -
    have "9223372036854775808 - i = (- i - 9223372036854775808) + 18446744073709551616" by simp
    then have "(9223372036854775808 - i) mod 18446744073709551616 =
        (- i - 9223372036854775808) mod 18446744073709551616"
      by (simp only: mod_add_self2)
    then show ?thesis by (simp add: mod_simps)
  qed
  then show ?thesis by (simp add: wrap_long_def)
qed

lemma strtoll_end_eq:
  "0 \<le> D \<Longrightarrow> D < 18446744073709551616 \<Longrightarrow>
   strtoll_end neg (wrap_ulong D) r = (wrap_long (if neg then - D else D), if neg then - 1 else 0, r)"
  by (simp add: strtoll_end_def wrap_long_minus wrap_ulong_id)

lemma lfactor_nth: "n < 9 \<Longrightarrow> lfactor ! n = 10 ^ n"
  unfolding lfactor_def by (auto simp: less_Suc_eq numeral_eq_Suc)

lemma stops_next: "stops r \<Longrightarrow> r = [] \<or> digit_byte (hd r) > 9"
  by (cases r) (auto simp: stops_def digit_byte_eq(1) [symmetric])

lemma strtoll_rest_short:
  assumes "all_digits ds" "length ds \<le> 9" "stops r" and i: "0 \<le> i" "i < 1000000000"
    and D: "D = i * 10 ^ length ds + dec_val ds"
  shows "0 \<le> D \<and> D < 1000000000000000000 \<and>
    strtoll_rest neg i (ds @ r) = strtoll_end neg (wrap_ulong D) r"
proof -
  have dv: "0 \<le> dec_val ds" "dec_val ds < 10 ^ length ds" using dec_val_bounds [OF assms(1)] by simp_all
  have p: "(10 :: int) ^ length ds \<le> 1000000000"
    using power_increasing [OF assms(2), of "10 :: int"] by simp
  have "i * 10 ^ length ds \<le> 999999999 * 10 ^ length ds" using i by (intro mult_right_mono) auto
  then have "D < 1000000000 * 10 ^ length ds" unfolding D using dv by linarith
  also have "\<dots> \<le> 1000000000 * 1000000000" using p by (intro mult_left_mono) auto
  finally have b: "0 \<le> D" "D < 1000000000000000000" using dv i by (simp_all add: D)
  show ?thesis
  proof (cases "length ds < 9")
    case True
    then show ?thesis
      using b read_digits_split [OF assms(1,3), of 9 0] D
      by (cases r) (auto simp: strtoll_rest_def lfactor_nth Let_def)
  next
    case False
    then have "length ds = 9" using assms(2) by simp
    then show ?thesis
      using b read_digits_split [OF assms(1,3), of 9 0] D stops_next [OF assms(3)]
      by (cases r) (auto simp: strtoll_rest_def Let_def LFACTOR_def)
  qed
qed

lemma strtoll_rest_long:
  assumes "all_digits (es @ c # ds)" "length es = 9" "stops r" and i: "100000000 \<le> i" "i < 1000000000"
    and D: "D = i * 10 ^ (10 + length ds) + dec_val (es @ c # ds)"
    and limit: "limit = (if neg then MAX_NEGATIVE_NUMBER else ULONGLONG_MAX)"
  shows "if D \<le> limit
    then strtoll_rest neg i (es @ c # ds @ r) = (wrap_long (if neg then - D else D), if neg then - 1 else 0, r)
    else \<exists>s. strtoll_rest neg i (es @ c # ds @ r) = strtoll_overflow neg s"
proof -
  define j k where "j = dec_val es" and "k = digit_val c"
  have j: "0 \<le> j" "j < 1000000000" using dec_val_bounds [of es] assms(1,2) by (simp_all add: j_def)
  have dc: "my_isdigit c" "all_digits es" "all_digits ds" using assms(1) by auto
  then have k: "0 \<le> k" "k \<le> 9" "digit_byte c = k"
    using digit_byte_eq(2) [of c] by (simp_all add: k_def my_isdigit_iff)
  have rd: "read_digits 9 0 (es @ c # ds @ r) = (True, j, c # ds @ r)"
    using read_digits_split [of "es @ c # ds" r 9 0] assms(1-3) by (simp add: j_def)
  have D': "D = i * 10 ^ (10 + length ds) + (j * 10 ^ (1 + length ds) + (k * 10 ^ length ds + dec_val ds))"
    by (simp add: D dec_val_append j_def k_def)
  have unf: "strtoll_rest neg i (es @ c # ds @ r) =
      (if ds @ r = [] \<or> digit_byte (hd (ds @ r)) > 9 then
         let li = wrap_ulong (i * LFACTOR1 + j * 10 + k)
         in if neg \<and> li > MAX_NEGATIVE_NUMBER then strtoll_overflow neg (ds @ r)
            else strtoll_end neg li (ds @ r)
       else
         let k = k * 10 + digit_byte (hd (ds @ r)); s2 = tl (ds @ r)
         in if s2 \<noteq> [] \<and> digit_byte (hd s2) \<le> 9 then strtoll_overflow neg s2
            else if i > limit div LFACTOR2 \<or> (i = limit div LFACTOR2 \<and>
                (j > limit mod LFACTOR2 div 100 \<or> (j = limit mod LFACTOR2 div 100 \<and> k > limit mod 100)))
              then strtoll_overflow neg s2
            else (wrap_long (wrap_ulong (i * LFACTOR2 + j * 100 + k)), if neg then - 1 else 0, s2))"
    using k(2) by (simp only: strtoll_rest_def rd Let_def prod.case limit [symmetric]
        if_False list.case k(3) not_le [symmetric] simp_thms if_True)
  show ?thesis
  proof (cases ds)
    case Nil
    have "D = i * LFACTOR1 + j * 10 + k" using D' Nil by (simp add: LFACTOR1_def)
    moreover have "0 \<le> i * LFACTOR1 + j * 10 + k" "i * LFACTOR1 + j * 10 + k < 10000000000000000000"
      using i j k by (simp_all add: LFACTOR1_def)
    ultimately show ?thesis
      using Nil stops_next [OF assms(3)] unf strtoll_end_eq [of D neg r]
      by (auto simp: limit wrap_ulong_id ULONGLONG_MAX_def MAX_NEGATIVE_NUMBER_def)
  next
    case (Cons d ds')
    define kk where "kk = k * 10 + digit_val d"
    have d: "my_isdigit d" "all_digits ds'" using dc(3) Cons by simp_all
    then have l: "digit_byte d = digit_val d" "0 \<le> digit_val d" "digit_val d \<le> 9"
      using digit_byte_eq(2) [of d] Cons by (simp_all add: my_isdigit_iff)
    have kk: "0 \<le> kk" "kk < 100" using k l by (simp_all add: kk_def)
    have unf2: "strtoll_rest neg i (es @ c # ds @ r) =
        (if ds' @ r \<noteq> [] \<and> digit_byte (hd (ds' @ r)) \<le> 9 then strtoll_overflow neg (ds' @ r)
         else if i > limit div LFACTOR2 \<or> (i = limit div LFACTOR2 \<and>
             (j > limit mod LFACTOR2 div 100 \<or> (j = limit mod LFACTOR2 div 100 \<and> kk > limit mod 100)))
           then strtoll_overflow neg (ds' @ r)
         else (wrap_long (wrap_ulong (i * LFACTOR2 + j * 100 + kk)), if neg then - 1 else 0, ds' @ r))"
    proof -
      have nd: "\<not> digit_val d > 9" using l(3) by simp
      show ?thesis
        unfolding Cons append_Cons unf [unfolded Cons append_Cons list.sel l(1) Let_def] kk_def
        by (simp only: nd list.distinct simp_thms if_False)
    qed
    show ?thesis
    proof (cases ds')
      case Nil2: Nil
      have st: "\<not> (r \<noteq> [] \<and> digit_byte (hd r) \<le> 9)" using stops_next [OF assms(3)] by auto
      have De: "D = i * 100000000000 + j * 100 + kk" using D' Cons Nil2 by (simp add: kk_def)
      have lim: "i > limit div LFACTOR2 \<or> (i = limit div LFACTOR2 \<and>
          (j > limit mod LFACTOR2 div 100 \<or> (j = limit mod LFACTOR2 div 100 \<and> kk > limit mod 100))) \<longleftrightarrow>
          limit < D"
        using i j kk unfolding De limit by (cases neg)
          (simp_all add: ULONGLONG_MAX_def MAX_NEGATIVE_NUMBER_def LFACTOR2_def; linarith)+
      have r: "strtoll_rest neg i (es @ c # ds @ r) = (if limit < D then strtoll_overflow neg r
          else (wrap_long (wrap_ulong D), if neg then - 1 else 0, r))"
        using st unfolding unf2 lim by (simp only: Nil2 append_Nil simp_thms if_False De LFACTOR2_def)
      show ?thesis
      proof (cases "limit < D")
        case True
        then show ?thesis using r by auto
      next
        case False
        have "\<not> neg"
        proof
          assume neg
          then have "limit < D" using i j kk by (simp add: limit De MAX_NEGATIVE_NUMBER_def)
          then show False using False by simp
        qed
        moreover have "0 \<le> D" using i j kk by (simp add: De)
        ultimately show ?thesis using False r by (simp add: limit ULONGLONG_MAX_def wrap_ulong_id)
      qed
    next
      case (Cons e ds'')
      have "\<exists>s. strtoll_rest neg i (es @ c # ds @ r) = strtoll_overflow neg s"
        using unf2 Cons d(2) digit_byte_eq(1) [of e] by auto
      moreover have "limit < D"
      proof -
        have "(10 :: int) ^ 12 \<le> 10 ^ (10 + length ds)"
          using Cons \<open>ds = d # ds'\<close> by (intro power_increasing) auto
        then have "100000000 * 10 ^ 12 \<le> i * 10 ^ (10 + length ds)" using i by (intro mult_mono) auto
        moreover have "0 \<le> dec_val (es @ c # ds)" using dec_val_bounds [OF assms(1)] by simp
        ultimately show ?thesis
          unfolding D limit by (simp add: ULONGLONG_MAX_def MAX_NEGATIVE_NUMBER_def)
      qed
      ultimately show ?thesis by simp
    qed
  qed
qed

lemma strtoll_rest_correct:
  assumes "all_digits ds" "stops r" and i: "100000000 \<le> i" "i < 1000000000"
    and D: "D = i * 10 ^ length ds + dec_val ds"
    and limit: "limit = (if neg then MAX_NEGATIVE_NUMBER else ULONGLONG_MAX)"
  shows "if D \<le> limit
    then strtoll_rest neg i (ds @ r) = (wrap_long (if neg then - D else D), if neg then - 1 else 0, r)
    else \<exists>s. strtoll_rest neg i (ds @ r) = strtoll_overflow neg s"
proof (cases "length ds \<le> 9")
  case True
  have "0 \<le> i" using i by simp
  note b = strtoll_rest_short [OF assms(1) True assms(2) this i(2) D, of neg]
  then have "D \<le> limit" by (simp add: limit ULONGLONG_MAX_def MAX_NEGATIVE_NUMBER_def)
  then show ?thesis using b by (simp add: strtoll_end_eq)
next
  case False
  then have "drop 9 ds \<noteq> []" by simp
  then obtain c cs where cs: "drop 9 ds = c # cs" by (cases "drop 9 ds") auto
  have ds: "ds = take 9 ds @ c # cs" using append_take_drop_id [of 9 ds] by (simp only: cs)
  have len: "length (take 9 ds) = 9" using False by simp
  have l: "length ds = 10 + length cs" using arg_cong [OF ds, of length] len by simp
  have dsr: "ds @ r = take 9 ds @ c # cs @ r" using ds by (metis append.assoc append_Cons)
  show ?thesis
    unfolding dsr
  proof (rule strtoll_rest_long)
    show "all_digits (take 9 ds @ c # cs)" using assms(1) ds by metis
    show "D = i * 10 ^ (10 + length cs) + dec_val (take 9 ds @ c # cs)"
      unfolding ds [symmetric] using D l by simp
  qed (use assms len in simp_all)
qed

lemma strtoll_digits_correct:
  assumes ds: "all_digits ds" "ds \<noteq> []" and r: "stops r" and D: "D = dec_val ds"
    and limit: "limit = (if neg then MAX_NEGATIVE_NUMBER else ULONGLONG_MAX)"
  shows "if D \<le> limit
    then strtoll_digits nptr neg (ds @ r) = (wrap_long (if neg then - D else D), if neg then - 1 else 0, r)
    else \<exists>s. strtoll_digits nptr neg (ds @ r) = strtoll_overflow neg s"
proof -
  define sig where "sig = dropWhile (\<lambda>c. c = CHR ''0'') ds"
  have split: "ds = takeWhile (\<lambda>c. c = CHR ''0'') ds @ sig" by (simp add: sig_def)
  have z: "dec_val zs = 0" if "\<forall>c \<in> set zs. c = CHR ''0''" for zs
    using that by (induction zs) (auto simp: digit_val_def)
  have "dec_val (takeWhile (\<lambda>c. c = CHR ''0'') ds) = 0" by (rule z) (auto dest: set_takeWhileD)
  then have Ds: "D = dec_val sig" unfolding D by (subst split) (simp add: dec_val_append)
  have sd: "all_digits sig" using ds(1) split by (metis all_digits_simps(3))
  have hd0: "sig \<noteq> [] \<Longrightarrow> hd sig \<noteq> CHR ''0''" unfolding sig_def by (rule hd_dropWhile)
  have r0: "dropWhile (\<lambda>c. c = CHR ''0'') r = r"
    using r by (cases r) (auto simp: stops_def my_isdigit_iff digit_val_def)
  have drop: "dropWhile (\<lambda>c. c = CHR ''0'') (ds @ r) = sig @ r"
    using r0 by (cases "\<forall>c \<in> set ds. c = CHR ''0''")
      (auto simp: sig_def dropWhile_append)
  have first: "strtoll_digits nptr neg (ds @ r) = (case read_digits 9 0 (sig @ r) of
      (full, i, s) \<Rightarrow> if \<not> full \<or> s = [] then strtoll_end neg i s else strtoll_rest neg i s)"
  proof (cases "hd ds = CHR ''0''")
    case True
    then show ?thesis
      unfolding strtoll_digits_def Let_def hd_append2 [OF ds(2)] drop by simp
  next
    case False
    then have "sig = ds" using ds(2) by (cases ds) (auto simp: sig_def)
    moreover obtain c cs where c: "ds = c # cs" using ds(2) by (cases ds) auto
    moreover have "digit_byte c \<le> 9" using ds(1) c digit_byte_eq(1) [of c] by simp
    then have "read_digits 9 0 (ds @ r) = read_digits 8 (digit_byte c) (cs @ r)"
      using c by (simp add: numeral_eq_Suc)
    ultimately show ?thesis
      using False \<open>digit_byte c \<le> 9\<close> unfolding strtoll_digits_def Let_def by simp
  qed
  note rd = read_digits_split [OF sd r, of 9 0]
  show ?thesis
  proof (cases "length sig < 9 \<or> length sig = 9 \<and> r = []")
    case True
    have b: "0 \<le> D" "D < 10 ^ length sig" using dec_val_bounds [OF sd] Ds by simp_all
    have "(10 :: int) ^ length sig \<le> 10 ^ 9" using True by (intro power_increasing) auto
    then have "D < 1000000000" using b(2) by simp
    then have "D \<le> limit" "wrap_ulong D = D"
      using b(1) by (simp_all add: limit ULONGLONG_MAX_def MAX_NEGATIVE_NUMBER_def wrap_ulong_id)
    moreover have "strtoll_digits nptr neg (ds @ r) = strtoll_end neg D r"
      unfolding first rd using True by (auto simp: Ds)
    ultimately show ?thesis
      using strtoll_end_eq [of D neg r] b(1) \<open>D < 1000000000\<close> by simp
  next
    case False
    define i where "i = dec_val (take 9 sig)"
    obtain c cs where c: "sig = c # cs" using False by (cases sig) auto
    have i: "100000000 \<le> i" "i < 1000000000"
    proof -
      have t: "take 9 sig = c # take 8 cs" "length (take 8 cs) = 8" using False c by (auto simp: numeral_eq_Suc)
      have d: "all_digits (c # take 8 cs)" using all_digits_take_drop [OF sd, of 9] t by simp
      show "100000000 \<le> i" using dec_val_leading [OF d] hd0 c t by (simp add: i_def)
      show "i < 1000000000" using dec_val_bounds [OF d] t by (simp add: i_def)
    qed
    have "read_digits 9 0 (sig @ r) = (True, i, drop 9 sig @ r)" using rd False by (auto simp: i_def)
    moreover have "drop 9 sig @ r \<noteq> []" using False by auto
    ultimately have e: "strtoll_digits nptr neg (ds @ r) = strtoll_rest neg i (drop 9 sig @ r)"
      unfolding first by auto
    show ?thesis
      unfolding e
    proof (rule strtoll_rest_correct [OF _ r i _ limit])
      show "all_digits (drop 9 sig)" using all_digits_take_drop [OF sd, of 9] by simp
      show "D = i * 10 ^ length (drop 9 sig) + dec_val (drop 9 sig)"
        unfolding Ds i_def dec_val_append [symmetric] by simp
    qed
  qed
qed

lemma dropWhile_spaces: "list_all my_isspace ws \<Longrightarrow> s \<noteq> [] \<Longrightarrow> \<not> my_isspace (hd s) \<Longrightarrow>
    dropWhile my_isspace (ws @ s) = s"
  by (induction ws) (auto simp: neq_Nil_conv)

lemma sign_not_space: "\<not> my_isspace CHR ''-''" "\<not> my_isspace CHR ''+''"
  by (simp_all add: my_isspace_nat)

text \<open>
  C39: \<open>my_strtoll10\<close> computes the value of the number the text begins with, over any number of
  leading blanks and zeros: the digits are gathered in groups of nine, nine and two, and the
  result is the number modulo 2 to the power 64, with the text behind the last digit, when a
  positive number is at most \<open>ULONGLONG_MAX\<close> or a negative one at least \<open>LONGLONG_MIN\<close>, and the
  range error with the nearest bound in every other case; a text with no digit is refused.
\<close>

theorem my_strtoll10_correct:
  assumes "list_all my_isspace ws" and "sign \<in> {'''', ''+'', ''-''}" and "all_digits ds"
    and "ds \<noteq> []" and "stops r" and "neg \<longleftrightarrow> sign = ''-''" and "d = dec_val ds"
  shows "(if d \<le> (if neg then MAX_NEGATIVE_NUMBER else ULONGLONG_MAX)
      then my_strtoll10 (ws @ sign @ ds @ r) =
        (wrap_long (if neg then - d else d), if neg then - 1 else 0, r)
      else \<exists>s. my_strtoll10 (ws @ sign @ ds @ r) =
        (if neg then LONGLONG_MIN else wrap_long ULONGLONG_MAX, MY_ERRNO_ERANGE, s)) \<and>
    my_strtoll10 (ws @ sign) = (0, MY_ERRNO_EDOM, ws @ sign)"
proof -
  obtain c cs where c: "ds = c # cs" using assms(4) by (cases ds) auto
  have dc: "my_isdigit c" using assms(3) c by simp
  have hdc: "c \<noteq> CHR ''-''" "c \<noteq> CHR ''+''" using dc by (auto simp: my_isdigit_nat)
  let ?t = "ws @ sign @ ds @ r"
  have "dropWhile my_isspace ?t = sign @ ds @ r"
    using assms(1,2) c digit_not_punct [OF dc] sign_not_space
    by (intro dropWhile_spaces) auto
  moreover have "strtoll_sign ?t (sign @ ds @ r) = strtoll_digits ?t neg (ds @ r)"
    using assms(2,6) c hdc by (auto simp: strtoll_sign_def)
  ultimately have e: "my_strtoll10 ?t = strtoll_digits ?t neg (ds @ r)"
    using c by (simp add: my_strtoll10_def)
  have "my_strtoll10 (ws @ sign) = (0, MY_ERRNO_EDOM, ws @ sign)"
  proof (cases "sign = ''''")
    case True
    then have "dropWhile my_isspace (ws @ sign) = []" using assms(1) by (auto simp: list_all_iff)
    then show ?thesis by (simp add: my_strtoll10_def)
  next
    case False
    then have "dropWhile my_isspace (ws @ sign) = sign"
      using assms(1,2) sign_not_space by (intro dropWhile_spaces) auto
    then show ?thesis using assms(2) False by (auto simp: my_strtoll10_def strtoll_sign_def)
  qed
  moreover note strtoll_digits_correct [OF assms(3,4,5,7) refl, of neg ?t]
  ultimately show ?thesis unfolding e strtoll_overflow_def by simp
qed

theorem my_strtoll10_correct_witness:
  "my_strtoll10 ''  -0009223372036854775808 rest'' = (- 9223372036854775808, - 1, '' rest'')"
proof -
  define ws where "ws = ''  ''"
  define ds where "ds = ''0009223372036854775808''"
  define r where "r = '' rest''"
  have t: "''  -0009223372036854775808 rest'' = ws @ ''-'' @ ds @ r" by (simp add: ws_def ds_def r_def)
  have "list_all my_isspace ws" by (simp add: ws_def my_isspace_nat)
  moreover have "all_digits ds" by (simp add: ds_def my_isdigit_nat)
  moreover have "stops r" by (simp add: r_def stops_def my_isdigit_nat)
  moreover have "dec_val ds = 9223372036854775808"
    by (simp add: ds_def digit_val_def)
  moreover have "ds \<noteq> []" by (simp add: ds_def)
  ultimately show ?thesis
    using my_strtoll10_correct [of ws "''-''" ds r True "dec_val ds"] unfolding t
    by (simp add: MAX_NEGATIVE_NUMBER_def wrap_long_id r_def)
qed

section \<open>Printing and reading\<close>

lemma digit10_loop_digits:
  assumes "0 \<le> v"
  shows "\<exists>ds. digit10_loop v p = ds @ p \<and> all_digits ds \<and> dec_val ds = v \<and>
    (ds = [] \<longleftrightarrow> v = 0) \<and> (ds \<noteq> [] \<longrightarrow> hd ds \<noteq> CHR ''0'')"
  using assms
proof (induction v p rule: digit10_loop.induct)
  case (1 v p)
  show ?case
  proof (cases "v = 0")
    case True
    then show ?thesis by (subst digit10_loop.simps) simp
  next
    case False
    have q: "cdiv v 10 = v div 10" using 1 by (simp add: cdiv_nonneg)
    have m: "v - v div 10 * 10 = v mod 10" by (simp add: minus_div_mult_eq_mod)
    obtain ds where ds: "digit10_loop (v div 10) (digit_char (v mod 10) # p) = ds @ digit_char (v mod 10) # p"
      "all_digits ds" "dec_val ds = v div 10" "ds = [] \<longleftrightarrow> v div 10 = 0" "ds \<noteq> [] \<longrightarrow> hd ds \<noteq> CHR ''0''"
      using 1 False by (auto simp: q m pos_imp_zdiv_nonneg_iff)
    have d: "0 \<le> v mod 10" "v mod 10 \<le> 9" using pos_mod_bound [of 10 v] by simp_all
    have "digit_char d \<noteq> CHR ''0''" if "0 < d" "d \<le> 9" for d
    proof
      assume "digit_char d = CHR ''0''"
      then have "digit_val (digit_char d) = 0" by (simp add: digit_val_def)
      then show False using that by simp
    qed
    moreover have "0 < v mod 10" if "ds = []"
      using that ds(4) False 1(2) div_mult_mod_eq [of v 10] by linarith
    ultimately have "hd (ds @ [digit_char (v mod 10)]) \<noteq> CHR ''0''" using ds(5) d by (cases ds) auto
    moreover have "dec_val (ds @ [digit_char (v mod 10)]) = v"
      using ds(3) d by (simp add: dec_val_append)
    ultimately show ?thesis
      using False ds(1,2) d
      by (subst digit10_loop.simps) (auto simp: q m Let_def intro!: exI [of _ "ds @ [digit_char (v mod 10)]"])
  qed
qed

definition unsigned_of :: "int \<Rightarrow> int \<Rightarrow> int" where
  "unsigned_of v radix = (if radix < 0 \<and> v < 0 then - v else wrap_ulong v)"

lemma int10_to_str_text:
  assumes "- 9223372036854775808 \<le> v" "v < 9223372036854775808"
  shows "\<exists>ds. int10_to_str v radix = (if radix < 0 \<and> v < 0 then ''-'' else '''') @ ds \<and>
    all_digits ds \<and> ds \<noteq> [] \<and> dec_val ds = unsigned_of v radix \<and> (hd ds = CHR ''0'' \<longrightarrow> ds = ''0'')"
proof -
  define u where "u = unsigned_of v radix"
  have u: "0 \<le> u" "u < 18446744073709551616"
    using assms by (auto simp: u_def unsigned_of_def wrap_ulong_def)
  have neg: "wrap_ulong (0 - wrap_ulong v) = - v" if "v < 0"
    using that assms by (simp add: wrap_ulong_neg wrap_ulong_id)
  have q: "0 \<le> u div 10" "u div 10 < 9223372036854775808"
    using u zdiv_mono1 [of u 18446744073709551615 10] by (auto simp: pos_imp_zdiv_nonneg_iff)
  have w: "wrap_long (u div 10) = u div 10" using q by (simp add: wrap_long_id)
  have m: "wrap_ulong (u - u div 10 * 10) = u mod 10"
    by (simp add: minus_div_mult_eq_mod wrap_ulong_def)
  have e: "int10_to_str v radix = (if radix < 0 \<and> v < 0 then ''-'' else '''') @
      digit10_loop (u div 10) [digit_char (u mod 10)]"
    unfolding int10_to_str_def Let_def using neg w m
    by (cases "radix < 0 \<and> v < 0") (auto simp: u_def unsigned_of_def)
  obtain ds where ds: "digit10_loop (u div 10) [digit_char (u mod 10)] = ds @ [digit_char (u mod 10)]"
    "all_digits ds" "dec_val ds = u div 10" "ds = [] \<longleftrightarrow> u div 10 = 0" "ds \<noteq> [] \<longrightarrow> hd ds \<noteq> CHR ''0''"
    using digit10_loop_digits [OF q(1), of "[digit_char (u mod 10)]"] by auto
  have d: "0 \<le> u mod 10" "u mod 10 \<le> 9" using pos_mod_bound [of 10 u] by simp_all
  have "dec_val (ds @ [digit_char (u mod 10)]) = u" using ds(3) d by (simp add: dec_val_append)
  moreover have "hd (ds @ [digit_char (u mod 10)]) = CHR ''0'' \<longrightarrow> ds @ [digit_char (u mod 10)] = ''0''"
    using ds(5) by (cases ds) auto
  ultimately show ?thesis
    using e ds(1,2) d by (intro exI [of _ "ds @ [digit_char (u mod 10)]"]) (auto simp: u_def)
qed

text \<open>
  Reading undoes printing: the text \<open>int10_to_str\<close> writes for a 64-bit integer, taken as signed
  or as unsigned, is read back by \<open>my_strtoll10\<close> as the same 64 bits, up to whatever follows the
  digits and with the sign reported; it has no superfluous leading zero.
\<close>

theorem int10_strtoll10_roundtrip:
  assumes "- 9223372036854775808 \<le> v" and "v < 9223372036854775808" and "stops r"
  shows "my_strtoll10 (int10_to_str v (- 10) @ r) = (v, if v < 0 then - 1 else 0, r) \<and>
    my_strtoll10 (int10_to_str v 10 @ r) = (v, 0, r) \<and>
    (hd (int10_to_str v 10) = CHR ''0'' \<longrightarrow> v = 0)"
proof -
  have eq: "my_strtoll10 (int10_to_str v radix @ r) =
      (v, if radix < 0 \<and> v < 0 then - 1 else 0, r)" for radix
  proof -
    obtain ds where ds: "int10_to_str v radix = (if radix < 0 \<and> v < 0 then ''-'' else '''') @ ds"
      "all_digits ds" "ds \<noteq> []" "dec_val ds = unsigned_of v radix"
      using int10_to_str_text [OF assms(1,2), of radix] by auto
    define neg where "neg \<longleftrightarrow> radix < 0 \<and> v < 0"
    define sign where "sign = (if neg then ''-'' else '''')"
    have s: "sign \<in> {'''', ''+'', ''-''}" "neg \<longleftrightarrow> sign = ''-''" by (auto simp: sign_def)
    have u: "unsigned_of v radix \<le> (if neg then MAX_NEGATIVE_NUMBER else ULONGLONG_MAX)"
      "wrap_long (if neg then - unsigned_of v radix else unsigned_of v radix) = v"
      using assms(1,2) by (auto simp: unsigned_of_def neg_def MAX_NEGATIVE_NUMBER_def ULONGLONG_MAX_def
          wrap_ulong_def wrap_long_def mod_simps)
    have sp: "dropWhile my_isspace (sign @ ds @ r) = sign @ ds @ r"
    proof -
      have "my_isdigit (hd ds)" using ds(2,3) by (cases ds) auto
      then have "\<not> my_isspace (hd (sign @ ds @ r))"
        using digit_not_punct sign_not_space(1) ds(3) by (cases neg) (simp_all add: sign_def)
      then show ?thesis using dropWhile_spaces [of "[]" "sign @ ds @ r"] ds(3) by simp
    qed
    have "strtoll_sign (sign @ ds @ r) (sign @ ds @ r) = strtoll_digits (sign @ ds @ r) neg (ds @ r)"
    proof (cases neg)
      case True
      then show ?thesis using ds(3) by (simp add: strtoll_sign_def sign_def)
    next
      case False
      have "my_isdigit (hd (ds @ r))" using ds(2,3) by (cases ds) auto
      then have "hd (ds @ r) \<noteq> CHR ''-''" "hd (ds @ r) \<noteq> CHR ''+''" by (auto simp: my_isdigit_nat)
      then show ?thesis using False by (simp add: strtoll_sign_def sign_def)
    qed
    then have "my_strtoll10 (sign @ ds @ r) = strtoll_digits (sign @ ds @ r) neg (ds @ r)"
      using sp ds(3) by (simp add: my_strtoll10_def)
    then show ?thesis
      using strtoll_digits_correct [OF ds(2,3) assms(3) ds(4) [symmetric] refl, of neg "sign @ ds @ r"] u
      unfolding ds(1) by (simp add: sign_def neg_def)
  qed
  obtain ds where "int10_to_str v 10 = ds" "dec_val ds = unsigned_of v 10" "hd ds = CHR ''0'' \<longrightarrow> ds = ''0''"
    using int10_to_str_text [OF assms(1,2), of 10] by auto
  then have "hd (int10_to_str v 10) = CHR ''0'' \<longrightarrow> v = 0"
    using assms(1,2) by (auto simp: unsigned_of_def digit_val_def wrap_ulong_def zmod_eq_0_iff)
  then show ?thesis using eq [of "- 10"] eq [of 10] by simp
qed

theorem int10_strtoll10_roundtrip_witness:
  "my_strtoll10 (int10_to_str (- 9223372036854775808) (- 10) @ ''x'') = (- 9223372036854775808, - 1, ''x'')"
proof -
  have "stops ''x''" by (simp add: stops_def my_isdigit_nat)
  then show ?thesis using int10_strtoll10_roundtrip [of "- 9223372036854775808" "''x''"] by simp
qed

lemma dig_vec_digit:
  assumes "0 \<le> d" "d \<le> 9"
  shows "dig_vec_upper ! nat d = digit_char d" "dig_vec_lower ! nat d = digit_char d"
proof -
  have "d = 0 \<or> d = 1 \<or> d = 2 \<or> d = 3 \<or> d = 4 \<or> d = 5 \<or> d = 6 \<or> d = 7 \<or> d = 8 \<or> d = 9"
    using assms by presburger
  then show "dig_vec_upper ! nat d = digit_char d" "dig_vec_lower ! nat d = digit_char d"
    by (elim disjE; simp add: dig_vec_upper_def dig_vec_lower_def digit_char_def char_of_def)+
qed

lemma digit_loop_10:
  assumes "0 \<le> v" "vec = dig_vec_upper \<or> vec = dig_vec_lower"
  shows "digit_loop vec 10 v p = digit10_loop v p"
  using assms(1)
proof (induction v p rule: digit10_loop.induct)
  case (1 v p)
  have q: "cdiv v 10 = v div 10" using 1(2) by (simp add: cdiv_nonneg)
  have d: "0 \<le> v mod 10" "v mod 10 \<le> 9" using pos_mod_bound [of 10 v] by simp_all
  then have "(v - v div 10 * 10) mod 256 = v mod 10" by (simp add: minus_div_mult_eq_mod)
  then have "vec ! nat ((v - v div 10 * 10) mod 256) = digit_char (v - v div 10 * 10)"
    using dig_vec_digit [OF d] assms(2) by (auto simp: minus_div_mult_eq_mod)
  then show ?case
    using 1 by (subst digit_loop.simps, subst digit10_loop.simps) (simp add: q pos_imp_zdiv_nonneg_iff)
qed

text \<open>
  The routine for decimal numbers does what the general one does: for every 64-bit value and
  both signs of the radix, \<open>int10_to_str\<close> writes the text \<open>int2str\<close> writes for radix 10 or -10, with
  either set of digits; \<open>int2str\<close> refuses exactly the radixes outside 2 to 36 in absolute value.
\<close>

theorem int10_to_str_is_int2str:
  assumes "- 9223372036854775808 \<le> v" and "v < 9223372036854775808"
  shows "int2str v 10 upcase = Some (int10_to_str v 10) \<and>
    int2str v (- 10) upcase = Some (int10_to_str v (- 10)) \<and>
    (int2str v radix upcase = None \<longleftrightarrow> \<not> (2 \<le> \<bar>radix\<bar> \<and> \<bar>radix\<bar> \<le> 36))"
proof -
  define vec where "vec = (if upcase then dig_vec_upper else dig_vec_lower)"
  have step: "vec ! nat (wrap_ulong (u - wrap_long (u div 10) * 10) mod 256) =
      digit_char (wrap_ulong (u - wrap_long (u div 10) * 10)) \<and>
      digit_loop vec 10 (wrap_long (u div 10)) p = digit10_loop (wrap_long (u div 10)) p"
    if "0 \<le> u" "u < 18446744073709551616" for u p
  proof -
    have "0 \<le> u div 10" "u div 10 < 9223372036854775808"
      using that zdiv_mono1 [of u 18446744073709551615 10] by (auto simp: pos_imp_zdiv_nonneg_iff)
    then have w: "wrap_long (u div 10) = u div 10" "0 \<le> u div 10" by (simp_all add: wrap_long_id)
    have d: "0 \<le> u mod 10" "u mod 10 \<le> 9" using pos_mod_bound [of 10 u] by simp_all
    have m: "wrap_ulong (u - u div 10 * 10) = u mod 10" "u mod 10 mod 256 = u mod 10"
      using d by (simp_all add: minus_div_mult_eq_mod wrap_ulong_def)
    show ?thesis
      unfolding w(1) m using dig_vec_digit [OF d] digit_loop_10 [OF w(2), of vec p]
      by (auto simp: vec_def)
  qed
  have u: "0 \<le> wrap_ulong x \<and> wrap_ulong x < 18446744073709551616" for x
    by (simp add: wrap_ulong_def)
  have "int2str v 10 upcase = Some (int10_to_str v 10)"
    unfolding int2str_def int10_to_str_def Let_def vec_def [symmetric]
    using step [OF u [THEN conjunct1] u [THEN conjunct2], of v] by simp
  moreover have "int2str v (- 10) upcase = Some (int10_to_str v (- 10))"
    unfolding int2str_def int10_to_str_def Let_def vec_def [symmetric]
    using step [OF u [THEN conjunct1] u [THEN conjunct2]] by (cases "v < 0") simp_all
  moreover have "int2str v radix upcase = None \<longleftrightarrow> \<not> (2 \<le> \<bar>radix\<bar> \<and> \<bar>radix\<bar> \<le> 36)"
    by (auto simp: int2str_def Let_def split: prod.splits)
  ultimately show ?thesis by blast
qed

theorem int10_to_str_is_int2str_witness:
  "int2str 1234 10 True = Some (int10_to_str 1234 10) \<and> int2str 7 37 True = None"
  using int10_to_str_is_int2str [of 1234 True 37] int10_to_str_is_int2str [of 7 True 37] by simp

end
