(* ===== verification/TimePrint.thy ===== *)
theory TimePrint
  imports MyTime IntStr
begin

text \<open>
  Dates and times printed as text, \<^verbatim>\<open>sql-common/my_time.c\<close>.  A function returns the characters
  it writes at \<open>to\<close>, without the final NUL; their number is the value the source returns.
\<close>

section \<open>Digits\<close>

definition two_digit_numbers :: "int list" where
  "two_digit_numbers =
    [0x3030, 0x3130, 0x3230, 0x3330, 0x3430, 0x3530, 0x3630, 0x3730, 0x3830, 0x3930,
     0x3031, 0x3131, 0x3231, 0x3331, 0x3431, 0x3531, 0x3631, 0x3731, 0x3831, 0x3931,
     0x3032, 0x3132, 0x3232, 0x3332, 0x3432, 0x3532, 0x3632, 0x3732, 0x3832, 0x3932,
     0x3033, 0x3133, 0x3233, 0x3333, 0x3433, 0x3533, 0x3633, 0x3733, 0x3833, 0x3933,
     0x3034, 0x3134, 0x3234, 0x3334, 0x3434, 0x3534, 0x3634, 0x3734, 0x3834, 0x3934,
     0x3035, 0x3135, 0x3235, 0x3335, 0x3435, 0x3535, 0x3635, 0x3735, 0x3835, 0x3935,
     0x3036, 0x3136, 0x3236, 0x3336, 0x3436, 0x3536, 0x3636, 0x3736, 0x3836, 0x3936,
     0x3037, 0x3137, 0x3237, 0x3337, 0x3437, 0x3537, 0x3637, 0x3737, 0x3837, 0x3937,
     0x3038, 0x3138, 0x3238, 0x3338, 0x3438, 0x3538, 0x3638, 0x3738, 0x3838, 0x3938,
     0x3039, 0x3139, 0x3239, 0x3339, 0x3439, 0x3539, 0x3639, 0x3739, 0x3839, 0x3939,
     0x5858, 0x5858, 0x5858, 0x5858, 0x5858, 0x5858, 0x5858, 0x5858, 0x5858, 0x5858,
     0x5858, 0x5858, 0x5858, 0x5858, 0x5858, 0x5858, 0x5858, 0x5858, 0x5858, 0x5858,
     0x5858, 0x5858, 0x5858, 0x5858, 0x5858, 0x5858, 0x5858, 0x5858, 0x5858, 0x5858,
     0x5858, 0x5858, 0x5858, 0x5858, 0x5858, 0x5858, 0x5858, 0x5858, 0x5858, 0x5858,
     0x5858, 0x5858, 0x5858, 0x5858, 0x5858, 0x5858, 0x5858, 0x5858, 0x5858, 0x5858,
     0x5858, 0x5858, 0x5858, 0x5858, 0x5858, 0x5858, 0x5858, 0x5858, 0x5858, 0x5858,
     0x5858, 0x5858, 0x5858, 0x5858, 0x5858, 0x5858, 0x5858, 0x5858, 0x5858, 0x5858,
     0x5858, 0x5858, 0x5858, 0x5858, 0x5858, 0x5858, 0x5858, 0x5858, 0x5858, 0x5858,
     0x5858, 0x5858, 0x5858, 0x5858, 0x5858, 0x5858, 0x5858, 0x5858, 0x5858, 0x5858,
     0x5858, 0x5858, 0x5858, 0x5858, 0x5858, 0x5858, 0x5858, 0x5858, 0x5858, 0x5858,
     0x5858, 0x5858, 0x5858, 0x5858, 0x5858, 0x5858, 0x5858, 0x5858, 0x5858, 0x5858,
     0x5858, 0x5858, 0x5858, 0x5858, 0x5858, 0x5858, 0x5858, 0x5858, 0x5858, 0x5858,
     0x5858, 0x5858, 0x5858, 0x5858, 0x5858, 0x5858, 0x5858, 0x5858, 0x5858, 0x5858,
     0x5858, 0x5858, 0x5858, 0x5858, 0x5858, 0x5858, 0x5858, 0x5858, 0x5858, 0x5858,
     0x5858, 0x5858, 0x5858, 0x5858, 0x5858, 0x5858, 0x5858, 0x5858, 0x5858, 0x5858,
     0x5858, 0x5858, 0x5858, 0x5858, 0x5858, 0x5858]"

text \<open>\<open>int2store\<close> puts the low byte of the entry first.\<close>

definition fmt_number2 :: "int \<Rightarrow> string" where
  "fmt_number2 val =
     (let w = two_digit_numbers ! nat (val mod 256)
      in [char_of (w mod 256), char_of (w div 256)])"

definition fmt_number4 :: "int \<Rightarrow> string" where
  "fmt_number4 val =
     (let val = val mod 65536 in fmt_number2 (val div 100) @ fmt_number2 (val mod 100))"

definition fmt_number6 :: "int \<Rightarrow> string" where
  "fmt_number6 val =
     (let low = val mod 10000
      in fmt_number2 (val div 10000) @ fmt_number2 (low div 100) @ fmt_number2 (low mod 100))"

definition fmt_usec :: "int \<Rightarrow> int \<Rightarrow> string" where
  "fmt_usec val digits =
     (if digits = 1 then [digit_char (val mod 10)]
      else if digits = 2 then fmt_number2 val
      else if digits = 3 then digit_char (val div 100 mod 10) # fmt_number2 (val mod 100)
      else if digits = 4 then fmt_number4 val
      else if digits = 5 then digit_char (val div 10000 mod 10) # fmt_number4 (val mod 10000)
      else if digits = 6 then fmt_number6 val
      else '''')"

section \<open>Values\<close>

definition my_mmssff_to_str :: "MYSQL_TIME \<Rightarrow> int \<Rightarrow> string" where
  "my_mmssff_to_str ltime fsp =
     (let fsp = (if fsp = AUTO_SEC_PART_DIGITS
            then (if t_second_part ltime \<noteq> 0 then TIME_SECOND_PART_DIGITS else 0) else fsp)
      in fmt_number2 (t_minute ltime) @ '':'' @ fmt_number2 (t_second ltime) @
         (if fsp \<noteq> 0
          then ''.'' @ fmt_usec (wrap_uint (sec_part_shift (t_second_part ltime) fsp)) fsp
          else ''''))"

definition my_interval_DDhhmmssff_to_str :: "MYSQL_TIME \<Rightarrow> int \<Rightarrow> string" where
  "my_interval_DDhhmmssff_to_str ltime fsp =
     (let hour = wrap_uint (t_day ltime * 24 + t_hour ltime)
      in (if t_neg ltime then ''-'' else '''') @
         (if hour \<ge> 24 then int10_to_str (hour div 24) 10 @ '' '' else '''') @
         fmt_number2 (hour mod 24) @ '':'' @ my_mmssff_to_str ltime fsp)"

definition my_time_to_str :: "MYSQL_TIME \<Rightarrow> int \<Rightarrow> string" where
  "my_time_to_str l_time digits =
     (let day = (if t_year l_time \<noteq> 0 \<or> t_month l_time \<noteq> 0 then 0 else t_day l_time);
          hour = wrap_uint (day * 24 + t_hour l_time)
      in (if t_neg l_time then ''-'' else '''') @
         (if hour > 99 then int10_to_str hour 10 else fmt_number2 hour) @ '':'' @
         my_mmssff_to_str l_time digits)"

definition my_date_to_str :: "MYSQL_TIME \<Rightarrow> string" where
  "my_date_to_str l_time =
     fmt_number4 (t_year l_time) @ ''-'' @ fmt_number2 (t_month l_time) @ ''-'' @
     fmt_number2 (t_day l_time)"

definition my_datetime_to_str :: "MYSQL_TIME \<Rightarrow> int \<Rightarrow> string" where
  "my_datetime_to_str l_time digits =
     fmt_number4 (t_year l_time) @ ''-'' @ fmt_number2 (t_month l_time) @ ''-'' @
     fmt_number2 (t_day l_time) @ '' '' @ fmt_number2 (t_hour l_time) @ '':'' @
     my_mmssff_to_str l_time digits"

definition my_TIME_to_str :: "MYSQL_TIME \<Rightarrow> int \<Rightarrow> string" where
  "my_TIME_to_str l_time digits =
     (case t_time_type l_time of
        MYSQL_TIMESTAMP_DATETIME \<Rightarrow> my_datetime_to_str l_time digits
      | MYSQL_TIMESTAMP_DATE \<Rightarrow> my_date_to_str l_time
      | MYSQL_TIMESTAMP_TIME \<Rightarrow> my_time_to_str l_time digits
      | MYSQL_TIMESTAMP_NONE \<Rightarrow> ''''
      | MYSQL_TIMESTAMP_ERROR \<Rightarrow> '''')"

text \<open>The first two arguments are the fields of the \<open>struct timeval\<close>.\<close>

definition my_timeval_to_str :: "int \<Rightarrow> int \<Rightarrow> int \<Rightarrow> string" where
  "my_timeval_to_str tv_sec tv_usec dec =
     int10_to_str tv_sec 10 @
     (if dec \<noteq> 0 then ''.'' @ fmt_usec (wrap_uint (sec_part_shift tv_usec dec)) dec else '''')"

section \<open>The digits that are printed\<close>

lemma two_digit_numbers_take:
  "take 100 two_digit_numbers = map (\<lambda>n. 0x3030 + n mod 10 * 256 + n div 10) [0..99]"
  by code_simp

lemma fmt_number2_eq:
  assumes "0 \<le> v" "v < 100"
  shows "fmt_number2 v = [digit_char (v div 10), digit_char (v mod 10)]"
proof -
  have "two_digit_numbers ! nat v = take 100 two_digit_numbers ! nat v" using assms by simp
  also have "\<dots> = (v mod 10 + 48) * 256 + (48 + v div 10)"
    using assms unfolding two_digit_numbers_take by simp
  finally have e: "two_digit_numbers ! nat v = (v mod 10 + 48) * 256 + (48 + v div 10)" .
  have b: "0 \<le> 48 + v div 10" "48 + v div 10 < 256" using assms by auto
  have "two_digit_numbers ! nat v mod 256 = 48 + v div 10"
    "two_digit_numbers ! nat v div 256 = v mod 10 + 48"
    unfolding e by (rule int_mod_pos_eq [OF _ b, of _ "v mod 10 + 48"] int_div_pos_eq [OF _ b], simp)+
  then show ?thesis using assms by (simp add: fmt_number2_def digit_char_def add.commute)
qed

definition digits_of :: "nat \<Rightarrow> int \<Rightarrow> string \<Rightarrow> bool" where
  "digits_of n v s \<longleftrightarrow> length s = n \<and> all_digits s \<and> dec_val s = v"

lemma digits_of_append:
  "digits_of n v s \<Longrightarrow> digits_of m w t \<Longrightarrow> digits_of (n + m) (v * 10 ^ m + w) (s @ t)"
  by (auto simp: digits_of_def dec_val_append)

lemma digits_of_digit_char: "0 \<le> d \<Longrightarrow> d \<le> 9 \<Longrightarrow> digits_of 1 d [digit_char d]"
  by (simp add: digits_of_def)

lemma digits_of_fmt_number2:
  assumes "0 \<le> v" "v < 100"
  shows "digits_of 2 v (fmt_number2 v)"
proof -
  have "digits_of (1 + 1) (v div 10 * 10 ^ 1 + v mod 10) ([digit_char (v div 10)] @ [digit_char (v mod 10)])"
    using assms by (intro digits_of_append digits_of_digit_char) auto
  then show ?thesis using assms by (simp add: fmt_number2_eq numeral_2_eq_2)
qed

lemma digits_of_fmt_number4:
  assumes "0 \<le> v" "v < 10000"
  shows "digits_of 4 v (fmt_number4 v)"
proof -
  have b: "0 \<le> v div 100" "v div 100 < 100" "0 \<le> v mod 100" "v mod 100 < 100"
    and v: "v mod 65536 = v"
    using assms by auto
  have "digits_of (2 + 2) (v div 100 * 10 ^ 2 + v mod 100)
     (fmt_number2 (v div 100) @ fmt_number2 (v mod 100))"
    by (intro digits_of_append digits_of_fmt_number2 b)
  then show ?thesis by (simp add: fmt_number4_def v)
qed

lemma digits_of_fmt_number6:
  assumes "0 \<le> v" "v < 1000000"
  shows "digits_of 6 v (fmt_number6 v)"
proof -
  have b: "v div 10000 < 100" "0 \<le> v div 10000" "0 \<le> v mod 10000" "v mod 10000 < 10000"
    using assms by auto
  then have c: "v mod 10000 div 100 < 100" "0 \<le> v mod 10000 div 100"
    "0 \<le> v mod 10000 mod 100" "v mod 10000 mod 100 < 100" by auto
  have "digits_of (2 + 2) (v mod 10000 div 100 * 10 ^ 2 + v mod 10000 mod 100)
     (fmt_number2 (v mod 10000 div 100) @ fmt_number2 (v mod 10000 mod 100))"
    by (intro digits_of_append digits_of_fmt_number2 c)
  moreover have "v mod 10000 div 100 * 10 ^ 2 + v mod 10000 mod 100 = v mod 10000"
    using div_mult_mod_eq [of "v mod 10000" 100] by simp
  ultimately have "digits_of 4 (v mod 10000)
     (fmt_number2 (v mod 10000 div 100) @ fmt_number2 (v mod 10000 mod 100))" by simp
  from digits_of_append [OF digits_of_fmt_number2 [OF b(2,1)] this] show ?thesis
    unfolding fmt_number6_def Let_def by simp
qed

text \<open>A fraction printed with \<open>n\<close> digits.\<close>

lemma digits_of_fmt_usec:
  assumes "0 \<le> v" "v < 10 ^ n" "1 \<le> n" "n \<le> 6"
  shows "digits_of n v (fmt_usec v (int n))"
proof -
  consider "n = 1" | "n = 2" | "n = 3" | "n = 4" | "n = 5" | "n = 6" using assms by linarith
  then show ?thesis
  proof cases
    case 1
    with assms show ?thesis by (simp add: fmt_usec_def digits_of_def)
  next
    case 2
    with assms digits_of_fmt_number2 [of v] show ?thesis by (simp add: fmt_usec_def)
  next
    case 3
    with assms have b: "0 \<le> v div 100" "v div 100 < 10" "0 \<le> v mod 100" "v mod 100 < 100" by auto
    then have "v div 100 mod 10 = v div 100" by simp
    with 3 b digits_of_append [OF digits_of_digit_char digits_of_fmt_number2, of "v div 100" "v mod 100"]
    show ?thesis by (simp add: fmt_usec_def numeral_3_eq_3)
  next
    case 4
    with assms digits_of_fmt_number4 [of v] show ?thesis by (simp add: fmt_usec_def)
  next
    case 5
    with assms have b: "0 \<le> v div 10000" "v div 10000 < 10" "0 \<le> v mod 10000" "v mod 10000 < 10000" by auto
    then have "v div 10000 mod 10 = v div 10000" by simp
    with 5 b digits_of_append [OF digits_of_digit_char digits_of_fmt_number4, of "v div 10000" "v mod 10000"]
    show ?thesis by (simp add: fmt_usec_def)
  next
    case 6
    with assms digits_of_fmt_number6 [of v] show ?thesis by (simp add: fmt_usec_def)
  qed
qed

end
