(* ===== verification/TimeParse.thy ===== *)
theory TimeParse
  imports TimePrint
begin

text \<open>
  The parsers for DATE, DATETIME and TIME text, \<^verbatim>\<open>sql-common/my_time.c\<close>.  The pair of pointers
  \<open>str\<close> and \<open>end\<close> is the list of the characters between them, so that a function that moves \<open>str\<close>
  returns the characters that are left; a text is shorter than \<open>2 ^ 32\<close> characters.  Every other
  output parameter is a component of the result.
\<close>

section \<open>Scanning\<close>

record MYSQL_TIME_STATUS =
  st_warnings :: int
  st_precision :: int
  st_nanoseconds :: int

definition my_time_status_init :: MYSQL_TIME_STATUS where
  "my_time_status_init = \<lparr>st_warnings = 0, st_precision = 0, st_nanoseconds = 0\<rparr>"

definition add_warning :: "int \<Rightarrow> MYSQL_TIME_STATUS \<Rightarrow> MYSQL_TIME_STATUS" where
  "add_warning w status = status\<lparr>st_warnings := st_warnings status OR w\<rparr>"

fun get_number_loop :: "int \<Rightarrow> string \<Rightarrow> int \<times> string" where
  "get_number_loop val [] = (val, [])"
| "get_number_loop val (c # s) =
     (if my_isdigit c then get_number_loop (wrap_uint (val * 10 + digit_val c)) s
      else (val, c # s))"

definition get_number :: "int \<Rightarrow> int \<Rightarrow> string \<Rightarrow> bool \<times> int \<times> int \<times> string" where
  "get_number val number_of_fields str =
     (case str of
        [] \<Rightarrow> (False, val, number_of_fields, str)
      | c # s \<Rightarrow>
          if \<not> my_isdigit c then (True, val, number_of_fields, str)
          else case get_number_loop (digit_val c) s of
            (val, s) \<Rightarrow> (False, val, number_of_fields + 1, s))"

definition get_digits :: "int \<Rightarrow> int \<Rightarrow> string \<Rightarrow> nat \<Rightarrow> bool \<times> int \<times> int \<times> string" where
  "get_digits val number_of_fields str len =
     (case get_number val number_of_fields (take len str) of
        (r, val, number_of_fields, s) \<Rightarrow> (r, val, number_of_fields, s @ drop len str))"

definition get_punct :: "string \<Rightarrow> bool \<times> string" where
  "get_punct str =
     (case str of [] \<Rightarrow> (False, str) | c # s \<Rightarrow> if my_ispunct c then (False, s) else (True, str))"

definition get_date_time_separator :: "int \<Rightarrow> bool \<Rightarrow> string \<Rightarrow> bool \<times> int \<times> string" where
  "get_date_time_separator number_of_fields punct_is_date_time_separator str =
     (case str of
        [] \<Rightarrow> (False, number_of_fields, str)
      | c # s \<Rightarrow>
          if c = CHR ''T'' then (False, number_of_fields, s)
          else if my_ispunct c then
            if \<not> punct_is_date_time_separator then (True, 0, str)
            else (False, number_of_fields, s)
          else if \<not> my_isspace c then (True, number_of_fields, str)
          else (False, number_of_fields, dropWhile my_isspace s))"

definition get_maybe_T :: "string \<Rightarrow> bool \<times> string" where
  "get_maybe_T str =
     (False, case str of [] \<Rightarrow> str | c # s \<Rightarrow> if c = CHR ''T'' then s else str)"

definition skip_digits :: "string \<Rightarrow> nat \<times> string" where
  "skip_digits str = (length (takeWhile my_isdigit str), dropWhile my_isdigit str)"

definition get_microseconds ::
    "MYSQL_TIME_STATUS \<Rightarrow> int \<Rightarrow> string \<Rightarrow> int \<times> MYSQL_TIME_STATUS \<times> int \<times> string" where
  "get_microseconds status number_of_fields start =
     (case get_digits 0 number_of_fields start 6 of (r, tmp, number_of_fields, str) \<Rightarrow>
        let status = (if r then add_warning MYSQL_TIME_WARN_TRUNCATED status else status);
            len = length start - length str;
            status = status\<lparr>st_precision := int len\<rparr>;
            val = (if len < 6 then tmp * log_10_int ! (6 - len) else tmp);
            status = (if str \<noteq> [] \<and> my_isdigit (hd str)
              then status\<lparr>st_nanoseconds := 100 * digit_val (hd str)\<rparr> else status);
            (skipped, str) = skip_digits str;
            status = (if skipped \<noteq> 0 then add_warning MYSQL_TIME_NOTE_TRUNCATED status else status)
        in (val, status, number_of_fields, str))"

definition set_neg ::
    "bool \<Rightarrow> MYSQL_TIME_STATUS \<Rightarrow> MYSQL_TIME \<Rightarrow> bool \<times> MYSQL_TIME \<times> MYSQL_TIME_STATUS" where
  "set_neg neg st ltime =
     (let ltime = ltime\<lparr>t_neg := neg\<rparr>
      in if neg \<and> t_time_type ltime \<noteq> MYSQL_TIMESTAMP_TIME
         then (True, ltime, add_warning MYSQL_TIME_WARN_OUT_OF_RANGE st)
         else (False, ltime, st))"

text \<open>\<open>get_suffix\<close> goes from the end of the text to its start: the loop is on the reversed text.\<close>

fun get_suffix_loop :: "bool \<Rightarrow> string \<Rightarrow> bool \<times> string" where
  "get_suffix_loop garbage [] = (garbage, [])"
| "get_suffix_loop garbage (ch # s) =
     (if my_isdigit ch \<or> my_ispunct ch then (garbage, ch # s)
      else if my_isspace ch then get_suffix_loop garbage s
      else if ch = CHR ''T'' \<and> s \<noteq> [] \<and> my_isdigit (hd s) then (garbage, ch # s)
      else get_suffix_loop True s)"

definition get_suffix :: "string \<Rightarrow> bool \<times> string" where
  "get_suffix str = (case get_suffix_loop False (rev str) of (garbage, s) \<Rightarrow> (garbage, rev s))"

definition get_prefix :: "string \<Rightarrow> string" where
  "get_prefix str = dropWhile my_isspace str"

definition get_sign :: "string \<Rightarrow> bool \<times> string" where
  "get_sign str =
     (case str of
        [] \<Rightarrow> (False, str)
      | c # s \<Rightarrow> (c = CHR ''-'', if c = CHR ''-'' \<or> c = CHR ''+'' then s else str))"

text \<open>The result: no body found, the sign, the value, the warnings and the body.\<close>

definition find_body :: "string \<Rightarrow> MYSQL_TIME \<Rightarrow> bool \<times> bool \<times> MYSQL_TIME \<times> int \<times> string" where
  "find_body str to =
     (let str = get_prefix str;
          (neg, str) = get_sign str;
          str = get_prefix str;
          (garbage, str) = get_suffix str;
          warn = (if garbage then 0 OR MYSQL_TIME_WARN_TRUNCATED else 0)
      in if str = [] \<or> \<not> my_isdigit (hd str)
         then (True, neg, set_zero_time MYSQL_TIMESTAMP_ERROR, warn OR MYSQL_TIME_WARN_EDOM, str)
         else (False, neg, to, warn, str))"

record MYSQL_TIME_USED_CHAR_STATISTICS =
  count_punct :: nat
  count_colon :: nat
  count_iso_date_time_separator :: nat

definition mysql_time_used_char_statistics_init :: "string \<Rightarrow> MYSQL_TIME_USED_CHAR_STATISTICS" where
  "mysql_time_used_char_statistics_init str =
     \<lparr>count_punct = length (filter my_ispunct str),
      count_colon = length (filter (\<lambda>c. c = CHR '':'') str),
      count_iso_date_time_separator = length (filter (\<lambda>c. c = CHR ''T'') str)\<rparr>"

fun candidate_loop :: "bool \<Rightarrow> bool \<Rightarrow> nat \<Rightarrow> string \<Rightarrow> bool" where
  "candidate_loop allow_dates_delimited allow_dates_numeric cnt [] =
     (allow_dates_numeric \<and> cnt = 0)"
| "candidate_loop allow_dates_delimited allow_dates_numeric cnt (c # s) =
     (if c = CHR ''T'' then True
      else if c = CHR '' '' then cnt > 0
      else if my_ispunct c then
        if allow_dates_delimited \<and> c \<noteq> CHR '':'' then True
        else candidate_loop allow_dates_delimited allow_dates_numeric (cnt + 1) s
      else candidate_loop allow_dates_delimited allow_dates_numeric cnt s)"

definition is_datetime_body_candidate :: "string \<Rightarrow> bool \<Rightarrow> bool \<Rightarrow> bool" where
  "is_datetime_body_candidate str allow_dates_delimited allow_dates_numeric =
     (let min_date_length = 5;
          date_time_separator_length = (if \<not> allow_dates_delimited then 1 else 0)
      in if length str \<ge> 12 then True
         else if length str < min_date_length + date_time_separator_length \<and> \<not> allow_dates_numeric
         then False
         else candidate_loop allow_dates_delimited allow_dates_numeric 0 str)"

section \<open>DATE and DATETIME\<close>

text \<open>
  The chains of \<open>||\<close> in the source: a state of the value, the number of fields and the text is
  passed on until a step fails.
\<close>

type_synonym scan = "MYSQL_TIME \<times> int \<times> string"

fun until_error :: "('s \<Rightarrow> bool \<times> 's) list \<Rightarrow> 's \<Rightarrow> bool \<times> 's" where
  "until_error [] s = (False, s)"
| "until_error (f # fs) s = (case f s of (r, s) \<Rightarrow> if r then (True, s) else until_error fs s)"

definition number_step ::
    "(MYSQL_TIME \<Rightarrow> int) \<Rightarrow> (int \<Rightarrow> MYSQL_TIME \<Rightarrow> MYSQL_TIME) \<Rightarrow> scan \<Rightarrow> bool \<times> scan" where
  "number_step field set_field = (\<lambda>(l_time, number_of_fields, str).
     case get_number (field l_time) number_of_fields str of
       (r, val, number_of_fields, str) \<Rightarrow> (r, set_field val l_time, number_of_fields, str))"

definition digits_step ::
    "(MYSQL_TIME \<Rightarrow> int) \<Rightarrow> (int \<Rightarrow> MYSQL_TIME \<Rightarrow> MYSQL_TIME) \<Rightarrow> nat \<Rightarrow> scan \<Rightarrow> bool \<times> scan" where
  "digits_step field set_field len = (\<lambda>(l_time, number_of_fields, str).
     case get_digits (field l_time) number_of_fields str len of
       (r, val, number_of_fields, str) \<Rightarrow> (r, set_field val l_time, number_of_fields, str))"

definition text_step :: "(string \<Rightarrow> bool \<times> string) \<Rightarrow> scan \<Rightarrow> bool \<times> scan" where
  "text_step f = (\<lambda>(l_time, number_of_fields, str).
     case f str of (r, str) \<Rightarrow> (r, l_time, number_of_fields, str))"

definition separator_step :: "bool \<Rightarrow> scan \<Rightarrow> bool \<times> scan" where
  "separator_step punct_is_date_time_separator = (\<lambda>(l_time, number_of_fields, str).
     case get_date_time_separator number_of_fields punct_is_date_time_separator str of
       (r, number_of_fields, str) \<Rightarrow> (r, l_time, number_of_fields, str))"

definition set_year :: "int \<Rightarrow> MYSQL_TIME \<Rightarrow> MYSQL_TIME" where "set_year v t = t\<lparr>t_year := v\<rparr>"
definition set_month :: "int \<Rightarrow> MYSQL_TIME \<Rightarrow> MYSQL_TIME" where "set_month v t = t\<lparr>t_month := v\<rparr>"
definition set_day :: "int \<Rightarrow> MYSQL_TIME \<Rightarrow> MYSQL_TIME" where "set_day v t = t\<lparr>t_day := v\<rparr>"
definition set_hour :: "int \<Rightarrow> MYSQL_TIME \<Rightarrow> MYSQL_TIME" where "set_hour v t = t\<lparr>t_hour := v\<rparr>"
definition set_minute :: "int \<Rightarrow> MYSQL_TIME \<Rightarrow> MYSQL_TIME" where "set_minute v t = t\<lparr>t_minute := v\<rparr>"
definition set_second :: "int \<Rightarrow> MYSQL_TIME \<Rightarrow> MYSQL_TIME" where "set_second v t = t\<lparr>t_second := v\<rparr>"

text \<open>The number of digits of a value in the internal format, and what follows that part.\<close>

definition internal_format :: "string \<Rightarrow> nat \<times> string" where
  "internal_format str =
     (let (digits, pos) = skip_digits str;
          (digits, pos) = (if pos \<noteq> [] \<and> hd pos = CHR ''T''
            then (case skip_digits (tl pos) of (n, pos) \<Rightarrow> (digits + n, pos)) else (digits, pos));
          pos = (if pos \<noteq> [] \<and> hd pos = CHR ''.'' \<and> digits \<ge> 12
            then snd (skip_digits (tl pos)) else pos)
      in (digits, pos))"

definition scan_internal :: "nat \<Rightarrow> scan \<Rightarrow> bool \<times> scan" where
  "scan_internal year_length = until_error
     [digits_step t_year set_year year_length, digits_step t_month set_month 2,
      digits_step t_day set_day 2, text_step get_maybe_T, digits_step t_hour set_hour 2,
      digits_step t_minute set_minute 2, digits_step t_second set_second 2]"

definition scan_delimited :: "bool \<Rightarrow> scan \<Rightarrow> bool \<times> scan" where
  "scan_delimited punct_is_date_time_separator = until_error
     [text_step get_punct, number_step t_month set_month, text_step get_punct,
      number_step t_day set_day, separator_step punct_is_date_time_separator,
      number_step t_hour set_hour, text_step get_punct, number_step t_minute set_minute,
      text_step get_punct, number_step t_second set_second]"

text \<open>The fields up to the seconds: the warnings, the length of the year and the state.\<close>

definition scan_fields :: "bool \<Rightarrow> string \<Rightarrow> int \<times> nat \<times> scan" where
  "scan_fields punct_is_date_time_separator str =
     (let l_time = set_zero_time MYSQL_TIMESTAMP_DATE;
          (digits, pos) = internal_format str
      in if pos = [] then
           let year_length = (if digits = 4 \<or> digits = 8 \<or> digits \<ge> 14 then 4 else 2)
           in case scan_internal year_length (l_time, 0, str) of
                (r, s) \<Rightarrow> (if r then MYSQL_TIME_WARN_TRUNCATED else 0, year_length, s)
         else
           case number_step t_year set_year (l_time, 0, str) of (r, l_time, number_of_fields, s) \<Rightarrow>
             let year_length = length str - length s
             in if r then (MYSQL_TIME_WARN_TRUNCATED, year_length, l_time, number_of_fields, s)
                else case scan_delimited punct_is_date_time_separator (l_time, number_of_fields, s) of
                  (r, s) \<Rightarrow> (if r then MYSQL_TIME_WARN_TRUNCATED else 0, year_length, s))"

text \<open>
  The result: error, the value, the status, the number of fields and the text from \<open>endptr\<close> on.
  \<open>bzero\<close> makes the type of the value \<open>MYSQL_TIMESTAMP_DATE\<close>, which is 0.
\<close>

definition datetime_checks ::
    "MYSQL_TIME \<Rightarrow> nat \<Rightarrow> int \<Rightarrow> MYSQL_TIME_STATUS \<Rightarrow> int \<Rightarrow> string \<Rightarrow>
     bool \<times> MYSQL_TIME \<times> MYSQL_TIME_STATUS" where
  "datetime_checks l_time year_length flags status number_of_fields str =
     (let not_zero_date = (t_year l_time \<noteq> 0 \<or> t_month l_time \<noteq> 0 \<or> t_day l_time \<noteq> 0 \<or>
            t_hour l_time \<noteq> 0 \<or> t_minute l_time \<noteq> 0 \<or> t_second l_time \<noteq> 0 \<or>
            t_second_part l_time \<noteq> 0);
          l_time = (if year_length = 2 \<and> not_zero_date
            then l_time\<lparr>t_year := t_year l_time + (if t_year l_time < YY_PART_YEAR then 2000 else 1900)\<rparr>
            else l_time)
      in if t_year l_time > 9999 \<or> t_month l_time > 12 \<or> t_day l_time > 31 \<or>
            t_hour l_time > 23 \<or> t_minute l_time > 59 \<or> t_second l_time > 59
         then (True, set_zero_time MYSQL_TIMESTAMP_ERROR, add_warning MYSQL_TIME_WARN_TRUNCATED status)
         else case check_date l_time not_zero_date flags (st_warnings status) of (bad, was_cut) \<Rightarrow>
           let status = status\<lparr>st_warnings := was_cut\<rparr>
           in if bad then (True, set_zero_time MYSQL_TIMESTAMP_ERROR, status)
              else (False,
                l_time\<lparr>t_time_type := if number_of_fields \<le> 3 then MYSQL_TIMESTAMP_DATE
                         else MYSQL_TIMESTAMP_DATETIME\<rparr>,
                if str \<noteq> [] then status\<lparr>st_warnings := MYSQL_TIME_WARN_TRUNCATED\<rparr> else status))"

definition str_to_datetime_or_date_body ::
    "string \<Rightarrow> int \<Rightarrow> bool \<Rightarrow> MYSQL_TIME_STATUS \<Rightarrow>
     bool \<times> MYSQL_TIME \<times> MYSQL_TIME_STATUS \<times> int \<times> string" where
  "str_to_datetime_or_date_body str flags punct_is_date_time_separator status =
     (case scan_fields punct_is_date_time_separator str of
        (warn, year_length, l_time, number_of_fields, str) \<Rightarrow>
        let status = add_warning warn status
        in if number_of_fields < 3
           then (True, l_time\<lparr>t_time_type := MYSQL_TIMESTAMP_NONE\<rparr>,
                 add_warning MYSQL_TIME_WARN_TRUNCATED status, number_of_fields, str)
           else
             let (l_time, status, number_of_fields, str) =
               (if warn = 0 \<and> str \<noteq> [] \<and> hd str = CHR ''.''
                then case get_microseconds status number_of_fields (tl str) of
                  (val, status, number_of_fields, str) \<Rightarrow>
                    (l_time\<lparr>t_second_part := val\<rparr>, status, number_of_fields, str)
                else (l_time, status, number_of_fields, str))
             in case datetime_checks l_time year_length flags status number_of_fields str of
                  (r, l_time, status) \<Rightarrow> (r, l_time, status, number_of_fields, str))"

section \<open>TIME\<close>

definition time_separator :: char where "time_separator = CHR '':''"

definition internal_format_positions :: "int list" where
  "internal_format_positions = [0, 1, 2, 3, 4, 5, 6, 255]"

definition UINT_MAX :: int where "UINT_MAX = 0xFFFFFFFF"

text \<open>The leading number: the value, or that it is too large, and the text where the loop stops.\<close>

fun days_loop :: "int \<Rightarrow> string \<Rightarrow> bool \<times> int \<times> string" where
  "days_loop value [] = (False, value, [])"
| "days_loop value (c # s) =
     (if my_isdigit c then
        let value = wrap_ulong (value * 10 + digit_val c)
        in if value \<ge> 42949672955959 then (True, value, c # s) else days_loop value s
      else (False, value, c # s))"

fun value_loop :: "int \<Rightarrow> string \<Rightarrow> int \<times> string" where
  "value_loop value [] = (value, [])"
| "value_loop value (c # s) =
     (if my_isdigit c then value_loop (wrap_ulong (value * 10 + digit_val c)) s else (value, c # s))"

lemma value_loop_length: "length (snd (value_loop v s)) \<le> length s"
  by (induction s arbitrary: v) (auto intro: le_SucI)

text \<open>Hours, minutes and seconds go into \<open>date\<close> from the position \<open>state\<close> on.\<close>

function hms_loop :: "int list \<Rightarrow> nat \<Rightarrow> string \<Rightarrow> int list \<times> nat \<times> string" where
  "hms_loop date state str =
     (let (value, s) = value_loop 0 str;
          date = date[state := value];
          state = state + 1
      in if state = 4 \<or> length s < 2 \<or> hd s \<noteq> time_separator \<or> \<not> my_isdigit (s ! 1)
         then (date, state, s)
         else hms_loop date state (tl s))"
  by pat_completeness auto
termination
proof (relation "measure (\<lambda>(_, _, s). length s)")
  fix date date' :: "int list" and str s p and v :: int and state state' :: nat
  assume "p = value_loop 0 str" "(v, s) = p"
    "\<not> (state' = 4 \<or> length s < 2 \<or> hd s \<noteq> time_separator \<or> \<not> my_isdigit (s ! 1))"
  with value_loop_length [of 0 str] show "((date', state', tl s), date, state, str) \<in> measure (\<lambda>(_, _, s). length s)"
    by (cases "value_loop 0 str") auto
qed simp

declare hms_loop.simps [simp del]

definition is_exponent :: "string \<Rightarrow> bool" where
  "is_exponent str \<longleftrightarrow>
     length str > 1 \<and> (hd str = CHR ''e'' \<or> hd str = CHR ''E'') \<and>
     (my_isdigit (str ! 1) \<or>
      ((str ! 1 = CHR ''-'' \<or> str ! 1 = CHR ''+'') \<and> length str > 2 \<and> my_isdigit (str ! 2)))"

definition read_am_pm :: "int list \<Rightarrow> string \<Rightarrow> int list \<times> string" where
  "read_am_pm date str =
     (if internal_format_positions ! 7 \<noteq> 255 then
        let str = dropWhile my_isspace str
        in if 2 \<le> length str \<and> (str ! 1 = CHR ''M'' \<or> str ! 1 = CHR ''m'') then
             if hd str = CHR ''p'' \<or> hd str = CHR ''P'' then (date[1 := date ! 1 mod 12 + 12], drop 2 str)
             else if hd str = CHR ''a'' \<or> hd str = CHR ''A'' then (date, drop 2 str)
             else (date, str)
           else (date, str)
      else (date, str))"

text \<open>
  From the label \<open>fractional\<close> on.  The result: error, the value, the status and the text from
  \<open>endptr\<close> on.
\<close>

definition fractional ::
    "int list \<Rightarrow> MYSQL_TIME \<Rightarrow> int \<Rightarrow> int \<Rightarrow> MYSQL_TIME_STATUS \<Rightarrow> string \<Rightarrow>
     bool \<times> MYSQL_TIME \<times> MYSQL_TIME_STATUS \<times> string" where
  "fractional date l_time max_hour err_hour status str =
     (let (date, status, str) =
        (if str \<noteq> [] \<and> hd str = CHR ''.''
         then case get_microseconds status 0 (tl str) of
           (val, status, _, str) \<Rightarrow> (date[4 := val], status, str)
         else (date[4 := 0], status, str))
      in if is_exponent str then (True, l_time, add_warning MYSQL_TIME_WARN_TRUNCATED status, str)
         else
           let (date, str) = read_am_pm date str
           in if date ! 0 > UINT_MAX \<or> date ! 1 > UINT_MAX \<or> date ! 2 > UINT_MAX \<or>
                 date ! 3 > UINT_MAX \<or> date ! 4 > UINT_MAX
              then (True, l_time, add_warning MYSQL_TIME_WARN_OUT_OF_RANGE status, str)
              else if date ! 0 * 24 + date ! 1 > UINT_MAX32
              then (True, l_time, add_warning MYSQL_TIME_WARN_OUT_OF_RANGE status, str)
              else
                let l_time = l_time\<lparr>t_year := 0, t_month := 0, t_day := 0,
                      t_hour := date ! 1 + date ! 0 * 24, t_minute := date ! 2,
                      t_second := date ! 3, t_second_part := date ! 4,
                      t_time_type := MYSQL_TIMESTAMP_TIME\<rparr>
                in case check_time_range_internal l_time max_hour err_hour 6 (st_warnings status) of
                  (r, l_time, warning) \<Rightarrow>
                    let status = status\<lparr>st_warnings := warning\<rparr>
                    in if r then (True, l_time, status, str)
                       else (False, l_time,
                         if str \<noteq> [] then add_warning MYSQL_TIME_WARN_TRUNCATED status else status, str))"

text \<open>
  The array \<open>date\<close> starts without defined contents; every entry is written before it is read.  At
  the end of the loop either days or hours were found, so that the fields from \<open>state\<close> to the
  seconds are cleared.
\<close>

definition hms_fields :: "int list \<Rightarrow> nat \<Rightarrow> string \<Rightarrow> int list \<times> string" where
  "hms_fields date state str =
     (case hms_loop date state str of (date, state, str) \<Rightarrow>
        (if state \<noteq> 4 then take state date @ replicate (4 - state) 0 @ drop 4 date else date, str))"

definition str_to_DDhhmmssff_internal ::
    "bool \<Rightarrow> string \<Rightarrow> MYSQL_TIME \<Rightarrow> int \<Rightarrow> int \<Rightarrow> MYSQL_TIME_STATUS \<Rightarrow>
     bool \<times> MYSQL_TIME \<times> MYSQL_TIME_STATUS \<times> string" where
  "str_to_DDhhmmssff_internal neg str l_time max_hour err_hour status =
     (let l_time = l_time\<lparr>t_neg := neg\<rparr>
      in case days_loop 0 str of (overflow, value, end_of_days) \<Rightarrow>
        if overflow
        then (True, l_time, add_warning MYSQL_TIME_WARN_OUT_OF_RANGE status, end_of_days)
        else
          let str = dropWhile my_isspace end_of_days
          in if length str > 1 \<and> length str \<noteq> length end_of_days \<and> my_isdigit (hd str) then
               case hms_fields [value, 0, 0, 0, 0] 1 str of
                 (date, str) \<Rightarrow> fractional date l_time max_hour err_hour status str
             else if length str > 1 \<and> hd str = time_separator \<and> my_isdigit (str ! 1) then
               if value \<ge> UINT_MAX32
               then (True, l_time, add_warning MYSQL_TIME_WARN_OUT_OF_RANGE status, str)
               else case hms_fields [0, value, 0, 0, 0] 2 (tl str) of
                 (date, str) \<Rightarrow> fractional date l_time max_hour err_hour status str
             else
               fractional [0, value div 10000, value div 100 mod 100, value mod 100, 0]
                 l_time max_hour err_hour status str)"

section \<open>Entry points\<close>

text \<open>
  The results from here on: error, the value and the status.  The outcome of the first attempt as a
  DATETIME decides whether its result is final (\<open>Some\<close> with the return value) or the text is parsed
  again as a TIME.
\<close>

definition datetime_attempt :: "bool \<Rightarrow> string \<Rightarrow> MYSQL_TIME \<Rightarrow> int \<Rightarrow> string \<Rightarrow> bool option" where
  "datetime_attempt allow_dates_numeric str l_time number_of_fields endptr =
     (let used_chars = mysql_time_used_char_statistics_init (take (length str - length endptr) str)
      in case t_time_type l_time of
           MYSQL_TIMESTAMP_DATETIME \<Rightarrow> Some False
         | MYSQL_TIMESTAMP_DATE \<Rightarrow>
             if count_iso_date_time_separator used_chars \<noteq> 0 \<or> count_colon used_chars = 0
             then Some False else None
         | MYSQL_TIMESTAMP_ERROR \<Rightarrow>
             if number_of_fields > 3 then Some True
             else if count_iso_date_time_separator used_chars \<noteq> 0 \<or> count_colon used_chars = 0
             then Some True else None
         | MYSQL_TIMESTAMP_NONE \<Rightarrow>
             if allow_dates_numeric \<and> endptr = [] \<and>
                count_iso_date_time_separator used_chars = 0 \<and> count_colon used_chars = 0 \<and>
                count_punct used_chars = 0
             then Some True else None
         | MYSQL_TIMESTAMP_TIME \<Rightarrow> None)"

definition str_to_datetime_or_date_or_time_body ::
    "string \<Rightarrow> MYSQL_TIME \<Rightarrow> int \<Rightarrow> MYSQL_TIME_STATUS \<Rightarrow> int \<Rightarrow> int \<Rightarrow> bool \<Rightarrow> bool \<Rightarrow>
     bool \<times> MYSQL_TIME \<times> MYSQL_TIME_STATUS" where
  "str_to_datetime_or_date_or_time_body str l_time fuzzydate status time_max_hour time_err_hour
       allow_dates_delimited allow_dates_numeric =
     (let as_time = (\<lambda>l_time status.
            case str_to_DDhhmmssff_internal False str l_time time_max_hour time_err_hour status of
              (r, l_time, status, _) \<Rightarrow>
                if \<not> r then (False, l_time, status)
                else (True, set_zero_time MYSQL_TIMESTAMP_ERROR, status))
      in if is_datetime_body_candidate str allow_dates_delimited allow_dates_numeric then
           let warn_copy = st_warnings status
           in case str_to_datetime_or_date_body str fuzzydate False status of
                (_, l_time, status, number_of_fields, endptr) \<Rightarrow>
                  case datetime_attempt allow_dates_numeric str l_time number_of_fields endptr of
                    Some r \<Rightarrow> (r, l_time, status)
                  | None \<Rightarrow> as_time l_time (my_time_status_init\<lparr>st_warnings := warn_copy\<rparr>)
         else as_time l_time status)"

definition str_to_DDhhmmssff ::
    "string \<Rightarrow> MYSQL_TIME \<Rightarrow> int \<Rightarrow> bool \<times> MYSQL_TIME \<times> MYSQL_TIME_STATUS" where
  "str_to_DDhhmmssff str ltime max_hour =
     (case find_body str ltime of (r, neg, ltime, warn, str) \<Rightarrow>
        let status = my_time_status_init\<lparr>st_warnings := warn\<rparr>;
            scan_time = (\<lambda>ltime status.
              case str_to_DDhhmmssff_internal neg str ltime max_hour UINT_MAX32 status of
                (r, ltime, status, endptr) \<Rightarrow>
                  (r \<or> (endptr \<noteq> [] \<and> hd endptr = CHR ''-''), ltime, status))
        in if r then (True, ltime, status)
           else if is_datetime_body_candidate str False False then
             case str_to_datetime_or_date_body str 0 False status of (_, ltime, status, _, _) \<Rightarrow>
               if t_time_type ltime \<noteq> MYSQL_TIMESTAMP_NONE \<and> t_time_type ltime \<noteq> MYSQL_TIMESTAMP_ERROR
               then (True, ltime\<lparr>t_time_type := MYSQL_TIMESTAMP_NONE\<rparr>,
                     add_warning MYSQL_TIME_WARN_TRUNCATED status)
               else scan_time ltime my_time_status_init
           else scan_time ltime status)"

definition str_to_time_or_dates ::
    "bool \<Rightarrow> bool \<Rightarrow> string \<Rightarrow> MYSQL_TIME \<Rightarrow> int \<Rightarrow> int \<Rightarrow> int \<Rightarrow>
     bool \<times> MYSQL_TIME \<times> MYSQL_TIME_STATUS" where
  "str_to_time_or_dates allow_dates_delimited allow_dates_numeric str to mode time_max_hour time_err_hour =
     (case find_body str to of (r, neg, to, warn, str) \<Rightarrow>
        let status = my_time_status_init\<lparr>st_warnings := warn\<rparr>
        in if r then (True, to, status)
           else case str_to_datetime_or_date_or_time_body str to mode status time_max_hour time_err_hour
                  allow_dates_delimited allow_dates_numeric of
             (r, to, status) \<Rightarrow> if r then (True, to, status) else set_neg neg status to)"

definition str_to_datetime_or_date_or_time ::
    "string \<Rightarrow> MYSQL_TIME \<Rightarrow> int \<Rightarrow> int \<Rightarrow> int \<Rightarrow> bool \<times> MYSQL_TIME \<times> MYSQL_TIME_STATUS" where
  "str_to_datetime_or_date_or_time = str_to_time_or_dates False False"

definition str_to_datetime_or_date_or_interval_hhmmssff ::
    "string \<Rightarrow> MYSQL_TIME \<Rightarrow> int \<Rightarrow> int \<Rightarrow> int \<Rightarrow> bool \<times> MYSQL_TIME \<times> MYSQL_TIME_STATUS" where
  "str_to_datetime_or_date_or_interval_hhmmssff = str_to_time_or_dates True False"

definition str_to_datetime_or_date_or_interval_day ::
    "string \<Rightarrow> MYSQL_TIME \<Rightarrow> int \<Rightarrow> int \<Rightarrow> int \<Rightarrow> bool \<times> MYSQL_TIME \<times> MYSQL_TIME_STATUS" where
  "str_to_datetime_or_date_or_interval_day = str_to_time_or_dates True True"

definition str_to_datetime_or_date ::
    "string \<Rightarrow> MYSQL_TIME \<Rightarrow> int \<Rightarrow> bool \<times> MYSQL_TIME \<times> MYSQL_TIME_STATUS" where
  "str_to_datetime_or_date str l_time flags =
     (case find_body str l_time of (r, neg, l_time, warn, str) \<Rightarrow>
        let status = my_time_status_init\<lparr>st_warnings := warn\<rparr>
        in if r then (True, l_time, status)
           else case str_to_datetime_or_date_body str flags True status of
             (r, l_time, status, _, _) \<Rightarrow> if r then (True, l_time, status) else set_neg neg status l_time)"

end
