(* ===== verification/TimeText.thy ===== *)
theory TimeText
  imports TimeParse
begin

text \<open>
  What the parsers of \<^verbatim>\<open>sql-common/my_time.c\<close> do: they read back what the printing functions write,
  and a value they accept is in the range of its type, whatever the text.
\<close>

section \<open>Reading printed numbers\<close>

lemma separator_chars [simp]:
  "\<not> my_isdigit CHR ''-''" "\<not> my_isdigit CHR '':''" "\<not> my_isdigit CHR '' ''" "\<not> my_isdigit CHR ''.''"
  "\<not> my_isdigit CHR ''T''" "\<not> my_isdigit CHR ''+''"
  "my_ispunct CHR ''-''" "my_ispunct CHR '':''" "my_ispunct CHR ''.''" "\<not> my_ispunct CHR '' ''"
  "my_isspace CHR '' ''" "\<not> my_isspace CHR ''-''" "\<not> my_isspace CHR '':''" "\<not> my_isspace CHR ''.''"
  by (simp_all add: my_isdigit_nat my_ispunct_nat my_isspace_nat latin1_punct_def of_char_def)

lemma stops_simps [simp]: "stops []" "stops (c # s) \<longleftrightarrow> \<not> my_isdigit c"
  by (simp_all add: stops_def)

lemma digits_of_bounds: "digits_of n v s \<Longrightarrow> 0 \<le> v \<and> v < 10 ^ n"
  using dec_val_bounds [of s] by (auto simp: digits_of_def)

lemma digits_of_hd: "digits_of n v s \<Longrightarrow> 0 < n \<Longrightarrow> s \<noteq> [] \<and> my_isdigit (hd s) \<and> my_isdigit (last s)"
  by (cases s rule: rev_cases) (auto simp: digits_of_def all_digits_def list_all_iff hd_append)

lemma next_digit:
  assumes "all_digits (c # ds)" "0 \<le> v"
  obtains w where "w = v * 10 + digit_val c" "0 \<le> w"
    "v * 10 ^ length (c # ds) + dec_val (c # ds) = w * 10 ^ length ds + dec_val ds"
    "w \<le> w * 10 ^ length ds + dec_val ds"
proof
  define w where "w = v * 10 + digit_val c"
  have b: "0 \<le> w" "0 \<le> dec_val ds"
    using assms dec_val_bounds [of ds] by (simp_all add: w_def my_isdigit_iff)
  have "w * 1 \<le> w * 10 ^ length ds" using b by (intro mult_left_mono) auto
  with b have "w \<le> w * 10 ^ length ds + dec_val ds" by linarith
  then show "0 \<le> v * 10 + digit_val c"
    "v * 10 + digit_val c \<le> (v * 10 + digit_val c) * 10 ^ length ds + dec_val ds"
    using b by (simp_all only: w_def)
qed (simp_all add: algebra_simps)

lemma get_number_loop_digits:
  "all_digits ds \<Longrightarrow> stops r \<Longrightarrow> 0 \<le> v \<Longrightarrow> v * 10 ^ length ds + dec_val ds < 4294967296 \<Longrightarrow>
   get_number_loop v (ds @ r) = (v * 10 ^ length ds + dec_val ds, r)"
proof (induction ds arbitrary: v)
  case Nil
  then show ?case by (cases r) auto
next
  case (Cons c ds)
  from Cons.prems(1,3) obtain w where w: "w = v * 10 + digit_val c" and b: "0 \<le> w"
    and e: "v * 10 ^ length (c # ds) + dec_val (c # ds) = w * 10 ^ length ds + dec_val ds"
    and le: "w \<le> w * 10 ^ length ds + dec_val ds"
    by (rule next_digit)
  with e b le Cons.prems have "wrap_uint w = w" by (intro wrap_uint_id) auto
  moreover have "get_number_loop w (ds @ r) = (w * 10 ^ length ds + dec_val ds, r)"
    using Cons.IH [of w] Cons.prems b e by simp
  ultimately show ?case using Cons.prems(1) unfolding e by (simp add: w)
qed

lemma get_number_digits:
  assumes "digits_of n v ds" "0 < n" "n \<le> 9" "stops r"
  shows "get_number x k (ds @ r) = (False, v, k + 1, r)"
proof -
  obtain c ds' where ds: "ds = c # ds'" using assms by (cases ds) (auto simp: digits_of_def)
  have "(10 :: int) ^ n \<le> 10 ^ 9" using assms(3) by (intro power_increasing) auto
  then have "v < 4294967296" using digits_of_bounds [OF assms(1)] by simp
  moreover have "0 \<le> digit_val c" using assms(1) ds by (simp add: digits_of_def my_isdigit_iff)
  ultimately have "get_number_loop (digit_val c) (ds' @ r) = (v, r)"
    using get_number_loop_digits [of ds' r "digit_val c"] assms(1,4) ds by (simp add: digits_of_def)
  then show ?thesis using assms(1) ds by (simp add: get_number_def digits_of_def)
qed

lemma get_digits_digits:
  assumes "digits_of n v ds" "0 < n" "n \<le> m" "m \<le> 9" "stops r"
  shows "get_digits x k (ds @ r) m = (False, v, k + 1, r)"
proof -
  have l: "length ds = n" using assms(1) by (simp add: digits_of_def)
  have "stops (take (m - n) r)" using assms(5) by (cases r; cases "m - n") auto
  with get_number_digits [OF assms(1,2), of "take (m - n) r" x k] assms(3,4)
  show ?thesis by (simp add: get_digits_def l)
qed

lemma value_loop_digits:
  "all_digits ds \<Longrightarrow> stops r \<Longrightarrow> 0 \<le> v \<Longrightarrow> v * 10 ^ length ds + dec_val ds < 18446744073709551616 \<Longrightarrow>
   value_loop v (ds @ r) = (v * 10 ^ length ds + dec_val ds, r)"
proof (induction ds arbitrary: v)
  case Nil
  then show ?case by (cases r) auto
next
  case (Cons c ds)
  from Cons.prems(1,3) obtain w where w: "w = v * 10 + digit_val c" and b: "0 \<le> w"
    and e: "v * 10 ^ length (c # ds) + dec_val (c # ds) = w * 10 ^ length ds + dec_val ds"
    and le: "w \<le> w * 10 ^ length ds + dec_val ds"
    by (rule next_digit)
  with e b le Cons.prems have "wrap_ulong w = w" by (intro wrap_ulong_id) auto
  moreover have "value_loop w (ds @ r) = (w * 10 ^ length ds + dec_val ds, r)"
    using Cons.IH [of w] Cons.prems b e by simp
  ultimately show ?case using Cons.prems(1) unfolding e by (simp add: w)
qed

lemma days_loop_digits:
  "all_digits ds \<Longrightarrow> stops r \<Longrightarrow> 0 \<le> v \<Longrightarrow> v * 10 ^ length ds + dec_val ds < 42949672955959 \<Longrightarrow>
   days_loop v (ds @ r) = (False, v * 10 ^ length ds + dec_val ds, r)"
proof (induction ds arbitrary: v)
  case Nil
  then show ?case by (cases r) auto
next
  case (Cons c ds)
  from Cons.prems(1,3) obtain w where w: "w = v * 10 + digit_val c" and b: "0 \<le> w"
    and e: "v * 10 ^ length (c # ds) + dec_val (c # ds) = w * 10 ^ length ds + dec_val ds"
    and le: "w \<le> w * 10 ^ length ds + dec_val ds"
    by (rule next_digit)
  with e b le Cons.prems have "wrap_ulong w = w" "w < 42949672955959" by (auto intro!: wrap_ulong_id)
  moreover have "days_loop w (ds @ r) = (False, w * 10 ^ length ds + dec_val ds, r)"
    using Cons.IH [of w] Cons.prems b e by simp
  ultimately show ?case using Cons.prems(1) unfolding e by (simp add: w Let_def)
qed

lemma skip_digits_text: "all_digits ds \<Longrightarrow> stops r \<Longrightarrow> skip_digits (ds @ r) = (length ds, r)"
  by (induction ds) (auto simp: skip_digits_def stops_def split: list.splits)

section \<open>The body of a text\<close>

lemma digit_not_space: "my_isdigit c \<Longrightarrow> \<not> my_isspace c"
  by (simp add: digit_not_punct)

lemma digit_not_char [simp]: "my_isdigit c \<Longrightarrow> c \<noteq> CHR ''-'' \<and> c \<noteq> CHR ''+'' \<and> c \<noteq> CHR ''T''"
  by auto

lemma get_suffix_digit: "s \<noteq> [] \<Longrightarrow> my_isdigit (last s) \<Longrightarrow> get_suffix s = (False, s)"
  by (cases s rule: rev_cases) (auto simp: get_suffix_def)

lemma find_body_text:
  assumes "s \<noteq> []" "my_isdigit (hd s)" "my_isdigit (last s)"
  shows "find_body s to = (False, False, to, 0, s)"
    and "find_body (CHR ''-'' # s) to = (False, True, to, 0, s)"
proof -
  obtain c s' where s: "s = c # s'" using assms by (cases s) auto
  with assms have c: "my_isdigit c" "\<not> my_isspace c" "c \<noteq> CHR ''-''" "c \<noteq> CHR ''+''"
    by (auto simp: digit_not_space)
  have "get_prefix s = s" "get_sign s = (False, s)" "get_prefix (CHR ''-'' # s) = CHR ''-'' # s"
    "get_sign (CHR ''-'' # s) = (True, s)"
    using s c by (simp_all add: get_prefix_def get_sign_def)
  then show "find_body s to = (False, False, to, 0, s)"
    "find_body (CHR ''-'' # s) to = (False, True, to, 0, s)"
    using assms by (simp_all add: find_body_def get_suffix_digit)
qed

lemma log_10_int_nth: "n < 20 \<Longrightarrow> log_10_int ! n = 10 ^ n"
proof -
  have "\<forall>n \<in> set [0..<20]. log_10_int ! n = 10 ^ n" by code_simp
  then show "n < 20 \<Longrightarrow> log_10_int ! n = 10 ^ n" by auto
qed

lemma get_microseconds_digits:
  assumes "digits_of n v ds" "0 < n" "n \<le> 6" "stops r"
  shows "get_microseconds st k (ds @ r) = (v * 10 ^ (6 - n), st\<lparr>st_precision := int n\<rparr>, k + 1, r)"
proof -
  have "get_digits 0 k (ds @ r) 6 = (False, v, k + 1, r)"
    using assms by (intro get_digits_digits) auto
  moreover have "skip_digits r = (0, r)" using skip_digits_text [of "[]" r] assms(4) by simp
  moreover have "\<not> (r \<noteq> [] \<and> my_isdigit (hd r))" using assms(4) by (cases r) auto
  moreover have "length (ds @ r) - length r = n" using assms(1) by (simp add: digits_of_def)
  ultimately show ?thesis
    using assms by (auto simp: get_microseconds_def log_10_int_nth Let_def)
qed

section \<open>Printed values\<close>

text \<open>The fraction of a printed value, and what it is read as.\<close>

definition fraction_text :: "MYSQL_TIME \<Rightarrow> int \<Rightarrow> string" where
  "fraction_text t digits =
     (if digits = 0 then '''' else ''.'' @ fmt_usec (wrap_uint (sec_part_shift (t_second_part t) digits)) digits)"

definition second_part_wf :: "MYSQL_TIME \<Rightarrow> int \<Rightarrow> bool" where
  "second_part_wf t digits \<longleftrightarrow>
     0 \<le> t_second_part t \<and> t_second_part t \<le> TIME_MAX_SECOND_PART \<and> 0 \<le> digits \<and> digits \<le> 6"

lemma my_mmssff_to_str_text:
  "0 \<le> digits \<Longrightarrow> digits \<le> 6 \<Longrightarrow> my_mmssff_to_str t digits =
     fmt_number2 (t_minute t) @ '':'' @ fmt_number2 (t_second t) @ fraction_text t digits"
  by (simp add: my_mmssff_to_str_def fraction_text_def time_limits)

lemma fraction_cases:
  assumes "second_part_wf t digits"
  obtains (none) "digits = 0" "fraction_text t digits = ''''" "t_second_part (my_datetime_trunc t digits) = 0"
  | (some) n v ds where "digits = int n" "0 < n" "n \<le> 6" "fraction_text t digits = CHR ''.'' # ds"
      "digits_of n v ds" "v * 10 ^ (6 - n) = t_second_part (my_datetime_trunc t digits)"
proof -
  define p where "p = t_second_part t"
  define n where "n = nat digits"
  have p: "0 \<le> p" "p < 10 ^ 6" and n: "digits = int n" "n \<le> 6"
    using assms by (auto simp: second_part_wf_def p_def n_def time_limits)
  have i: "nat (6 - digits) = 6 - n" "6 - n < 20" using n by auto
  have tr: "t_second_part (my_datetime_trunc t digits) = p - p mod 10 ^ (6 - n)"
    using p i by (simp add: my_datetime_trunc_def my_time_fraction_remainder_def time_limits
        log_10_int_nth cmod_nonneg p_def)
  have q: "(p div 10 ^ (6 - n)) * 10 ^ (6 - n) = p - p mod 10 ^ (6 - n)"
    by (simp add: minus_mod_eq_div_mult)
  show thesis
  proof (cases "n = 0")
    case True
    then show ?thesis using none tr p n by (simp add: fraction_text_def)
  next
    case False
    define v where "v = p div 10 ^ (6 - n)"
    have s: "sec_part_shift (t_second_part t) digits = v"
      using p i by (simp add: sec_part_shift_def time_limits log_10_int_nth cdiv_nonneg p_def v_def)
    have "(10 :: int) ^ 6 = 10 ^ n * 10 ^ (6 - n)" using n by (simp flip: power_add)
    moreover have "v * 10 ^ (6 - n) \<le> p" using q p by (simp add: v_def)
    ultimately have "v * 10 ^ (6 - n) < 10 ^ n * 10 ^ (6 - n)" using p by linarith
    then have v: "0 \<le> v" "v < 10 ^ n"
      using p by (simp_all add: v_def pos_imp_zdiv_nonneg_iff)
    have "(10 :: int) ^ n \<le> 10 ^ 6" using n by (intro power_increasing) auto
    then have "wrap_uint v = v" using v by (intro wrap_uint_id) auto
    with s False n have "fraction_text t digits = CHR ''.'' # fmt_usec v (int n)"
      by (simp add: fraction_text_def)
    with some [of n "fmt_usec v (int n)" v] False n v q tr digits_of_fmt_usec [of v n]
    show ?thesis by (simp add: v_def)
  qed
qed

text \<open>The fields of a date, and of a date and time, with the separators the printing functions use.\<close>

definition time_fields :: "int \<Rightarrow> int \<Rightarrow> int \<Rightarrow> int \<Rightarrow> int \<Rightarrow> int \<Rightarrow> MYSQL_TIME" where
  "time_fields y mo d h mi s = \<lparr>t_year = y, t_month = mo, t_day = d, t_hour = h, t_minute = mi,
     t_second = s, t_second_part = 0, t_neg = False, t_time_type = MYSQL_TIMESTAMP_DATE\<rparr>"

lemmas scan_steps = number_step_def text_step_def separator_step_def get_punct_def
  get_date_time_separator_def set_year_def set_month_def set_day_def set_hour_def set_minute_def
  set_second_def

lemma internal_format_delimited:
  assumes "digits_of n v ds"
  shows "snd (internal_format (ds @ CHR ''-'' # r)) \<noteq> []"
    "snd (internal_format (ds @ CHR '':'' # r)) \<noteq> []"
  using assms by (simp_all add: internal_format_def skip_digits_text digits_of_def)

lemma scan_fields_datetime:
  assumes "digits_of 4 y ys" "digits_of 2 mo mos" "digits_of 2 d ds" "digits_of 2 h hs"
    "digits_of 2 mi mis" "digits_of 2 s ss" "stops r"
  shows "scan_fields p (ys @ ''-'' @ mos @ ''-'' @ ds @ '' '' @ hs @ '':'' @ mis @ '':'' @ ss @ r) =
    (0, 4, time_fields y mo d h mi s, 6, r)"
proof -
  obtain c hs' where hs: "hs = c # hs'" "my_isdigit c" using assms(4) by (cases hs) (auto simp: digits_of_def)
  then have "dropWhile my_isspace (hs @ x) = hs @ x" for x by (simp add: digit_not_space)
  moreover have "length ys = 4" using assms(1) by (simp add: digits_of_def)
  ultimately show ?thesis
    using internal_format_delimited(1) [OF assms(1)]
    by (simp add: scan_fields_def case_prod_unfold scan_delimited_def scan_steps Let_def
        get_number_digits [OF assms(1)] get_number_digits [OF assms(2)] get_number_digits [OF assms(3)]
        get_number_digits [OF assms(4)] get_number_digits [OF assms(5)] get_number_digits [OF assms(6)]
        assms(7) time_fields_def set_zero_time_def)
qed

lemma scan_fields_date:
  assumes "digits_of 4 y ys" "digits_of 2 mo mos" "digits_of 2 d ds"
  shows "scan_fields p (ys @ ''-'' @ mos @ ''-'' @ ds) = (0, 4, time_fields y mo d 0 0 0, 3, [])"
proof -
  have "length ys = 4" using assms(1) by (simp add: digits_of_def)
  moreover have "get_number (x :: int) k [] = (False, x, k, [])" for x k by (simp add: get_number_def)
  ultimately show ?thesis
    using internal_format_delimited(1) [OF assms(1)] get_number_digits [OF assms(3), of "[]"]
    by (simp add: scan_fields_def case_prod_unfold scan_delimited_def scan_steps Let_def
        get_number_digits [OF assms(1)] get_number_digits [OF assms(2)]
        time_fields_def set_zero_time_def)
qed

section \<open>Printing and parsing DATE and DATETIME\<close>

definition nonzero_time :: "MYSQL_TIME \<Rightarrow> bool" where
  "nonzero_time t \<longleftrightarrow> t_year t \<noteq> 0 \<or> t_month t \<noteq> 0 \<or> t_day t \<noteq> 0 \<or> t_hour t \<noteq> 0 \<or>
     t_minute t \<noteq> 0 \<or> t_second t \<noteq> 0 \<or> t_second_part t \<noteq> 0"

lemma check_date_cong:
  "t_time_type t \<noteq> MYSQL_TIMESTAMP_TIME \<Longrightarrow> ty \<noteq> MYSQL_TIMESTAMP_TIME \<Longrightarrow>
   check_date (t\<lparr>t_time_type := ty\<rparr>) nz flags w = check_date t nz flags w"
  by (simp add: check_date_def)

text \<open>What the checks make of fields in range.\<close>

lemma datetime_checks_in_range:
  assumes "\<not> check_datetime_range u" "t_time_type u = (if k \<le> 3 then MYSQL_TIMESTAMP_DATE else MYSQL_TIMESTAMP_DATETIME)"
    "check_date u (nonzero_time u) flags (st_warnings st) = (bad, w)" "len \<noteq> 2"
  shows "datetime_checks (u\<lparr>t_time_type := MYSQL_TIMESTAMP_DATE\<rparr>) len flags st k [] =
    (bad, if bad then set_zero_time MYSQL_TIMESTAMP_ERROR else u, st\<lparr>st_warnings := w\<rparr>)"
proof -
  have ty: "t_time_type u \<noteq> MYSQL_TIMESTAMP_TIME" using assms(2) by (simp split: if_splits)
  then have "check_date (u\<lparr>t_time_type := MYSQL_TIMESTAMP_DATE\<rparr>) (nonzero_time u) flags (st_warnings st) = (bad, w)"
    using assms(3) by (simp add: check_date_cong)
  moreover have nz: "(t_year t \<noteq> 0 \<or> t_month t \<noteq> 0 \<or> t_day t \<noteq> 0 \<or> t_hour t \<noteq> 0 \<or> t_minute t \<noteq> 0 \<or>
      t_second t \<noteq> 0 \<or> t_second_part t \<noteq> 0) = nonzero_time t" for t
    by (simp add: nonzero_time_def)
  have "nonzero_time (u\<lparr>t_time_type := MYSQL_TIMESTAMP_DATE\<rparr>) = nonzero_time u" by (simp add: nonzero_time_def)
  ultimately show ?thesis
    using assms(1,2,4) ty unfolding datetime_checks_def nz Let_def
    by (auto simp: check_datetime_range_def)
qed

lemma second_part_trunc:
  assumes "second_part_wf t digits"
  shows "0 \<le> t_second_part (my_datetime_trunc t digits) \<and> t_second_part (my_datetime_trunc t digits) \<le> t_second_part t"
proof -
  define k where "k = log_10_int ! nat (6 - digits)"
  have "nat (6 - digits) < 20" using assms by (auto simp: second_part_wf_def)
  then have "0 < k" unfolding k_def by (simp only: log_10_int_nth) simp
  moreover have "0 \<le> t_second_part t" using assms by (simp add: second_part_wf_def)
  ultimately show ?thesis
    using zmod_le_nonneg_dividend [of "t_second_part t" k]
    by (simp add: my_datetime_trunc_def my_time_fraction_remainder_def time_limits cmod_nonneg flip: k_def)
qed

lemma str_to_datetime_or_date_text:
  assumes "s \<noteq> []" "my_isdigit (hd s)" "my_isdigit (last s)"
    "str_to_datetime_or_date_body s flags True my_time_status_init = (r, u, st, k, rest)" "\<not> t_neg u"
  shows "str_to_datetime_or_date s to flags = (r, u, st)"
proof -
  have "my_time_status_init\<lparr>st_warnings := 0\<rparr> = my_time_status_init" by (simp add: my_time_status_init_def)
  moreover have "u\<lparr>t_neg := False\<rparr> = u" using assms(5) by simp
  ultimately show ?thesis
    using assms find_body_text(1) [OF assms(1-3)] by (simp add: str_to_datetime_or_date_def set_neg_def)
qed

text \<open>
  C14: parsing a printed DATETIME gives the value back.  For a value with its fields in the DATETIME
  range, printed with 0 to 6 digits of a second, \<open>str_to_datetime_or_date\<close> reads all of the text and
  yields the value truncated to these digits, no warning and the number of digits as the precision,
  if the flags of the conversion allow the date; otherwise it reports exactly the error and the
  warning that \<open>check_date\<close> gives.
\<close>

theorem datetime_text_roundtrip:
  assumes "time_wf t" "\<not> check_datetime_range t" "t_time_type t = MYSQL_TIMESTAMP_DATETIME" "\<not> t_neg t"
    and "0 \<le> digits" "digits \<le> 6" and "u = my_datetime_trunc t digits"
    and "check_date u (nonzero_time u) flags 0 = (bad, w)"
  shows "str_to_datetime_or_date (my_datetime_to_str t digits) to flags =
    (bad, if bad then set_zero_time MYSQL_TIMESTAMP_ERROR else u,
     \<lparr>st_warnings = w, st_precision = digits, st_nanoseconds = 0\<rparr>)"
proof -
  have dg: "digits_of 4 (t_year t) (fmt_number4 (t_year t))" "digits_of 2 (t_month t) (fmt_number2 (t_month t))"
    "digits_of 2 (t_day t) (fmt_number2 (t_day t))" "digits_of 2 (t_hour t) (fmt_number2 (t_hour t))"
    "digits_of 2 (t_minute t) (fmt_number2 (t_minute t))" "digits_of 2 (t_second t) (fmt_number2 (t_second t))"
    using assms(1-3) by (auto intro!: digits_of_fmt_number4 digits_of_fmt_number2
        simp: time_wf_def check_datetime_range_def)
  let ?s = "my_datetime_to_str t digits" and ?f = "fraction_text t digits"
    and ?v = "time_fields (t_year t) (t_month t) (t_day t) (t_hour t) (t_minute t) (t_second t)"
  have fr: "second_part_wf t digits"
    using assms by (simp add: second_part_wf_def time_wf_def check_datetime_range_def)
  have u: "?v\<lparr>t_second_part := t_second_part u\<rparr> = u\<lparr>t_time_type := MYSQL_TIMESTAMP_DATE\<rparr>"
    using assms(4,7) by (simp add: time_fields_def my_datetime_trunc_def)
  from second_part_trunc [OF fr] have cr: "\<not> check_datetime_range u" using assms(2,7)
    by (simp add: check_datetime_range_def my_datetime_trunc_def)
  have ty: "t_time_type u = MYSQL_TIMESTAMP_DATETIME" "\<not> t_neg u"
    using assms(3,4,7) by (simp_all add: my_datetime_trunc_def)
  have s: "?s = fmt_number4 (t_year t) @ ''-'' @ fmt_number2 (t_month t) @ ''-'' @ fmt_number2 (t_day t) @
     '' '' @ fmt_number2 (t_hour t) @ '':'' @ fmt_number2 (t_minute t) @ '':'' @ fmt_number2 (t_second t) @ ?f"
    using assms(5,6) by (simp add: my_datetime_to_str_def my_mmssff_to_str_text)
  have f: "stops ?f \<and> my_isdigit (last (fmt_number2 (t_second t) @ ?f)) \<and>
      str_to_datetime_or_date_body ?s flags True my_time_status_init =
        (bad, if bad then set_zero_time MYSQL_TIMESTAMP_ERROR else u,
         \<lparr>st_warnings = w, st_precision = digits, st_nanoseconds = 0\<rparr>, if digits = 0 then 6 else 7, [])"
    using fr
  proof (cases rule: fraction_cases)
    case none
    have "?v = u\<lparr>t_time_type := MYSQL_TIMESTAMP_DATE\<rparr>"
      using u none(3) assms(7) by (simp add: time_fields_def)
    with none scan_fields_datetime [OF dg, of "[]" True] digits_of_hd [OF dg(6)] assms(8)
      datetime_checks_in_range [OF cr, of 6 flags my_time_status_init bad w 4] ty
    show ?thesis unfolding str_to_datetime_or_date_body_def s
      by (simp add: add_warning_def my_time_status_init_def)
  next
    case (some n v ds)
    have "my_time_status_init\<lparr>st_precision := int n\<rparr> =
        \<lparr>st_warnings = 0, st_precision = digits, st_nanoseconds = 0\<rparr>"
      using some by (simp add: my_time_status_init_def)
    with some scan_fields_datetime [OF dg, of ?f True] digits_of_hd [OF some(5)] assms(7,8) u
      datetime_checks_in_range [OF cr, of 7 flags "\<lparr>st_warnings = 0, st_precision = digits, st_nanoseconds = 0\<rparr>" bad w 4] ty
      get_microseconds_digits [OF some(5,2,3), of "[]" my_time_status_init 6]
    show ?thesis unfolding str_to_datetime_or_date_body_def s
      by (simp add: add_warning_def my_time_status_init_def)
  qed
  then have l: "my_isdigit (last ?s)"
    using digits_of_hd [OF dg(6)] unfolding s by (simp add: last_append split: if_splits)
  have h: "?s \<noteq> []" "my_isdigit (hd ?s)" using digits_of_hd [OF dg(1)] unfolding s by (auto simp: hd_append)
  show ?thesis
    using f ty(2) by (intro str_to_datetime_or_date_text [OF h l]) (auto simp: set_zero_time_def)
qed

theorem datetime_text_roundtrip_witness:
  "str_to_datetime_or_date ''2024-02-29 23:59:59.123'' (set_zero_time MYSQL_TIMESTAMP_NONE) 0 =
     (False, \<lparr>t_year = 2024, t_month = 2, t_day = 29, t_hour = 23, t_minute = 59, t_second = 59,
        t_second_part = 123000, t_neg = False, t_time_type = MYSQL_TIMESTAMP_DATETIME\<rparr>,
      \<lparr>st_warnings = 0, st_precision = 3, st_nanoseconds = 0\<rparr>)"
proof -
  let ?t = "\<lparr>t_year = 2024, t_month = 2, t_day = 29, t_hour = 23, t_minute = 59, t_second = 59,
        t_second_part = 123456, t_neg = False, t_time_type = MYSQL_TIMESTAMP_DATETIME\<rparr>"
  have "my_datetime_trunc ?t 3 = ?t\<lparr>t_second_part := 123000\<rparr>"
    "check_date (?t\<lparr>t_second_part := 123000\<rparr>) (nonzero_time (?t\<lparr>t_second_part := 123000\<rparr>)) 0 0 = (False, 0)"
    "my_datetime_to_str ?t 3 = ''2024-02-29 23:59:59.123''" by code_simp+
  moreover have "time_wf ?t" "\<not> check_datetime_range ?t" by code_simp+
  ultimately show ?thesis using datetime_text_roundtrip [of ?t 3 _ 0 False 0] by simp
qed

text \<open>
  The same for a DATE: the ten characters of a printed date whose year has at most four digits
  are read back as the date, of type DATE and without a warning, exactly when the flags allow it.
\<close>

theorem date_text_roundtrip:
  assumes "time_wf t" "\<not> check_datetime_range t" "t_time_type t = MYSQL_TIMESTAMP_DATE" "\<not> t_neg t"
    and "t_hour t = 0" "t_minute t = 0" "t_second t = 0" "t_second_part t = 0"
    and "check_date t (nonzero_time t) flags 0 = (bad, w)"
  shows "length (my_date_to_str t) = 10 \<and> str_to_datetime_or_date (my_date_to_str t) to flags =
    (bad, if bad then set_zero_time MYSQL_TIMESTAMP_ERROR else t,
     \<lparr>st_warnings = w, st_precision = 0, st_nanoseconds = 0\<rparr>)"
proof -
  have dg: "digits_of 4 (t_year t) (fmt_number4 (t_year t))" "digits_of 2 (t_month t) (fmt_number2 (t_month t))"
    "digits_of 2 (t_day t) (fmt_number2 (t_day t))"
    using assms(1-3) by (auto intro!: digits_of_fmt_number4 digits_of_fmt_number2
        simp: time_wf_def check_datetime_range_def)
  let ?s = "my_date_to_str t"
  have "time_fields (t_year t) (t_month t) (t_day t) 0 0 0 = t\<lparr>t_time_type := MYSQL_TIMESTAMP_DATE\<rparr>"
    using assms by (simp add: time_fields_def)
  with scan_fields_date [OF dg, of True] assms(2,3,9)
    datetime_checks_in_range [of t 3 flags my_time_status_init bad w 4]
  have "str_to_datetime_or_date_body ?s flags True my_time_status_init =
      (bad, if bad then set_zero_time MYSQL_TIMESTAMP_ERROR else t,
       \<lparr>st_warnings = w, st_precision = 0, st_nanoseconds = 0\<rparr>, 3, [])"
    unfolding str_to_datetime_or_date_body_def my_date_to_str_def
    by (simp add: add_warning_def my_time_status_init_def)
  moreover have "?s \<noteq> []" "my_isdigit (hd ?s)" "my_isdigit (last ?s)"
    using digits_of_hd [OF dg(1)] digits_of_hd [OF dg(3)] by (auto simp: my_date_to_str_def hd_append)
  moreover have "length ?s = 10" using dg by (simp add: my_date_to_str_def digits_of_def)
  ultimately show ?thesis
    using assms(4) str_to_datetime_or_date_text [of ?s] by (auto simp: set_zero_time_def)
qed

theorem date_text_roundtrip_witness:
  "str_to_datetime_or_date ''2023-02-29'' (set_zero_time MYSQL_TIMESTAMP_NONE) 0 =
     (True, set_zero_time MYSQL_TIMESTAMP_ERROR, \<lparr>st_warnings = 2, st_precision = 0, st_nanoseconds = 0\<rparr>)"
proof -
  let ?t = "\<lparr>t_year = 2023, t_month = 2, t_day = 29, t_hour = 0, t_minute = 0, t_second = 0,
        t_second_part = 0, t_neg = False, t_time_type = MYSQL_TIMESTAMP_DATE\<rparr>"
  have "check_date ?t (nonzero_time ?t) 0 0 = (True, 2)" "my_date_to_str ?t = ''2023-02-29''"
    "time_wf ?t" "\<not> check_datetime_range ?t" by code_simp+
  then show ?thesis using date_text_roundtrip [of ?t 0 True 2] by simp
qed

section \<open>What a successful parse yields\<close>

lemma wrap_uint_le: "0 \<le> v \<Longrightarrow> 0 \<le> wrap_uint v \<and> wrap_uint v \<le> v"
  by (simp add: wrap_uint_def zmod_le_nonneg_dividend)

lemma wrap_ulong_nonneg: "0 \<le> wrap_ulong v"
  by (simp add: wrap_ulong_def)

lemma get_number_loop_bounds:
  assumes "get_number_loop v s = (w, r)" "0 \<le> v" "v < 10 ^ k"
  shows "0 \<le> w \<and> length r \<le> length s \<and> w < 10 ^ (k + (length s - length r))"
  using assms
proof (induction s arbitrary: v k)
  case (Cons c s)
  show ?case
  proof (cases "my_isdigit c")
    case True
    then have d: "0 \<le> digit_val c" "digit_val c \<le> 9" by (simp_all add: my_isdigit_iff)
    have "v * 10 + digit_val c < 10 ^ Suc k" using Cons.prems(3) d by simp
    then have "0 \<le> wrap_uint (v * 10 + digit_val c)" "wrap_uint (v * 10 + digit_val c) < 10 ^ Suc k"
      using wrap_uint_le [of "v * 10 + digit_val c"] Cons.prems(2) d by linarith+
    then have r: "0 \<le> w \<and> length r \<le> length s \<and> w < 10 ^ (Suc k + (length s - length r))"
      by (intro Cons.IH) (use Cons.prems(1) True in simp_all)
    then have "Suc k + (length s - length r) = k + (length (c # s) - length r)" by (simp add: Suc_diff_le)
    with r show ?thesis by (metis le_SucI length_Cons)
  next
    case False
    then show ?thesis using Cons.prems by auto
  qed
qed auto

text \<open>A number is either not read at all or has as many digits as were read.\<close>

lemma get_number_bounds:
  assumes "get_number v k s = (e, w, k', r)"
  shows "w = v \<and> r = s \<or> 0 \<le> w \<and> length r < length s \<and> w < 10 ^ (length s - length r)"
proof (cases s)
  case (Cons c s')
  show ?thesis
  proof (cases "my_isdigit c")
    case True
    obtain x y where l: "get_number_loop (digit_val c) s' = (x, y)" by force
    have "0 \<le> digit_val c" "digit_val c < 10 ^ 1" using True by (simp_all add: my_isdigit_iff)
    from get_number_loop_bounds [OF l this] show ?thesis
      using assms Cons True l by (auto simp: get_number_def Suc_diff_le)
  qed (use assms Cons in \<open>auto simp: get_number_def\<close>)
qed (use assms in \<open>auto simp: get_number_def\<close>)

lemma get_microseconds_bounds:
  assumes "get_microseconds st k s = (v, st', k', r)"
  shows "0 \<le> v \<and> v \<le> TIME_MAX_SECOND_PART"
proof -
  obtain e w k'' x where g: "get_number 0 k (take 6 s) = (e, w, k'', x)" by (metis prod_cases4)
  define n where "n = length s - length (x @ drop 6 s)"
  have v: "v = (if n < 6 then w * 10 ^ (6 - n) else w)"
    using assms g by (auto simp: get_microseconds_def get_digits_def Let_def n_def log_10_int_nth split: prod.splits)
  from get_number_bounds [OF g] show ?thesis
  proof (elim disjE conjE)
    assume "w = 0"
    then show ?thesis using v by (simp add: time_limits)
  next
    assume w: "0 \<le> w" "length x < length (take 6 s)" "w < 10 ^ (length (take 6 s) - length x)"
    have n: "n = length (take 6 s) - length x" "n \<le> 6" by (auto simp: n_def)
    then have "w * 10 ^ (6 - n) < 10 ^ n * 10 ^ (6 - n)" using w by simp
    also have "(10 :: int) ^ n * 10 ^ (6 - n) = 10 ^ 6" using n(2) by (simp flip: power_add)
    finally have "w * 10 ^ (6 - n) < 1000000" by simp
    moreover have "w < 10 ^ n" using w(3) unfolding n(1) .
    then have "w < 1000000" if "n = 6" using that by simp
    ultimately show ?thesis using v w(1) n(2) by (auto simp: time_limits)
  qed
qed

text \<open>The scanning steps keep the fields natural numbers and leave the rest of the value alone.\<close>

definition scan_inv :: "scan \<Rightarrow> bool" where
  "scan_inv s \<longleftrightarrow> (case s of (t, _, _) \<Rightarrow>
     time_wf t \<and> t_second_part t = 0 \<and> \<not> t_neg t \<and> t_time_type t = MYSQL_TIMESTAMP_DATE)"

lemma until_error_inv:
  "(\<And>f s. f \<in> set fs \<Longrightarrow> P s \<Longrightarrow> P (snd (f s))) \<Longrightarrow> P s \<Longrightarrow> P (snd (until_error fs s))"
proof (induction fs arbitrary: s)
  case (Cons f fs)
  then have "P (snd (f s))" by simp
  with Cons show ?case by (cases "f s") simp
qed simp

lemma get_number_nonneg:
  "get_number v k s = (e, w, k', r) \<Longrightarrow> 0 \<le> v \<Longrightarrow> 0 \<le> w"
  "get_digits v k s n = (e, w, k', r) \<Longrightarrow> 0 \<le> v \<Longrightarrow> 0 \<le> w"
  using get_number_bounds [of v k s e w k' r]
  by (auto simp: get_digits_def split: prod.splits dest: get_number_bounds)

lemma scan_inv_steps:
  assumes "scan_inv s"
  shows "scan_inv (snd (text_step f s))" "scan_inv (snd (separator_step p s))"
    and "(field, set_field) \<in> {(t_year, set_year), (t_month, set_month), (t_day, set_day), (t_hour, set_hour),
      (t_minute, set_minute), (t_second, set_second)} \<Longrightarrow>
      scan_inv (snd (number_step field set_field s))"
    and "(field, set_field) \<in> {(t_year, set_year), (t_month, set_month), (t_day, set_day), (t_hour, set_hour),
      (t_minute, set_minute), (t_second, set_second)} \<Longrightarrow>
      scan_inv (snd (digits_step field set_field n s))"
  using assms
  by (auto simp: scan_inv_def scan_steps digits_step_def time_wf_def split: prod.splits
      intro: get_number_nonneg)

lemma scan_fields_inv:
  assumes "scan_fields p str = (warn, len, s)"
  shows "scan_inv s"
proof -
  have z: "scan_inv (set_zero_time MYSQL_TIMESTAMP_DATE, 0, str)"
    by (simp add: scan_inv_def set_zero_time_def time_wf_def)
  have i: "scan_inv s \<Longrightarrow> scan_inv (snd (scan_internal n s))" for s n
    unfolding scan_internal_def by (rule until_error_inv) (auto intro!: scan_inv_steps)
  have d: "scan_inv s \<Longrightarrow> scan_inv (snd (scan_delimited p s))" for s
    unfolding scan_delimited_def by (rule until_error_inv) (auto intro!: scan_inv_steps)
  have y: "scan_inv s \<Longrightarrow> scan_inv (snd (number_step t_year set_year s))" for s
    by (simp add: scan_inv_steps)
  from assms i [OF z, of 2] i [OF z, of 4] y [OF z] d [OF y [OF z]] show ?thesis
    by (auto simp: scan_fields_def Let_def split: prod.splits if_splits)
qed

text \<open>A value that a parser may return.\<close>

definition parsed_wf :: "int \<Rightarrow> int \<Rightarrow> MYSQL_TIME \<Rightarrow> bool" where
  "parsed_wf max_hour flags t \<longleftrightarrow>
     time_wf t \<and> t_minute t \<le> 59 \<and> t_second t \<le> 59 \<and> t_second_part t \<le> TIME_MAX_SECOND_PART \<and>
     (if t_time_type t = MYSQL_TIMESTAMP_TIME
      then t_year t = 0 \<and> t_month t = 0 \<and> t_day t = 0 \<and> t_hour t \<le> max_hour
      else t_time_type t \<in> {MYSQL_TIMESTAMP_DATE, MYSQL_TIMESTAMP_DATETIME} \<and> \<not> t_neg t \<and>
        t_year t \<le> 9999 \<and> t_month t \<le> 12 \<and> t_day t \<le> 31 \<and> t_hour t \<le> 23 \<and>
        \<not> fst (check_date t (nonzero_time t) flags 0))"

lemma check_date_fst: "fst (check_date t nz flags w) = fst (check_date t nz flags w')"
  unfolding check_date_def by (simp add: if_distrib [of fst] cong: if_cong)

lemma datetime_checks_wf:
  assumes "datetime_checks t len flags st k r = (False, u, st')"
    and "time_wf t" "\<not> t_neg t" "t_time_type t = MYSQL_TIMESTAMP_DATE" "t_second_part t \<le> TIME_MAX_SECOND_PART"
  shows "parsed_wf h flags u \<and> t_time_type u \<noteq> MYSQL_TIMESTAMP_TIME"
proof -
  define v where "v = (if len = 2 \<and> nonzero_time t
    then t\<lparr>t_year := t_year t + (if t_year t < YY_PART_YEAR then 2000 else 1900)\<rparr> else t)"
  have nz: "(t_year t \<noteq> 0 \<or> t_month t \<noteq> 0 \<or> t_day t \<noteq> 0 \<or> t_hour t \<noteq> 0 \<or> t_minute t \<noteq> 0 \<or>
      t_second t \<noteq> 0 \<or> t_second_part t \<noteq> 0) = nonzero_time t" for t
    by (simp add: nonzero_time_def)
  have v: "time_wf v" "\<not> t_neg v" "t_time_type v = MYSQL_TIMESTAMP_DATE" "t_second_part v \<le> TIME_MAX_SECOND_PART"
    "nonzero_time v = nonzero_time t"
    using assms by (auto simp: v_def time_wf_def nonzero_time_def)
  have e: "\<not> (t_year v > 9999 \<or> t_month v > 12 \<or> t_day v > 31 \<or> t_hour v > 23 \<or> t_minute v > 59 \<or> t_second v > 59)"
    "\<not> fst (check_date v (nonzero_time v) flags (st_warnings st))"
    "u = v\<lparr>t_time_type := if k \<le> 3 then MYSQL_TIMESTAMP_DATE else MYSQL_TIMESTAMP_DATETIME\<rparr>"
    using assms(1) unfolding datetime_checks_def nz Let_def v_def [symmetric] v(5)
    by (auto split: prod.splits if_splits)
  have "fst (check_date u (nonzero_time u) flags 0) = fst (check_date v (nonzero_time v) flags (st_warnings st))"
    using v(3) check_date_fst [of v _ flags 0 "st_warnings st"] unfolding e(3)
    by (simp add: check_date_cong nonzero_time_def)
  then show ?thesis using e v by (auto simp: parsed_wf_def time_wf_def)
qed

lemma str_to_datetime_or_date_body_wf:
  assumes "str_to_datetime_or_date_body s flags p st = (False, t, st', k, r)"
  shows "parsed_wf h flags t \<and> t_time_type t \<noteq> MYSQL_TIMESTAMP_TIME"
proof -
  obtain warn len u k0 r0 where f: "scan_fields p s = (warn, len, u, k0, r0)" by (metis prod_cases5)
  have u: "time_wf u" "t_second_part u = 0" "\<not> t_neg u" "t_time_type u = MYSQL_TIMESTAMP_DATE"
    using scan_fields_inv [OF f] by (simp_all add: scan_inv_def)
  obtain v st1 k1 r1 where m: "get_microseconds (add_warning warn st) k0 (tl r0) = (v, st1, k1, r1)"
    by (metis prod_cases4)
  have v: "0 \<le> v" "v \<le> TIME_MAX_SECOND_PART" using get_microseconds_bounds [OF m] by auto
  have n: "\<not> k0 < 3" using assms f by (auto simp: str_to_datetime_or_date_body_def Let_def)
  show ?thesis
  proof (cases "warn = 0 \<and> r0 \<noteq> [] \<and> hd r0 = CHR ''.''")
    case True
    with assms f m n obtain st2 where "datetime_checks (u\<lparr>t_second_part := v\<rparr>) len flags st1 k1 r1 = (False, t, st2)"
      by (auto simp: str_to_datetime_or_date_body_def Let_def split: prod.splits)
    then show ?thesis by (rule datetime_checks_wf) (use u v in \<open>simp_all add: time_wf_def\<close>)
  next
    case False
    with assms f n obtain st2 where "datetime_checks u len flags (add_warning warn st) k0 r0 = (False, t, st2)"
      by (auto simp: str_to_datetime_or_date_body_def Let_def split: prod.splits if_splits)
    then show ?thesis by (rule datetime_checks_wf) (use u in \<open>simp_all add: time_limits\<close>)
  qed
qed

lemma read_am_pm_off [simp]: "read_am_pm date s = (date, s)"
  by (simp add: read_am_pm_def internal_format_positions_def)

definition date_wf :: "int list \<Rightarrow> bool" where
  "date_wf date \<longleftrightarrow> length date = 5 \<and> list_all (\<lambda>v. 0 \<le> v) date"

lemma date_wf_update: "date_wf date \<Longrightarrow> 0 \<le> v \<Longrightarrow> date_wf (date[i := v])"
  by (auto simp: date_wf_def list_all_iff dest: set_update_subset_insert [THEN subsetD])

lemma date_wf_nth: "date_wf date \<Longrightarrow> i < 5 \<Longrightarrow> 0 \<le> date ! i"
  by (simp add: date_wf_def list_all_length)

lemma value_loop_nonneg: "0 \<le> v \<Longrightarrow> value_loop v s = (w, r) \<Longrightarrow> 0 \<le> w"
proof (induction s arbitrary: v)
  case (Cons c s)
  with Cons.IH [OF wrap_ulong_nonneg] show ?case by (auto split: if_splits)
qed simp

lemma days_loop_nonneg: "0 \<le> v \<Longrightarrow> days_loop v s = (e, w, r) \<Longrightarrow> 0 \<le> w"
proof (induction s arbitrary: v)
  case (Cons c s)
  with Cons.IH [OF wrap_ulong_nonneg] show ?case
    by (auto simp: wrap_ulong_nonneg Let_def split: if_splits)
qed simp

lemma hms_loop_wf: "date_wf date \<Longrightarrow> hms_loop date state s = (date', state', r) \<Longrightarrow> date_wf date'"
proof (induction date state s rule: hms_loop.induct)
  case (1 date state s)
  obtain v s1 where v: "value_loop 0 s = (v, s1)" by force
  have w: "date_wf (date[state := v])" using 1(2) value_loop_nonneg [OF _ v] by (simp add: date_wf_update)
  show ?case
  proof (cases "state + 1 = 4 \<or> length s1 < 2 \<or> hd s1 \<noteq> time_separator \<or> \<not> my_isdigit (s1 ! 1)")
    case True
    then show ?thesis using 1(3) v w by (subst (asm) hms_loop.simps) (auto simp: Let_def)
  next
    case False
    then have "hms_loop (date[state := v]) (state + 1) (tl s1) = (date', state', r)"
      using 1(3) v by (subst (asm) hms_loop.simps) (auto simp: Let_def)
    with 1(1) [OF v [symmetric] refl refl refl False w] show ?thesis by simp
  qed
qed

lemma hms_loop_state: "state < 4 \<Longrightarrow> hms_loop date state s = (date', state', r) \<Longrightarrow> state' \<le> 4"
proof (induction date state s rule: hms_loop.induct)
  case (1 date state s)
  obtain v s1 where v: "value_loop 0 s = (v, s1)" by force
  show ?case
  proof (cases "state + 1 = 4 \<or> length s1 < 2 \<or> hd s1 \<noteq> time_separator \<or> \<not> my_isdigit (s1 ! 1)")
    case True
    then show ?thesis using 1(2,3) v by (subst (asm) hms_loop.simps) (auto simp: Let_def)
  next
    case False
    then have "hms_loop (date[state := v]) (state + 1) (tl s1) = (date', state', r)"
      using 1(3) v by (subst (asm) hms_loop.simps) (auto simp: Let_def)
    moreover have "state + 1 < 4" using False 1(2) by linarith
    ultimately show ?thesis using 1(1) [OF v [symmetric] refl refl refl False] by simp
  qed
qed

lemma hms_fields_wf:
  assumes "date_wf date" "state < 4" "hms_fields date state s = (date', r)"
  shows "date_wf date'"
proof -
  obtain date1 state1 s1 where h: "hms_loop date state s = (date1, state1, s1)" by (metis prod_cases3)
  have w: "date_wf date1" "state1 \<le> 4" using hms_loop_wf [OF assms(1) h] hms_loop_state [OF assms(2) h] by simp_all
  then have "date_wf (take state1 date1 @ replicate (4 - state1) 0 @ drop 4 date1)"
    by (auto simp: date_wf_def list_all_iff dest: in_set_takeD in_set_dropD)
  with w assms(3) h show ?thesis by (auto simp: hms_fields_def split: if_splits)
qed

lemma check_time_range_internal_wf:
  assumes "check_time_range_internal t max_hour err_hour 6 w = (False, u, w')"
    and "time_wf t" "t_second_part t \<le> TIME_MAX_SECOND_PART" "t_time_type t = MYSQL_TIMESTAMP_TIME"
      "t_year t = 0" "t_month t = 0" "t_day t = 0" "t_hour t \<le> UINT_MAX32"
    and "0 \<le> max_hour" "max_hour \<le> UINT_MAX32"
  shows "parsed_wf max_hour flags u \<and> t_time_type u = MYSQL_TIMESTAMP_TIME"
proof -
  have "wrap_uint (t_hour t) = t_hour t" "wrap_uint max_hour = max_hour"
    using assms by (auto simp: time_wf_def time_limits intro!: wrap_uint_id)
  moreover have "max_sec_part ! 6 = 999999" by (simp add: max_sec_part_def)
  ultimately show ?thesis
    using assms by (auto simp: check_time_range_internal_def parsed_wf_def time_wf_def Let_def time_limits
        split: if_splits)
qed

lemma fractional_wf:
  assumes "fractional date t max_hour err_hour st s = (False, u, st', r)"
    and "date_wf date" "0 \<le> max_hour" "max_hour \<le> UINT_MAX32"
  shows "parsed_wf max_hour flags u \<and> t_time_type u = MYSQL_TIMESTAMP_TIME"
proof -
  define d where "d = (if s \<noteq> [] \<and> hd s = CHR ''.''
     then (case get_microseconds st 0 (tl s) of (val, st, _, r) \<Rightarrow> (date[4 := val], st, r))
     else (date[4 := 0], st, s))"
  obtain date1 st1 s1 where d1: "d = (date1, st1, s1)" by (metis prod_cases3)
  obtain v st2 k r2 where m: "get_microseconds st 0 (tl s) = (v, st2, k, r2)" by (metis prod_cases4)
  have dw: "date_wf date1" and l: "date1 ! 4 \<le> TIME_MAX_SECOND_PART"
    using d1 m get_microseconds_bounds [OF m] assms(2)
    by (auto simp: d_def date_wf_update date_wf_def [THEN iffD1] time_limits split: if_splits)
  note n = date_wf_nth [OF dw]
  let ?t = "t\<lparr>t_year := 0, t_month := 0, t_day := 0, t_hour := date1 ! 1 + date1 ! 0 * 24,
      t_minute := date1 ! 2, t_second := date1 ! 3, t_second_part := date1 ! 4,
      t_time_type := MYSQL_TIMESTAMP_TIME\<rparr>"
  have h: "date1 ! 0 * 24 + date1 ! 1 \<le> UINT_MAX32"
    and "\<exists>w. check_time_range_internal ?t max_hour err_hour 6 (st_warnings st1) = (False, u, w)"
    using assms(1) unfolding fractional_def Let_def d_def [symmetric] d1
    by (auto split: if_splits prod.splits)
  then obtain w where "check_time_range_internal ?t max_hour err_hour 6 (st_warnings st1) = (False, u, w)" by blast
  then show ?thesis
    by (rule check_time_range_internal_wf) (use n l h assms(3,4) in \<open>simp_all add: time_wf_def add.commute\<close>)
qed

lemma str_to_DDhhmmssff_internal_wf:
  assumes "str_to_DDhhmmssff_internal neg s t max_hour err_hour st = (False, u, st', r)"
    and "0 \<le> max_hour" "max_hour \<le> UINT_MAX32"
  shows "parsed_wf max_hour flags u \<and> t_time_type u = MYSQL_TIMESTAMP_TIME"
proof -
  obtain e v s1 where d: "days_loop 0 s = (e, v, s1)" by (metis prod_cases3)
  have v: "0 \<le> v" using days_loop_nonneg [OF _ d] by simp
  have w: "date_wf [v, 0, 0, 0, 0]" "date_wf [0, v, 0, 0, 0]"
    "date_wf [0, v div 10000, v div 100 mod 100, v mod 100, 0]"
    using v by (simp_all add: date_wf_def pos_imp_zdiv_nonneg_iff)
  define s2 where "s2 = dropWhile my_isspace s1"
  obtain d1 r1 where h1: "hms_fields [v, 0, 0, 0, 0] 1 s2 = (d1, r1)" by force
  obtain d2 r2 where h2: "hms_fields [0, v, 0, 0, 0] 2 (tl s2) = (d2, r2)" by force
  have "date_wf d1" "date_wf d2" using hms_fields_wf [OF w(1) _ h1] hms_fields_wf [OF w(2) _ h2] by simp_all
  moreover have "\<exists>date \<in> {d1, d2, [0, v div 10000, v div 100 mod 100, v mod 100, 0]}.
      \<exists>t st s. fractional date t max_hour err_hour st s = (False, u, st', r)"
    using assms(1) unfolding str_to_DDhhmmssff_internal_def Let_def d prod.case s2_def [symmetric] h1 h2
    by (auto split: if_splits)
  ultimately show ?thesis using fractional_wf [OF _ _ assms(2,3)] w(3) by blast
qed

lemma datetime_checks_error:
  assumes "datetime_checks t len flags st k r = (True, u, st')"
  shows "u = set_zero_time MYSQL_TIMESTAMP_ERROR"
proof -
  define nz where "nz = (t_year t \<noteq> 0 \<or> t_month t \<noteq> 0 \<or> t_day t \<noteq> 0 \<or> t_hour t \<noteq> 0 \<or> t_minute t \<noteq> 0 \<or>
      t_second t \<noteq> 0 \<or> t_second_part t \<noteq> 0)"
  define v where "v = (if len = 2 \<and> nz
    then t\<lparr>t_year := t_year t + (if t_year t < YY_PART_YEAR then 2000 else 1900)\<rparr> else t)"
  define c where "c = (t_year v > 9999 \<or> t_month v > 12 \<or> t_day v > 31 \<or> t_hour v > 23 \<or> t_minute v > 59 \<or> t_second v > 59)"
  obtain bad w where "check_date v nz flags (st_warnings st) = (bad, w)" by force
  then show ?thesis
    using assms unfolding datetime_checks_def Let_def nz_def [symmetric] v_def [symmetric] c_def [symmetric]
    by (cases c; cases bad) simp_all
qed

lemma str_to_datetime_or_date_body_error:
  assumes "str_to_datetime_or_date_body s flags p st = (True, t, st', k, r)"
  shows "t_time_type t \<in> {MYSQL_TIMESTAMP_NONE, MYSQL_TIMESTAMP_ERROR}"
proof -
  obtain warn len u k0 r0 where f: "scan_fields p s = (warn, len, u, k0, r0)" by (metis prod_cases5)
  define d where "d = (if warn = 0 \<and> r0 \<noteq> [] \<and> hd r0 = CHR ''.''
    then case get_microseconds (add_warning warn st) k0 (tl r0) of
      (val, st, k, r) \<Rightarrow> (u\<lparr>t_second_part := val\<rparr>, st, k, r)
    else (u, add_warning warn st, k0, r0))"
  obtain u1 st1 k1 r1 where d: "d = (u1, st1, k1, r1)" by (metis prod_cases4)
  obtain e u2 st2 where c: "datetime_checks u1 len flags st1 k1 r1 = (e, u2, st2)" by (metis prod_cases3)
  show ?thesis
    using assms c unfolding str_to_datetime_or_date_body_def Let_def f prod.case d_def [symmetric] d
    by (auto split: if_splits dest!: datetime_checks_error simp: set_zero_time_def)
qed

lemma or_time_body_wf:
  assumes "str_to_datetime_or_date_or_time_body s l flags st max_hour err_hour a b = (False, u, st')"
    and "0 \<le> max_hour" "max_hour \<le> UINT_MAX32"
  shows "parsed_wf max_hour flags u"
proof -
  obtain e v st1 k r where d: "str_to_datetime_or_date_body s flags False st = (e, v, st1, k, r)"
    by (metis prod_cases5)
  have "t_time_type v \<in> {MYSQL_TIMESTAMP_NONE, MYSQL_TIMESTAMP_ERROR}" if e
    using d that str_to_datetime_or_date_body_error by simp
  then have e: "\<not> e" if "datetime_attempt b s v k r = Some False"
    using that by (auto simp: datetime_attempt_def Let_def split: if_splits)
  show ?thesis
  proof (cases "is_datetime_body_candidate s a b \<and> datetime_attempt b s v k r \<noteq> None")
    case True
    with assms(1) d have "datetime_attempt b s v k r = Some False" "u = v"
      by (auto simp: str_to_datetime_or_date_or_time_body_def Let_def)
    with e d show ?thesis by (auto dest!: str_to_datetime_or_date_body_wf)
  next
    case False
    with assms(1) d obtain l st0 rest where
      "str_to_DDhhmmssff_internal False s l max_hour err_hour st0 = (False, u, st', rest)"
      by (auto simp: str_to_datetime_or_date_or_time_body_def Let_def split: if_splits prod.splits)
    then show ?thesis using str_to_DDhhmmssff_internal_wf [OF _ assms(2,3)] by blast
  qed
qed

text \<open>
  C16: whatever text it is given, \<open>str_to_datetime_or_date\<close> yields on success a value that is a DATE
  or a DATETIME, is not negative, has every field in the range of its type, and has a date that
  \<open>check_date\<close> accepts under the flags of the conversion.
\<close>

theorem str_to_datetime_or_date_in_range:
  assumes "str_to_datetime_or_date str to flags = (False, t, st)"
  shows "t_time_type t \<in> {MYSQL_TIMESTAMP_DATE, MYSQL_TIMESTAMP_DATETIME} \<and> \<not> t_neg t \<and> time_wf t \<and>
    \<not> check_datetime_range t \<and> \<not> fst (check_date t (nonzero_time t) flags 0)"
proof -
  obtain r neg l w s where f: "find_body str to = (r, neg, l, w, s)" by (metis prod_cases5)
  let ?st = "my_time_status_init\<lparr>st_warnings := w\<rparr>"
  obtain e u st' k rest where b: "str_to_datetime_or_date_body s flags True ?st = (e, u, st', k, rest)"
    by (metis prod_cases5)
  have e: "\<not> e" "t = u\<lparr>t_neg := neg\<rparr>" "\<not> (neg \<and> t_time_type u \<noteq> MYSQL_TIMESTAMP_TIME)"
    using assms f b by (auto simp: str_to_datetime_or_date_def set_neg_def Let_def split: if_splits)
  have "parsed_wf 0 flags u \<and> t_time_type u \<noteq> MYSQL_TIMESTAMP_TIME"
    by (rule str_to_datetime_or_date_body_wf) (use b e in simp)
  moreover from this e have "t = u" by (simp add: parsed_wf_def)
  ultimately show ?thesis by (auto simp: parsed_wf_def check_datetime_range_def)
qed

theorem str_to_datetime_or_date_in_range_witness:
  "\<exists>t st. str_to_datetime_or_date '' 11:11:11.12.12.12 '' (set_zero_time MYSQL_TIMESTAMP_NONE) 0 = (False, t, st) \<and>
     t_year t = 2011 \<and> \<not> check_datetime_range t"
proof -
  have p: "str_to_datetime_or_date '' 11:11:11.12.12.12 '' (set_zero_time MYSQL_TIMESTAMP_NONE) 0 =
    (False, \<lparr>t_year = 2011, t_month = 11, t_day = 11, t_hour = 12, t_minute = 12, t_second = 12,
       t_second_part = 0, t_neg = False, t_time_type = MYSQL_TIMESTAMP_DATETIME\<rparr>, my_time_status_init)"
    by code_simp
  from str_to_datetime_or_date_in_range [OF p] p show ?thesis by simp
qed

text \<open>
  C40: the three parsers that also accept a TIME yield on success, for every text, a value in the
  range of its type: a DATE or DATETIME as above, or a TIME of either sign without year, month and
  day and with at most the requested number of hours.
\<close>

theorem str_to_time_in_range:
  assumes "parse \<in> {str_to_datetime_or_date_or_time, str_to_datetime_or_date_or_interval_hhmmssff,
      str_to_datetime_or_date_or_interval_day}"
    and "parse str to flags max_hour err_hour = (False, t, st)" "0 \<le> max_hour" "max_hour \<le> UINT_MAX32"
  shows "parsed_wf max_hour flags t"
proof -
  obtain a b where p: "parse = str_to_time_or_dates a b"
    using assms(1) by (auto simp: str_to_datetime_or_date_or_time_def
        str_to_datetime_or_date_or_interval_hhmmssff_def str_to_datetime_or_date_or_interval_day_def)
  obtain r neg l w s where f: "find_body str to = (r, neg, l, w, s)" by (metis prod_cases5)
  let ?st = "my_time_status_init\<lparr>st_warnings := w\<rparr>"
  obtain e u st' where o: "str_to_datetime_or_date_or_time_body s l flags ?st max_hour err_hour a b = (e, u, st')"
    by (metis prod_cases3)
  have e: "\<not> e" "t = u\<lparr>t_neg := neg\<rparr>" "\<not> (neg \<and> t_time_type u \<noteq> MYSQL_TIMESTAMP_TIME)"
    using assms(2) f o by (auto simp: p str_to_time_or_dates_def set_neg_def Let_def split: if_splits)
  have "parsed_wf max_hour flags u" using o e(1) assms(3,4) by (auto intro: or_time_body_wf)
  moreover from this e(2,3) have "t = u" if "t_time_type u \<noteq> MYSQL_TIMESTAMP_TIME"
    using that by (simp add: parsed_wf_def)
  ultimately show ?thesis using e(2)
    by (cases "t_time_type u = MYSQL_TIMESTAMP_TIME") (auto simp: parsed_wf_def time_wf_def)
qed

theorem str_to_time_in_range_witness:
  "\<exists>t st. str_to_datetime_or_date_or_time ''-35 11:12:13.5 x'' (set_zero_time MYSQL_TIMESTAMP_NONE) 0 838 0xFFFFFFFF =
     (False, t, st) \<and> t_neg t \<and> t_hour t = 838 \<and> parsed_wf 838 0 t"
proof -
  have p: "str_to_datetime_or_date_or_time ''-35 11:12:13.5 x'' (set_zero_time MYSQL_TIMESTAMP_NONE) 0 838 0xFFFFFFFF =
    (False, \<lparr>t_year = 0, t_month = 0, t_day = 0, t_hour = 838, t_minute = 59, t_second = 59,
       t_second_part = 999999, t_neg = True, t_time_type = MYSQL_TIMESTAMP_TIME\<rparr>,
       \<lparr>st_warnings = 3, st_precision = 1, st_nanoseconds = 0\<rparr>)"
    by code_simp
  from str_to_time_in_range [of str_to_datetime_or_date_or_time, OF _ p] p show ?thesis by (simp add: time_limits)
qed

section \<open>Printing and parsing TIME\<close>

lemma digits_of_value_loop: "digits_of n v ds \<Longrightarrow> n \<le> 9 \<Longrightarrow> stops r \<Longrightarrow> value_loop 0 (ds @ r) = (v, r)"
proof -
  assume d: "digits_of n v ds" "n \<le> 9" "stops r"
  have "(10 :: int) ^ n \<le> 10 ^ 9" using d(2) by (intro power_increasing) auto
  then show ?thesis using d digits_of_bounds [OF d(1)] value_loop_digits [of ds r 0] by (simp add: digits_of_def)
qed

lemma digits_of_days_loop: "digits_of n v ds \<Longrightarrow> n \<le> 9 \<Longrightarrow> stops r \<Longrightarrow> days_loop 0 (ds @ r) = (False, v, r)"
proof -
  assume d: "digits_of n v ds" "n \<le> 9" "stops r"
  have "(10 :: int) ^ n \<le> 10 ^ 9" using d(2) by (intro power_increasing) auto
  then show ?thesis using d digits_of_bounds [OF d(1)] days_loop_digits [of ds r 0] by (simp add: digits_of_def)
qed

lemma digits_of_cons: "digits_of 2 v ds \<Longrightarrow> \<exists>a b. ds = [a, b] \<and> my_isdigit a \<and> my_isdigit b"
  by (cases ds; cases "tl ds") (auto simp: digits_of_def)

lemma hms_fields_text:
  assumes "digits_of 2 mi mis" "digits_of 2 s ss" "stops r"
  shows "hms_fields [0, h, 0, 0, 0] 2 (mis @ CHR '':'' # ss @ r) = ([0, h, mi, s, 0], r)"
proof -
  obtain a b where ss: "ss = [a, b]" "my_isdigit a" using digits_of_cons [OF assms(2)] by auto
  have "value_loop 0 (mis @ CHR '':'' # ss @ r) = (mi, CHR '':'' # ss @ r)" "value_loop 0 (ss @ r) = (s, r)"
    using assms digits_of_value_loop [OF assms(1)] digits_of_value_loop [OF assms(2)] by simp_all
  moreover have "hd (CHR '':'' # ss @ r) = time_separator" "my_isdigit ((CHR '':'' # ss @ r) ! 1)"
    "\<not> length (CHR '':'' # ss @ r) < 2" using ss by (simp_all add: time_separator_def)
  ultimately have "hms_loop [0, h, 0, 0, 0] 2 (mis @ CHR '':'' # ss @ r) = ([0, h, mi, s, 0], 4, r)"
    by (subst hms_loop.simps, subst hms_loop.simps) (simp add: Let_def numeral_2_eq_2 numeral_3_eq_3)
  then show ?thesis by (simp add: hms_fields_def)
qed

text \<open>A text of digits and colons with a fraction is not taken for a DATETIME.\<close>

lemma candidate_loop_time: "list_all (\<lambda>c. c \<noteq> CHR ''T'' \<and> c \<noteq> CHR '' '') s \<Longrightarrow> \<not> candidate_loop False False n s"
  by (induction s arbitrary: n) auto

lemma digits_no_separator: "digits_of n v ds \<Longrightarrow> list_all (\<lambda>c. c \<noteq> CHR ''T'' \<and> c \<noteq> CHR '' '') ds"
  by (auto simp: digits_of_def all_digits_def list_all_iff)

lemma datetime_body_of_time:
  assumes "digits_of n h hs" "0 < n" "n \<le> 9" "digits_of 2 mi mis" "digits_of 2 s ss"
  shows "\<exists>e u st' k r'. str_to_datetime_or_date_body (hs @ CHR '':'' # mis @ CHR '':'' # ss @ CHR ''.'' # r) flags False st =
    (e, u, st', k, r') \<and> t_time_type u = MYSQL_TIMESTAMP_NONE"
proof -
  have "scan_fields False (hs @ CHR '':'' # mis @ CHR '':'' # ss @ CHR ''.'' # r) =
      (MYSQL_TIME_WARN_TRUNCATED, n, time_fields h mi s 0 0 0, 0, CHR ''.'' # r)"
    using internal_format_delimited(2) [OF assms(1)] assms(1-3)
    by (simp add: scan_fields_def case_prod_unfold scan_delimited_def scan_steps Let_def
        get_number_digits [OF assms(1)] get_number_digits [OF assms(4)] get_number_digits [OF assms(5)]
        time_fields_def set_zero_time_def digits_of_def)
  then show ?thesis by (auto simp: str_to_datetime_or_date_body_def Let_def)
qed

lemma set_all_fields:
  "l\<lparr>t_neg := n, t_year := y, t_month := mo, t_day := d, t_hour := h, t_minute := mi, t_second := s,
     t_second_part := p, t_time_type := ty\<rparr> =
   \<lparr>t_year = y, t_month = mo, t_day = d, t_hour = h, t_minute = mi, t_second = s, t_second_part = p,
     t_neg = n, t_time_type = ty\<rparr>"
  by (cases l) simp

lemma time_body_text:
  assumes "digits_of n (t_hour t) hs" "0 < n" "n \<le> 3" "digits_of 2 (t_minute t) mis" "digits_of 2 (t_second t) ss"
    and "second_part_wf t digits" "time_wf t" "\<not> check_datetime_range t" "t_time_type t = MYSQL_TIMESTAMP_TIME"
    and "t_year t = 0" "t_month t = 0" "t_day t = 0"
    and "f = fraction_text t digits"
  shows "str_to_DDhhmmssff_internal False (hs @ CHR '':'' # mis @ CHR '':'' # ss @ f) l TIME_MAX_HOUR UINT_MAX32 my_time_status_init =
    (False, (my_datetime_trunc t digits)\<lparr>t_neg := False\<rparr>, \<lparr>st_warnings = 0, st_precision = digits, st_nanoseconds = 0\<rparr>, [])"
proof -
  define u where "u = (my_datetime_trunc t digits)\<lparr>t_neg := False\<rparr>"
  define p where "p = t_second_part (my_datetime_trunc t digits)"
  have sp: "0 \<le> p" "p \<le> 999999"
    using second_part_trunc [OF assms(6)] assms(6) by (auto simp: p_def second_part_wf_def time_limits)
  have b: "0 \<le> t_hour t" "t_hour t \<le> 838" "0 \<le> t_minute t" "t_minute t \<le> 59" "0 \<le> t_second t" "t_second t \<le> 59"
    using assms(7-9) by (auto simp: time_wf_def check_datetime_range_def time_limits)
  obtain a b where ms: "mis = [a, b]" "my_isdigit a" using digits_of_cons [OF assms(4)] by auto
  have ue: "u = \<lparr>t_year = 0, t_month = 0, t_day = 0, t_hour = t_hour t, t_minute = t_minute t,
      t_second = t_second t, t_second_part = p, t_neg = False, t_time_type = MYSQL_TIMESTAMP_TIME\<rparr>"
    using assms(9-12) by (simp add: u_def p_def my_datetime_trunc_def)
  have w: "wrap_uint (t_hour t) = t_hour t" using b by (intro wrap_uint_id) auto
  have cr: "check_time_range_internal u TIME_MAX_HOUR UINT_MAX32 6 0 = (False, u, 0)"
    unfolding ue using b sp w by (simp add: check_time_range_internal_def time_limits max_sec_part_def)
  let ?fr = "fractional [0, t_hour t, t_minute t, t_second t, 0] (l\<lparr>t_neg := False\<rparr>) TIME_MAX_HOUR UINT_MAX32 my_time_status_init f"
  have fr: "stops f \<and> ?fr = (False, u, \<lparr>st_warnings = 0, st_precision = digits, st_nanoseconds = 0\<rparr>, [])"
    using assms(6)
  proof (cases rule: fraction_cases)
    case none
    then have "p = 0" by (simp add: p_def)
    with none cr ue b assms(13) show ?thesis
      by (simp add: fractional_def is_exponent_def UINT_MAX_def time_limits my_time_status_init_def set_all_fields)
  next
    case (some k v ds)
    have "v * 10 ^ (6 - k) = p" using some by (simp add: p_def)
    with some cr ue b sp assms(13) get_microseconds_digits [OF some(5,2,3), of "[]" my_time_status_init 0]
    show ?thesis
      by (simp add: fractional_def is_exponent_def UINT_MAX_def time_limits my_time_status_init_def set_all_fields)
  qed
  have "days_loop 0 (hs @ CHR '':'' # mis @ CHR '':'' # ss @ f) = (False, t_hour t, CHR '':'' # mis @ CHR '':'' # ss @ f)"
    using assms(3) digits_of_days_loop [OF assms(1)] by simp
  moreover have "hms_fields [0, t_hour t, 0, 0, 0] 2 (mis @ CHR '':'' # ss @ f) = ([0, t_hour t, t_minute t, t_second t, 0], f)"
    using fr hms_fields_text [OF assms(4,5)] by simp
  ultimately show ?thesis
    using fr ms b by (simp add: str_to_DDhhmmssff_internal_def time_separator_def time_limits flip: u_def)
qed

lemma hour_text:
  assumes "0 \<le> h" "h \<le> 838"
  obtains n hs where "(if h > 99 then int10_to_str h 10 else fmt_number2 h) = hs" "digits_of n h hs" "0 < n" "n \<le> 3"
proof (cases "h > 99")
  case True
  obtain ds where ds: "int10_to_str h 10 = ds" "all_digits ds" "ds \<noteq> []" "dec_val ds = h" "hd ds = CHR ''0'' \<longrightarrow> ds = ''0''"
    using int10_to_str_text [of h 10] assms by (auto simp: unsigned_of_def wrap_ulong_id)
  have "length ds \<le> 3"
  proof (rule ccontr)
    assume "\<not> length ds \<le> 3"
    moreover obtain c cs where c: "ds = c # cs" using ds(3) by (cases ds) auto
    ultimately have "(10 :: int) ^ 3 \<le> 10 ^ length cs" by (intro power_increasing) auto
    moreover have "10 ^ length cs \<le> dec_val (c # cs)"
      using ds c True by (intro dec_val_leading) (auto simp: digit_val_def)
    ultimately show False using ds(4) c assms by simp
  qed
  with that [of ds "length ds"] ds True show ?thesis by (simp add: digits_of_def)
next
  case False
  then show ?thesis using that [of "fmt_number2 h" 2] digits_of_fmt_number2 [of h] assms by simp
qed

text \<open>
  C19: parsing a printed TIME gives the value back.  A value of type TIME in the TIME range, of either
  sign and with up to three digits of hours, printed with 0 to 6 digits of a second, is read by
  \<open>str_to_datetime_or_date_or_time\<close> as the value truncated to these digits, with its sign and without
  a warning, and is never mistaken for a DATETIME.
\<close>

theorem time_text_roundtrip:
  assumes "time_wf t" "\<not> check_datetime_range t" "t_time_type t = MYSQL_TIMESTAMP_TIME"
    and "t_year t = 0" "t_month t = 0" "t_day t = 0" "0 \<le> digits" "digits \<le> 6"
  shows "str_to_datetime_or_date_or_time (my_time_to_str t digits) to flags TIME_MAX_HOUR UINT_MAX32 =
    (False, my_datetime_trunc t digits, \<lparr>st_warnings = 0, st_precision = digits, st_nanoseconds = 0\<rparr>)"
proof -
  have b: "0 \<le> t_hour t" "t_hour t \<le> 838" and fr: "second_part_wf t digits"
    and dg: "digits_of 2 (t_minute t) (fmt_number2 (t_minute t))" "digits_of 2 (t_second t) (fmt_number2 (t_second t))"
    using assms by (auto simp: time_wf_def check_datetime_range_def time_limits second_part_wf_def
        intro!: digits_of_fmt_number2)
  obtain n hs where h: "(if t_hour t > 99 then int10_to_str (t_hour t) 10 else fmt_number2 (t_hour t)) = hs"
    "digits_of n (t_hour t) hs" "0 < n" "n \<le> 3" by (rule hour_text [OF b])
  define mis where x1: "mis = fmt_number2 (t_minute t)"
  define ss where x2: "ss = fmt_number2 (t_second t)"
  define f where x3: "f = fraction_text t digits"
  note x = x1 x2 x3
  define s where "s = hs @ CHR '':'' # mis @ CHR '':'' # ss @ f"
  note dg' = dg [folded x]
  have w: "wrap_uint (t_hour t) = t_hour t" using b by (intro wrap_uint_id) auto
  have str: "my_time_to_str t digits = (if t_neg t then CHR ''-'' # s else s)"
    using assms(4-8) h(1) w by (simp add: my_time_to_str_def my_mmssff_to_str_text s_def flip: x)
  let ?u = "(my_datetime_trunc t digits)\<lparr>t_neg := False\<rparr>"
    and ?st = "\<lparr>st_warnings = 0, st_precision = digits, st_nanoseconds = 0\<rparr>"
  have internal: "str_to_DDhhmmssff_internal False s l TIME_MAX_HOUR UINT_MAX32 my_time_status_init = (False, ?u, ?st, [])" for l
    unfolding s_def by (rule time_body_text [OF h(2-4) dg' fr assms(1-6) x(3)])
  have i: "my_time_status_init\<lparr>st_warnings := st_warnings my_time_status_init\<rparr> = my_time_status_init"
    "my_time_status_init\<lparr>st_warnings := 0\<rparr> = my_time_status_init" by (simp_all add: my_time_status_init_def)
  have "my_isdigit (last (ss @ f)) \<and>
      str_to_datetime_or_date_or_time_body s to flags my_time_status_init TIME_MAX_HOUR UINT_MAX32 False False = (False, ?u, ?st)"
    using fr
  proof (cases rule: fraction_cases)
    case none
    have "list_all (\<lambda>c. c \<noteq> CHR ''T'' \<and> c \<noteq> CHR '' '') s"
      using none digits_no_separator [OF h(2)] digits_no_separator [OF dg'(1)] digits_no_separator [OF dg'(2)]
      by (simp add: s_def x(3))
    then have "\<not> is_datetime_body_candidate s False False"
      using none h dg' by (simp add: is_datetime_body_candidate_def candidate_loop_time s_def x(3) digits_of_def)
    with none internal digits_of_hd [OF dg'(2)] show ?thesis
      by (simp add: str_to_datetime_or_date_or_time_body_def x(3))
  next
    case (some k v ds)
    obtain e u st' k r' where d: "str_to_datetime_or_date_body s flags False my_time_status_init = (e, u, st', k, r')"
      "t_time_type u = MYSQL_TIMESTAMP_NONE"
      using datetime_body_of_time [OF h(2,3) _ dg', of ds flags my_time_status_init] h(4) some(4)
      by (auto simp: s_def x(3))
    then have "datetime_attempt False s u k r' = None" by (simp add: datetime_attempt_def)
    with d internal i digits_of_hd [OF some(5,2)] some(4) show ?thesis
      by (simp add: str_to_datetime_or_date_or_time_body_def x(3))
  qed
  moreover from this have "s \<noteq> []" "my_isdigit (hd s)" "my_isdigit (last s)"
    using digits_of_hd [OF h(2,3)] digits_of_hd [OF dg'(2)] by (auto simp: s_def)
  ultimately show ?thesis
    using find_body_text [of s to] assms(3) i(2) str
    by (auto simp: str_to_datetime_or_date_or_time_def str_to_time_or_dates_def set_neg_def my_datetime_trunc_def)
qed

theorem time_text_roundtrip_witness:
  "str_to_datetime_or_date_or_time ''-838:59:58.12'' (set_zero_time MYSQL_TIMESTAMP_NONE) 0 TIME_MAX_HOUR UINT_MAX32 =
     (False, \<lparr>t_year = 0, t_month = 0, t_day = 0, t_hour = 838, t_minute = 59, t_second = 58,
        t_second_part = 120000, t_neg = True, t_time_type = MYSQL_TIMESTAMP_TIME\<rparr>,
      \<lparr>st_warnings = 0, st_precision = 2, st_nanoseconds = 0\<rparr>)"
proof -
  let ?t = "\<lparr>t_year = 0, t_month = 0, t_day = 0, t_hour = 838, t_minute = 59, t_second = 58,
        t_second_part = 123456, t_neg = True, t_time_type = MYSQL_TIMESTAMP_TIME\<rparr>"
  have "my_datetime_trunc ?t 2 = ?t\<lparr>t_second_part := 120000\<rparr>" "my_time_to_str ?t 2 = ''-838:59:58.12''"
    "time_wf ?t" "\<not> check_datetime_range ?t" by code_simp+
  then show ?thesis using time_text_roundtrip [of ?t 2] by simp
qed

section \<open>A lost warning\<close>

text \<open>
  \<open>str_to_DDhhmmssff\<close> initialises the status again after it has tried the text as a DATETIME, and
  with it the warning of \<open>find_body\<close> about characters that were cut off; the other entry points keep
  a copy.  With a body shorter than 12 characters the warning is reported, with a longer one not.
\<close>

lemma str_to_DDhhmmssff_loses_warning:
  "st_warnings (snd (snd (str_to_DDhhmmssff ''10:10:10.12 x'' (set_zero_time MYSQL_TIMESTAMP_NONE) 838))) =
     MYSQL_TIME_WARN_TRUNCATED"
  "st_warnings (snd (snd (str_to_DDhhmmssff ''10:10:10.123 x'' (set_zero_time MYSQL_TIMESTAMP_NONE) 838))) = 0"
  "st_warnings (snd (snd (str_to_datetime_or_date_or_time ''10:10:10.123 x'' (set_zero_time MYSQL_TIMESTAMP_NONE) 0 838 838))) =
     MYSQL_TIME_WARN_TRUNCATED"
  by code_simp+

end
