(* ===== verification/HashTable.thy ===== *)
theory HashTable
  imports DynArray "HOL-Library.Monad_Syntax" "HOL-Library.Multiset"
begin

text \<open>
  The hash tables of \<^verbatim>\<open>mysys/hash.c\<close>, on the dynamic arrays of \<^verbatim>\<open>mysys/array.c\<close>.  A pointer to
  a \<open>HASH_LINK\<close> of the array is its index, a pointer to a record is a number with 0 for NULL, and a
  key is the list of its bytes.  The functions of the character set, \<open>get_key\<close> and \<open>hash_function\<close>
  are function pointers in the source and functions in the records; a call of \<open>hash->free\<close> is
  reported by the pointer it gets.  A loop along the links that does not end or leaves the array has
  the result \<open>None\<close>.
\<close>

section \<open>Data\<close>

definition NO_RECORD :: nat where "NO_RECORD = 4294967295"
definition LOWFIND :: nat where "LOWFIND = 1"
definition LOWUSED :: nat where "LOWUSED = 2"
definition HIGHFIND :: nat where "HIGHFIND = 4"
definition HIGHUSED :: nat where "HIGHUSED = 8"
definition HASH_UNIQUE :: nat where "HASH_UNIQUE = 1"

record HASH_LINK =
  next_link :: nat
  hash_nr :: nat
  link_data :: nat

record charset_info =
  hash_sort :: "u8 list \<Rightarrow> nat \<times> nat \<Rightarrow> nat \<times> nat"
  strnncoll :: "u8 list \<Rightarrow> u8 list \<Rightarrow> int"

record HASH =
  key_offset :: nat
  key_length :: nat
  blength :: nat
  records :: nat
  flags :: nat
  links :: "HASH_LINK dynamic_array"
  get_key :: "(mem \<Rightarrow> nat \<Rightarrow> bool \<Rightarrow> u8 list) option"
  hash_function :: "charset_info \<Rightarrow> u8 list \<Rightarrow> nat"
  free_element :: bool
  charset :: charset_info

definition my_hash_sort :: "charset_info \<Rightarrow> u8 list \<Rightarrow> nat" where
  "my_hash_sort cs key = (let (nr1, nr2) = hash_sort cs key (1, 4) in nr1 mod 4294967296)"

definition my_hash_init2 ::
    "nat \<Rightarrow> HASH_LINK list option \<Rightarrow> nat \<Rightarrow> charset_info \<Rightarrow> nat \<Rightarrow> nat \<Rightarrow> nat \<Rightarrow>
     (mem \<Rightarrow> nat \<Rightarrow> bool \<Rightarrow> u8 list) option \<Rightarrow> (charset_info \<Rightarrow> u8 list \<Rightarrow> nat) option \<Rightarrow> bool \<Rightarrow> nat \<Rightarrow> bool \<times> HASH" where
  "my_hash_init2 link_size junk growth_size cs init_size key_off key_len get_k hash_fun free_el fl =
     (let (res, a) = init_dynamic_array2 link_size None init_size growth_size junk
      in (res, \<lparr>key_offset = key_off, key_length = key_len, blength = 1, records = 0, flags = fl,
            links = a, get_key = get_k,
            hash_function = (case hash_fun of Some f \<Rightarrow> f | None \<Rightarrow> my_hash_sort),
            free_element = free_el, charset = cs\<rparr>))"

text \<open>The pointers given to \<open>hash->free\<close>, in this order.\<close>

definition my_hash_free_elements :: "HASH \<Rightarrow> nat list \<times> HASH" where
  "my_hash_free_elements hash =
     (let n = records hash
      in if n = 0 then ([], hash)
         else (if free_element hash then map link_data (take n (buffer (links hash))) else [],
               hash\<lparr>records := 0\<rparr>))"

definition my_hash_free :: "HASH \<Rightarrow> nat list \<times> HASH" where
  "my_hash_free hash =
     (let (freed, hash) = my_hash_free_elements hash
      in (freed, hash\<lparr>free_element := False, links := delete_dynamic (links hash), blength := 0\<rparr>))"

definition my_hash_reset :: "HASH \<Rightarrow> nat list \<times> HASH" where
  "my_hash_reset hash =
     (let (freed, hash) = my_hash_free_elements hash
      in (freed, hash\<lparr>links := reset_dynamic (links hash), blength := 1\<rparr>))"

section \<open>Keys and positions\<close>

text \<open>\<open>m\<close> is the memory the keys are read from.\<close>

definition my_hash_key :: "mem \<Rightarrow> HASH \<Rightarrow> nat \<Rightarrow> bool \<Rightarrow> u8 list" where
  "my_hash_key m hash record_ptr first =
     (case get_key hash of
        Some f \<Rightarrow> f m record_ptr first
      | None \<Rightarrow> map m [record_ptr + key_offset hash ..< record_ptr + key_offset hash + key_length hash])"

text \<open>\<open>buffmax >> 1\<close> minus 1 as a \<open>size_t\<close>.\<close>

definition size_pred :: "nat \<Rightarrow> nat" where
  "size_pred n = (if n = 0 then 18446744073709551615 else n - 1)"

definition my_hash_mask :: "nat \<Rightarrow> nat \<Rightarrow> nat \<Rightarrow> nat" where
  "my_hash_mask hashnr buffmax maxlength =
     (if hashnr AND size_pred buffmax < maxlength then hashnr AND size_pred buffmax
      else hashnr AND size_pred (buffmax div 2))"

definition my_hash_rec_mask :: "HASH_LINK \<Rightarrow> nat \<Rightarrow> nat \<Rightarrow> nat" where
  "my_hash_rec_mask pos buffmax maxlength = my_hash_mask (hash_nr pos) buffmax maxlength"

definition rec_hashnr :: "mem \<Rightarrow> HASH \<Rightarrow> nat \<Rightarrow> nat" where
  "rec_hashnr m hash record_ptr = hash_function hash (charset hash) (my_hash_key m hash record_ptr False)"

text \<open>Whether the keys differ.\<close>

definition hashcmp :: "mem \<Rightarrow> HASH \<Rightarrow> HASH_LINK \<Rightarrow> u8 list \<Rightarrow> bool" where
  "hashcmp m hash pos key =
     (let rec_key = my_hash_key m hash (link_data pos) True
      in length key \<noteq> length rec_key \<or> strnncoll (charset hash) rec_key key \<noteq> 0)"

text \<open>The bytes of the argument \<open>key\<close>; a length of 0 stands for \<open>key_length\<close>.\<close>

definition key_arg :: "HASH \<Rightarrow> u8 list \<Rightarrow> nat \<Rightarrow> u8 list" where
  "key_arg hash key len = take (if len \<noteq> 0 then len else key_length hash) key"

section \<open>Search\<close>

text \<open>The results: the record found, or 0, and the search state.\<close>

partial_function (option) hash_first_loop ::
    "mem \<Rightarrow> HASH \<Rightarrow> u8 list \<Rightarrow> bool \<Rightarrow> nat \<Rightarrow> (nat \<times> nat) option" where
  "hash_first_loop m hash key flag idx =
     (if idx \<ge> length (buffer (links hash)) then None
      else
        let pos = buffer (links hash) ! idx
        in if \<not> hashcmp m hash pos key then Some (link_data pos, idx)
           else if flag \<and> my_hash_rec_mask pos (blength hash) (records hash) \<noteq> idx then Some (0, NO_RECORD)
           else if next_link pos \<noteq> NO_RECORD then hash_first_loop m hash key False (next_link pos)
           else Some (0, NO_RECORD))"

declare hash_first_loop.simps [code]

definition my_hash_first_from_hash_value ::
    "mem \<Rightarrow> HASH \<Rightarrow> nat \<Rightarrow> u8 list \<Rightarrow> nat \<Rightarrow> (nat \<times> nat) option" where
  "my_hash_first_from_hash_value m hash hash_value key len =
     (if records hash \<noteq> 0
      then hash_first_loop m hash (key_arg hash key len) True
             (my_hash_mask hash_value (blength hash) (records hash))
      else Some (0, NO_RECORD))"

definition my_hash_first :: "mem \<Rightarrow> HASH \<Rightarrow> u8 list \<Rightarrow> nat \<Rightarrow> (nat \<times> nat) option" where
  "my_hash_first m hash key len =
     my_hash_first_from_hash_value m hash
       (hash_function hash (charset hash) (key_arg hash key len)) key len"

definition my_hash_search :: "mem \<Rightarrow> HASH \<Rightarrow> u8 list \<Rightarrow> nat \<Rightarrow> nat option" where
  "my_hash_search m hash key len = map_option fst (my_hash_first m hash key len)"

definition my_hash_search_using_hash_value :: "mem \<Rightarrow> HASH \<Rightarrow> nat \<Rightarrow> u8 list \<Rightarrow> nat \<Rightarrow> nat option" where
  "my_hash_search_using_hash_value m hash hash_value key len =
     map_option fst (my_hash_first_from_hash_value m hash hash_value key len)"

partial_function (option) hash_next_loop :: "mem \<Rightarrow> HASH \<Rightarrow> u8 list \<Rightarrow> nat \<Rightarrow> (nat \<times> nat) option" where
  "hash_next_loop m hash key idx =
     (if idx = NO_RECORD then Some (0, NO_RECORD)
      else if idx \<ge> length (buffer (links hash)) then None
      else
        let pos = buffer (links hash) ! idx
        in if \<not> hashcmp m hash pos key then Some (link_data pos, idx)
           else hash_next_loop m hash key (next_link pos))"

declare hash_next_loop.simps [code]

definition my_hash_next :: "mem \<Rightarrow> HASH \<Rightarrow> u8 list \<Rightarrow> nat \<Rightarrow> nat \<Rightarrow> (nat \<times> nat) option" where
  "my_hash_next m hash key len current_record =
     (if current_record \<noteq> NO_RECORD
      then hash_next_loop m hash (key_arg hash key len)
             (next_link (buffer (links hash) ! current_record))
      else Some (0, current_record))"

section \<open>Insertion\<close>

definition set_next_link :: "HASH_LINK list \<Rightarrow> nat \<Rightarrow> nat \<Rightarrow> HASH_LINK list" where
  "set_next_link data i n = data[i := (data ! i)\<lparr>next_link := n\<rparr>]"

partial_function (option) movelink :: "HASH_LINK list \<Rightarrow> nat \<Rightarrow> nat \<Rightarrow> nat \<Rightarrow> HASH_LINK list option" where
  "movelink data pos idx newlink =
     (if idx \<ge> length data then None
      else if next_link (data ! idx) = pos then Some (set_next_link data idx newlink)
      else movelink data pos (next_link (data ! idx)) newlink)"

declare movelink.simps [code]

text \<open>The variables of the loop that splits a bucket.\<close>

record split_state =
  s_data :: "HASH_LINK list"
  s_flag :: nat
  s_empty :: nat
  s_gpos :: nat
  s_rec_data :: nat
  s_rec_hash_nr :: nat
  s_gpos2 :: nat
  s_rec2_data :: nat
  s_rec2_hash_nr :: nat

definition set_link :: "HASH_LINK list \<Rightarrow> nat \<Rightarrow> nat \<Rightarrow> nat \<Rightarrow> nat \<Rightarrow> HASH_LINK list" where
  "set_link data i d h n = data[i := \<lparr>next_link = n, hash_nr = h, link_data = d\<rparr>]"

definition split_low :: "nat \<Rightarrow> split_state \<Rightarrow> split_state" where
  "split_low idx s =
     (if s_flag s AND LOWFIND = 0 then
        let pos = s_data s ! idx
        in if s_flag s AND HIGHFIND \<noteq> 0
           then s\<lparr>s_flag := LOWFIND OR HIGHFIND, s_gpos := s_empty s, s_rec_data := link_data pos,
                  s_rec_hash_nr := hash_nr pos, s_empty := idx\<rparr>
           else s\<lparr>s_flag := LOWFIND OR LOWUSED, s_gpos := idx, s_rec_data := link_data pos,
                  s_rec_hash_nr := hash_nr pos\<rparr>
      else
        let s = (if s_flag s AND LOWUSED = 0
              then s\<lparr>s_data := set_link (s_data s) (s_gpos s) (s_rec_data s) (s_rec_hash_nr s) idx,
                     s_flag := (s_flag s AND HIGHFIND) OR (LOWFIND OR LOWUSED)\<rparr>
              else s);
            pos = s_data s ! idx
        in s\<lparr>s_gpos := idx, s_rec_data := link_data pos, s_rec_hash_nr := hash_nr pos\<rparr>)"

definition split_high :: "nat \<Rightarrow> split_state \<Rightarrow> split_state" where
  "split_high idx s =
     (if s_flag s AND HIGHFIND = 0 then
        let pos = s_data s ! idx
        in s\<lparr>s_flag := (s_flag s AND LOWFIND) OR HIGHFIND, s_gpos2 := s_empty s, s_empty := idx,
             s_rec2_data := link_data pos, s_rec2_hash_nr := hash_nr pos\<rparr>
      else
        let s = (if s_flag s AND HIGHUSED = 0
              then s\<lparr>s_data := set_link (s_data s) (s_gpos2 s) (s_rec2_data s) (s_rec2_hash_nr s) idx,
                     s_flag := (s_flag s AND LOWFIND) OR (HIGHFIND OR HIGHUSED)\<rparr>
              else s);
            pos = s_data s ! idx
        in s\<lparr>s_gpos2 := idx, s_rec2_data := link_data pos, s_rec2_hash_nr := hash_nr pos\<rparr>)"

partial_function (option) split_loop ::
    "nat \<Rightarrow> nat \<Rightarrow> nat \<Rightarrow> nat \<Rightarrow> nat \<Rightarrow> split_state \<Rightarrow> split_state option" where
  "split_loop blen recs halfbuff first_index idx s =
     (if idx \<ge> length (s_data s) then None
      else if s_flag s = 0 \<and> my_hash_mask (hash_nr (s_data s ! idx)) blen recs \<noteq> first_index then Some s
      else
        let s = (if hash_nr (s_data s ! idx) AND halfbuff = 0 then split_low idx s else split_high idx s);
            nxt = next_link (s_data s ! idx)
        in if nxt \<noteq> NO_RECORD then split_loop blen recs halfbuff first_index nxt s else Some s)"

declare split_loop.simps [code]

definition split_finish :: "split_state \<Rightarrow> HASH_LINK list" where
  "split_finish s =
     (let data = (if s_flag s AND (LOWFIND OR LOWUSED) = LOWFIND
            then set_link (s_data s) (s_gpos s) (s_rec_data s) (s_rec_hash_nr s) NO_RECORD
            else s_data s)
      in if s_flag s AND (HIGHFIND OR HIGHUSED) = HIGHFIND
         then set_link data (s_gpos2 s) (s_rec2_data s) (s_rec2_hash_nr s) NO_RECORD
         else data)"

text \<open>The links after the split and the position that is free then.\<close>

definition hash_split :: "nat \<Rightarrow> nat \<Rightarrow> HASH_LINK list \<Rightarrow> nat \<Rightarrow> (HASH_LINK list \<times> nat) option" where
  "hash_split blen recs data hole =
     (let halfbuff = blen div 2;
          first_index = recs - halfbuff
      in if first_index \<noteq> recs then
           do { s \<leftarrow> split_loop blen recs halfbuff first_index first_index
                  \<lparr>s_data = data, s_flag = 0, s_empty = hole, s_gpos = 0, s_rec_data = 0,
                   s_rec_hash_nr = 0, s_gpos2 = 0, s_rec2_data = 0, s_rec2_hash_nr = 0\<rparr>;
                Some (split_finish s, s_empty s) }
         else Some (data, hole))"

text \<open>The new record at its position; a record that is there moves to the free position.\<close>

definition hash_place ::
    "nat \<Rightarrow> nat \<Rightarrow> HASH_LINK list \<Rightarrow> nat \<Rightarrow> nat \<Rightarrow> nat \<Rightarrow> HASH_LINK list option" where
  "hash_place blen recs data hole current_hash_nr record_ptr =
     (let pos = my_hash_mask current_hash_nr blen (recs + 1)
      in do { data \<leftarrow>
                (if pos = hole then Some (set_next_link data pos NO_RECORD)
                 else
                   let data = data[hole := data ! pos];
                       gpos = my_hash_rec_mask (data ! pos) blen (recs + 1)
                   in if pos = gpos then Some (set_next_link data pos hole)
                      else movelink (set_next_link data pos NO_RECORD) pos gpos hole);
              Some (data[pos := (data ! pos)\<lparr>link_data := record_ptr, hash_nr := current_hash_nr\<rparr>]) })"

text \<open>The result is true for a duplicate key and when there is no memory.\<close>

definition my_hash_insert ::
    "HASH_LINK list option \<Rightarrow> mem \<Rightarrow> HASH \<Rightarrow> nat \<Rightarrow> (bool \<times> HASH) option" where
  "my_hash_insert junk m info record_ptr =
     (let key = my_hash_key m info record_ptr True;
          current_hash_nr = hash_function info (charset info) key
      in do { found \<leftarrow>
                (if flags info AND HASH_UNIQUE \<noteq> 0
                 then my_hash_search_using_hash_value m info current_hash_nr key (length key) else Some 0);
              if found \<noteq> 0 then Some (True, info)
              else case alloc_dynamic junk (links info) of
                (None, a) \<Rightarrow> Some (True, info\<lparr>links := a\<rparr>)
              | (Some hole, a) \<Rightarrow>
                  do { (data, hole) \<leftarrow> hash_split (blength info) (records info) (buffer a) hole;
                       data \<leftarrow> hash_place (blength info) (records info) data hole current_hash_nr record_ptr;
                       let n = records info + 1
                       in Some (False, info\<lparr>links := a\<lparr>buffer := data\<rparr>, records := n,
                            blength := (if n = blength info then blength info + blength info
                                        else blength info)\<rparr>) } })"

section \<open>Deletion\<close>

text \<open>The record and its predecessor in the chain; \<open>Some None\<close> when the chain does not have it.\<close>

partial_function (option) find_record ::
    "HASH_LINK list \<Rightarrow> nat \<Rightarrow> nat option \<Rightarrow> nat \<Rightarrow> (nat \<times> nat option) option option" where
  "find_record data record_ptr previous idx =
     (if idx \<ge> length data then None
      else if link_data (data ! idx) = record_ptr then Some (Some (idx, previous))
      else if next_link (data ! idx) = NO_RECORD then Some None
      else find_record data record_ptr (Some idx) (next_link (data ! idx)))"

declare find_record.simps [code]

text \<open>Removes the link \<open>pos\<close>; the second result is the free position.\<close>

definition unlink :: "HASH_LINK list \<Rightarrow> nat \<Rightarrow> nat option \<Rightarrow> HASH_LINK list \<times> nat" where
  "unlink data pos previous =
     (case previous of
        Some gpos \<Rightarrow> (set_next_link data gpos (next_link (data ! pos)), pos)
      | None \<Rightarrow>
          if next_link (data ! pos) \<noteq> NO_RECORD
          then (data[pos := data ! next_link (data ! pos)], next_link (data ! pos))
          else (data, pos))"

text \<open>
  Moves the last key: \<open>recs\<close> and \<open>blen\<close> are the values after the deletion, \<open>old_blen\<close> is the one
  before it.
\<close>

definition move_last :: "nat \<Rightarrow> nat \<Rightarrow> nat \<Rightarrow> HASH_LINK list \<Rightarrow> nat \<Rightarrow> HASH_LINK list option" where
  "move_last old_blen blen recs data hole =
     (if hole = recs then Some data
      else
        let lastpos = recs;
            lastpos_hashnr = hash_nr (data ! lastpos);
            pos = my_hash_mask lastpos_hashnr blen recs
        in if pos = hole then Some (data[hole := data ! lastpos])
           else
             let pos_hashnr = hash_nr (data ! pos);
                 pos3 = my_hash_mask pos_hashnr blen recs
             in if pos \<noteq> pos3 then
                  let data = data[hole := data ! pos];
                      data = data[pos := data ! lastpos]
                  in movelink data pos pos3 hole
                else
                  let pos2 = my_hash_mask lastpos_hashnr old_blen (recs + 1);
                      same = (pos2 = my_hash_mask pos_hashnr old_blen (recs + 1))
                  in if same \<and> pos2 \<noteq> recs then
                       movelink (data[hole := data ! lastpos]) lastpos pos hole
                     else
                       let idx = (if same then pos else NO_RECORD);
                           data = data[hole := data ! lastpos]
                       in do { data \<leftarrow> movelink data idx hole (next_link (data ! pos));
                               Some (set_next_link data pos hole) })"

text \<open>The result: whether the record was not found, the table and the pointers given to \<open>hash->free\<close>.\<close>

definition my_hash_delete :: "mem \<Rightarrow> HASH \<Rightarrow> nat \<Rightarrow> (bool \<times> HASH \<times> nat list) option" where
  "my_hash_delete m hash record_ptr =
     (if records hash = 0 then Some (True, hash, [])
      else
        let blen = blength hash;
            data = buffer (links hash)
        in do { found \<leftarrow> find_record data record_ptr None
                  (my_hash_mask (rec_hashnr m hash record_ptr) blen (records hash));
                case found of
                  None \<Rightarrow> Some (True, hash, [])
                | Some (pos, gpos) \<Rightarrow>
                    let recs = records hash - 1;
                        new_blen = (if recs < blen div 2 then blen div 2 else blen);
                        (data, hole) = unlink data pos gpos
                    in do { data \<leftarrow> move_last blen new_blen recs data hole;
                            Some (False,
                              hash\<lparr>records := recs, blength := new_blen,
                                   links := snd (pop_dynamic ((links hash)\<lparr>buffer := data\<rparr>))\<rparr>,
                              if free_element hash then [record_ptr] else []) } })"

section \<open>Update\<close>

text \<open>Whether another record has the new key.\<close>

partial_function (option) duplicate_loop :: "mem \<Rightarrow> HASH \<Rightarrow> u8 list \<Rightarrow> nat \<Rightarrow> nat \<times> nat \<Rightarrow> bool option" where
  "duplicate_loop m hash key record_ptr found =
     (if fst found = 0 then Some False
      else if fst found \<noteq> record_ptr then Some True
      else do { found \<leftarrow> my_hash_next m hash key (length key) (snd found);
                duplicate_loop m hash key record_ptr found })"

declare duplicate_loop.simps [code]

definition relink :: "nat \<Rightarrow> nat \<Rightarrow> HASH_LINK list \<Rightarrow> nat \<Rightarrow> nat \<Rightarrow> nat \<Rightarrow> HASH_LINK \<Rightarrow> nat \<Rightarrow> HASH_LINK list option" where
  "relink blen recs data idx hole new_index org_link nr =
     (if new_index = hole then
        let data = (if hole \<noteq> idx then data[hole := org_link] else data)
        in Some (data[hole := (data ! hole)\<lparr>next_link := NO_RECORD, hash_nr := nr\<rparr>])
      else
        let new_pos_index = my_hash_rec_mask (data ! new_index) blen recs
        in if new_index \<noteq> new_pos_index then
             do { data \<leftarrow> movelink (data[hole := data ! new_index]) new_index new_pos_index hole;
                  Some (data[new_index := org_link\<lparr>next_link := NO_RECORD, hash_nr := nr\<rparr>]) }
           else
             let data = data[hole := org_link\<lparr>next_link := next_link (data ! new_index), hash_nr := nr\<rparr>]
             in Some (set_next_link data new_index hole))"

definition my_hash_update :: "mem \<Rightarrow> HASH \<Rightarrow> nat \<Rightarrow> u8 list \<Rightarrow> nat \<Rightarrow> (bool \<times> HASH) option" where
  "my_hash_update m hash record_ptr old_key old_key_length =
     (let new_key = my_hash_key m hash record_ptr True;
          nr = hash_function hash (charset hash) new_key;
          data = buffer (links hash); blen = blength hash; recs = records hash
      in do { duplicate \<leftarrow>
                (if flags hash AND HASH_UNIQUE \<noteq> 0 then
                   do { found \<leftarrow> my_hash_first_from_hash_value m hash nr new_key (length new_key);
                        duplicate_loop m hash new_key record_ptr found }
                 else Some False);
              if duplicate then Some (True, hash)
              else
                let org_index = my_hash_mask
                      (hash_function hash (charset hash) (key_arg hash old_key old_key_length)) blen recs;
                    new_index = my_hash_mask nr blen recs
                in do { found \<leftarrow> find_record data record_ptr None org_index;
                        case found of
                          None \<Rightarrow> Some (True, hash)
                        | Some (idx, previous) \<Rightarrow>
                            if org_index = new_index
                            then Some (False, hash\<lparr>links := (links hash)
                                   \<lparr>buffer := data[idx := (data ! idx)\<lparr>hash_nr := nr\<rparr>]\<rparr>\<rparr>)
                            else
                              let org_link = data ! idx;
                                  (data, hole) = unlink data idx previous
                              in do { data \<leftarrow> relink blen recs data idx hole new_index org_link nr;
                                      Some (False, hash\<lparr>links := (links hash)\<lparr>buffer := data\<rparr>\<rparr>) } } })"

section \<open>Other operations\<close>

definition my_hash_element :: "HASH \<Rightarrow> nat \<Rightarrow> nat" where
  "my_hash_element hash idx =
     (if idx < records hash then link_data (buffer (links hash) ! idx) else 0)"

definition my_hash_replace :: "HASH \<Rightarrow> nat \<Rightarrow> nat \<Rightarrow> HASH" where
  "my_hash_replace hash current_record new_row =
     (if current_record \<noteq> NO_RECORD
      then hash\<lparr>links := (links hash)\<lparr>buffer := (buffer (links hash))
             [current_record := (buffer (links hash) ! current_record)\<lparr>link_data := new_row\<rparr>]\<rparr>\<rparr>
      else hash)"

text \<open>The result and the records the action was called on; \<open>action\<close> gives its return value.\<close>

fun iterate_loop :: "HASH_LINK list \<Rightarrow> (nat \<Rightarrow> bool) \<Rightarrow> bool \<times> nat list" where
  "iterate_loop [] action = (False, [])"
| "iterate_loop (l # ls) action =
     (if action (link_data l) then (True, [link_data l])
      else case iterate_loop ls action of (r, seen) \<Rightarrow> (r, link_data l # seen))"

definition my_hash_iterate :: "HASH \<Rightarrow> (nat \<Rightarrow> bool) \<Rightarrow> bool \<times> nat list" where
  "my_hash_iterate hash action = iterate_loop (take (records hash) (buffer (links hash))) action"

end
