(* ===== verification/HashChain.thy ===== *)
theory HashChain
  imports HashTable
begin

text \<open>The chains of the hash table of \<open>mysys/hash.c\<close>: the bucket of a hash value as the table grows,
  the chains as segments of the array of links, what it means that an array of links is a table, and the
  placing of a record (the end of \<open>my_hash_insert\<close>).\<close>

section \<open>The position of a hash value\<close>

lemma and_size_pred: "h AND size_pred (2 ^ k) = h mod 2 ^ k" for h :: nat
proof -
  have "size_pred (2 ^ k) = mask k" by (simp add: size_pred_def mask_eq_exp_minus_1)
  then show ?thesis by (simp flip: take_bit_eq_mask take_bit_eq_mod)
qed

text \<open>The sizes a table can have: \<open>blength\<close> is the power of two above the number of records.\<close>

definition size_ok :: "nat \<Rightarrow> nat \<Rightarrow> bool" where
  "size_ok blen n \<longleftrightarrow> (\<exists>k. blen = 2 ^ k) \<and> blen div 2 \<le> n \<and> n < blen"

lemma my_hash_mask_pow:
  "my_hash_mask h (2 * 2 ^ k) n = (if h mod (2 * 2 ^ k) < n then h mod (2 * 2 ^ k) else h mod 2 ^ k)"
proof -
  have "h AND size_pred (2 * 2 ^ k) = h mod (2 * 2 ^ k)" using and_size_pred [of h "Suc k"] by simp
  then show ?thesis by (simp add: my_hash_mask_def and_size_pred)
qed

lemma my_hash_mask_one: "0 < n \<Longrightarrow> my_hash_mask h 1 n = 0"
  using and_size_pred [of h 0] by (simp add: my_hash_mask_def)

lemma pow_cases:
  assumes "(\<exists>k. blen = 2 ^ k)"
  obtains "blen = 1" | k where "blen = 2 * 2 ^ k"
proof -
  obtain k where "blen = 2 ^ k" using assms by blast
  then show thesis using that by (cases k) auto
qed

lemma my_hash_mask_less:
  assumes "(\<exists>k. blen = 2 ^ k)" "blen div 2 \<le> n" "0 < n"
  shows "my_hash_mask h blen n < n"
  using assms(1)
proof (cases rule: pow_cases)
  case 1
  then show ?thesis using assms by (simp add: my_hash_mask_one [simplified])
next
  case (2 k)
  have "2 ^ k \<le> n" using assms(2) by (simp add: 2)
  moreover have "h mod 2 ^ k < 2 ^ k" by simp
  ultimately have "h mod 2 ^ k < n" by (rule less_le_trans [rotated])
  then show ?thesis unfolding 2 my_hash_mask_pow by (cases "h mod (2 * 2 ^ k) < n") simp_all
qed

text \<open>A full table has the same positions with the double length.\<close>

lemma my_hash_mask_double:
  assumes "(\<exists>k. blen = 2 ^ k)"
  shows "my_hash_mask h (2 * blen) blen = my_hash_mask h blen blen"
proof -
  obtain k where k: "blen = 2 ^ k" using assms by blast
  have "h mod (2 * 2 ^ k) = h mod 2 ^ k" if "h mod (2 * 2 ^ k) < 2 ^ k"
    using that mod_mod_cancel [of "2 ^ k" "2 * 2 ^ k" h] by simp
  moreover have "my_hash_mask h blen blen = h mod 2 ^ k"
    using k by (simp add: my_hash_mask_def and_size_pred)
  ultimately show ?thesis using k by (simp add: my_hash_mask_pow)
qed

text \<open>One more record: only the values of one bucket move, to the new position.\<close>

lemma my_hash_mask_step:
  assumes "size_ok blen n" "0 < n"
  shows "my_hash_mask h blen (n + 1) = (if h mod blen = n then n else my_hash_mask h blen n)"
    and "h mod blen = n \<Longrightarrow> my_hash_mask h blen n = n - blen div 2"
    and "my_hash_mask h blen n = n - blen div 2 \<Longrightarrow> h mod blen = n \<longleftrightarrow> h AND blen div 2 \<noteq> 0"
proof -
  have "\<exists>k. blen = 2 ^ k" "blen \<noteq> 1" using assms by (auto simp: size_ok_def)
  then obtain k where k: "blen = 2 * 2 ^ k" by (meson pow_cases)
  have n: "2 ^ k \<le> n" "n < 2 * 2 ^ k" using assms k by (auto simp: size_ok_def)
  have m: "h mod 2 ^ k = (if h mod blen < 2 ^ k then h mod blen else h mod blen - 2 ^ k)"
  proof -
    have "h mod 2 ^ k = h mod blen mod 2 ^ k" using k by (simp add: mod_mod_cancel)
    moreover have "x mod 2 ^ k = (if x < 2 ^ k then x else x - 2 ^ k)" if "x < 2 * 2 ^ k" for x :: nat
      using that by (cases "x < 2 ^ k") (simp_all add: le_mod_geq)
    ultimately show ?thesis using k by simp
  qed
  have d: "blen div 2 = 2 ^ k" using k by simp
  show "my_hash_mask h blen (n + 1) = (if h mod blen = n then n else my_hash_mask h blen n)"
    unfolding k my_hash_mask_pow by auto
  show "h mod blen = n \<Longrightarrow> my_hash_mask h blen n = n - blen div 2"
    using m n unfolding d unfolding k my_hash_mask_pow by auto
  assume a: "my_hash_mask h blen n = n - blen div 2"
  have "h AND 2 ^ k \<noteq> 0 \<longleftrightarrow> bit h k"
    by (metis and_exp_eq_0_iff_not_bit)
  also have "\<dots> \<longleftrightarrow> \<not> h mod blen < 2 ^ k"
  proof -
    have "bit h k \<longleftrightarrow> bit (take_bit (Suc k) h) k" by (simp add: bit_take_bit_iff)
    also have "take_bit (Suc k) h = h mod blen" using k by (simp add: take_bit_nat_def)
    also have "bit (h mod blen) k \<longleftrightarrow> \<not> h mod blen < 2 ^ k"
    proof -
      have "h mod blen div 2 ^ k < 2" using k by (simp add: less_mult_imp_div_less)
      then have "odd (h mod blen div 2 ^ k) \<longleftrightarrow> h mod blen div 2 ^ k \<noteq> 0" by (cases "h mod blen div 2 ^ k") auto
      then show ?thesis by (simp add: bit_iff_odd div_eq_0_iff)
    qed
    finally show ?thesis .
  qed
  finally have b: "h AND 2 ^ k \<noteq> 0 \<longleftrightarrow> \<not> h mod blen < 2 ^ k" .
  have lt: "h mod blen < 2 * 2 ^ k" using k by simp
  show "h mod blen = n \<longleftrightarrow> h AND blen div 2 \<noteq> 0"
    unfolding d b using a m n lt unfolding d unfolding k my_hash_mask_pow by (auto split: if_splits)
qed

section \<open>Chains\<close>

text \<open>\<open>seg D x ps y\<close>: the links lead from \<open>x\<close> through the positions \<open>ps\<close> to \<open>y\<close>.\<close>

fun seg :: "HASH_LINK list \<Rightarrow> nat \<Rightarrow> nat list \<Rightarrow> nat \<Rightarrow> bool" where
  "seg D x [] y \<longleftrightarrow> x = y"
| "seg D x (a # as) y \<longleftrightarrow> x = a \<and> a < length D \<and> seg D (next_link (D ! a)) as y"

lemma seg_append: "seg D x (as @ bs) y \<longleftrightarrow> (\<exists>z. seg D x as z \<and> seg D z bs y)"
  by (induction as arbitrary: x) auto

lemma seg_frame:
  "seg D x as y \<Longrightarrow> length D' = length D \<Longrightarrow> (\<And>i. i \<in> set as \<Longrightarrow> next_link (D' ! i) = next_link (D ! i)) \<Longrightarrow> seg D' x as y"
  by (induction as arbitrary: x) auto

lemma seg_hd: "seg D x as y \<Longrightarrow> as \<noteq> [] \<Longrightarrow> hd as = x"
  by (cases as) auto

lemma seg_bound: "seg D x as y \<Longrightarrow> i \<in> set as \<Longrightarrow> i < length D"
  by (induction as arbitrary: x) auto

lemma set_next_link_simps [simp]:
  "length (set_next_link D i n) = length D"
  "i < length D \<Longrightarrow> set_next_link D i n ! i = (D ! i)\<lparr>next_link := n\<rparr>"
  "j \<noteq> i \<Longrightarrow> set_next_link D i n ! j = D ! j"
  by (simp_all add: set_next_link_def)

lemma hash_nr_set_next_link [simp]:
  "hash_nr (set_next_link D i n ! j) = hash_nr (D ! j)" "link_data (set_next_link D i n ! j) = link_data (D ! j)"
proof -
  have "set_next_link D i n ! j = (if j = i \<and> i < length D then (D ! i)\<lparr>next_link := n\<rparr> else D ! j)"
    by (cases "i < length D") (simp_all add: set_next_link_def list_update_beyond)
  then show "hash_nr (set_next_link D i n ! j) = hash_nr (D ! j)" "link_data (set_next_link D i n ! j) = link_data (D ! j)"
    by simp_all
qed

text \<open>\<open>movelink\<close> changes the link that leads to \<open>pos\<close>.\<close>

lemma movelink_seg:
  "seg D x (as @ [a]) pos \<Longrightarrow> pos \<notin> set (as @ [a]) \<Longrightarrow> movelink D pos x n = Some (set_next_link D a n)"
proof (induction as arbitrary: x)
  case Nil
  then show ?case by (subst movelink.simps) auto
next
  case (Cons b as)
  then have "seg D (next_link (D ! b)) (as @ [a]) pos" "x = b" "b < length D" by auto
  moreover from this have "next_link (D ! b) \<noteq> pos" using seg_hd [of D "next_link (D ! b)" "as @ [a]" pos] Cons.prems(2)
    by (cases as) auto
  ultimately show ?case using Cons by (subst movelink.simps) auto
qed

section \<open>Tables\<close>

text \<open>
  \<open>table D hm S P\<close>: the positions \<open>S\<close> of \<open>D\<close> are in use, and for every position \<open>b\<close> the links from
  it on run through \<open>P b\<close>, which are exactly the positions of the records that \<open>hm\<close> assigns to \<open>b\<close>.
\<close>

definition home :: "(nat \<Rightarrow> nat) \<Rightarrow> HASH_LINK list \<Rightarrow> nat \<Rightarrow> nat" where
  "home hm D i = hm (hash_nr (D ! i))"

definition table :: "HASH_LINK list \<Rightarrow> (nat \<Rightarrow> nat) \<Rightarrow> nat set \<Rightarrow> (nat \<Rightarrow> nat list) \<Rightarrow> bool" where
  "table D hm S P \<longleftrightarrow> finite S \<and> (\<forall>i \<in> S. i < length D \<and> i < NO_RECORD) \<and>
     (\<forall>b. distinct (P b) \<and> set (P b) = {i \<in> S. home hm D i = b} \<and>
          (P b = [] \<or> seg D b (P b) NO_RECORD))"

lemma tableD:
  assumes "table D hm S P"
  shows "finite S" "i \<in> S \<Longrightarrow> i < length D" "i \<in> S \<Longrightarrow> i < NO_RECORD" "distinct (P b)"
    "set (P b) = {i \<in> S. home hm D i = b}" "P b \<noteq> [] \<Longrightarrow> seg D b (P b) NO_RECORD"
proof -
  note a = assms [unfolded table_def]
  show "finite S" by (rule conjunct1 [OF a])
  have b: "\<forall>i \<in> S. i < length D \<and> i < NO_RECORD" by (rule conjunct1 [OF conjunct2 [OF a]])
  then show "i \<in> S \<Longrightarrow> i < length D" "i \<in> S \<Longrightarrow> i < NO_RECORD" by simp_all
  note c = spec [OF conjunct2 [OF conjunct2 [OF a]], of b]
  show "distinct (P b)" "set (P b) = {i \<in> S. home hm D i = b}" by (rule conjunct1 [OF c], rule conjunct1 [OF conjunct2 [OF c]])
  show "P b \<noteq> [] \<Longrightarrow> seg D b (P b) NO_RECORD" using conjunct2 [OF conjunct2 [OF c]] by simp
qed

lemma table_head:
  assumes "table D hm S P" "P b \<noteq> []"
  shows "P b = b # tl (P b)" "b \<in> S" "home hm D b = b"
proof -
  show p: "P b = b # tl (P b)" using seg_hd [OF tableD(6) [OF assms] assms(2)] assms(2) by (metis list.collapse)
  then have "b \<in> set (P b)" by (metis list.set_intros(1))
  then show "b \<in> S" "home hm D b = b" using tableD(5) [OF assms(1)] by auto
qed

text \<open>A position that is free or holds a record of another bucket has no chain of its own.\<close>

lemma table_no_chain:
  assumes "table D hm S P" "b \<notin> S \<or> home hm D b \<noteq> b"
  shows "P b = []"
proof (rule ccontr)
  assume "P b \<noteq> []"
  from table_head(2,3) [OF assms(1) this] assms(2) show False by simp
qed

lemma table_in_chain: "table D hm S P \<Longrightarrow> i \<in> S \<Longrightarrow> i \<in> set (P (home hm D i))"
  by (simp add: tableD(5))

text \<open>New chains for the buckets \<open>B\<close>, everything else as it is.\<close>

lemma table_update:
  assumes t: "table D hm S P" and l: "length D' = length D"
    and R: "R = S - (\<Union>b \<in> B. set (P b))"
    and same: "\<And>i. i \<in> R \<Longrightarrow> D' ! i = D ! i \<and> hm' (hash_nr (D ! i)) = hm (hash_nr (D ! i))"
    and S': "S' = R \<union> (\<Union>b \<in> B. set (p b))" and fin: "finite B"
    and bounds: "\<And>b i. b \<in> B \<Longrightarrow> i \<in> set (p b) \<Longrightarrow> i < length D \<and> i < NO_RECORD"
    and new: "\<And>b. b \<in> B \<Longrightarrow> distinct (p b) \<and> set (p b) \<inter> R = {} \<and> (p b = [] \<or> seg D' b (p b) NO_RECORD)"
    and homes: "\<And>b i. b \<in> B \<Longrightarrow> i \<in> set (p b) \<Longrightarrow> home hm' D' i = b"
  shows "table D' hm' S' (\<lambda>b. if b \<in> B then p b else P b)"
proof -
  have Rhome: "home hm D i \<notin> B" "home hm' D' i = home hm D i" if "i \<in> R" for i
    using that R same [OF that] table_in_chain [OF t, of i] by (auto simp: home_def)
  have old: "set (P b) \<subseteq> R" if "b \<notin> B" for b
    using that tableD(5) [OF t] R by auto
  show ?thesis
    unfolding table_def
  proof (intro conjI allI ballI)
    show "finite S'" using S' R tableD(1) [OF t] fin by simp
  next
    fix i assume "i \<in> S'"
    then show "i < length D'" "i < NO_RECORD" using S' R bounds tableD(2,3) [OF t] l by auto
  next
    fix b
    let ?P = "\<lambda>b. if b \<in> B then p b else P b"
    show "distinct (?P b)" using new tableD(4) [OF t] by simp
    show "?P b = [] \<or> seg D' b (?P b) NO_RECORD"
    proof (cases "b \<in> B \<or> P b = []")
      case False
      then have "seg D b (P b) NO_RECORD" by (simp add: tableD(6) [OF t])
      moreover have "next_link (D' ! i) = next_link (D ! i)" if "i \<in> set (P b)" for i
        using that old [of b] False same by (simp add: subset_iff)
      ultimately have "seg D' b (P b) NO_RECORD" using seg_frame [of D b "P b" NO_RECORD D', OF _ l] by blast
      then show ?thesis using False by simp
    qed (use new in auto)
    have in_S': "i \<in> S' \<longleftrightarrow> i \<in> R \<or> (\<exists>b \<in> B. i \<in> set (p b))" for i using S' by simp
    show "set (?P b) = {i \<in> S'. home hm' D' i = b}"
    proof (cases "b \<in> B")
      case True
      have "i \<in> set (p b) \<longleftrightarrow> i \<in> S' \<and> home hm' D' i = b" for i
        using in_S' [of i] homes [of _ i] Rhome [of i] True by metis
      then show ?thesis using True by auto
    next
      case False
      have "R \<subseteq> S" using R by auto
      then have "i \<in> set (P b) \<longleftrightarrow> i \<in> R \<and> home hm D i = b" for i
        using tableD(5) [OF t, of b] old [OF False] by auto
      then have "i \<in> set (P b) \<longleftrightarrow> i \<in> S' \<and> home hm' D' i = b" for i
        using in_S' [of i] homes [of _ i] Rhome [of i] False by metis
      then show ?thesis using False by auto
    qed
  qed
qed

lemma table_cong:
  assumes "table D hm S P" "length D' = length D" "\<And>i. i \<in> S \<Longrightarrow> D' ! i = D ! i"
    "\<And>i. i \<in> S \<Longrightarrow> hm' (hash_nr (D ! i)) = hm (hash_nr (D ! i))"
  shows "table D' hm' S P"
proof -
  have "table D' hm' S (\<lambda>b. if b \<in> {} then [] else P b)"
    by (rule table_update [OF assms(1,2)]) (use assms(3,4) in auto)
  then show ?thesis by simp
qed

text \<open>The records of a table, with their hash values.\<close>

definition entry :: "HASH_LINK list \<Rightarrow> nat \<Rightarrow> nat \<times> nat" where
  "entry D i = (hash_nr (D ! i), link_data (D ! i))"

definition entries :: "HASH_LINK list \<Rightarrow> nat set \<Rightarrow> (nat \<times> nat) multiset" where
  "entries D S = image_mset (entry D) (mset_set S)"

lemma entries_cong: "(\<And>i. i \<in> S \<Longrightarrow> entry D' i = entry D i) \<Longrightarrow> entries D' S = entries D S"
  unfolding entries_def by (cases "finite S") (auto intro!: image_mset_cong)

lemma entries_insert: "finite S \<Longrightarrow> i \<notin> S \<Longrightarrow> entries D (insert i S) = add_mset (entry D i) (entries D S)"
  by (simp add: entries_def)

lemma entries_union: "finite S \<Longrightarrow> finite T \<Longrightarrow> S \<inter> T = {} \<Longrightarrow> entries D (S \<union> T) = entries D S + entries D T"
  by (simp add: entries_def mset_set_Union)

lemma entries_list: "distinct ps \<Longrightarrow> entries D (set ps) = mset (map (entry D) ps)"
  by (simp add: entries_def mset_set_set)

section \<open>Adding a record\<close>

lemma entries_move:
  assumes "finite S" "i \<in> S" "e \<notin> S" "entry D' e = entry D i" "\<And>j. j \<in> S - {i} \<Longrightarrow> entry D' j = entry D j"
  shows "entries D' (insert e (S - {i})) = entries D S"
proof -
  have "entries D' (insert e (S - {i})) = add_mset (entry D i) (entries D' (S - {i}))"
    using assms(1,3,4) by (simp add: entries_insert)
  also have "entries D' (S - {i}) = entries D (S - {i})" using assms(5) by (rule entries_cong)
  also have "add_mset (entry D i) (entries D (S - {i})) = entries D S"
    using assms(1,2) entries_insert [of "S - {i}" i D] by (simp add: insert_absorb)
  finally show ?thesis .
qed

text \<open>The record at \<open>i\<close> moves to \<open>e\<close> and another one takes its place.\<close>

lemma entries_place:
  assumes "finite S" "i \<in> S" "e \<notin> S" "entry D' e = entry D i" "entry D' i = x" "\<forall>j \<in> S - {i}. entry D' j = entry D j"
  shows "entries D' (insert e S) = add_mset x (entries D S)"
proof -
  have "entries D' (insert i (insert e (S - {i}))) = add_mset x (entries D' (insert e (S - {i})))"
    using assms(1,2,3,5) by (subst entries_insert) auto
  also have "entries D' (insert e (S - {i})) = entries D S" using assms by (intro entries_move) auto
  also have "insert i (insert e (S - {i})) = insert e S" using assms(2) by auto
  finally show ?thesis .
qed

lemma nth_list_update': "xs[i := x] ! j = (if i = j \<and> j < length xs then x else xs ! j)"
  by (cases "i < length xs") (auto simp: nth_list_update list_update_beyond)

lemma set_all_link [simp]:
  "l\<lparr>next_link := n, link_data := r, hash_nr := h\<rparr> = \<lparr>next_link = n, hash_nr = h, link_data = r\<rparr>"
  by (cases l) simp

text \<open>The predecessor of a record that is not the first of its chain.\<close>

lemma table_predecessor:
  assumes "table D hm S P" "i \<in> S" "home hm D i = b" "b \<noteq> i"
  obtains as a cs where "P b = as @ a # i # cs" "seg D b (as @ [a]) i" "seg D (next_link (D ! i)) cs NO_RECORD"
proof -
  have "i \<in> set (P b)" using table_in_chain [OF assms(1,2)] assms(3) by simp
  then obtain xs cs where p: "P b = xs @ i # cs" by (meson split_list)
  have s: "seg D b (P b) NO_RECORD" using tableD(6) [OF assms(1), of b] p by simp
  have "xs \<noteq> []" using p assms(4) seg_hd [OF s] by auto
  then obtain as a where "xs = as @ [a]" by (meson rev_exhaust)
  with p s show thesis by (intro that [of as a cs]) (auto simp: seg_append)
qed

text \<open>A new chain \<open>p\<close> for the bucket \<open>b\<close>.\<close>

lemma table_bucket:
  assumes t: "table D hm S P" and l: "length D' = length D"
    and same: "\<forall>i \<in> S. home hm D i \<noteq> b \<longrightarrow> D' ! i = D ! i"
    and p: "distinct p" "p = [] \<or> seg D' b p NO_RECORD"
    and new: "\<forall>i \<in> set p. home hm D' i = b \<and> i < length D \<and> i < NO_RECORD \<and> (i \<in> S \<longrightarrow> home hm D i = b)"
  shows "table D' hm ({i \<in> S. home hm D i \<noteq> b} \<union> set p) (P(b := p))"
proof -
  have R: "{i \<in> S. home hm D i \<noteq> b} = S - (\<Union>c \<in> {b}. set (P c))" using tableD(5) [OF t, of b] by auto
  have "table D' hm ({i \<in> S. home hm D i \<noteq> b} \<union> set p) (\<lambda>c. if c \<in> {b} then p else P c)"
    by (rule table_update [OF t l R]) (use same p new in auto)
  moreover have "(\<lambda>c. if c \<in> {b} then p else P c) = P(b := p)" by auto
  ultimately show ?thesis by simp
qed

lemma table_add_alone:
  assumes "table D hm S P" "b \<notin> S" "b < length D" "b < NO_RECORD" "length D' = length D"
    "\<forall>i \<in> S. D' ! i = D ! i" "next_link (D' ! b) = NO_RECORD" "home hm D' b = b"
  shows "table D' hm (insert b S) (P(b := [b]))"
proof -
  have "P b = []" by (rule table_no_chain [OF assms(1)]) (simp add: assms(2))
  then have n: "\<forall>i \<in> S. home hm D i \<noteq> b" using tableD(5) [OF assms(1), of b] by auto
  then have "{i \<in> S. home hm D i \<noteq> b} \<union> set [b] = insert b S" by auto
  moreover have "table D' hm ({i \<in> S. home hm D i \<noteq> b} \<union> set [b]) (P(b := [b]))"
    by (rule table_bucket [OF assms(1,5)]) (use assms n in auto)
  ultimately show ?thesis by simp
qed

lemma table_add_second:
  assumes t: "table D hm S P" and b: "b \<in> S" "home hm D b = b" and e: "e \<notin> S" "e < length D" "e < NO_RECORD"
    and D': "length D' = length D" "\<forall>i \<in> S - {b}. D' ! i = D ! i"
      "D' ! e = D ! b" "next_link (D' ! b) = e" "home hm D' b = b"
  shows "table D' hm (insert e S) (P(b := b # e # tl (P b)))"
proof -
  have ne: "P b \<noteq> []" using table_in_chain [OF t b(1)] b(2) by auto
  obtain ps where ps: "P b = b # ps" using table_head(1) [OF t ne] by metis
  have s: "set (b # ps) = {i \<in> S. home hm D i = b}" and d: "distinct (b # ps)"
    using tableD(4,5) [OF t, of b] ps by simp_all
  have in_ps: "\<forall>i \<in> set ps. i \<in> S \<and> i \<noteq> b \<and> home hm D i = b" using s d by auto
  have sg: "seg D (next_link (D ! b)) ps NO_RECORD" "b < length D" using tableD(6) [OF t ne] ps by simp_all
  have "seg D' (next_link (D ! b)) ps NO_RECORD"
    by (rule seg_frame [OF sg(1) D'(1)]) (use D'(2) in_ps in auto)
  then have "seg D' b (b # e # ps) NO_RECORD" using D' sg(2) e by simp
  moreover have "\<forall>i \<in> set (b # e # ps). home hm D' i = b \<and> i < length D \<and> i < NO_RECORD \<and> (i \<in> S \<longrightarrow> home hm D i = b)"
    using in_ps D' b e tableD(2,3) [OF t] by (auto simp: home_def)
  moreover have "distinct (b # e # ps)" using d in_ps b e by auto
  ultimately have "table D' hm ({i \<in> S. home hm D i \<noteq> b} \<union> set (b # e # ps)) (P(b := b # e # ps))"
    using D'(2) b by (intro table_bucket [OF t D'(1)]) auto
  moreover have "{i \<in> S. home hm D i \<noteq> b} \<union> set (b # e # ps) = insert e S" using s by auto
  ultimately show ?thesis using ps by simp
qed

text \<open>A record that is not the first of its chain moves from \<open>i\<close> to the free position \<open>e\<close>.\<close>

lemma table_move:
  assumes t: "table D hm S P" and i: "i \<in> S" "home hm D i = b" and e: "e \<notin> S" "e < length D" "e < NO_RECORD"
    and p: "P b = as @ a # i # cs"
    and D': "length D' = length D" "\<forall>j \<in> S - {i, a}. D' ! j = D ! j"
      "D' ! e = D ! i" "D' ! a = (D ! a)\<lparr>next_link := e\<rparr>"
  shows "table D' hm (insert e (S - {i})) (P(b := as @ a # e # cs))"
proof -
  have s: "set (as @ a # i # cs) = {i \<in> S. home hm D i = b}" and d: "distinct (as @ a # i # cs)"
    using tableD(4,5) [OF t, of b] p by simp_all
  have in_p: "\<forall>j \<in> set as \<union> set cs. j \<in> S - {i, a} \<and> home hm D j = b" "a \<in> S" "home hm D a = b" "a \<noteq> i"
    using s d by auto
  have "seg D b (as @ a # i # cs) NO_RECORD" using tableD(6) [OF t, of b] p by simp
  then have x: "seg D b as a" "next_link (D ! a) = i" "seg D (next_link (D ! i)) cs NO_RECORD" "a < length D"
    by (auto simp: seg_append)
  have y: "seg D' b as a" by (rule seg_frame [OF x(1) D'(1)]) (use D'(2) in_p(1) in auto)
  have z: "seg D' (next_link (D ! i)) cs NO_RECORD"
    by (rule seg_frame [OF x(3) D'(1)]) (use D'(2) in_p(1) in auto)
  have "seg D' a (a # e # cs) NO_RECORD" using D' e x z by simp
  with y have "seg D' b (as @ a # e # cs) NO_RECORD" unfolding seg_append by blast
  moreover have "\<forall>j \<in> set (as @ a # e # cs). home hm D' j = b \<and> j < length D \<and> j < NO_RECORD \<and> (j \<in> S \<longrightarrow> home hm D j = b)"
    using in_p D' i e tableD(2,3) [OF t] by (auto simp: home_def)
  moreover have "distinct (as @ a # e # cs)" using d in_p e by auto
  moreover have "\<forall>j \<in> S. home hm D j \<noteq> b \<longrightarrow> D' ! j = D ! j" using D'(2) in_p i by auto
  ultimately have "table D' hm ({i \<in> S. home hm D i \<noteq> b} \<union> set (as @ a # e # cs)) (P(b := as @ a # e # cs))"
    by (intro table_bucket [OF t D'(1)]) auto
  moreover have "{i \<in> S. home hm D i \<noteq> b} \<union> set (as @ a # e # cs) = insert e (S - {i})"
    using s d by auto
  ultimately show ?thesis by simp
qed

lemma hash_place_table:
  assumes t: "table D hm S P" and hm: "hm = (\<lambda>h. my_hash_mask h blen (recs + 1))"
    and e: "e \<notin> S" "e < length D" "e < NO_RECORD" and pos: "hm h \<in> insert e S"
  shows "\<exists>D' P'. hash_place blen recs D e h r = Some D' \<and> length D' = length D \<and>
    table D' hm (insert e S) P' \<and> entries D' (insert e S) = add_mset (h, r) (entries D S)"
proof -
  define pos where "pos = hm h"
  have fin: "finite S" by (rule tableD [OF t])
  have rm: "my_hash_rec_mask (D ! i) blen (recs + 1) = home hm D i" for i by (simp add: my_hash_rec_mask_def home_def hm)
  have m: "my_hash_mask h blen (recs + 1) = pos" by (simp add: pos_def hm)
  consider "pos = e" | "pos \<in> S" "home hm D pos = pos" | "pos \<in> S" "home hm D pos \<noteq> pos"
    using pos by (auto simp: pos_def)
  then show ?thesis
  proof cases
    case 1
    define D' where "D' = D[e := \<lparr>next_link = NO_RECORD, hash_nr = h, link_data = r\<rparr>]"
    have p: "hash_place blen recs D e h r = Some D'"
      using e by (simp add: hash_place_def m [simplified] 1 D'_def set_next_link_def)
    have D': "length D' = length D" "D' ! e = \<lparr>next_link = NO_RECORD, hash_nr = h, link_data = r\<rparr>"
      "\<forall>i \<in> S. D' ! i = D ! i" using e by (auto simp: D'_def nth_list_update')
    have "table D' hm (insert e S) (P(e := [e]))"
      by (rule table_add_alone [OF t e D'(1,3)]) (use D' 1 in \<open>simp_all add: home_def pos_def\<close>)
    moreover have "entries D' (insert e S) = add_mset (h, r) (entries D S)"
      using e fin D' entries_cong [of S D' D] by (simp add: entries_insert entry_def)
    ultimately show ?thesis using p D'(1) by blast
  next
    case 2
    define D' where "D' = D[e := D ! pos, pos := \<lparr>next_link = e, hash_nr = h, link_data = r\<rparr>]"
    have ne: "pos \<noteq> e" "pos < length D" using 2 e tableD(2) [OF t] by auto
    have "home hm (D[e := D ! pos]) pos = pos" using 2 ne by (simp add: home_def)
    then have p: "hash_place blen recs D e h r = Some D'"
      using ne 2 by (simp add: hash_place_def m [simplified] D'_def set_next_link_def Let_def my_hash_rec_mask_def home_def hm)
    have D': "length D' = length D" "D' ! pos = \<lparr>next_link = e, hash_nr = h, link_data = r\<rparr>" "D' ! e = D ! pos"
      "\<forall>i \<in> S - {pos}. D' ! i = D ! i" using e ne by (auto simp: D'_def nth_list_update')
    have "table D' hm (insert e S) (P(pos := pos # e # tl (P pos)))"
      by (rule table_add_second [OF t 2 e D'(1,4,3)]) (use D' in \<open>simp_all add: home_def pos_def\<close>)
    moreover have "entries D' (insert e S) = add_mset (h, r) (entries D S)"
      using entries_place [OF fin 2(1) e(1), of D' D] D' by (simp add: entry_def)
    ultimately show ?thesis using p D'(1) by blast
  next
    case 3
    define g where "g = home hm D pos"
    have ne: "pos \<noteq> e" "pos < length D" using 3 e tableD(2) [OF t] by auto
    obtain as a cs where c: "P g = as @ a # pos # cs" "seg D g (as @ [a]) pos"
      using table_predecessor [OF t 3(1), of g] 3(2) g_def by metis
    have in_p: "set (as @ a # pos # cs) \<subseteq> S" "distinct (as @ a # pos # cs)"
      using tableD(4,5) [OF t, of g] c(1) by auto
    have ae: "a \<in> S" "a \<noteq> pos" "a \<noteq> e" "a < length D" using in_p e tableD(2) [OF t] by auto
    define D1 where "D1 = set_next_link (D[e := D ! pos]) pos NO_RECORD"
    have "seg D1 g (as @ [a]) pos"
      by (rule seg_frame [OF c(2)]) (use in_p e in \<open>auto simp: D1_def set_next_link_def nth_list_update'\<close>)
    moreover have "pos \<notin> set (as @ [a])" using in_p by auto
    ultimately have mv: "movelink D1 pos g e = Some (set_next_link D1 a e)" by (rule movelink_seg)
    define D2 where "D2 = set_next_link D1 a e"
    define D' where "D' = D2[pos := \<lparr>next_link = NO_RECORD, hash_nr = h, link_data = r\<rparr>]"
    have l: "length D2 = length D" by (simp add: D1_def D2_def)
    have nth: "D2 ! e = D ! pos" "D2 ! a = (D ! a)\<lparr>next_link := e\<rparr>" "\<forall>j \<in> S - {pos, a}. D2 ! j = D ! j"
      "D2 ! pos = (D ! pos)\<lparr>next_link := NO_RECORD\<rparr>"
      using e ne ae by (auto simp: D1_def D2_def set_next_link_def nth_list_update')
    have p: "hash_place blen recs D e h r = Some D'"
    proof -
      have "my_hash_rec_mask (D[e := D ! pos] ! pos) blen (recs + 1) = g"
        using ne by (simp add: g_def my_hash_rec_mask_def home_def hm)
      moreover have "D2[pos := (D2 ! pos)\<lparr>link_data := r, hash_nr := h\<rparr>] = D'" using nth(4) by (simp add: D'_def)
      ultimately show ?thesis
        using ne 3 mv by (simp add: hash_place_def m [simplified] Let_def g_def [symmetric] D1_def [symmetric] D2_def [symmetric])
    qed
    have D': "length D' = length D" "D' ! pos = \<lparr>next_link = NO_RECORD, hash_nr = h, link_data = r\<rparr>"
      "\<forall>j \<in> insert e (S - {pos}). D' ! j = D2 ! j" using l ne e by (auto simp: D'_def nth_list_update')
    have t2: "table D2 hm (insert e (S - {pos})) (P(g := as @ a # e # cs))"
      by (rule table_move [OF t 3(1) g_def [symmetric] e c(1) l nth(3,1,2)])
    have "table D' hm (insert pos (insert e (S - {pos}))) ((P(g := as @ a # e # cs))(pos := [pos]))"
      by (rule table_add_alone [OF t2 _ _ _ _ D'(3)]) (use D' ne l tableD(3) [OF t 3(1)] in \<open>simp_all add: home_def pos_def\<close>)
    moreover have "insert pos (insert e (S - {pos})) = insert e S" using 3(1) by auto
    moreover have "entries D' (insert e S) = add_mset (h, r) (entries D S)"
    proof (rule entries_place [OF fin 3(1) e(1)])
      show "entry D' e = entry D pos" "entry D' pos = (h, r)" using D' nth ne by (simp_all add: entry_def)
      show "\<forall>j \<in> S - {pos}. entry D' j = entry D j"
      proof
        fix j assume "j \<in> S - {pos}"
        then show "entry D' j = entry D j" using D'(3) nth by (cases "j = a") (simp_all add: entry_def)
      qed
    qed
    ultimately show ?thesis using p D'(1) by auto
  qed
qed

end
