(* ===== verification/HashSplit.thy ===== *)
theory HashSplit
  imports HashChain
begin

text \<open>The split of a bucket in \<open>my_hash_insert\<close>: when the table grows by one position, the chain of one
  bucket is divided into the records that stay and those of the new bucket, in place and with one pass.\<close>

section \<open>Splitting a bucket\<close>

text \<open>
  \<open>placed D0 D ps ls y\<close>: the positions \<open>ps\<close> of \<open>D\<close> hold the records that were at \<open>ls\<close> in \<open>D0\<close>,
  linked to each other in this order and then to \<open>y\<close>.
\<close>

fun placed :: "HASH_LINK list \<Rightarrow> HASH_LINK list \<Rightarrow> nat list \<Rightarrow> nat list \<Rightarrow> nat \<Rightarrow> bool" where
  "placed D0 D [] ls y \<longleftrightarrow> ls = []"
| "placed D0 D (a # as) ls y \<longleftrightarrow>
     (\<exists>l ms. ls = l # ms \<and> D ! a = (D0 ! l)\<lparr>next_link := hd (as @ [y])\<rparr> \<and> placed D0 D as ms y)"

lemma placed_snoc:
  "placed D0 D (as @ [a]) (ls @ [l]) y \<longleftrightarrow> placed D0 D as ls a \<and> D ! a = (D0 ! l)\<lparr>next_link := y\<rparr>"
proof (induction as arbitrary: ls)
  case Nil
  then show ?case by (cases ls) auto
next
  case (Cons b as)
  show ?case
  proof (cases ls)
    case Nil
    then show ?thesis by (cases as) auto
  next
    case (Cons k ks)
    then show ?thesis using Cons.IH [of ks] by (cases as) auto
  qed
qed

lemma placed_frame: "placed D0 D as ls y \<Longrightarrow> \<forall>i \<in> set as. D' ! i = D ! i \<Longrightarrow> placed D0 D' as ls y"
  by (induction as arbitrary: ls) auto

lemma placed_seg: "placed D0 D as ls y \<Longrightarrow> \<forall>i \<in> set as. i < length D \<Longrightarrow> seg D (hd (as @ [y])) as y"
  by (induction as arbitrary: ls) auto

lemma placed_entries: "placed D0 D as ls y \<Longrightarrow> map (entry D) as = map (entry D0) ls"
  by (induction as arbitrary: ls) (auto simp: entry_def)

text \<open>
  The part of the bucket with the records from \<open>ls\<close>, the first of which belongs at \<open>b\<close>; \<open>q\<close> are the
  positions visited.  The last record is still to be written unless it is \<open>used\<close>: it stays where it
  is and was visited last.
\<close>

definition newpos :: "nat \<Rightarrow> nat list \<Rightarrow> nat list" where
  "newpos b ls = (if ls = [] then [] else b # tl ls)"

definition used :: "nat \<Rightarrow> nat list \<Rightarrow> nat list \<Rightarrow> bool" where
  "used b ls q \<longleftrightarrow> ls \<noteq> [] \<and> last q = last ls \<and> last (newpos b ls) = last ls"

definition part :: "HASH_LINK list \<Rightarrow> HASH_LINK list \<Rightarrow> nat \<Rightarrow> nat list \<Rightarrow> nat list \<Rightarrow> bool" where
  "part D0 D b ls q \<longleftrightarrow> placed D0 D (butlast (newpos b ls)) (butlast ls) (last (newpos b ls)) \<and>
     (used b ls q \<longrightarrow> D ! last ls = D0 ! last ls)"

definition pending :: "HASH_LINK list \<Rightarrow> nat \<Rightarrow> nat list \<Rightarrow> nat \<Rightarrow> nat \<Rightarrow> nat \<Rightarrow> bool" where
  "pending D0 b ls g d h \<longleftrightarrow>
     (ls \<noteq> [] \<longrightarrow> g = last (newpos b ls) \<and> d = link_data (D0 ! last ls) \<and> h = hash_nr (D0 ! last ls))"

lemma newpos_simps [simp]:
  "newpos b [] = []" "newpos b [x] = [b]" "ls \<noteq> [] \<Longrightarrow> newpos b (ls @ [x]) = newpos b ls @ [x]"
  "newpos b ls = [] \<longleftrightarrow> ls = []" "length (newpos b ls) = length ls"
  by (auto simp: newpos_def)

lemma used_snoc: "ls \<noteq> [] \<Longrightarrow> used b (ls @ [x]) (q @ [x])"
  by (simp add: used_def)

lemma used_other: "x \<notin> set ls \<Longrightarrow> \<not> used b ls (q @ [x])"
  by (auto simp: used_def)

lemma newpos_last: "ls \<noteq> [] \<Longrightarrow> newpos b ls = butlast (newpos b ls) @ [last (newpos b ls)]"
  by simp

lemma part_extend:
  assumes "part D0 D b ls q" "ls \<noteq> []" "distinct (newpos b ls)"
    and "\<forall>i \<in> set (butlast (newpos b ls)). D' ! i = D ! i"
    and "D' ! last (newpos b ls) = (D0 ! last ls)\<lparr>next_link := x\<rparr>" "D' ! x = D0 ! x"
  shows "part D0 D' b (ls @ [x]) (q @ [x])"
proof -
  have "placed D0 D (butlast (newpos b ls)) (butlast ls) (last (newpos b ls))" using assms(1) by (simp add: part_def)
  then have "placed D0 D' (butlast (newpos b ls)) (butlast ls) (last (newpos b ls))" using assms(4) by (rule placed_frame)
  then have "placed D0 D' (butlast (newpos b ls) @ [last (newpos b ls)]) (butlast ls @ [last ls]) x"
    using assms(5) by (simp only: placed_snoc)
  then have "placed D0 D' (newpos b ls) ls x" using assms(2) by simp
  then show ?thesis using assms(2,6) by (simp add: part_def)
qed

lemma part_other:
  assumes "part D0 D b ls q" "x \<notin> set ls" "\<forall>i \<in> set (butlast (newpos b ls)). D' ! i = D ! i"
  shows "part D0 D' b ls (q @ [x])"
  using assms placed_frame [of D0 D] by (simp add: part_def used_other)

lemma part_first: "D' ! x = D0 ! x \<Longrightarrow> part D0 D' b [x] q"
  by (simp add: part_def)

text \<open>At the end of the chain the last record is written unless it is in place.\<close>

lemma part_finish:
  assumes "part D0 D b ls q" "ls \<noteq> []" "next_link (D0 ! last q) = y"
    and "\<forall>i \<in> set (butlast (newpos b ls)). D' ! i = D ! i"
    and "D' ! last (newpos b ls) = (if used b ls q then D ! last ls else (D0 ! last ls)\<lparr>next_link := y\<rparr>)"
  shows "placed D0 D' (newpos b ls) ls y"
proof -
  have "placed D0 D (butlast (newpos b ls)) (butlast ls) (last (newpos b ls))" using assms(1) by (simp add: part_def)
  then have "placed D0 D' (butlast (newpos b ls)) (butlast ls) (last (newpos b ls))" using assms(4) by (rule placed_frame)
  moreover have "D' ! last (newpos b ls) = (D0 ! last ls)\<lparr>next_link := y\<rparr>"
    using assms(1,3,5) by (auto simp: part_def used_def)
  ultimately have "placed D0 D' (butlast (newpos b ls) @ [last (newpos b ls)]) (butlast ls @ [last ls]) y"
    by (simp only: placed_snoc)
  then show ?thesis using assms(2) by simp
qed

definition low :: "HASH_LINK list \<Rightarrow> nat \<Rightarrow> nat \<Rightarrow> bool" where
  "low D0 half i \<longleftrightarrow> hash_nr (D0 ! i) AND half = 0"

definition lows :: "HASH_LINK list \<Rightarrow> nat \<Rightarrow> nat list \<Rightarrow> nat list" where
  "lows D0 half q = filter (low D0 half) q"

definition highs :: "HASH_LINK list \<Rightarrow> nat \<Rightarrow> nat list \<Rightarrow> nat list" where
  "highs D0 half q = filter (\<lambda>i. \<not> low D0 half i) q"

definition hole_of :: "nat \<Rightarrow> nat \<Rightarrow> nat list \<Rightarrow> nat list \<Rightarrow> nat" where
  "hole_of f n L H = (if H = [] then n else if hd H \<noteq> f then hd H else if L = [] then f else hd L)"

definition split_inv :: "HASH_LINK list \<Rightarrow> nat \<Rightarrow> nat \<Rightarrow> nat \<Rightarrow> nat list \<Rightarrow> nat list \<Rightarrow> nat list \<Rightarrow> split_state \<Rightarrow> bool" where
  "split_inv D0 half f n q L H s \<longleftrightarrow>
     length (s_data s) = length D0 \<and>
     s_flag s = (if L = [] then 0 else 1) + (if used f L q then 2 else 0) +
       (if H = [] then 0 else 4) + (if used n H q then 8 else 0) \<and>
     s_empty s = hole_of f n L H \<and>
     pending D0 f L (s_gpos s) (s_rec_data s) (s_rec_hash_nr s) \<and>
     pending D0 n H (s_gpos2 s) (s_rec2_data s) (s_rec2_hash_nr s) \<and>
     (\<forall>i. i \<notin> set q \<longrightarrow> i \<noteq> n \<longrightarrow> s_data s ! i = D0 ! i) \<and>
     part D0 (s_data s) f L q \<and> part D0 (s_data s) n H q"

lemma split_sides:
  assumes "L = lows D0 half q" "H = highs D0 half q"
  shows "set L \<subseteq> set q" "set H \<subseteq> set q" "set L \<inter> set H = {}" "set L \<union> set H = set q"
    "distinct q \<Longrightarrow> distinct L" "distinct q \<Longrightarrow> distinct H"
  using assms by (auto simp: lows_def highs_def)

lemma filter_hd: "xs \<noteq> [] \<Longrightarrow> hd xs \<in> set (filter P xs) \<Longrightarrow> distinct xs \<Longrightarrow> hd (filter P xs) = hd xs"
  by (cases xs) auto

lemma last_not_butlast: "distinct xs \<Longrightarrow> xs \<noteq> [] \<Longrightarrow> last xs \<notin> set (butlast xs)"
  by (cases xs rule: rev_cases) auto

lemma set_tl_sub: "set (tl xs) \<subseteq> set xs"
  by (cases xs) auto

lemma hd_not_tl:
  assumes "distinct q" "q \<noteq> [] \<longrightarrow> hd q = f" "ls = filter P q"
  shows "f \<notin> set (tl ls)"
proof (cases q)
  case (Cons a r)
  then show ?thesis using assms set_tl_sub [of ls] by (cases "P a") auto
qed (use assms in simp)

lemma newpos_facts:
  assumes q: "distinct q" "q \<noteq> [] \<longrightarrow> hd q = f" "n \<notin> set q" and LH: "L = lows D0 half q" "H = highs D0 half q"
  shows "distinct (newpos f L)" "distinct (newpos n H)" "set (newpos f L) \<inter> set (newpos n H) = {}"
    "set (newpos f L) \<subseteq> set q" "set (newpos n H) \<subseteq> insert n (set q)"
proof -
  have f: "f \<notin> set (tl L)" "f \<notin> set (tl H)"
    using hd_not_tl [OF q(1,2)] LH by (simp_all add: lows_def highs_def)
  note s = split_sides [OF LH]
  have fq: "f \<in> set q" if "q \<noteq> []" using that q(2) by (cases q) auto
  have nf: "n \<noteq> f" if "q \<noteq> []" using fq [OF that] q(3) by auto
  have d: "distinct (tl L)" "distinct (tl H)" using s(5,6) [OF q(1)] by (simp_all add: distinct_tl)
  have sub: "set (tl L) \<subseteq> set L" "set (tl H) \<subseteq> set H" by (rule set_tl_sub)+
  show "distinct (newpos f L)" using f d by (simp add: newpos_def)
  show "distinct (newpos n H)" using d sub s(2) q(3) by (auto simp: newpos_def)
  have ne: "L \<noteq> [] \<Longrightarrow> q \<noteq> []" "H \<noteq> [] \<Longrightarrow> q \<noteq> []" using s(1,2) by auto
  show "set (newpos f L) \<inter> set (newpos n H) = {}"
    using f sub s(1,2,3) q(3) ne nf by (auto simp: newpos_def)
  show "set (newpos f L) \<subseteq> set q" using sub s(1) fq ne by (auto simp: newpos_def)
  show "set (newpos n H) \<subseteq> insert n (set q)" using sub s(2) by (auto simp: newpos_def)
qed

lemma split_flags [simp]:
  "LOWFIND = 1" "LOWUSED = 2" "HIGHFIND = 4" "HIGHUSED = 8"
  by (simp_all add: LOWFIND_def LOWUSED_def HIGHFIND_def HIGHUSED_def)

lemma link_eq: "\<lparr>next_link = n, hash_nr = hash_nr l, link_data = link_data l\<rparr> = l\<lparr>next_link := n\<rparr>"
  by (cases l) simp

lemma split_low_step:
  assumes inv: "split_inv D0 half f n q L H s" and LH: "L = lows D0 half q" "H = highs D0 half q"
    and q: "distinct q" "q \<noteq> [] \<longrightarrow> hd q = f" "n \<notin> set q" "q = [] \<longrightarrow> x = f"
    and x: "x \<notin> set q" "x \<noteq> n" "q \<noteq> [] \<longrightarrow> next_link (D0 ! last q) = x"
    and len: "n < length D0" "set q \<subseteq> {..<length D0}"
  shows "split_inv D0 half f n (q @ [x]) (L @ [x]) H (split_low x s) \<and> s_data (split_low x s) ! x = D0 ! x"
proof -
  note s = split_sides [OF LH] and np = newpos_facts [OF q(1-3) LH]
  note inv = inv [unfolded split_inv_def]
  have xLH: "x \<notin> set L" "x \<notin> set H" using x(1) s by auto
  have Dx: "s_data s ! x = D0 ! x" using inv x by blast
  have nHx: "\<not> used n H (q @ [x])" by (rule used_other [OF xLH(2)])
  show ?thesis
  proof (cases "L = []")
    case L: True
    show ?thesis
    proof (cases "H = []")
      case H: True
      then have "q = []" using s(4) L by simp
      with q(4) have "x = f" by simp
      have s': "split_low x s = s\<lparr>s_flag := 3, s_gpos := x, s_rec_data := link_data (D0 ! x), s_rec_hash_nr := hash_nr (D0 ! x)\<rparr>"
        using inv L H Dx by (simp add: split_low_def used_def Let_def)
      show ?thesis unfolding s' split_inv_def
        using inv L H Dx \<open>x = f\<close> \<open>q = []\<close> by (simp add: used_def pending_def hole_of_def part_def)
    next
      case H: False
      then have ne: "q \<noteq> []" using s(2) by auto
      have "\<forall>i \<in> set q. \<not> low D0 half i" using LH(1) L by (metis lows_def filter_empty_conv)
      then have "H = q" by (simp add: LH(2) highs_def)
      then have hH: "hd H = f" using q(2) ne by simp
      then have e: "s_empty s = f" using inv L H by (simp add: hole_of_def)
      have xf: "x \<noteq> f" using x(1) q(2) ne by (metis list.set_sel(1))
      have s': "split_low x s = s\<lparr>s_flag := 5, s_gpos := f, s_rec_data := link_data (D0 ! x),
          s_rec_hash_nr := hash_nr (D0 ! x), s_empty := x\<rparr>"
        using inv L H Dx e by (auto simp: split_low_def used_def Let_def)
      have "part D0 (s_data s) n H (q @ [x])" using inv xLH by (intro part_other) auto
      then show ?thesis unfolding s' split_inv_def
        using inv L H Dx xf hH nHx part_first [OF Dx] by (simp add: used_def pending_def hole_of_def)
    qed
  next
    case L: False
    have ne: "q \<noteq> []" using L s(1) by auto
    define g where "g = last (newpos f L)"
    have g1: "g \<in> set (newpos f L)" using L by (simp add: g_def)
    then have g2: "g \<in> set q" using np(4) by blast
    then have g: "g < length D0" "g \<noteq> x" using len(2) x(1) by auto
    have bl: "g \<notin> set (butlast (newpos f L))" using last_not_butlast [OF np(1)] L by (simp add: g_def)
    have bh: "\<forall>i \<in> set (butlast (newpos n H)). i \<noteq> g" using np(3) g1 in_set_butlastD by fastforce
    have pe: "s_gpos s = g" "s_rec_data s = link_data (D0 ! last L)" "s_rec_hash_nr s = hash_nr (D0 ! last L)"
      using inv L by (simp_all add: pending_def g_def)
    define D' where "D' = (if used f L q then s_data s else (s_data s)[g := (D0 ! last L)\<lparr>next_link := x\<rparr>])"
    have D': "length D' = length D0" "\<forall>i. i \<noteq> g \<longrightarrow> D' ! i = s_data s ! i"
      "D' ! g = (D0 ! last L)\<lparr>next_link := x\<rparr>"
    proof -
      show "length D' = length D0" "\<forall>i. i \<noteq> g \<longrightarrow> D' ! i = s_data s ! i" using inv by (auto simp: D'_def)
      show "D' ! g = (D0 ! last L)\<lparr>next_link := x\<rparr>"
      proof (cases "used f L q")
        case True
        then have "D' ! g = D0 ! last L" "last q = last L" using inv by (auto simp: D'_def part_def used_def g_def)
        then show ?thesis using x(3) ne by simp
      next
        case False
        then show ?thesis using inv g(1) by (simp add: D'_def)
      qed
    qed
    have fl: "\<not> used n H q" if "used f L q" using that s(3) by (metis disjoint_iff last_in_set used_def)
    have s': "split_low x s = s\<lparr>s_data := D', s_flag := 3 + (if H = [] then 0 else 4), s_gpos := x,
        s_rec_data := link_data (D0 ! x), s_rec_hash_nr := hash_nr (D0 ! x)\<rparr>"
      using inv L Dx pe D'(2) g(2) fl
      by (auto simp: split_low_def Let_def set_link_def link_eq D'_def)
    have hole: "hole_of f n (L @ [x]) H = hole_of f n L H" using L by (simp add: hole_of_def)
    have same: "\<forall>i \<in> set (butlast (newpos f L)). D' ! i = s_data s ! i" using D'(2) bl by metis
    have rest: "\<forall>i. i \<notin> set q \<longrightarrow> i \<noteq> n \<longrightarrow> D' ! i = D0 ! i" using inv D'(2) g2 by metis
    have "D' ! x = D0 ! x" using D'(2) g(2) Dx by simp
    then have "part D0 D' f (L @ [x]) (q @ [x])"
      using inv L np(1) same D'(3) by (intro part_extend [of D0 "s_data s"]) (simp_all add: g_def)
    moreover have "part D0 D' n H (q @ [x])"
      by (rule part_other [of D0 "s_data s"]) (use inv xLH bh D' in auto)
    ultimately show ?thesis unfolding s' split_inv_def
      using inv L D' Dx g hole nHx used_snoc [OF L] rest by (auto simp: pending_def)
  qed
qed

lemma split_high_step:
  assumes inv: "split_inv D0 half f n q L H s" and LH: "L = lows D0 half q" "H = highs D0 half q"
    and q: "distinct q" "q \<noteq> [] \<longrightarrow> hd q = f" "n \<notin> set q" "q = [] \<longrightarrow> x = f"
    and x: "x \<notin> set q" "x \<noteq> n" "q \<noteq> [] \<longrightarrow> next_link (D0 ! last q) = x"
    and len: "n < length D0" "set q \<subseteq> {..<length D0}"
  shows "split_inv D0 half f n (q @ [x]) L (H @ [x]) (split_high x s) \<and> s_data (split_high x s) ! x = D0 ! x"
proof -
  note s = split_sides [OF LH] and np = newpos_facts [OF q(1-3) LH]
  note inv = inv [unfolded split_inv_def]
  have xLH: "x \<notin> set L" "x \<notin> set H" using x(1) s by auto
  have Dx: "s_data s ! x = D0 ! x" using inv x by blast
  have nLx: "\<not> used f L (q @ [x])" by (rule used_other [OF xLH(1)])
  show ?thesis
  proof (cases "H = []")
    case H: True
    then have e: "s_empty s = n" using inv by (simp add: hole_of_def)
    have "L = q" using s H LH by (auto simp: lows_def highs_def filter_empty_conv)
    then have xf: "x = f \<longleftrightarrow> L = []" using q(2,4) x(1) by (metis list.set_sel(1))
    have s': "split_high x s = s\<lparr>s_flag := (if L = [] then 0 else 1) + 4, s_gpos2 := n, s_empty := x,
        s_rec2_data := link_data (D0 ! x), s_rec2_hash_nr := hash_nr (D0 ! x)\<rparr>"
    proof -
      have "s_flag s = (if L = [] then 0 else if used f L q then 3 else 1)"
        using inv H by (auto simp: used_def)
      then have "s_flag s AND 4 = 0" "(s_flag s AND 1) OR 4 = (if L = [] then 0 else 1) + 4" by auto
      then show ?thesis using Dx e by (simp add: split_high_def Let_def)
    qed
    have "part D0 (s_data s) f L (q @ [x])" using inv xLH by (intro part_other) auto
    then show ?thesis unfolding s' split_inv_def
      using inv H Dx xf nLx x(2) part_first [OF Dx] by (auto simp: used_def pending_def hole_of_def)
  next
    case H: False
    have ne: "q \<noteq> []" using H s(2) by auto
    define g where "g = last (newpos n H)"
    have g1: "g \<in> set (newpos n H)" using H by (simp add: g_def)
    then have g2: "g \<in> insert n (set q)" using np(5) by blast
    then have g: "g < length D0" "g \<noteq> x" using len x(1,2) by auto
    have bl: "g \<notin> set (butlast (newpos n H))" using last_not_butlast [OF np(2)] H by (simp add: g_def)
    have bh: "\<forall>i \<in> set (butlast (newpos f L)). i \<noteq> g" using np(3) g1 in_set_butlastD by fastforce
    have pe: "s_gpos2 s = g" "s_rec2_data s = link_data (D0 ! last H)" "s_rec2_hash_nr s = hash_nr (D0 ! last H)"
      using inv H by (simp_all add: pending_def g_def)
    define D' where "D' = (if used n H q then s_data s else (s_data s)[g := (D0 ! last H)\<lparr>next_link := x\<rparr>])"
    have D': "length D' = length D0" "\<forall>i. i \<noteq> g \<longrightarrow> D' ! i = s_data s ! i"
      "D' ! g = (D0 ! last H)\<lparr>next_link := x\<rparr>"
    proof -
      show "length D' = length D0" "\<forall>i. i \<noteq> g \<longrightarrow> D' ! i = s_data s ! i" using inv by (auto simp: D'_def)
      show "D' ! g = (D0 ! last H)\<lparr>next_link := x\<rparr>"
      proof (cases "used n H q")
        case True
        then have "D' ! g = D0 ! last H" "last q = last H" using inv by (auto simp: D'_def part_def used_def g_def)
        then show ?thesis using x(3) ne by simp
      next
        case False
        then show ?thesis using inv g(1) by (simp add: D'_def)
      qed
    qed
    have fl: "\<not> used f L q" if "used n H q" using that s(3) by (metis disjoint_iff last_in_set used_def)
    have s': "split_high x s = s\<lparr>s_data := D', s_flag := (if L = [] then 0 else 1) + 12, s_gpos2 := x,
        s_rec2_data := link_data (D0 ! x), s_rec2_hash_nr := hash_nr (D0 ! x)\<rparr>"
    proof (cases "used n H q")
      case True
      then have "s_flag s = (if L = [] then 0 else 1) + 12" using inv H fl by simp
      moreover from this have "s_flag s AND 4 \<noteq> 0" "s_flag s AND 8 \<noteq> 0" by auto
      ultimately show ?thesis using True Dx by (simp add: split_high_def Let_def D'_def)
    next
      case False
      then have "s_flag s = (if L = [] then 0 else if used f L q then 3 else 1) + 4"
        using inv H by (auto simp: used_def)
      then have "s_flag s AND 4 \<noteq> 0" "s_flag s AND 8 = 0" "(s_flag s AND 1) OR 12 = (if L = [] then 0 else 1) + 12"
        by auto
      then show ?thesis
        using False Dx pe D'(2) g(2) by (simp add: split_high_def Let_def set_link_def link_eq D'_def)
    qed
    have hole: "hole_of f n L (H @ [x]) = hole_of f n L H" using H by (simp add: hole_of_def)
    have same: "\<forall>i \<in> set (butlast (newpos n H)). D' ! i = s_data s ! i" using D'(2) bl by metis
    have rest: "\<forall>i. i \<notin> set q \<longrightarrow> i \<noteq> n \<longrightarrow> D' ! i = D0 ! i" using inv D'(2) g2 by (metis insertE)
    have "D' ! x = D0 ! x" using D'(2) g(2) Dx by simp
    then have "part D0 D' n (H @ [x]) (q @ [x])"
      using inv H np(2) same D'(3) by (intro part_extend [of D0 "s_data s"]) (simp_all add: g_def)
    moreover have "part D0 D' f L (q @ [x])"
      by (rule part_other [of D0 "s_data s"]) (use inv xLH bh D' in auto)
    ultimately show ?thesis unfolding s' split_inv_def
      using inv H D' Dx g hole nLx used_snoc [OF H] rest by (auto simp: pending_def)
  qed
qed

lemma split_loop_step:
  assumes p: "seg D0 f (q @ x # r) NO_RECORD" "distinct (q @ x # r)" "set (q @ x # r) \<subseteq> {..<n}"
    and n: "n < length D0" "n < NO_RECORD"
    and first: "q = [] \<longrightarrow> my_hash_mask (hash_nr (D0 ! x)) blen recs = f"
    and inv: "split_inv D0 half f n q (lows D0 half q) (highs D0 half q) s"
  defines "s1 \<equiv> (if low D0 half x then split_low x s else split_high x s)"
  shows "split_inv D0 half f n (q @ [x]) (lows D0 half (q @ [x])) (highs D0 half (q @ [x])) s1 \<and> s_data s1 ! x = D0 ! x"
    and "split_loop blen recs half f x s =
      (if next_link (D0 ! x) \<noteq> NO_RECORD then split_loop blen recs half f (next_link (D0 ! x)) s1 else Some s1)"
proof -
  have x: "x \<notin> set q" "x \<noteq> n" "x < length D0" "distinct q" "n \<notin> set q" "set q \<subseteq> {..<length D0}"
    using p(2,3) n by auto
  have q: "q \<noteq> [] \<longrightarrow> hd q = f" "q = [] \<longrightarrow> x = f"
    using seg_hd [OF p(1)] by (auto simp: hd_append)
  have lst: "q \<noteq> [] \<longrightarrow> next_link (D0 ! last q) = x"
  proof
    assume "q \<noteq> []"
    then obtain q' a where "q = q' @ [a]" by (meson rev_exhaust)
    then show "next_link (D0 ! last q) = x" using p(1) by (auto simp: seg_append)
  qed
  show step: "split_inv D0 half f n (q @ [x]) (lows D0 half (q @ [x])) (highs D0 half (q @ [x])) s1 \<and> s_data s1 ! x = D0 ! x"
  proof (cases "low D0 half x")
    case True
    then show ?thesis
      using split_low_step [OF inv refl refl x(4) q(1) x(5) q(2) x(1,2) lst n(1) x(6)]
      by (simp add: s1_def lows_def highs_def)
  next
    case False
    then show ?thesis
      using split_high_step [OF inv refl refl x(4) q(1) x(5) q(2) x(1,2) lst n(1) x(6)]
      by (simp add: s1_def lows_def highs_def)
  qed
  have d: "s_data s ! x = D0 ! x" "length (s_data s) = length D0" using inv x by (auto simp: split_inv_def)
  have c: "\<not> (s_flag s = 0 \<and> my_hash_mask (hash_nr (D0 ! x)) blen recs \<noteq> f)"
  proof (cases "q = []")
    case False
    then have "lows D0 half q \<noteq> [] \<or> highs D0 half q \<noteq> []"
      using split_sides(4) [of "lows D0 half q" D0 half q "highs D0 half q"] by auto
    then have "s_flag s \<noteq> 0" using inv by (auto simp: split_inv_def)
    then show ?thesis by simp
  qed (use first in simp)
  have lo: "(hash_nr (D0 ! x) AND half = 0) = low D0 half x" by (simp add: low_def)
  show "split_loop blen recs half f x s =
      (if next_link (D0 ! x) \<noteq> NO_RECORD then split_loop blen recs half f (next_link (D0 ! x)) s1 else Some s1)"
    using step x(3) d by (subst split_loop.simps) (simp add: Let_def lo flip: s1_def, use c in blast)
qed

lemma split_loop_run:
  assumes p: "seg D0 f (q @ x # r) NO_RECORD" "distinct (q @ x # r)" "set (q @ x # r) \<subseteq> {..<n}"
    and n: "n < length D0" "n < NO_RECORD"
    and first: "q = [] \<longrightarrow> my_hash_mask (hash_nr (D0 ! x)) blen recs = f"
    and inv: "split_inv D0 half f n q (lows D0 half q) (highs D0 half q) s"
  shows "\<exists>s'. split_loop blen recs half f x s = Some s' \<and>
    split_inv D0 half f n (q @ x # r) (lows D0 half (q @ x # r)) (highs D0 half (q @ x # r)) s'"
  using p first inv
proof (induction r arbitrary: q x s)
  case step: (Cons y r)
  show ?case
  proof -
    define s1 where "s1 = (if low D0 half x then split_low x s else split_high x s)"
    have s1: "split_inv D0 half f n (q @ [x]) (lows D0 half (q @ [x])) (highs D0 half (q @ [x])) s1" "s_data s1 ! x = D0 ! x"
      and l: "split_loop blen recs half f x s =
        (if next_link (D0 ! x) \<noteq> NO_RECORD then split_loop blen recs half f (next_link (D0 ! x)) s1 else Some s1)"
      using split_loop_step [OF step.prems(1-3) n step.prems(4,5)] by (simp_all add: s1_def)
    have y: "next_link (D0 ! x) = y" "y < n" using step.prems(1,3) by (auto simp: seg_append)
    then have "next_link (D0 ! x) \<noteq> NO_RECORD" using n by simp
    moreover have "\<exists>s'. split_loop blen recs half f y s1 = Some s' \<and>
      split_inv D0 half f n ((q @ [x]) @ y # r) (lows D0 half ((q @ [x]) @ y # r)) (highs D0 half ((q @ [x]) @ y # r)) s'"
      by (rule step.IH) (use step.prems s1 in auto)
    ultimately show ?thesis using l y by simp
  qed
next
  case Nil
  define s1 where "s1 = (if low D0 half x then split_low x s else split_high x s)"
  have s1: "split_inv D0 half f n (q @ [x]) (lows D0 half (q @ [x])) (highs D0 half (q @ [x])) s1"
    and l: "split_loop blen recs half f x s =
      (if next_link (D0 ! x) \<noteq> NO_RECORD then split_loop blen recs half f (next_link (D0 ! x)) s1 else Some s1)"
    using split_loop_step [OF Nil.prems(1-3) n Nil.prems(4,5)] by (simp_all add: s1_def)
  have "next_link (D0 ! x) = NO_RECORD" using Nil.prems(1) by (auto simp: seg_append)
  then show ?case using l s1 by simp
qed

lemma flag_bits:
  fixes F :: nat
  assumes "F = (if L = [] then 0 else 1) + (if u then 2 else 0) + (if H = [] then 0 else 4) + (if v then 8 else 0)"
    "u \<longrightarrow> L \<noteq> []" "v \<longrightarrow> H \<noteq> []"
  shows "F AND 3 = 1 \<longleftrightarrow> L \<noteq> [] \<and> \<not> u" "F AND 12 = 4 \<longleftrightarrow> H \<noteq> [] \<and> \<not> v"
  using assms by (cases "L = []"; cases u; cases "H = []"; cases v; simp del: One_nat_def)+

lemma split_finish_placed:
  assumes inv: "split_inv D0 half f n p L H s" and LH: "L = lows D0 half p" "H = highs D0 half p"
    and p: "distinct p" "hd p = f" "n \<notin> set p" "set p \<subseteq> {..<length D0}" "p \<noteq> []" "next_link (D0 ! last p) = NO_RECORD"
    and n: "n < length D0"
  shows "length (split_finish s) = length D0"
    and "\<forall>i. i \<notin> set p \<longrightarrow> i \<noteq> n \<longrightarrow> split_finish s ! i = D0 ! i"
    and "placed D0 (split_finish s) (newpos f L) L NO_RECORD" "placed D0 (split_finish s) (newpos n H) H NO_RECORD"
proof -
  have hd': "p \<noteq> [] \<longrightarrow> hd p = f" using p(2) by simp
  note np = newpos_facts [OF p(1) hd' p(3) LH]
  note inv = inv [unfolded split_inv_def]
  have fl: "s_flag s AND 3 = 1 \<longleftrightarrow> L \<noteq> [] \<and> \<not> used f L p" "s_flag s AND 12 = 4 \<longleftrightarrow> H \<noteq> [] \<and> \<not> used n H p"
  proof -
    have F: "s_flag s = (if L = [] then 0 else 1) + (if used f L p then 2 else 0) +
       (if H = [] then 0 else 4) + (if used n H p then 8 else 0)" using inv by blast
    have u: "used f L p \<longrightarrow> L \<noteq> []" "used n H p \<longrightarrow> H \<noteq> []" by (simp_all add: used_def)
    show "s_flag s AND 3 = 1 \<longleftrightarrow> L \<noteq> [] \<and> \<not> used f L p" "s_flag s AND 12 = 4 \<longleftrightarrow> H \<noteq> [] \<and> \<not> used n H p"
      by (rule flag_bits [OF F u])+
  qed
  define g where "g = last (newpos f L)"
  define g2 where "g2 = last (newpos n H)"
  define D1 where "D1 = (if L \<noteq> [] \<and> \<not> used f L p then (s_data s)[g := (D0 ! last L)\<lparr>next_link := NO_RECORD\<rparr>] else s_data s)"
  define D2 where "D2 = (if H \<noteq> [] \<and> \<not> used n H p then D1[g2 := (D0 ! last H)\<lparr>next_link := NO_RECORD\<rparr>] else D1)"
  have f: "split_finish s = D2"
    using inv fl by (simp add: split_finish_def D2_def D1_def g_def g2_def pending_def set_link_def link_eq Let_def)
  have gL: "L \<noteq> [] \<Longrightarrow> g \<in> set (newpos f L)" and gH: "H \<noteq> [] \<Longrightarrow> g2 \<in> set (newpos n H)"
    by (simp_all add: g_def g2_def)
  have gin: "L \<noteq> [] \<Longrightarrow> g \<in> set p" "H \<noteq> [] \<Longrightarrow> g2 \<in> insert n (set p)" using gL gH np(4,5) by blast+
  have gb: "L \<noteq> [] \<Longrightarrow> g < length D0" "H \<noteq> [] \<Longrightarrow> g2 < length D0" using gin p(4) n by auto
  have len: "length (s_data s) = length D0" using inv by blast
  have nth: "D2 ! i = (if H \<noteq> [] \<and> \<not> used n H p \<and> i = g2 then (D0 ! last H)\<lparr>next_link := NO_RECORD\<rparr>
      else if L \<noteq> [] \<and> \<not> used f L p \<and> i = g then (D0 ! last L)\<lparr>next_link := NO_RECORD\<rparr> else s_data s ! i)" for i
    using gb len by (auto simp: D1_def D2_def nth_list_update')
  have disj: "L \<noteq> [] \<Longrightarrow> i \<in> set (newpos n H) \<Longrightarrow> i \<noteq> g" "H \<noteq> [] \<Longrightarrow> i \<in> set (newpos f L) \<Longrightarrow> i \<noteq> g2" for i
    using gL gH np(3) by blast+
  have bl: "L \<noteq> [] \<Longrightarrow> g \<notin> set (butlast (newpos f L))" "H \<noteq> [] \<Longrightarrow> g2 \<notin> set (butlast (newpos n H))"
    using last_not_butlast [OF np(1)] last_not_butlast [OF np(2)] by (simp_all add: g_def g2_def)
  show "length (split_finish s) = length D0" using len by (simp add: f D2_def D1_def)
  show "\<forall>i. i \<notin> set p \<longrightarrow> i \<noteq> n \<longrightarrow> split_finish s ! i = D0 ! i"
    using inv gin unfolding f nth by (metis insert_iff)
  show "placed D0 (split_finish s) (newpos f L) L NO_RECORD"
  proof (cases "L = []")
    case False
    have "\<forall>i \<in> set (butlast (newpos f L)). D2 ! i = s_data s ! i"
    proof
      fix i assume i: "i \<in> set (butlast (newpos f L))"
      then have "i \<noteq> g" "H \<noteq> [] \<Longrightarrow> i \<noteq> g2" using bl(1) [OF False] disj(2) in_set_butlastD by fast+
      then show "D2 ! i = s_data s ! i" by (auto simp: nth)
    qed
    moreover have "D2 ! g = (if used f L p then s_data s ! last L else (D0 ! last L)\<lparr>next_link := NO_RECORD\<rparr>)"
      using False disj(2) [OF _ gL [OF False]] by (auto simp: nth used_def g_def)
    ultimately show ?thesis
      unfolding f using inv False p(6) by (intro part_finish [of D0 "s_data s" f L p]) (simp_all add: g_def)
  qed simp
  show "placed D0 (split_finish s) (newpos n H) H NO_RECORD"
  proof (cases "H = []")
    case False
    have "\<forall>i \<in> set (butlast (newpos n H)). D2 ! i = s_data s ! i"
    proof
      fix i assume i: "i \<in> set (butlast (newpos n H))"
      then have "i \<noteq> g2" "L \<noteq> [] \<Longrightarrow> i \<noteq> g" using bl(2) [OF False] disj(1) in_set_butlastD by fast+
      then show "D2 ! i = s_data s ! i" by (auto simp: nth)
    qed
    moreover have "D2 ! g2 = (if used n H p then s_data s ! last H else (D0 ! last H)\<lparr>next_link := NO_RECORD\<rparr>)"
      using False disj(1) [OF _ gH [OF False]] by (auto simp: nth used_def g2_def)
    ultimately show ?thesis
      unfolding f using inv False p(6) by (intro part_finish [of D0 "s_data s" n H p]) (simp_all add: g2_def)
  qed simp
qed

lemma placed_hash: "placed D0 D as ls y \<Longrightarrow> i \<in> set as \<Longrightarrow> \<exists>l \<in> set ls. hash_nr (D ! i) = hash_nr (D0 ! l)"
  by (induction as arbitrary: ls) auto

lemma split_positions:
  assumes p: "distinct p" "p \<noteq> []" "hd p = f" "n \<notin> set p" and LH: "L = lows D0 half p" "H = highs D0 half p"
  shows "set (newpos f L) \<union> set (newpos n H) = insert n (set p) - {hole_of f n L H}"
proof -
  note s = split_sides [OF LH]
  have hdL: "f \<in> set L \<Longrightarrow> hd L = f" and hdH: "f \<in> set H \<Longrightarrow> hd H = f"
    using filter_hd [OF p(2) _ p(1)] p(3) LH by (auto simp: lows_def highs_def)
  have fp: "f \<in> set p" using p(2,3) by (metis list.set_sel(1))
  have hdtl: "distinct xs \<Longrightarrow> xs \<noteq> [] \<Longrightarrow> set xs = insert (hd xs) (set (tl xs)) \<and> hd xs \<notin> set (tl xs)" for xs :: "nat list"
    by (cases xs) auto
  note L = hdtl [OF s(5) [OF p(1)]] and H = hdtl [OF s(6) [OF p(1)]]
  consider "H = []" | "H \<noteq> []" "hd H \<noteq> f" | "H \<noteq> []" "hd H = f" "L = []" | "H \<noteq> []" "hd H = f" "L \<noteq> []" by blast
  then show ?thesis
  proof cases
    case 1
    then have "set L = set p" "L \<noteq> []" "hd L = f" using s(4) fp hdL by auto
    then show ?thesis using 1 L p(4) by (auto simp: newpos_def hole_of_def)
  next
    case 2
    then have "f \<in> set L" using hdH fp s(4) by auto
    then have "L \<noteq> []" "hd L = f" using hdL by auto
    then show ?thesis using 2 L H s(3,4) p(4) by (auto simp: newpos_def hole_of_def)
  next
    case 3
    then show ?thesis using H s(4) p(4) by (auto simp: newpos_def hole_of_def)
  next
    case 4
    then show ?thesis using L H s(3,4) p(4) by (auto simp: newpos_def hole_of_def)
  qed
qed

text \<open>The split of the chain \<open>p\<close> of bucket \<open>f\<close> for the new bucket \<open>n\<close>.\<close>

lemma hash_split_chain:
  assumes p: "seg D f p NO_RECORD" "p = f # r" "distinct p" "set p \<subseteq> {..<n}" and n: "n < length D" "n < NO_RECORD"
    and f: "f = n - blen div 2" "my_hash_mask (hash_nr (D ! f)) blen n = f"
    and LH: "L = lows D (blen div 2) p" "H = highs D (blen div 2) p" 
  shows "\<exists>D'. hash_split blen n D n = Some (D', hole_of f n L H) \<and> length D' = length D \<and>
    (\<forall>i. i \<notin> set p \<longrightarrow> i \<noteq> n \<longrightarrow> D' ! i = D ! i) \<and>
    placed D D' (newpos f L) L NO_RECORD \<and> placed D D' (newpos n H) H NO_RECORD"
proof -
  let ?s0 = "\<lparr>s_data = D, s_flag = 0, s_empty = n, s_gpos = 0, s_rec_data = 0, s_rec_hash_nr = 0,
      s_gpos2 = 0, s_rec2_data = 0, s_rec2_hash_nr = 0\<rparr>"
  have fn: "f < n" using p(2,4) by auto
  have i0: "split_inv D (blen div 2) f n [] (lows D (blen div 2) []) (highs D (blen div 2) []) ?s0"
    by (simp add: split_inv_def lows_def highs_def used_def hole_of_def pending_def part_def)
  have p': "seg D f ([] @ f # r) NO_RECORD" "distinct ([] @ f # r)" "set ([] @ f # r) \<subseteq> {..<n}"
    using p(1,3,4) unfolding p(2) by simp_all
  from split_loop_run [OF p' n _ i0, of blen n] f(2)
  obtain s where s: "split_loop blen n (blen div 2) f f ?s0 = Some s" "split_inv D (blen div 2) f n p L H s"
    unfolding LH p(2) by auto
  have hs: "hash_split blen n D n = Some (split_finish s, s_empty s)"
    using s(1) fn f(1) by (simp add: hash_split_def Let_def)
  have e: "s_empty s = hole_of f n L H" using s(2) by (simp add: split_inv_def)
  have ne: "p \<noteq> []" "hd p = f" using p(2) by simp_all
  have np: "n \<notin> set p" "set p \<subseteq> {..<length D}" using p(4) n(1) by auto
  obtain as a where "p = as @ [a]" using ne(1) by (meson rev_exhaust)
  then have lst: "next_link (D ! last p) = NO_RECORD" using p(1) by (auto simp: seg_append)
  show ?thesis
    using split_finish_placed [OF s(2) LH p(3) ne(2) np ne(1) lst n(1)] hs e by (intro exI [of _ "split_finish s"]) simp
qed

lemma split_entries:
  assumes S: "finite S" "set p \<subseteq> S" "n \<notin> S" and same: "\<forall>i \<in> S - set p. D' ! i = D ! i"
    and pl: "placed D D' A L y" "placed D D' B H y" and AB: "distinct A" "distinct B" "set A \<inter> set B = {}"
    and LH: "distinct L" "distinct H" "set L \<inter> set H = {}" "set L \<union> set H = set p"
    and S': "S' = (S - set p) \<union> (set A \<union> set B)" "set A \<union> set B \<subseteq> insert n (set p)"
  shows "entries D' S' = entries D S"
proof -
  have split: "S = (S - set p) \<union> (set L \<union> set H)" using S(2) LH(4) by auto
  have d: "(S - set p) \<inter> (set A \<union> set B) = {}" "(S - set p) \<inter> (set L \<union> set H) = {}"
    using S'(2) S(3) LH(4) by auto
  have "entries D' S' = entries D' (S - set p) + (entries D' (set A) + entries D' (set B))"
    unfolding S'(1) using d(1) AB(3) S(1) by (simp add: entries_union)
  also have "entries D' (S - set p) = entries D (S - set p)"
    using same by (intro entries_cong) (simp add: entry_def)
  also have "entries D' (set A) = entries D (set L)"
    using placed_entries [OF pl(1)] entries_list [OF AB(1)] entries_list [OF LH(1)] by metis
  also have "entries D' (set B) = entries D (set H)"
    using placed_entries [OF pl(2)] entries_list [OF AB(2)] entries_list [OF LH(2)] by metis
  also have "entries D (S - set p) + (entries D (set L) + entries D (set H)) = entries D ((S - set p) \<union> (set L \<union> set H))"
    using d(2) LH(3) S(1) by (simp add: entries_union)
  finally show ?thesis using split by simp
qed

text \<open>The bucket that is split, with at least one record in its chain.\<close>

lemma hash_split_bucket:
  assumes t: "table D hm {..<n} P" and n: "n < length D" "n < NO_RECORD" and ne: "P f \<noteq> []"
    and f: "f = n - blen div 2" and hm: "hm = (\<lambda>h. my_hash_mask h blen n)"
    and step: "\<forall>h. hm' h = (if h mod blen = n then n else hm h) \<and> (h mod blen = n \<longrightarrow> hm h = f) \<and>
      (hm h = f \<longrightarrow> (h mod blen = n \<longleftrightarrow> h AND blen div 2 \<noteq> 0))"
  shows "\<exists>D' e P'. hash_split blen n D n = Some (D', e) \<and> length D' = length D \<and> e \<le> n \<and>
    table D' hm' ({..n} - {e}) P' \<and> entries D' ({..n} - {e}) = entries D {..<n}"
proof -
  define p where "p = P f"
  obtain r where r: "p = f # r" using table_head(1) [OF t ne] unfolding p_def by blast
  have sp: "set p = {i \<in> {..<n}. home hm D i = f}" unfolding p_def by (rule tableD(5) [OF t])
  have p: "seg D f p NO_RECORD" "distinct p" unfolding p_def using tableD(4) [OF t] tableD(6) [OF t ne] by blast+
  have sub: "set p \<subseteq> {..<n}" and np: "n \<notin> set p" unfolding sp by auto
  have fp: "f \<in> set p" by (simp add: r)
  then have fn: "f < n" "home hm D f = f" using sp by auto
  define L where "L = lows D (blen div 2) p"
  define H where "H = highs D (blen div 2) p"
  define e where "e = hole_of f n L H"
  note sides = split_sides [OF L_def H_def]
  have fb: "my_hash_mask (hash_nr (D ! f)) blen n = f" using fn(2) by (simp add: home_def hm)
  obtain D' where D': "hash_split blen n D n = Some (D', e)" "length D' = length D"
    "\<forall>i. i \<notin> set p \<longrightarrow> i \<noteq> n \<longrightarrow> D' ! i = D ! i"
    and pl: "placed D D' (newpos f L) L NO_RECORD" "placed D D' (newpos n H) H NO_RECORD"
    using hash_split_chain [OF p(1) r p(2) sub n f fb L_def H_def] unfolding e_def by auto
  have pne: "p \<noteq> []" "hd p = f" and hd': "p \<noteq> [] \<longrightarrow> hd p = f" using r by simp_all
  note new = newpos_facts [OF p(2) hd' np L_def H_def]
  have pos: "set (newpos f L) \<union> set (newpos n H) = insert n (set p) - {e}"
    unfolding e_def by (rule split_positions [OF p(2) pne np L_def H_def])
  have e_in: "e = n \<or> e \<in> set p"
  proof (cases "H = []")
    case False
    then have "hd H \<in> set p" using sides(2) by auto
    moreover have "L \<noteq> [] \<Longrightarrow> hd L \<in> set p" using sides(1) by auto
    ultimately show ?thesis using fp by (auto simp: e_def hole_of_def)
  qed (simp add: e_def hole_of_def)
  have S': "{..n} - {e} = ({..<n} - set p) \<union> (set (newpos f L) \<union> set (newpos n H))"
  proof (rule set_eqI)
    fix i
    have "i \<in> set (newpos f L) \<union> set (newpos n H) \<longleftrightarrow> i \<in> insert n (set p) - {e}" using pos by simp
    then show "i \<in> {..n} - {e} \<longleftrightarrow> i \<in> ({..<n} - set p) \<union> (set (newpos f L) \<union> set (newpos n H))"
      using e_in sub np by (cases "i = n"; cases "i = e"; auto)
  qed
  have inp: "i \<in> set p \<Longrightarrow> hm (hash_nr (D ! i)) = f" "i < n \<Longrightarrow> hm (hash_nr (D ! i)) = f \<Longrightarrow> i \<in> set p" for i
    using sp by (simp_all add: home_def)
  have LH: "hm' (hash_nr (D ! l)) = (if low D (blen div 2) l then f else n)" if "l \<in> set p" for l
    using inp(1) [OF that] step by (metis low_def)
  let ?q = "\<lambda>b. if b = f then newpos f L else newpos n H"
  have "table D' hm' ({..n} - {e}) (\<lambda>b. if b \<in> {f, n} then ?q b else P b)"
  proof (rule table_update [OF t D'(2), where R = "{..<n} - set p"])
    show "{..<n} - set p = {..<n} - (\<Union>b \<in> {f, n}. set (P b))"
      using table_no_chain [OF t, of n] by (simp add: p_def)
    show "D' ! i = D ! i \<and> hm' (hash_nr (D ! i)) = hm (hash_nr (D ! i))" if "i \<in> {..<n} - set p" for i
    proof -
      have "hm (hash_nr (D ! i)) \<noteq> f" using that inp(2) by auto
      then show ?thesis using that D'(3) step by auto
    qed
    show "{..n} - {e} = {..<n} - set p \<union> (\<Union>b \<in> {f, n}. set (?q b))" using S' fn(1) by simp
    show "finite {f, n}" by simp
    show "i < length D \<and> i < NO_RECORD" if "b \<in> {f, n}" "i \<in> set (?q b)" for b i
    proof -
      have "i \<in> insert n (set p)" using that(2) new(4,5) by (cases "b = f") auto
      then show ?thesis using sub n by auto
    qed
    show "home hm' D' i = b" if "b \<in> {f, n}" "i \<in> set (?q b)" for b i
    proof (cases "b = f")
      case True
      then have "i \<in> set (newpos f L)" using that(2) by simp
      from placed_hash [OF pl(1) this] obtain l where l: "l \<in> set L" "hash_nr (D' ! i) = hash_nr (D ! l)" by blast
      then have "l \<in> set p" "low D (blen div 2) l" by (simp_all add: L_def lows_def)
      then show ?thesis using LH [of l] l(2) True by (simp add: home_def)
    next
      case False
      then have "i \<in> set (newpos n H)" "b = n" using that by simp_all
      from placed_hash [OF pl(2) this(1)] obtain l where l: "l \<in> set H" "hash_nr (D' ! i) = hash_nr (D ! l)" by blast
      then have "l \<in> set p" "\<not> low D (blen div 2) l" by (simp_all add: H_def highs_def)
      then show ?thesis using LH [of l] l(2) \<open>b = n\<close> by (simp add: home_def)
    qed
    have "newpos f L = [] \<or> seg D' f (newpos f L) NO_RECORD" "newpos n H = [] \<or> seg D' n (newpos n H) NO_RECORD"
    proof -
      have "\<forall>i \<in> set (newpos f L). i < length D'" "\<forall>i \<in> set (newpos n H). i < length D'"
        using new(4,5) sub n(1) D'(2) by auto
      note placed_seg [OF pl(1) this(1)] placed_seg [OF pl(2) this(2)]
      then show "newpos f L = [] \<or> seg D' f (newpos f L) NO_RECORD" "newpos n H = [] \<or> seg D' n (newpos n H) NO_RECORD"
        by (auto simp: newpos_def)
    qed
    then show "distinct (?q b) \<and> set (?q b) \<inter> ({..<n} - set p) = {} \<and> (?q b = [] \<or> seg D' b (?q b) NO_RECORD)"
      if "b \<in> {f, n}" for b
    proof (cases "b = f")
      case True
      then show ?thesis using new(1,4) \<open>newpos f L = [] \<or> seg D' f (newpos f L) NO_RECORD\<close> by auto
    next
      case False
      then show ?thesis using that new(2,5) \<open>newpos n H = [] \<or> seg D' n (newpos n H) NO_RECORD\<close> by auto
    qed
  qed
  moreover have "entries D' ({..n} - {e}) = entries D {..<n}"
    by (rule split_entries [OF _ sub _ _ pl new(1-3) sides(5) [OF p(2)] sides(6) [OF p(2)] sides(3,4) S'])
      (use D'(3) pos in auto)
  moreover have "e \<le> n" using e_in sub by auto
  ultimately show ?thesis using D'(1,2) by blast
qed

lemma hash_split_table:
  assumes size: "size_ok blen n" and t: "table D hm {..<n} P" and hm: "hm = (\<lambda>h. my_hash_mask h blen n)"
    and hm': "hm' = (\<lambda>h. my_hash_mask h blen (n + 1))" and n: "n < length D" "n < NO_RECORD"
  shows "\<exists>D' e P'. hash_split blen n D n = Some (D', e) \<and> length D' = length D \<and> e \<le> n \<and>
    table D' hm' ({..n} - {e}) P' \<and> entries D' ({..n} - {e}) = entries D {..<n}"
proof (cases "n = 0")
  case True
  have "0 < blen" "blen div 2 = 0" using size True by (simp_all add: size_ok_def)
  then have "hash_split blen n D n = Some (D, n)" using True by (simp add: hash_split_def)
  moreover have "table D hm' ({..n} - {n}) P" using True t by (simp add: table_def)
  ultimately show ?thesis using True by (auto simp: entries_def)
next
  case False
  then have n0: "0 < n" by simp
  define f where "f = n - blen div 2"
  have "0 < blen div 2" "blen div 2 \<le> n" using size n0 by (auto simp: size_ok_def)
  then have f: "f < n" by (auto simp: f_def)
  have step: "\<forall>h. hm' h = (if h mod blen = n then n else hm h) \<and> (h mod blen = n \<longrightarrow> hm h = f) \<and>
      (hm h = f \<longrightarrow> (h mod blen = n \<longleftrightarrow> h AND blen div 2 \<noteq> 0))"
    using my_hash_mask_step [OF size n0] by (simp add: hm hm' f_def)
  show ?thesis
  proof (cases "P f = []")
    case True
    then have nf: "\<forall>i < n. hm (hash_nr (D ! i)) \<noteq> f" using tableD(5) [OF t, of f] by (auto simp: home_def)
    then have "my_hash_mask (hash_nr (D ! f)) blen n \<noteq> f" using f by (simp add: hm)
    then have "hash_split blen n D n = Some (D, n)" using f n
      by (simp add: hash_split_def Let_def f_def [symmetric] split_loop.simps [of blen n "blen div 2" f f] split_finish_def)
    moreover have "table D hm' {..<n} P"
      by (rule table_cong [OF t refl]) (use nf step in auto)
    moreover have "{..n} - {n} = {..<n}" by auto
    ultimately show ?thesis by auto
  next
    case False
    show ?thesis by (rule hash_split_bucket [OF t n False f_def hm step])
  qed
qed

end
