(* ===== verification/HashDelete.thy ===== *)
theory HashDelete
  imports HashSplit
begin

text \<open>The removal of a record in \<open>my_hash_delete\<close>: its chain is closed, the record of the last position moves
  to the position that is free, and the bucket of the last position is joined with the one it was split from.\<close>

section \<open>Removing a record\<close>

lemma seg_update [simp]: "i \<notin> set as \<Longrightarrow> seg (D[i := v]) x as y \<longleftrightarrow> seg D x as y"
  by (induction as arbitrary: x) auto

lemma seg_set_next_link [simp]: "i \<notin> set as \<Longrightarrow> seg (set_next_link D i n) x as y \<longleftrightarrow> seg D x as y"
  by (simp add: set_next_link_def)

lemma entries_remove:
  assumes "finite S" "i \<in> S" "\<forall>j \<in> S - {i}. entry D' j = entry D j"
  shows "add_mset (entry D i) (entries D' (S - {i})) = entries D S"
proof -
  have "entries D' (S - {i}) = entries D (S - {i})" using assms(3) by (intro entries_cong) simp
  then show ?thesis using entries_insert [of "S - {i}" i D] assms(1,2) by (simp add: insert_absorb)
qed

text \<open>A chain without the record at \<open>pos\<close>, and the position that is free then.\<close>

lemma unlink_table:
  assumes t: "table D hm S P" and b: "home hm D pos = b" and p: "P b = q1 @ pos # q2"
    and prev: "previous = (if q1 = [] then None else Some (last q1))"
  shows "\<exists>D' e P'. unlink D pos previous = (D', e) \<and> length D' = length D \<and> e \<in> S \<and>
    table D' hm (S - {e}) P' \<and> add_mset (entry D pos) (entries D' (S - {e})) = entries D S"
proof -
  have fin: "finite S" by (rule tableD(1) [OF t])
  have ps: "set (q1 @ pos # q2) = {i \<in> S. home hm D i = b}" and d: "distinct (q1 @ pos # q2)"
    using tableD(4,5) [OF t, of b] p by simp_all
  have inS: "i \<in> S" "home hm D i = b" "i < length D" "i < NO_RECORD" if "i \<in> set (q1 @ pos # q2)" for i
  proof -
    show "i \<in> S" "home hm D i = b" using that ps by blast+
    then show "i < length D" "i < NO_RECORD" using tableD(2,3) [OF t] by blast+
  qed
  have sg: "seg D b (q1 @ pos # q2) NO_RECORD" using tableD(6) [OF t, of b] p by simp
  then have sq: "seg D b q1 pos" "seg D (next_link (D ! pos)) q2 NO_RECORD" "pos < length D"
    by (auto simp: seg_append)
  have S': "S - {e} = {i \<in> S. home hm D i \<noteq> b} \<union> set q" if "set (q1 @ pos # q2) = insert e (set q)" "e \<notin> set q" for e q
    using that ps by blast
  show ?thesis
  proof (cases q1 rule: rev_cases)
    case (snoc as a)
    define D' where "D' = set_next_link D a (next_link (D ! pos))"
    have a: "a < length D" "a \<notin> set as" "a \<notin> set q2" "pos \<notin> set as" "pos \<noteq> a"
      using inS(3) [of a] d snoc by auto
    have u: "unlink D pos previous = (D', pos)" using prev snoc by (simp add: unlink_def D'_def)
    have "seg D' b (q1 @ q2) NO_RECORD"
    proof -
      have "seg D b (as @ [a]) pos" using sq(1) snoc by simp
      then have "seg D' b as a" "seg D' (next_link (D ! pos)) q2 NO_RECORD"
        using a sq(2) by (auto simp: seg_append D'_def)
      then show ?thesis using a(1) snoc by (auto simp: seg_append D'_def)
    qed
    moreover have "\<forall>i \<in> S. home hm D i \<noteq> b \<longrightarrow> D' ! i = D ! i" using inS(2) [of a] snoc by (metis D'_def set_next_link_simps(3) in_set_conv_decomp append_assoc append_Cons append_Nil)
    moreover have "\<forall>i \<in> set (q1 @ q2). home hm D' i = b \<and> i < length D \<and> i < NO_RECORD \<and> (i \<in> S \<longrightarrow> home hm D i = b)"
      using inS(2-4) by (simp add: home_def D'_def)
    ultimately have "table D' hm ({i \<in> S. home hm D i \<noteq> b} \<union> set (q1 @ q2)) (P(b := q1 @ q2))"
      using table_bucket [OF t, of D' b "q1 @ q2"] d by (simp add: D'_def)
    moreover have "S - {pos} = {i \<in> S. home hm D i \<noteq> b} \<union> set (q1 @ q2)" by (rule S') (use d in auto)
    moreover have "add_mset (entry D pos) (entries D' (S - {pos})) = entries D S"
      by (rule entries_remove [OF fin inS(1)]) (simp_all add: entry_def D'_def)
    ultimately show ?thesis using u inS(1) [of pos] by (intro exI [of _ D'] exI [of _ pos]) (auto simp: D'_def)
  next
    case Nil
    have bp: "b = pos" using sq(1) Nil by simp
    show ?thesis
    proof (cases q2)
      case n2: Nil
      have "next_link (D ! pos) = NO_RECORD" using sq(2) n2 by simp
      then have u: "unlink D pos previous = (D, pos)" using prev Nil by (simp add: unlink_def)
      have "table D hm ({i \<in> S. home hm D i \<noteq> b} \<union> set []) (P(b := []))"
        by (rule table_bucket [OF t]) simp_all
      moreover have "S - {pos} = {i \<in> S. home hm D i \<noteq> b} \<union> set []" by (rule S') (use Nil n2 in auto)
      moreover have "add_mset (entry D pos) (entries D (S - {pos})) = entries D S"
        by (rule entries_remove [OF fin inS(1)]) simp_all
      ultimately show ?thesis using u inS(1) [of pos] by auto
    next
      case (Cons c cs)
      define D' where "D' = D[pos := D ! c]"
      have c: "next_link (D ! pos) = c" "c < length D" "c \<noteq> NO_RECORD" "c \<noteq> pos" "c \<notin> set cs" "pos \<notin> set cs"
        "seg D (next_link (D ! c)) cs NO_RECORD"
        using sq(2) inS(4) [of c] d Cons Nil by auto
      have u: "unlink D pos previous = (D', c)" using prev Nil c by (simp add: unlink_def D'_def)
      have "seg D' b (pos # cs) NO_RECORD" using c sq(3) bp by (simp add: D'_def)
      moreover have "\<forall>i \<in> S. home hm D i \<noteq> b \<longrightarrow> D' ! i = D ! i" using b by (auto simp: D'_def nth_list_update')
      moreover have "\<forall>i \<in> set (pos # cs). home hm D' i = b \<and> i < length D \<and> i < NO_RECORD \<and> (i \<in> S \<longrightarrow> home hm D i = b)"
        using inS(2-4) Cons by (simp add: home_def D'_def nth_list_update')
      ultimately have "table D' hm ({i \<in> S. home hm D i \<noteq> b} \<union> set (pos # cs)) (P(b := pos # cs))"
        using table_bucket [OF t, of D' b "pos # cs"] d Cons by (simp add: D'_def)
      moreover have "S - {c} = {i \<in> S. home hm D i \<noteq> b} \<union> set (pos # cs)" by (rule S') (use d Nil Cons in auto)
      moreover have "add_mset (entry D pos) (entries D' (S - {c})) = entries D S"
      proof -
        have cS: "c \<in> S" "pos \<in> S" using inS(1) Cons by simp_all
        have sp: "insert pos (S - {pos, c}) = S - {c}" using cS c(4) by auto
        have "entries D' (S - {c}) = add_mset (entry D c) (entries D (S - {pos, c}))"
          using fin c sq(3) sp entries_insert [of "S - {pos, c}" pos D'] entries_cong [of "S - {pos, c}" D' D]
          by (simp add: D'_def entry_def nth_list_update')
        also have "\<dots> = entries D (S - {pos})"
        proof -
          have "insert c (S - {pos, c}) = S - {pos}" using cS c(4) by auto
          then show ?thesis using fin entries_insert [of "S - {pos, c}" c D] by simp
        qed
        finally show ?thesis using entries_remove [OF fin cS(2), of D D] by simp
      qed
      ultimately show ?thesis using u inS(1) [of c] Cons by (intro exI [of _ D'] exI [of _ c]) (auto simp: D'_def)
    qed
  qed
qed

text \<open>
  The records of bucket \<open>n\<close> join those of bucket \<open>lo\<close> and the record at position \<open>n\<close> moves to the free
  position \<open>e\<close>: \<open>c\<close> is the chain that results.
\<close>

lemma merge_table:
  assumes t: "table D hm S P" and n: "n \<in> S" "home hm D n = n" and hm': "\<forall>h. hm' h = (if hm h = n then lo else hm h)"
    and lo: "lo \<noteq> n" and e: "e \<notin> S" "e < length D" "e < NO_RECORD" and l: "length D' = length D"
    and c: "distinct c" "set c = insert e (set (P lo) \<union> set (P n) - {n})" "seg D' lo c NO_RECORD"
    and same: "\<forall>i \<in> S - (set (P lo) \<union> set (P n)). D' ! i = D ! i" "\<forall>i \<in> set c - {e}. entry D' i = entry D i"
      "entry D' e = entry D n"
  shows "\<exists>P'. table D' hm' (insert e (S - {n})) P' \<and> entries D' (insert e (S - {n})) = entries D S"
proof -
  have ch: "i \<in> set (P b) \<longleftrightarrow> i \<in> S \<and> home hm D i = b" for i b using tableD(5) [OF t, of b] by simp
  have nP: "n \<in> set (P n)" "n \<notin> set (P lo)" using ch n lo by auto
  have ent: "\<forall>j \<in> S - {n}. entry D' j = entry D j"
  proof
    fix j assume j: "j \<in> S - {n}"
    then have "j \<noteq> e" using e(1) by auto
    then show "entry D' j = entry D j"
      using j same(1,2) c(2) by (cases "j \<in> set c") (auto simp: entry_def)
  qed
  let ?q = "\<lambda>b. if b = lo then c else []"
  have "table D' hm' (insert e (S - {n})) (\<lambda>b. if b \<in> {lo, n} then ?q b else P b)"
  proof (rule table_update [OF t l refl])
    show "D' ! i = D ! i \<and> hm' (hash_nr (D ! i)) = hm (hash_nr (D ! i))" if "i \<in> S - (\<Union>b \<in> {lo, n}. set (P b))" for i
      using that same(1) hm' ch [of i n] by (auto simp: home_def)
    show "insert e (S - {n}) = S - (\<Union>b \<in> {lo, n}. set (P b)) \<union> (\<Union>b \<in> {lo, n}. set (?q b))"
    proof (rule set_eqI)
      fix i
      show "i \<in> insert e (S - {n}) \<longleftrightarrow> i \<in> S - (\<Union>b \<in> {lo, n}. set (P b)) \<union> (\<Union>b \<in> {lo, n}. set (?q b))"
        using lo ch [of i lo] ch [of i n] nP unfolding c(2) by (auto simp: c(2))
    qed
    show "finite {lo, n}" by simp
    show "i < length D \<and> i < NO_RECORD" if "b \<in> {lo, n}" "i \<in> set (?q b)" for b i
    proof -
      have "i \<in> set c" using that(2) by (auto split: if_splits)
      then show ?thesis using e(2,3) ch tableD(2,3) [OF t] by (auto simp: c(2))
    qed
    show "distinct (?q b) \<and> set (?q b) \<inter> (S - (\<Union>b \<in> {lo, n}. set (P b))) = {} \<and> (?q b = [] \<or> seg D' b (?q b) NO_RECORD)"
      if "b \<in> {lo, n}" for b
      using c(1,3) e(1) by (auto simp: c(2))
    show "home hm' D' i = b" if "b \<in> {lo, n}" "i \<in> set (?q b)" for b i
    proof -
      have b: "b = lo" "i \<in> set c" using that(2) by (auto split: if_splits)
      have "hm' (hash_nr (D' ! i)) = lo"
      proof (cases "i = e")
        case True
        then show ?thesis using same(3) n(2) hm' by (simp add: entry_def home_def)
      next
        case False
        then have "hash_nr (D' ! i) = hash_nr (D ! i)" using same(2) b(2) by (simp add: entry_def)
        moreover have "hm (hash_nr (D ! i)) = lo \<or> hm (hash_nr (D ! i)) = n"
          using False b(2) ch [of i lo] ch [of i n] by (auto simp: c(2) home_def)
        ultimately show ?thesis using hm' by auto
      qed
      then show ?thesis by (simp add: home_def b)
    qed
  qed
  moreover have "entries D' (insert e (S - {n})) = entries D S"
    using entries_move [OF tableD(1) [OF t] n(1) e(1) same(3)] ent by simp
  ultimately show ?thesis by blast
qed

lemma table_shrink:
  assumes "table D hm S P" "P n = []" "\<forall>h. hm' h = (if hm h = n then lo else hm h)"
  shows "table D hm' S P"
proof (rule table_cong [OF assms(1) refl])
  show "hm' (hash_nr (D ! i)) = hm (hash_nr (D ! i))" if "i \<in> S" for i
    using table_in_chain [OF assms(1) that] assms(2,3) by (auto simp: home_def)
qed simp

text \<open>The record of the last position moves into the place of its new bucket, which is free.\<close>

lemma move_to_free:
  assumes t: "table D hm S P" and n: "n \<in> S" "home hm D n = n" and hm': "\<forall>h. hm' h = (if hm h = n then lo else hm h)"
    and lo: "lo \<noteq> n" "lo \<notin> S" "lo < length D" "lo < NO_RECORD"
  shows "\<exists>P'. table (D[lo := D ! n]) hm' (insert lo (S - {n})) P' \<and>
    entries (D[lo := D ! n]) (insert lo (S - {n})) = entries D S"
proof -
  have "n \<in> set (P n)" using table_in_chain [OF t n(1)] n(2) by simp
  then have ne: "P n \<noteq> []" by auto
  obtain q where q: "P n = n # q" using table_head(1) [OF t ne] by blast
  have pl: "P lo = []" using table_no_chain [OF t] lo(2) by blast
  have d: "distinct (n # q)" and sg: "seg D n (n # q) NO_RECORD" using tableD(4) [OF t, of n] tableD(6) [OF t ne] q by simp_all
  have lq: "lo \<notin> set q" using tableD(5) [OF t, of n] lo(2) q by auto
  show ?thesis
  proof (rule merge_table [OF t n hm' lo(1,2,3,4), where c = "lo # q"])
    show "distinct (lo # q)" "set (lo # q) = insert lo (set (P lo) \<union> set (P n) - {n})" using d lq pl q by auto
    show "seg (D[lo := D ! n]) lo (lo # q) NO_RECORD" using sg lo(3) lq by simp
  qed (use lo lq d in \<open>auto simp: entry_def nth_list_update'\<close>)
qed

text \<open>A chain that starts at \<open>e\<close> is put behind the first link of another one.\<close>

lemma insert_chain:
  assumes "seg D e (e # q) z" "z \<notin> set (e # q)" "seg D (next_link (D ! pos)) r NO_RECORD"
    "pos < length D" "pos \<notin> set (e # q @ r)" "distinct (e # q @ r)"
  shows "\<exists>D'. do { data \<leftarrow> movelink D z e (next_link (D ! pos)); Some (set_next_link data pos e) } = Some D' \<and>
    length D' = length D \<and> seg D' pos (pos # e # q @ r) NO_RECORD \<and> (\<forall>i. entry D' i = entry D i) \<and>
    (\<forall>i. i \<notin> set (pos # e # q @ r) \<longrightarrow> D' ! i = D ! i)"
proof -
  obtain as a where as: "e # q = as @ [a]" by (metis rev_exhaust list.distinct(1))
  let ?w = "next_link (D ! pos)"
  define D' where "D' = set_next_link (set_next_link D a ?w) pos e"
  have eq: "e # q @ r = as @ a # r" using arg_cong [OF as, of "\<lambda>x. x @ r"] by simp
  have sq: "set (e # q @ r) = insert a (set as \<union> set r)" "distinct (as @ a # r)"
    using assms(6) unfolding eq by simp_all
  have sg: "seg D e as a" "next_link (D ! a) = z" "a < length D" using assms(1) unfolding as by (auto simp: seg_append)
  have m: "movelink D z e ?w = Some (set_next_link D a ?w)"
    using movelink_seg [of D e as a z ?w] assms(1,2) unfolding as by blast
  have np: "pos \<noteq> a" "pos \<notin> set as" "pos \<notin> set r" "a \<notin> set as" "a \<notin> set r" using assms(5) sq unfolding eq by auto
  have "seg D' e (as @ [a]) ?w" using sg(1,3) np by (auto simp: seg_append D'_def)
  moreover have "seg D' ?w r NO_RECORD" using assms(3) np by (simp add: D'_def)
  ultimately have "seg D' e (e # q @ r) NO_RECORD" unfolding eq by (auto simp: seg_append)
  then have "seg D' pos (pos # e # q @ r) NO_RECORD" using assms(4) by (simp add: D'_def)
  moreover have "\<forall>i. i \<notin> set (pos # e # q @ r) \<longrightarrow> D' ! i = D ! i" unfolding eq by (simp add: D'_def)
  ultimately show ?thesis using m by (intro exI [of _ D']) (simp add: D'_def entry_def)
qed

text \<open>The record of the last position moves into its bucket, the first record of which is there already.\<close>

lemma merge_into:
  assumes t: "table D hm S P" and n: "n \<in> S" "home hm D n = n" and hm': "\<forall>h. hm' h = (if hm h = n then lo else hm h)"
    and lo: "lo \<noteq> n" "lo \<in> S" and e: "e \<notin> S" "e < length D" "e < NO_RECORD"
    and same: "home hm D lo = n \<or> home hm D lo = lo"
    and D1: "D1 = D[e := D ! n]" "idx = (if home hm D lo = n then lo else NO_RECORD)"
  shows "\<exists>D' P'. do { data \<leftarrow> movelink D1 idx e (next_link (D1 ! lo)); Some (set_next_link data lo e) } = Some D' \<and>
    length D' = length D \<and> table D' hm' (insert e (S - {n})) P' \<and> entries D' (insert e (S - {n})) = entries D S"
proof -
  have "n \<in> set (P n)" using table_in_chain [OF t n(1)] n(2) by simp
  then have ne: "P n \<noteq> []" by auto
  obtain p where p: "P n = n # p" using table_head(1) [OF t ne] by blast
  have ch: "i \<in> set (P b) \<longleftrightarrow> i \<in> S \<and> home hm D i = b" for i b using tableD(5) [OF t, of b] by simp
  have d: "distinct (n # p)" and sg: "seg D n (n # p) NO_RECORD" using tableD(4) [OF t, of n] tableD(6) [OF t ne] p by simp_all
  have bounds: "i < length D" "i < NO_RECORD" "i \<noteq> e" if "i \<in> S" for i using that tableD(2,3) [OF t] e(1) by blast+
  have loe: "lo \<noteq> e" "lo < length D" "n < length D" using lo(2) n(1) bounds by blast+
  obtain q r where qr: "seg D1 e (e # q) idx" "idx \<notin> set (e # q)" "seg D1 (next_link (D1 ! lo)) r NO_RECORD"
    "lo \<notin> set (e # q @ r)" "distinct (e # q @ r)" "set (lo # q @ r) = set (P lo) \<union> set (P n) - {n}"
  proof (cases "home hm D lo = n")
    case True
    then have pl: "P lo = []" using table_no_chain [OF t] lo(1) by metis
    have "lo \<in> set p" using ch [of lo n] True lo p by simp
    then obtain q r where p': "p = q @ lo # r" by (meson split_list)
    have in_p: "i \<in> S" if "i \<in> set q \<or> i \<in> set r" for i using ch [of i n] that p p' by auto
    have en: "e \<notin> set q" "e \<notin> set r" using in_p e(1) by blast+
    have "seg D (next_link (D ! n)) q lo" "seg D (next_link (D ! lo)) r NO_RECORD"
      using sg p' by (auto simp: seg_append)
    then have "seg D1 e (e # q) lo" "seg D1 (next_link (D1 ! lo)) r NO_RECORD"
      using en e(2) loe by (simp_all add: D1(1) nth_list_update')
    moreover have "set (lo # q @ r) = set (P lo) \<union> set (P n) - {n}" using pl p p' d by auto
    ultimately show ?thesis using that [of q r] True D1(2) d p' en loe by auto
  next
    case False
    then have hl: "home hm D lo = lo" using same by blast
    then have "lo \<in> set (P lo)" using ch lo(2) by simp
    then have nl: "P lo \<noteq> []" by auto
    obtain r where r: "P lo = lo # r" using table_head(1) [OF t nl] by blast
    have dl: "distinct (lo # r)" and sl: "seg D lo (lo # r) NO_RECORD" using tableD(4) [OF t, of lo] tableD(6) [OF t nl] r by simp_all
    have in_p: "i \<in> S" "home hm D i = n" if "i \<in> set p" for i using ch [of i n] that p by auto
    have in_r: "i \<in> S" "home hm D i = lo" if "i \<in> set r" for i using ch [of i lo] that r by auto
    have en: "e \<notin> set p" "e \<notin> set r" using in_p(1) in_r(1) e(1) by blast+
    have x: "set p \<inter> set r = {}" "lo \<notin> set p" "n \<notin> set r" using in_p(2) in_r(2) hl n(2) lo(1) by fastforce+
    have "NO_RECORD \<notin> set p" using in_p(1) bounds(2) by blast
    moreover have "seg D1 e (e # p) NO_RECORD" "seg D1 (next_link (D1 ! lo)) r NO_RECORD"
      using sg sl en e(2) loe by (simp_all add: D1(1) nth_list_update')
    moreover have "set (lo # p @ r) = set (P lo) \<union> set (P n) - {n}" using r p x d lo(1) by auto
    ultimately show ?thesis using that [of p r] False D1(2) d dl x en loe e(3) by auto
  qed
  have "lo < length D1" using loe D1(1) by simp
  from insert_chain [OF qr(1-3) this qr(4,5)]
  obtain D' where D': "do { data \<leftarrow> movelink D1 idx e (next_link (D1 ! lo)); Some (set_next_link data lo e) } = Some D'"
    "length D' = length D1" "seg D' lo (lo # e # q @ r) NO_RECORD" "\<forall>i. entry D' i = entry D1 i"
    "\<forall>i. i \<notin> set (lo # e # q @ r) \<longrightarrow> D' ! i = D1 ! i" by blast
  have c: "set (lo # e # q @ r) = insert e (set (P lo) \<union> set (P n) - {n})" unfolding qr(6) [symmetric] by auto
  have en: "e \<noteq> n" using n(1) e(1) by blast
  have "\<exists>P'. table D' hm' (insert e (S - {n})) P' \<and> entries D' (insert e (S - {n})) = entries D S"
  proof (rule merge_table [OF t n hm' lo(1) e _ _ c D'(3)])
    show "length D' = length D" using D'(2) D1(1) by simp
    show "distinct (lo # e # q @ r)" using qr(4,5) loe(1) by auto
    show "entry D' e = entry D n" using D'(4) D1(1) e(2) by (simp add: entry_def)
    show "\<forall>i \<in> set (lo # e # q @ r) - {e}. entry D' i = entry D i" using D'(4) D1(1) by (simp add: entry_def)
    show "\<forall>i \<in> S - (set (P lo) \<union> set (P n)). D' ! i = D ! i"
    proof
      fix i assume i: "i \<in> S - (set (P lo) \<union> set (P n))"
      then have "i \<noteq> e" "i \<notin> set (lo # e # q @ r)" using e(1) c by auto
      then show "D' ! i = D ! i" using D'(5) D1(1) by simp
    qed
  qed
  then show ?thesis using D'(1,2) D1(1) by auto
qed

text \<open>A record that is not the first of its chain moves to the free position.\<close>

lemma movelink_move:
  assumes t: "table D hm S P" and i: "i \<in> S" "home hm D i = b" "b \<noteq> i" and e: "e \<notin> S" "e < length D" "e < NO_RECORD"
    and D1: "length D1 = length D" "\<forall>j \<in> S - {i}. D1 ! j = D ! j" "D1 ! e = D ! i"
  obtains a where "a \<in> S - {i}" "home hm D a = b" "movelink D1 i b e = Some (set_next_link D1 a e)"
    "\<And>D'. length D' = length D \<Longrightarrow> \<forall>j \<in> insert e (S - {i}). D' ! j = set_next_link D1 a e ! j \<Longrightarrow>
     \<exists>P'. table D' hm (insert e (S - {i})) P' \<and> (\<forall>c. c \<noteq> b \<longrightarrow> P' c = P c) \<and>
        entries D' (insert e (S - {i})) = entries D S"
proof -
  obtain as a cs where p: "P b = as @ a # i # cs" "seg D b (as @ [a]) i"
    by (rule table_predecessor [OF t i])
  have ch: "j \<in> set (P b) \<longleftrightarrow> j \<in> S \<and> home hm D j = b" for j using tableD(5) [OF t, of b] by simp
  have d: "distinct (as @ a # i # cs)" using tableD(4) [OF t, of b] p(1) by simp
  have a: "a \<in> S - {i}" "home hm D a = b" using ch [of a] p(1) d by auto
  have asS: "j \<in> S - {i}" if "j \<in> set (as @ [a])" for j using ch [of j] p(1) that d by auto
  have ae: "a \<noteq> e" "a < length D" using a(1) e(1) tableD(2) [OF t] by auto
  have "seg D1 b (as @ [a]) i" by (rule seg_frame [OF p(2) D1(1)]) (use asS D1(2) in auto)
  then have m: "movelink D1 i b e = Some (set_next_link D1 a e)" by (rule movelink_seg) (use d in auto)
  have "\<exists>P'. table D' hm (insert e (S - {i})) P' \<and> (\<forall>c. c \<noteq> b \<longrightarrow> P' c = P c) \<and> entries D' (insert e (S - {i})) = entries D S"
    if D': "length D' = length D" "\<forall>j \<in> insert e (S - {i}). D' ! j = set_next_link D1 a e ! j" for D'
  proof -
    have x: "\<forall>j \<in> S - {i, a}. D' ! j = D ! j" "D' ! e = D ! i" "D' ! a = (D ! a)\<lparr>next_link := e\<rparr>"
      using D' D1 a(1) ae by simp_all
    have "table D' hm (insert e (S - {i})) (P(b := as @ a # e # cs))"
      by (rule table_move [OF t i(1,2) e p(1) D'(1) x])
    moreover have "entries D' (insert e (S - {i})) = entries D S"
      by (rule entries_move [OF tableD(1) [OF t] i(1) e(1)]) (use D' D1 ae(1) in \<open>auto simp: entry_def\<close>)
    ultimately show ?thesis by (intro exI [of _ "P(b := as @ a # e # cs)"]) simp
  qed
  then show ?thesis using that a m by blast
qed

text \<open>
  \<open>move_last\<close> after the bucket of the last position has been joined with \<open>lo\<close>: the positions that
  are used are then those below the number of records.
\<close>

lemma move_last_table:
  assumes t: "table D hm ({..n} - {e}) P" and n: "e \<le> n" "n < length D" "n < NO_RECORD"
    and hm: "hm = (\<lambda>h. my_hash_mask h old_blen (n + 1))" "hm' = (\<lambda>h. my_hash_mask h blen n)"
    and sh: "0 < n \<longrightarrow> lo < n \<and> (\<forall>h. hm' h < n \<and> hm' h = (if hm h = n then lo else hm h))"
  shows "\<exists>D' P'. move_last old_blen blen n D e = Some D' \<and> length D' = length D \<and>
    table D' hm' {..<n} P' \<and> entries D' {..<n} = entries D ({..n} - {e})"
proof (cases "e = n")
  case True
  have S: "{..n} - {n} = {..<n}" by auto
  have "P n = []" using table_no_chain [OF t, of n] True by simp
  then have "table D hm' {..<n} P"
  proof (cases "n = 0")
    case n0: False
    then show ?thesis using table_shrink [OF t \<open>P n = []\<close>, of hm' lo] sh S True by simp
  qed (use t in \<open>auto simp: table_def S True\<close>)
  then show ?thesis using True S by (auto simp: move_last_def)
next
  case False
  then have en: "e < n" using n(1) by simp
  define S where "S = {..n} - {e}"
  have t: "table D hm S P" using t by (simp add: S_def)
  have "0 < n" using en by simp
  then have hm': "\<forall>h. hm' h = (if hm h = n then lo else hm h)" and lt: "hm' h < n" "lo < n" for h using sh by blast+
  have S: "n \<in> S" "e \<notin> S" "insert e (S - {n}) = {..<n}" using en by (auto simp: S_def)
  have e: "e < length D" "e < NO_RECORD" using en n by auto
  define hl where "hl = hash_nr (D ! n)"
  define pos where "pos = hm' hl"
  have homes: "home hm D n = hm hl" by (simp add: home_def hl_def)
  have nn: "hm hl = n \<Longrightarrow> home hm D n = n" by (simp add: homes)
  have pos: "pos < n" "pos = (if hm hl = n then lo else hm hl)" using hm' lt(1) by (simp_all add: pos_def)
  have ml: "move_last old_blen blen n D e = (if pos = e then Some (D[e := D ! n]) else
      (let ph = hash_nr (D ! pos); pos3 = hm' ph in
       if pos \<noteq> pos3 then movelink (D[e := D ! pos, pos := D ! n]) pos pos3 e
       else if hm hl = hm ph \<and> hm hl \<noteq> n then movelink (D[e := D ! n]) n pos e
       else (let D1 = D[e := D ! n] in
         do { data \<leftarrow> movelink D1 (if hm hl = hm ph then pos else NO_RECORD) e (next_link (D1 ! pos));
              Some (set_next_link data pos e) })))"
    using False by (simp add: move_last_def Let_def pos_def hl_def hm)
  have chain: "P c = [] \<Longrightarrow> i \<in> S \<Longrightarrow> home hm D i \<noteq> c" for c i using table_in_chain [OF t] by fastforce
  show ?thesis
  proof (cases "pos = e")
    case True
    have "hm hl = n"
    proof (rule ccontr)
      assume "hm hl \<noteq> n"
      then have "home hm D n = e" using pos(2) True homes by simp
      then show False using chain [OF table_no_chain [OF t] S(1)] S(2) by blast
    qed
    then have "lo = e" using pos(2) True by simp
    then show ?thesis
      using move_to_free [OF t S(1) nn [OF \<open>hm hl = n\<close>] hm'] S ml True False e unfolding S_def [symmetric] by auto
  next
    case pe: False
    define ph where "ph = hash_nr (D ! pos)"
    have pS: "pos \<in> S" "pos \<noteq> n" using pos(1) pe by (auto simp: S_def)
    have hp: "home hm D pos = hm ph" by (simp add: home_def ph_def)
    show ?thesis
    proof (cases "hm' ph = pos")
      case far: False
      define c where "c = hm' ph"
      have "hm ph \<noteq> pos" using far hm' pS(2) by auto
      then have Pp: "P pos = []" using table_no_chain [OF t] hp by simp
      have hn: "hm hl = n"
      proof (rule ccontr)
        assume "hm hl \<noteq> n"
        then have "home hm D n = pos" using pos(2) homes by simp
        then show False using chain [OF Pp S(1)] by blast
      qed
      then have lo: "lo = pos" using pos(2) by simp
      have c: "hm ph = c" "c \<noteq> pos" "c \<noteq> n" using far hm' lo lt(1) [of ph] by (auto simp: c_def split: if_splits)
      let ?D1 = "D[e := D ! pos, pos := D ! n]"
      have D1: "length ?D1 = length D" "\<forall>j \<in> S - {pos}. ?D1 ! j = D ! j" "?D1 ! e = D ! pos"
        using S(2) e(1) pe pS by (auto simp: nth_list_update')
      obtain a where a: "a \<in> S - {pos}" "home hm D a = c" "movelink ?D1 pos c e = Some (set_next_link ?D1 a e)"
        and mv: "\<And>D'. length D' = length D \<Longrightarrow> \<forall>j \<in> insert e (S - {pos}). D' ! j = set_next_link ?D1 a e ! j \<Longrightarrow>
          \<exists>P'. table D' hm (insert e (S - {pos})) P' \<and> (\<forall>b. b \<noteq> c \<longrightarrow> P' b = P b) \<and>
            entries D' (insert e (S - {pos})) = entries D S"
        by (rule movelink_move [OF t pS(1) trans [OF hp c(1)] c(2) S(2) e D1]) blast
      have an: "a \<noteq> n" "a \<noteq> pos" "a \<noteq> e" using a(1,2) hn homes c(3) S(2) by auto
      let ?D2 = "set_next_link (D[e := D ! pos]) a e"
      have "length ?D2 = length D" by simp
      moreover have "\<forall>j \<in> insert e (S - {pos}). ?D2 ! j = set_next_link ?D1 a e ! j"
        using pe an by (auto simp: set_next_link_def nth_list_update')
      ultimately obtain P' where P': "table ?D2 hm (insert e (S - {pos})) P'"
          "entries ?D2 (insert e (S - {pos})) = entries D S" using mv by blast
      have n2: "?D2 ! n = D ! n" using an(1) False by (simp add: nth_list_update')
      have "set_next_link ?D1 a e = ?D2[pos := ?D2 ! n]"
        unfolding n2 using an(2) by (simp add: set_next_link_def list_update_swap nth_list_update')
      moreover have "\<exists>P''. table (?D2[pos := ?D2 ! n]) hm' (insert pos (insert e (S - {pos}) - {n})) P'' \<and>
        entries (?D2[pos := ?D2 ! n]) (insert pos (insert e (S - {pos}) - {n})) = entries ?D2 (insert e (S - {pos}))"
      proof (rule move_to_free [OF P'(1)])
        show "n \<in> insert e (S - {pos})" using S(1) pS(2) by auto
        show "home hm ?D2 n = n" using n2 hn by (simp add: home_def hl_def)
        show "\<forall>h. hm' h = (if hm h = n then pos else hm h)" using hm' lo by simp
      qed (use pS pe pos(1) n in auto)
      moreover have "insert pos (insert e (S - {pos}) - {n}) = {..<n}" using en pos(1) by (auto simp: S_def)
      ultimately show ?thesis
        using ml pe far a(3) P'(2) unfolding S_def [symmetric] by (simp add: Let_def ph_def [symmetric] c_def [symmetric])
    next
      case near: True
      show ?thesis
      proof (cases "hm hl = hm ph \<and> hm hl \<noteq> n")
        case True
        then have hn: "home hm D n = pos" using pos(2) homes by simp
        let ?D1 = "D[e := D ! n]"
        have D1: "length ?D1 = length D" "\<forall>j \<in> S - {n}. ?D1 ! j = D ! j" "?D1 ! e = D ! n"
          using S(2) e(1) by (auto simp: nth_list_update')
        obtain a where a: "movelink ?D1 n pos e = Some (set_next_link ?D1 a e)" and
          mv: "\<And>D'. length D' = length D \<Longrightarrow> \<forall>j \<in> insert e (S - {n}). D' ! j = set_next_link ?D1 a e ! j \<Longrightarrow>
            \<exists>P'. table D' hm (insert e (S - {n})) P' \<and> (\<forall>c. c \<noteq> pos \<longrightarrow> P' c = P c) \<and>
              entries D' (insert e (S - {n})) = entries D S"
          by (rule movelink_move [OF t S(1) hn pS(2) S(2) e D1]) blast
        have "length (set_next_link ?D1 a e) = length D" by simp
        from mv [OF this] obtain P' where "table (set_next_link ?D1 a e) hm (insert e (S - {n})) P'"
          "\<forall>c. c \<noteq> pos \<longrightarrow> P' c = P c" "entries (set_next_link ?D1 a e) (insert e (S - {n})) = entries D S" by auto
        moreover have "P n = []" using table_no_chain [OF t] hn pS(2) by metis
        ultimately show ?thesis
          using a ml pe near True S(3) pS(2) table_shrink [of "set_next_link ?D1 a e" hm "{..<n}" P' n hm' lo] hm' unfolding S_def [symmetric]
          by (auto simp: Let_def ph_def [symmetric])
      next
        case diff: False
        have hn: "hm hl = n"
        proof (rule ccontr)
          assume h: "hm hl \<noteq> n"
          then have Pn: "P n = []" using table_no_chain [OF t] homes by metis
          have "hm hl = pos" using pos(2) h by simp
          moreover have "hm ph \<noteq> n" using chain [OF Pn pS(1)] hp by simp
          ultimately show False using diff h near hm' by auto
        qed
        then have lo: "lo = pos" using pos(2) by simp
        have same: "home hm D pos = n \<or> home hm D pos = pos" using near hm' hp by (metis (full_types))
        have idx: "(if hm hl = hm ph then pos else NO_RECORD) = (if home hm D pos = n then pos else NO_RECORD)"
          using hn hp by auto
        have hmp: "\<forall>h. hm' h = (if hm h = n then pos else hm h)" using hm' lo by simp
        from merge_into [OF t S(1) nn [OF hn] hmp pS(2,1) S(2) e same refl idx]
        show ?thesis
          using ml pe near diff S(3) unfolding S_def [symmetric] by (simp add: Let_def ph_def [symmetric])
      qed
    qed
  qed
qed

end
