(* ===== verification/HashSearch.thy ===== *)
theory HashSearch
  imports HashDelete
begin

text \<open>The hash table as a multiset of records: the invariant of the table, how a table grows by a record, and
  the searches with \<open>my_hash_first\<close> and \<open>my_hash_next\<close>.\<close>

section \<open>The table as a multiset of records\<close>

definition hash_records :: "HASH \<Rightarrow> nat multiset" where
  "hash_records hash = mset (map link_data (take (records hash) (buffer (links hash))))"

text \<open>The position of a hash value in the table.\<close>

definition bucket :: "HASH \<Rightarrow> nat \<Rightarrow> nat" where
  "bucket hash h = my_hash_mask h (blength hash) (records hash)"

text \<open>The shape of the table, and the hash values that are stored with the records.\<close>

definition hash_shape :: "HASH \<Rightarrow> bool" where
  "hash_shape hash \<longleftrightarrow> da_inv (links hash) \<and> elements (links hash) = records hash \<and>
     size_ok (blength hash) (records hash) \<and> records hash < NO_RECORD \<and>
     (\<exists>P. table (buffer (links hash)) (bucket hash) {..<records hash} P)"

definition hash_entries :: "HASH \<Rightarrow> (nat \<times> nat) multiset" where
  "hash_entries hash = entries (buffer (links hash)) {..<records hash}"

definition hash_ok :: "mem \<Rightarrow> HASH \<Rightarrow> bool" where
  "hash_ok m hash \<longleftrightarrow> hash_shape hash \<and> (\<forall>(h, r) \<in># hash_entries hash. h = rec_hashnr m hash r)"

text \<open>The fields that only \<open>my_hash_init2\<close> and \<open>my_hash_free\<close> set.\<close>

definition same_setup :: "HASH \<Rightarrow> HASH \<Rightarrow> bool" where
  "same_setup hash hash' \<longleftrightarrow> key_offset hash' = key_offset hash \<and> key_length hash' = key_length hash \<and>
     flags hash' = flags hash \<and> get_key hash' = get_key hash \<and> hash_function hash' = hash_function hash \<and>
     free_element hash' = free_element hash \<and> charset hash' = charset hash"

lemma same_setup_keys:
  assumes "same_setup hash hash'"
  shows "my_hash_key m hash' r f = my_hash_key m hash r f" "rec_hashnr m hash' r = rec_hashnr m hash r"
  using assms by (simp_all add: same_setup_def my_hash_key_def rec_hashnr_def cong: option.case_cong)

lemma hash_shapeD:
  assumes "hash_shape hash"
  shows "da_inv (links hash)" "elements (links hash) = records hash" "size_ok (blength hash) (records hash)"
    "records hash < NO_RECORD" "records hash \<le> length (buffer (links hash))"
  using assms by (auto simp: hash_shape_def da_inv_def)

lemma entries_upto: "n \<le> length D \<Longrightarrow> entries D {..<n} = mset (map (\<lambda>l. (hash_nr l, link_data l)) (take n D))"
proof (induction n)
  case (Suc n)
  have "{..<Suc n} = insert n {..<n}" by auto
  then show ?case using Suc by (simp add: entries_insert take_Suc_conv_app_nth entry_def)
qed (simp add: entries_def)

lemma hash_records_entries:
  assumes "records hash \<le> length (buffer (links hash))"
  shows "hash_records hash = image_mset snd (hash_entries hash)"
  using assms by (simp add: hash_records_def hash_entries_def entries_upto image_mset.compositionality comp_def)

lemma bucket_less:
  assumes "size_ok (blength hash) (records hash)" "0 < records hash"
  shows "bucket hash h < records hash"
  using my_hash_mask_less [of "blength hash" "records hash" h] assms by (simp add: bucket_def size_ok_def)

lemma hash_init_ok:
  assumes "0 < link_size" "mem_ok init_size junk"
  shows "fst (my_hash_init2 link_size junk growth_size cs init_size key_off key_len get_k hash_fun free_el fl) = False"
    and "hash_ok m (snd (my_hash_init2 link_size junk growth_size cs init_size key_off key_len get_k hash_fun free_el fl))"
    and "hash_records (snd (my_hash_init2 link_size junk growth_size cs init_size key_off key_len get_k hash_fun free_el fl)) = {#}"
proof -
  note d = init_inv [where sz = link_size and ib = None and n = init_size and mem = junk and inc = growth_size] assms
  obtain res a where r: "init_dynamic_array2 link_size None init_size growth_size junk = (res, a)" by fastforce
  have a: "res = False" "da_inv a" "contents a = []" using d r by auto
  then have e: "elements a = 0" by (auto simp: contents_def da_inv_def)
  show "fst (my_hash_init2 link_size junk growth_size cs init_size key_off key_len get_k hash_fun free_el fl) = False"
    "hash_records (snd (my_hash_init2 link_size junk growth_size cs init_size key_off key_len get_k hash_fun free_el fl)) = {#}"
    using r a by (simp_all add: my_hash_init2_def hash_records_def)
  have "table b hm {} (\<lambda>_. [])" for b hm by (simp add: table_def)
  moreover have "size_ok 1 0" by (auto simp: size_ok_def intro: exI [of _ 0])
  ultimately show "hash_ok m (snd (my_hash_init2 link_size junk growth_size cs init_size key_off key_len get_k hash_fun free_el fl))"
    using r a e by (auto simp: my_hash_init2_def hash_ok_def hash_shape_def hash_entries_def entries_def NO_RECORD_def)
qed

section \<open>Insertion\<close>

lemma seg_cong: "seg D x as y \<Longrightarrow> \<forall>i \<in> set as. i < length D' \<and> D' ! i = D ! i \<Longrightarrow> seg D' x as y"
  by (induction as arbitrary: x) auto

lemma table_copy:
  assumes "table D hm S P" "\<forall>i \<in> S. i < length D' \<and> D' ! i = D ! i"
  shows "table D' hm S P"
  unfolding table_def
proof (intro conjI allI)
  fix b
  have s: "set (P b) = {i \<in> S. home hm D i = b}" by (rule tableD(5) [OF assms(1)])
  show "distinct (P b)" by (rule tableD(4) [OF assms(1)])
  show "set (P b) = {i \<in> S. home hm D' i = b}" using s assms(2) by (auto simp: home_def)
  show "P b = [] \<or> seg D' b (P b) NO_RECORD"
    using seg_cong [OF tableD(6) [OF assms(1)], of b D'] s assms(2) by blast
qed (use assms(2) tableD(1,3) [OF assms(1)] in auto)

lemma hash_grow:
  assumes s: "hash_shape hash" "records hash + 1 < NO_RECORD"
    and a: "da_inv a" "elements a = Suc (records hash)" "take (records hash) (buffer a) = take (records hash) (buffer (links hash))"
  shows "\<exists>data hole data' hash'. hash_split (blength hash) (records hash) (buffer a) (records hash) = Some (data, hole) \<and>
    hash_place (blength hash) (records hash) data hole h r = Some data' \<and>
    hash' = hash\<lparr>links := a\<lparr>buffer := data'\<rparr>, records := records hash + 1,
       blength := (if records hash + 1 = blength hash then blength hash + blength hash else blength hash)\<rparr> \<and>
    hash_shape hash' \<and> hash_entries hash' = add_mset (h, r) (hash_entries hash)"
proof -
  define n where "n = records hash"
  define D where "D = buffer a"
  have sz: "size_ok (blength hash) n" and n: "n < NO_RECORD" "n \<le> length (buffer (links hash))"
    using hash_shapeD [OF s(1)] by (simp_all add: n_def)
  obtain P where P: "table (buffer (links hash)) (bucket hash) {..<n} P" using s(1) by (auto simp: hash_shape_def n_def)
  have nD: "n < length D" using a(1,2) by (simp add: da_inv_def D_def n_def)
  have nth: "D ! i = buffer (links hash) ! i" if "i < n" for i
    using a(3) that by (metis D_def n_def nth_take)
  have t: "table D (bucket hash) {..<n} P" by (rule table_copy [OF P]) (use nth nD in auto)
  have hm: "bucket hash = (\<lambda>h. my_hash_mask h (blength hash) n)" by (simp add: bucket_def fun_eq_iff n_def)
  let ?hm' = "\<lambda>h. my_hash_mask h (blength hash) (n + 1)"
  obtain D1 e P1 where s1: "hash_split (blength hash) n D n = Some (D1, e)" "length D1 = length D" "e \<le> n"
    "table D1 ?hm' ({..n} - {e}) P1" "entries D1 ({..n} - {e}) = entries D {..<n}"
    using hash_split_table [OF sz t hm refl nD n(1)] by blast
  have sp: "insert e ({..n} - {e}) = {..<n + 1}" using s1(3) by auto
  have "?hm' h \<in> insert e ({..n} - {e})"
    unfolding sp using my_hash_mask_less [of "blength hash" "n + 1" h] sz by (auto simp: size_ok_def)
  then obtain D2 P2 where s2: "hash_place (blength hash) n D1 e h r = Some D2" "length D2 = length D"
    "table D2 ?hm' {..<n + 1} P2" "entries D2 {..<n + 1} = add_mset (h, r) (entries D {..<n})"
    using hash_place_table [OF s1(4) refl, of e h r] s1(2,3,5) nD n(1) unfolding sp by auto
  define hash' where "hash' = hash\<lparr>links := a\<lparr>buffer := D2\<rparr>, records := n + 1,
       blength := (if n + 1 = blength hash then blength hash + blength hash else blength hash)\<rparr>"
  have b': "bucket hash' = ?hm'"
    using my_hash_mask_double [of "blength hash"] sz by (auto simp: bucket_def fun_eq_iff hash'_def size_ok_def mult_2)
  have "size_ok (blength hash') (n + 1)"
    using sz by (auto simp: size_ok_def hash'_def) (metis mult_2 power_Suc)
  then have "hash_shape hash'"
    using s(2) a(1,2) s2 b' by (auto simp: hash_shape_def hash'_def da_inv_def n_def D_def)
  moreover have "hash_entries hash' = add_mset (h, r) (hash_entries hash)"
    using s2(4) entries_cong [of "{..<n}" D "buffer (links hash)"] nth by (simp add: hash_entries_def hash'_def entry_def n_def)
  ultimately show ?thesis
    using s1(1) s2(1) by (intro exI [of _ D1] exI [of _ e] exI [of _ D2] exI [of _ hash']) (simp add: hash'_def n_def D_def)
qed

section \<open>Search\<close>

text \<open>Whether the record \<open>r\<close> has the key, which is what \<open>hashcmp\<close> decides.\<close>

definition key_eq :: "mem \<Rightarrow> HASH \<Rightarrow> u8 list \<Rightarrow> nat \<Rightarrow> bool" where
  "key_eq m hash key r \<longleftrightarrow> length key = length (my_hash_key m hash r True) \<and>
     strnncoll (charset hash) (my_hash_key m hash r True) key = 0"

lemma hashcmp_key_eq: "hashcmp m hash pos key \<longleftrightarrow> \<not> key_eq m hash key (link_data pos)"
  by (simp add: hashcmp_def key_eq_def Let_def)

text \<open>The collation does not tell two keys apart that have different hash values.\<close>

definition hash_respects :: "mem \<Rightarrow> HASH \<Rightarrow> u8 list \<Rightarrow> bool" where
  "hash_respects m hash key \<longleftrightarrow> (\<forall>r \<in># hash_records hash. key_eq m hash key r \<longrightarrow>
     rec_hashnr m hash r = hash_function hash (charset hash) key)"

definition matching :: "mem \<Rightarrow> HASH \<Rightarrow> u8 list \<Rightarrow> nat list \<Rightarrow> nat list" where
  "matching m hash key p = filter (\<lambda>i. key_eq m hash key (link_data (buffer (links hash) ! i))) p"

text \<open>What a search along the chain \<open>p\<close> returns: the first record with the key.\<close>

definition pick :: "mem \<Rightarrow> HASH \<Rightarrow> u8 list \<Rightarrow> nat list \<Rightarrow> nat \<times> nat" where
  "pick m hash key p = (case matching m hash key p of
     [] \<Rightarrow> (0, NO_RECORD) | i # _ \<Rightarrow> (link_data (buffer (links hash) ! i), i))"

lemma pick_simps [simp]:
  "pick m hash key [] = (0, NO_RECORD)"
  "key_eq m hash key (link_data (buffer (links hash) ! i)) \<Longrightarrow> pick m hash key (i # p) = (link_data (buffer (links hash) ! i), i)"
  "\<not> key_eq m hash key (link_data (buffer (links hash) ! i)) \<Longrightarrow> pick m hash key (i # p) = pick m hash key p"
  by (simp_all add: pick_def matching_def)

lemma first_loop_chain:
  assumes "seg (buffer (links hash)) idx (idx # p) NO_RECORD" "\<forall>i \<in> set p. i \<noteq> NO_RECORD"
    "flag \<longrightarrow> bucket hash (hash_nr (buffer (links hash) ! idx)) = idx"
  shows "hash_first_loop m hash key flag idx = Some (pick m hash key (idx # p))"
  using assms
proof (induction p arbitrary: idx flag)
  case Nil
  then show ?case
    by (subst hash_first_loop.simps) (auto simp: Let_def hashcmp_key_eq my_hash_rec_mask_def bucket_def)
next
  case (Cons j p)
  have j: "next_link (buffer (links hash) ! idx) = j" "j \<noteq> NO_RECORD" "idx < length (buffer (links hash))"
    "seg (buffer (links hash)) j (j # p) NO_RECORD" using Cons.prems by auto
  have IH: "hash_first_loop m hash key False j = Some (pick m hash key (j # p))"
    by (rule Cons.IH) (use j Cons.prems in auto)
  show ?case
  proof (cases "key_eq m hash key (link_data (buffer (links hash) ! idx))")
    case True
    then show ?thesis using j by (subst hash_first_loop.simps) (simp add: Let_def hashcmp_key_eq)
  next
    case False
    then show ?thesis using j IH Cons.prems(3)
      by (subst hash_first_loop.simps) (auto simp: Let_def hashcmp_key_eq my_hash_rec_mask_def bucket_def)
  qed
qed

lemma next_loop_chain:
  assumes "seg (buffer (links hash)) idx p NO_RECORD" "\<forall>i \<in> set p. i \<noteq> NO_RECORD"
  shows "hash_next_loop m hash key idx = Some (pick m hash key p)"
  using assms
proof (induction p arbitrary: idx)
  case Nil
  then show ?case by (subst hash_next_loop.simps) simp
next
  case (Cons j p)
  show ?case
  proof (cases "key_eq m hash key (link_data (buffer (links hash) ! j))")
    case True
    then show ?thesis using Cons.prems by (subst hash_next_loop.simps) (simp add: Let_def hashcmp_key_eq)
  next
    case False
    moreover have "hash_next_loop m hash key (next_link (buffer (links hash) ! j)) = Some (pick m hash key p)"
      by (rule Cons.IH) (use Cons.prems in auto)
    ultimately show ?thesis using Cons.prems by (subst hash_next_loop.simps) (simp add: Let_def hashcmp_key_eq)
  qed
qed

text \<open>The search starts at the right chain, or at a record of another chain that does not match.\<close>

lemma first_from_hash_value:
  assumes s: "hash_shape hash" and P: "table (buffer (links hash)) (bucket hash) {..<records hash} P"
    and K: "\<forall>(h', r) \<in># hash_entries hash. key_eq m hash (key_arg hash key len) r \<longrightarrow> h' = h"
  shows "my_hash_first_from_hash_value m hash h key len = Some (pick m hash (key_arg hash key len) (P (bucket hash h)))"
proof (cases "records hash = 0")
  case True
  then have "P (bucket hash h) = []" using tableD(5) [OF P, of "bucket hash h"] by simp
  then show ?thesis using True by (simp add: my_hash_first_from_hash_value_def)
next
  case False
  define b where "b = bucket hash h"
  define D where "D = buffer (links hash)"
  have b: "b < records hash" using bucket_less hash_shapeD(3) [OF s] False by (simp add: b_def)
  have P: "table D (bucket hash) {..<records hash} P" using P by (simp add: D_def)
  have eq: "my_hash_first_from_hash_value m hash h key len = hash_first_loop m hash (key_arg hash key len) True b"
    using False by (simp add: my_hash_first_from_hash_value_def b_def bucket_def)
  show ?thesis
  proof (cases "P b = []")
    case True
    have "entry D b \<in># hash_entries hash" using b by (simp add: hash_entries_def entries_def D_def)
    moreover have nb: "bucket hash (hash_nr (D ! b)) \<noteq> b" using True tableD(5) [OF P, of b] b by (auto simp: home_def)
    ultimately have "\<not> key_eq m hash (key_arg hash key len) (link_data (D ! b))" using K by (auto simp: entry_def b_def)
    moreover have "b < length D" using tableD(2) [OF P] b by simp
    ultimately have "hash_first_loop m hash (key_arg hash key len) True b = Some (0, NO_RECORD)"
      using nb by (subst hash_first_loop.simps) (simp add: Let_def hashcmp_key_eq my_hash_rec_mask_def bucket_def D_def)
    then show ?thesis using eq True by (simp add: b_def)
  next
    case False
    obtain p where p: "P b = b # p" using table_head(1) [OF P False] by blast
    have "seg D b (b # p) NO_RECORD" using tableD(6) [OF P False] p by simp
    moreover have "\<forall>i \<in> set p. i \<noteq> NO_RECORD"
    proof
      fix i assume "i \<in> set p"
      then have "i \<in> {..<records hash}" using tableD(5) [OF P, of b] p by auto
      then show "i \<noteq> NO_RECORD" using tableD(3) [OF P, of i] by simp
    qed
    moreover have "bucket hash (hash_nr (D ! b)) = b" using table_head(3) [OF P False] by (simp add: home_def)
    ultimately show ?thesis using eq p first_loop_chain [of hash b p True m] by (simp add: b_def D_def)
  qed
qed

text \<open>The records of the chain with the key are all records with the key.\<close>

lemma matching_records:
  assumes s: "hash_shape hash" and P: "table (buffer (links hash)) (bucket hash) {..<records hash} P"
    and K: "\<forall>(h', r) \<in># hash_entries hash. key_eq m hash key r \<longrightarrow> h' = h"
  shows "mset (map (\<lambda>i. link_data (buffer (links hash) ! i)) (matching m hash key (P (bucket hash h)))) =
    filter_mset (key_eq m hash key) (hash_records hash)"
proof -
  let ?D = "buffer (links hash)"
  let ?Q = "\<lambda>i. key_eq m hash key (link_data (?D ! i))"
  have d: "distinct (matching m hash key (P (bucket hash h)))"
    using tableD(4) [OF P] by (simp add: matching_def)
  have "set (matching m hash key (P (bucket hash h))) = {i \<in> {..<records hash}. ?Q i}"
  proof -
    have "bucket hash (hash_nr (?D ! i)) = bucket hash h" if "i < records hash" "?Q i" for i
    proof -
      have "entry ?D i \<in># hash_entries hash" using that(1) by (simp add: hash_entries_def entries_def)
      then show ?thesis using K that(2) by (auto simp: entry_def)
    qed
    then show ?thesis using tableD(5) [OF P, of "bucket hash h"] by (auto simp: matching_def home_def)
  qed
  then have "mset (matching m hash key (P (bucket hash h))) = filter_mset ?Q (mset_set {..<records hash})"
    using mset_set_set [OF d] by (simp add: filter_mset_mset_set)
  moreover have "hash_records hash = image_mset (\<lambda>i. link_data (?D ! i)) (mset_set {..<records hash})"
    using hash_shapeD(5) [OF s] by (simp add: hash_records_entries hash_entries_def entries_def entry_def
        image_mset.compositionality comp_def)
  ultimately show ?thesis by (simp add: filter_mset_image_mset)
qed

text \<open>The records a caller sees who goes on with \<open>my_hash_next\<close> until it gets NULL.\<close>

partial_function (option) all_matches :: "mem \<Rightarrow> HASH \<Rightarrow> u8 list \<Rightarrow> nat \<Rightarrow> nat \<times> nat \<Rightarrow> nat list option" where
  "all_matches m hash key len found =
     (if fst found = 0 then Some []
      else do { nxt \<leftarrow> my_hash_next m hash key len (snd found);
                rest \<leftarrow> all_matches m hash key len nxt;
                Some (fst found # rest) })"

declare all_matches.simps [code]

lemma all_matches_chain:
  assumes "seg (buffer (links hash)) x p NO_RECORD" "\<forall>i \<in> set p. i \<noteq> NO_RECORD \<and> link_data (buffer (links hash) ! i) \<noteq> 0"
  shows "all_matches m hash key len (pick m hash (key_arg hash key len) p) =
    Some (map (\<lambda>i. link_data (buffer (links hash) ! i)) (matching m hash (key_arg hash key len) p))"
  using assms
proof (induction p arbitrary: x)
  case Nil
  then show ?case by (subst all_matches.simps) (simp add: matching_def)
next
  case (Cons j p)
  have sg: "seg (buffer (links hash)) (next_link (buffer (links hash) ! j)) p NO_RECORD" using Cons.prems by simp
  have IH: "all_matches m hash key len (pick m hash (key_arg hash key len) p) =
    Some (map (\<lambda>i. link_data (buffer (links hash) ! i)) (matching m hash (key_arg hash key len) p))"
    by (rule Cons.IH [OF sg]) (use Cons.prems in auto)
  have nx: "my_hash_next m hash key len j = Some (pick m hash (key_arg hash key len) p)"
    using next_loop_chain [OF sg] Cons.prems(2) by (simp add: my_hash_next_def)
  show ?case
  proof (cases "key_eq m hash (key_arg hash key len) (link_data (buffer (links hash) ! j))")
    case True
    then show ?thesis using nx IH Cons.prems(2) by (subst all_matches.simps) (simp add: matching_def)
  next
    case False
    then show ?thesis using IH by (simp add: matching_def)
  qed
qed

lemma hash_ok_entries:
  assumes "hash_ok m hash" "hash_respects m hash key"
  shows "\<forall>(h', r) \<in># hash_entries hash. key_eq m hash key r \<longrightarrow> h' = hash_function hash (charset hash) key"
proof -
  have s: "hash_shape hash" using assms(1) by (simp add: hash_ok_def)
  have e: "set_mset (hash_records hash) = snd ` set_mset (hash_entries hash)"
    using hash_records_entries hash_shapeD(5) [OF s] by simp
  have "h' = hash_function hash (charset hash) key" if x: "(h', r) \<in># hash_entries hash" "key_eq m hash key r" for h' r
  proof -
    have "r \<in># hash_records hash" unfolding e using x(1) by (metis imageI snd_conv)
    moreover have "h' = rec_hashnr m hash r" using assms(1) x(1) by (auto simp: hash_ok_def)
    ultimately show ?thesis using assms(2) x(2) by (simp add: hash_respects_def)
  qed
  then show ?thesis by blast
qed

lemma record_at:
  assumes "hash_shape hash" "i < records hash"
  shows "link_data (buffer (links hash) ! i) \<in># hash_records hash"
proof -
  have "take (records hash) (buffer (links hash)) ! i \<in> set (take (records hash) (buffer (links hash)))"
    using assms hash_shapeD(5) by (intro nth_mem) simp
  then show ?thesis using assms(2) by (simp add: hash_records_def)
qed

lemma first_matches:
  assumes ok: "hash_ok m hash" and nz: "0 \<notin># hash_records hash" and resp: "hash_respects m hash (key_arg hash key len)"
  shows "\<exists>found xs. my_hash_first m hash key len = Some found \<and> all_matches m hash key len found = Some xs \<and>
    mset xs = filter_mset (key_eq m hash (key_arg hash key len)) (hash_records hash) \<and>
    fst found = (case xs of [] \<Rightarrow> 0 | x # _ \<Rightarrow> x)"
proof -
  have s: "hash_shape hash" using ok by (simp add: hash_ok_def)
  then obtain P where P: "table (buffer (links hash)) (bucket hash) {..<records hash} P" by (auto simp: hash_shape_def)
  let ?k = "key_arg hash key len"
  let ?h = "hash_function hash (charset hash) ?k"
  let ?p = "P (bucket hash ?h)"
  note K = hash_ok_entries [OF ok resp]
  let ?xs = "map (\<lambda>i. link_data (buffer (links hash) ! i)) (matching m hash ?k ?p)"
  have "my_hash_first m hash key len = Some (pick m hash ?k ?p)"
    using first_from_hash_value [OF s P K] by (simp add: my_hash_first_def)
  moreover have "mset ?xs = filter_mset (key_eq m hash ?k) (hash_records hash)"
    by (rule matching_records [OF s P K])
  moreover have "all_matches m hash key len (pick m hash ?k ?p) = Some ?xs"
  proof (cases "?p = []")
    case True
    show ?thesis unfolding True by (rule all_matches_chain) simp_all
  next
    case False
    have "i \<noteq> NO_RECORD \<and> link_data (buffer (links hash) ! i) \<noteq> 0" if "i \<in> set ?p" for i
    proof -
      have i: "i < records hash" using that tableD(5) [OF P] by auto
      then have "link_data (buffer (links hash) ! i) \<in># hash_records hash"
        by (rule record_at [OF s])
      then have "link_data (buffer (links hash) ! i) \<noteq> 0" using nz by metis
      then show ?thesis using tableD(3) [OF P, of i] i by simp
    qed
    then show ?thesis by (intro all_matches_chain [OF tableD(6) [OF P False]]) blast
  qed
  ultimately show ?thesis
    by (intro exI [of _ "pick m hash ?k ?p"] exI [of _ ?xs]) (simp add: pick_def split: list.split)
qed

lemma search_spec:
  assumes "hash_ok m hash" "0 \<notin># hash_records hash" "hash_respects m hash (key_arg hash key len)"
  shows "\<exists>r. my_hash_search m hash key len = Some r \<and>
    (if \<exists>x \<in># hash_records hash. key_eq m hash (key_arg hash key len) x
     then r \<in># hash_records hash \<and> key_eq m hash (key_arg hash key len) r else r = 0)"
proof -
  obtain found xs where f: "my_hash_first m hash key len = Some found"
    "mset xs = filter_mset (key_eq m hash (key_arg hash key len)) (hash_records hash)"
    "fst found = (case xs of [] \<Rightarrow> 0 | x # _ \<Rightarrow> x)" using first_matches [OF assms] by blast
  have "my_hash_search m hash key len = Some (fst found)" using f(1) by (simp add: my_hash_search_def)
  moreover have xs: "set xs = {x. x \<in># hash_records hash \<and> key_eq m hash (key_arg hash key len) x}"
    using arg_cong [OF f(2), of set_mset] by auto
  ultimately show ?thesis using f(3) by (cases xs) auto
qed

end
