(* ===== verification/HashOps.thy ===== *)
theory HashOps
  imports HashSearch
begin

text \<open>What \<open>my_hash_insert\<close>, \<open>my_hash_delete\<close> and \<open>my_hash_update\<close> do to the multiset of records, on every branch.\<close>

lemma key_arg_all [simp]: "key_arg hash key (length key) = key"
  by (simp add: key_arg_def)

lemma insert_spec:
  assumes ok: "hash_ok m hash" and nz: "0 \<notin># hash_records hash" and room: "records hash + 1 < NO_RECORD"
    and mem: "mem_ok (max_element (links hash) + alloc_increment (links hash)) junk"
    and key: "key = my_hash_key m hash r True" "my_hash_key m hash r False = key"
    and resp: "flags hash AND HASH_UNIQUE \<noteq> 0 \<longrightarrow> hash_respects m hash key"
  shows "\<exists>res hash'. my_hash_insert junk m hash r = Some (res, hash') \<and>
    (if flags hash AND HASH_UNIQUE \<noteq> 0 \<and> (\<exists>x \<in># hash_records hash. key_eq m hash key x) \<or>
        junk = None \<and> records hash = max_element (links hash)
     then res \<and> hash' = hash
     else \<not> res \<and> hash_ok m hash' \<and> same_setup hash hash' \<and> hash_records hash' = add_mset r (hash_records hash))"
proof -
  have s: "hash_shape hash" using ok by (simp add: hash_ok_def)
  let ?h = "hash_function hash (charset hash) key"
  let ?dup = "flags hash AND HASH_UNIQUE \<noteq> 0 \<and> (\<exists>x \<in># hash_records hash. key_eq m hash key x)"
  obtain found where found: "(if flags hash AND HASH_UNIQUE \<noteq> 0
      then my_hash_search_using_hash_value m hash ?h key (length key) else Some 0) = Some found" "found \<noteq> 0 \<longleftrightarrow> ?dup"
  proof (cases "flags hash AND HASH_UNIQUE = 0")
    case False
    then have "hash_respects m hash (key_arg hash key (length key))" using resp by simp
    from search_spec [OF ok nz this]
    obtain x where x: "my_hash_search m hash key (length key) = Some x" "if \<exists>x \<in># hash_records hash. key_eq m hash key x
       then x \<in># hash_records hash \<and> key_eq m hash key x else x = 0" unfolding key_arg_all by blast
    have "x \<noteq> 0 \<longleftrightarrow> (\<exists>x \<in># hash_records hash. key_eq m hash key x)" using x(2) nz by metis
    then show ?thesis using that [of x] x(1) False
      by (simp add: my_hash_search_def my_hash_search_using_hash_value_def my_hash_first_def)
  qed (use that in simp)
  have ins: "my_hash_insert junk m hash r = (if found \<noteq> 0 then Some (True, hash) else case alloc_dynamic junk (links hash) of
        (None, a) \<Rightarrow> Some (True, hash\<lparr>links := a\<rparr>)
      | (Some hole, a) \<Rightarrow>
          do { (data, hole) \<leftarrow> hash_split (blength hash) (records hash) (buffer a) hole;
               data \<leftarrow> hash_place (blength hash) (records hash) data hole ?h r;
               let n = records hash + 1
               in Some (False, hash\<lparr>links := a\<lparr>buffer := data\<rparr>, records := n,
                    blength := (if n = blength hash then blength hash + blength hash else blength hash)\<rparr>) })"
    unfolding my_hash_insert_def key(1) [symmetric] Let_def found(1) by simp
  show ?thesis
  proof (cases ?dup)
    case True
    then show ?thesis using ins found(2) by auto
  next
    case nd: False
    have f0: "found = 0" using found(2) nd by blast
    obtain slot a where r: "alloc_dynamic junk (links hash) = (slot, a)" by fastforce
    note sp = alloc_dynamic_spec [OF hash_shapeD(1) [OF s] mem r] and el = hash_shapeD(2) [OF s]
    show ?thesis
    proof (cases slot)
      case None
      then have full: "junk = None \<and> records hash = max_element (links hash)" and al: "a = links hash" using sp el by auto
      have "my_hash_insert junk m hash r = Some (True, hash)" using ins f0 r None al by simp
      then show ?thesis using full by auto
    next
      case (Some idx)
      have a: "idx = records hash" "da_inv a" "elements a = Suc (records hash)"
        "take (records hash) (buffer a) = take (records hash) (buffer (links hash))"
        using sp el Some by (auto simp: contents_def)
      have nf: "\<not> (junk = None \<and> records hash = max_element (links hash))"
        using r Some el by (cases junk) (auto simp: alloc_dynamic_def malloc_slots_def realloc_slots_def Let_def split: if_splits)
      from hash_grow [OF s room a(2-4), of ?h r]
      obtain D hole D' hash' where g: "hash_split (blength hash) (records hash) (buffer a) (records hash) = Some (D, hole)"
        "hash_place (blength hash) (records hash) D hole ?h r = Some D'"
        "hash' = hash\<lparr>links := a\<lparr>buffer := D'\<rparr>, records := records hash + 1,
           blength := (if records hash + 1 = blength hash then blength hash + blength hash else blength hash)\<rparr>"
        "hash_shape hash'" "hash_entries hash' = add_mset (?h, r) (hash_entries hash)" by blast
      have "my_hash_insert junk m hash r = Some (False, hash')"
        using ins f0 r Some a(1) g(1-3) by (simp add: Let_def)
      moreover have st: "same_setup hash hash'" by (simp add: same_setup_def g(3))
      moreover have "hash_ok m hash'"
        using ok g(4,5) same_setup_keys(2) [OF st] key(2) by (auto simp: hash_ok_def rec_hashnr_def)
      moreover have "hash_records hash' = add_mset r (hash_records hash)"
        using hash_records_entries hash_shapeD(5) [OF s] hash_shapeD(5) [OF g(4)] g(5) by simp
      moreover have c: "\<not> (?dup \<or> junk = None \<and> records hash = max_element (links hash))" using nd nf by blast
      ultimately show ?thesis unfolding if_not_P [OF c] by blast
    qed
  qed
qed

section \<open>Deletion\<close>

lemma find_record_none:
  assumes "seg D x (x # p) NO_RECORD" "\<forall>i \<in> set p. i \<noteq> NO_RECORD" "\<forall>i \<in> set (x # p). link_data (D ! i) \<noteq> r"
  shows "find_record D r prev x = Some None"
  using assms by (induction p arbitrary: x prev; subst find_record.simps) auto

lemma find_record_some:
  assumes "seg D x (q1 @ pos # q2) y" "NO_RECORD \<notin> set (q1 @ [pos])" "link_data (D ! pos) = r" "\<forall>i \<in> set q1. link_data (D ! i) \<noteq> r"
  shows "find_record D r prev x = Some (Some (pos, if q1 = [] then prev else Some (last q1)))"
  using assms
proof (induction q1 arbitrary: x prev)
  case Nil
  then show ?case by (subst find_record.simps) auto
next
  case (Cons a q1)
  have "next_link (D ! a) \<noteq> NO_RECORD" using Cons.prems(1,2) by (cases q1) auto
  moreover have "find_record D r (Some a) (next_link (D ! a)) = Some (Some (pos, if q1 = [] then Some a else Some (last q1)))"
    by (rule Cons.IH) (use Cons.prems in auto)
  ultimately show ?case using Cons.prems by (subst find_record.simps) auto
qed

text \<open>The part of its chain that follows a position.\<close>

lemma table_suffix:
  assumes t: "table D hm S P" and i: "i \<in> S"
  obtains p where "seg D i (i # p) NO_RECORD" "set (i # p) \<subseteq> set (P (home hm D i))" "home hm D i = i \<Longrightarrow> P i = i # p"
proof -
  have "i \<in> set (P (home hm D i))" by (rule table_in_chain [OF t i])
  then obtain as p where p: "P (home hm D i) = as @ i # p" by (meson split_list)
  have "seg D (home hm D i) (as @ i # p) NO_RECORD" using tableD(6) [OF t, of "home hm D i"] p by simp
  then have "seg D i (i # p) NO_RECORD" by (auto simp: seg_append)
  moreover have "P i = i # p" if "home hm D i = i"
  proof -
    have "P i \<noteq> []" "distinct (P i)" using p that tableD(4) [OF t, of i] by simp_all
    then show ?thesis using table_head(1) [OF t, of i] p that by (cases as) auto
  qed
  ultimately show ?thesis using that [of p] p by auto
qed

text \<open>How the positions of the hash values change when the table loses its last position.\<close>

lemma mask_shrink:
  assumes sz: "size_ok blen (n + 1)" and nb: "new_blen = (if n < blen div 2 then blen div 2 else blen)"
  shows "size_ok new_blen n"
    and "0 < n \<longrightarrow> n - new_blen div 2 < n \<and> (\<forall>h. my_hash_mask h new_blen n < n \<and>
      my_hash_mask h new_blen n = (if my_hash_mask h blen (n + 1) = n then n - new_blen div 2 else my_hash_mask h blen (n + 1)))"
proof -
  have p: "\<exists>k. blen = 2 ^ k" "blen \<noteq> 1" and b: "blen div 2 \<le> n + 1" "n + 1 < blen" using sz by (auto simp: size_ok_def)
  obtain k where k: "blen = 2 * 2 ^ k" using p by (meson pow_cases)
  have same: "my_hash_mask h blen (n + 1) = my_hash_mask h new_blen (n + 1)" for h
  proof (cases "n < blen div 2")
    case True
    then have "n + 1 = 2 ^ k" "new_blen = 2 ^ k" using nb b k by auto
    then show ?thesis using my_hash_mask_double [of "2 ^ k" h] k by auto
  qed (simp add: nb)
  show s: "size_ok new_blen n"
    using b k by (cases k) (auto simp: nb size_ok_def intro: exI [of _ "k + 1"] exI [of _ k])
  show "0 < n \<longrightarrow> n - new_blen div 2 < n \<and> (\<forall>h. my_hash_mask h new_blen n < n \<and>
      my_hash_mask h new_blen n = (if my_hash_mask h blen (n + 1) = n then n - new_blen div 2 else my_hash_mask h blen (n + 1)))"
  proof (intro impI conjI allI)
    assume n: "0 < n"
    then show "n - new_blen div 2 < n" using s by (auto simp: size_ok_def)
    fix h
    show lt: "my_hash_mask h new_blen n < n" using my_hash_mask_less [of new_blen n h] s n by (auto simp: size_ok_def)
    show "my_hash_mask h new_blen n = (if my_hash_mask h blen (n + 1) = n then n - new_blen div 2 else my_hash_mask h blen (n + 1))"
      using my_hash_mask_step(1,2) [OF s n, of h] lt unfolding same by (auto split: if_splits)
  qed
qed

text \<open>A record that is in the table is found in the chain of its hash value.\<close>

lemma find_found:
  assumes s: "hash_shape hash" and r: "(h, r) \<in># hash_entries hash" and u: "\<forall>(h', r') \<in># hash_entries hash. r' = r \<longrightarrow> h' = h"
  obtains P q1 pos q2 where "table (buffer (links hash)) (bucket hash) {..<records hash} P" "P (bucket hash h) = q1 @ pos # q2"
    "home (bucket hash) (buffer (links hash)) pos = bucket hash h" "pos < records hash" "entry (buffer (links hash)) pos = (h, r)"
    "find_record (buffer (links hash)) r None (bucket hash h) = Some (Some (pos, if q1 = [] then None else Some (last q1)))"
proof -
  let ?D = "buffer (links hash)"
  obtain P where P: "table ?D (bucket hash) {..<records hash} P" using s by (auto simp: hash_shape_def)
  obtain i where i: "i < records hash" "hash_nr (?D ! i) = h" "link_data (?D ! i) = r"
    using r by (auto simp: hash_entries_def entries_def entry_def)
  let ?b = "bucket hash h"
  have ch: "j \<in> set (P ?b) \<longleftrightarrow> j < records hash \<and> bucket hash (hash_nr (?D ! j)) = ?b" for j
    using tableD(5) [OF P, of ?b] by (auto simp: home_def)
  have "\<exists>j \<in> set (P ?b). link_data (?D ! j) = r" using ch [of i] i by auto
  then obtain q1 pos q2 where p: "P ?b = q1 @ pos # q2" "link_data (?D ! pos) = r" "\<forall>j \<in> set q1. link_data (?D ! j) \<noteq> r"
    using split_list_first_prop [of "P ?b" "\<lambda>j. link_data (?D ! j) = r"] by auto
  have pb: "home (bucket hash) ?D pos = ?b" and pn: "pos < records hash" using ch [of pos] p(1) by (auto simp: home_def)
  have "entry ?D pos \<in># hash_entries hash" using pn by (simp add: hash_entries_def entries_def)
  then have en: "entry ?D pos = (h, r)" using u p(2) by (auto simp: entry_def)
  have "seg ?D ?b (q1 @ pos # q2) NO_RECORD" using tableD(6) [OF P, of ?b] p(1) by simp
  moreover have "NO_RECORD \<notin> set (q1 @ [pos])"
  proof
    assume "NO_RECORD \<in> set (q1 @ [pos])"
    then have "NO_RECORD < records hash" using ch [of NO_RECORD] p(1) by auto
    then show False using hash_shapeD(4) [OF s] by simp
  qed
  ultimately have "find_record ?D r None ?b = Some (Some (pos, if q1 = [] then None else Some (last q1)))"
    by (rule find_record_some [OF _ _ p(2,3)])
  then show ?thesis using that P p(1) pb pn en by blast
qed

lemma delete_found:
  assumes s: "hash_shape hash" and r: "(h, r) \<in># hash_entries hash" and u: "\<forall>(h', r') \<in># hash_entries hash. r' = r \<longrightarrow> h' = h"
  shows "\<exists>pos gpos D hole D' hash'. find_record (buffer (links hash)) r None (bucket hash h) = Some (Some (pos, gpos)) \<and>
    unlink (buffer (links hash)) pos gpos = (D, hole) \<and>
    move_last (blength hash) (if records hash - 1 < blength hash div 2 then blength hash div 2 else blength hash)
      (records hash - 1) D hole = Some D' \<and>
    hash' = hash\<lparr>records := records hash - 1,
      blength := (if records hash - 1 < blength hash div 2 then blength hash div 2 else blength hash),
      links := snd (pop_dynamic ((links hash)\<lparr>buffer := D'\<rparr>))\<rparr> \<and>
    hash_shape hash' \<and> add_mset (h, r) (hash_entries hash') = hash_entries hash"
proof -
  let ?D = "buffer (links hash)"
  obtain P q1 pos q2 where P: "table ?D (bucket hash) {..<records hash} P" and p: "P (bucket hash h) = q1 @ pos # q2"
    and pb: "home (bucket hash) ?D pos = bucket hash h" and pn: "pos < records hash" and en: "entry ?D pos = (h, r)"
    and fr: "find_record ?D r None (bucket hash h) = Some (Some (pos, if q1 = [] then None else Some (last q1)))"
    by (rule find_found [OF s r u])
  define n where "n = records hash - 1"
  have n: "records hash = n + 1" using pn by (simp add: n_def)
  define nb where "nb = (if n < blength hash div 2 then blength hash div 2 else blength hash)"
  have sz: "size_ok (blength hash) (n + 1)" using hash_shapeD(3) [OF s] n by simp
  note ms = mask_shrink [OF sz nb_def]
  have S: "{..<records hash} = {..n}" using n by auto
  from unlink_table [OF P pb p refl]
  obtain D e P' where un: "unlink ?D pos (if q1 = [] then None else Some (last q1)) = (D, e)" "length D = length ?D" "e \<le> n"
    "table D (bucket hash) ({..n} - {e}) P'" "add_mset (entry ?D pos) (entries D ({..n} - {e})) = entries ?D {..n}"
    unfolding S by auto
  have nl: "n < length D" "n < NO_RECORD" using un(2) hash_shapeD(4,5) [OF s] n by auto
  have hm: "bucket hash = (\<lambda>h. my_hash_mask h (blength hash) (n + 1))" by (simp add: bucket_def fun_eq_iff n)
  obtain D' P'' where ml: "move_last (blength hash) nb n D e = Some D'" "length D' = length D"
    "table D' (\<lambda>h. my_hash_mask h nb n) {..<n} P''" "entries D' {..<n} = entries D ({..n} - {e})"
    using move_last_table [OF un(4,3) nl hm refl, of "n - nb div 2" nb] ms(2) unfolding hm by blast
  define hash' where "hash' = hash\<lparr>records := n, blength := nb, links := snd (pop_dynamic ((links hash)\<lparr>buffer := D'\<rparr>))\<rparr>"
  have el: "elements (links hash) = n + 1" "da_inv (links hash)" using hash_shapeD(1,2) [OF s] n by simp_all
  have pop: "links hash' = (links hash)\<lparr>buffer := D', elements := n\<rparr>" using el(1) by (simp add: hash'_def pop_dynamic_def)
  have "bucket hash' = (\<lambda>h. my_hash_mask h nb n)" by (simp add: bucket_def fun_eq_iff hash'_def)
  then have "hash_shape hash'"
    unfolding hash_shape_def pop using ml(2,3) ms(1) nl el un(2) by (auto simp: da_inv_def hash'_def)
  moreover have "add_mset (h, r) (hash_entries hash') = hash_entries hash"
    using un(5) ml(4) pop en by (simp add: hash_entries_def S hash'_def)
  moreover note fr un(1) ml(1) [unfolded nb_def n_def] hash'_def [unfolded nb_def n_def]
  ultimately show ?thesis by blast
qed

lemma delete_missing:
  assumes s: "hash_shape hash" "records hash \<noteq> 0" and r: "r \<notin># hash_records hash"
  shows "find_record (buffer (links hash)) r None (bucket hash h) = Some None"
proof -
  obtain P where P: "table (buffer (links hash)) (bucket hash) {..<records hash} P" using s by (auto simp: hash_shape_def)
  have "bucket hash h \<in> {..<records hash}" using bucket_less hash_shapeD(3) [OF s(1)] s(2) by simp
  from table_suffix [OF P this] obtain p where
    p: "seg (buffer (links hash)) (bucket hash h) (bucket hash h # p) NO_RECORD"
      "set (bucket hash h # p) \<subseteq> set (P (home (bucket hash) (buffer (links hash)) (bucket hash h)))" by blast
  have lt: "i < records hash" if "i \<in> set (bucket hash h # p)" for i using that p(2) tableD(5) [OF P] by blast
  show ?thesis
  proof (rule find_record_none [OF p(1)])
    show "\<forall>i \<in> set p. i \<noteq> NO_RECORD" using lt hash_shapeD(4) [OF s(1)] by fastforce
    show "\<forall>i \<in> set (bucket hash h # p). link_data (buffer (links hash) ! i) \<noteq> r" using lt record_at [OF s(1)] r by metis
  qed
qed

lemma delete_spec:
  assumes ok: "hash_ok m hash"
  shows "\<exists>res hash' freed. my_hash_delete m hash r = Some (res, hash', freed) \<and>
    (if r \<in># hash_records hash
     then \<not> res \<and> hash_ok m hash' \<and> same_setup hash hash' \<and> hash_records hash' = hash_records hash - {#r#} \<and>
       freed = (if free_element hash then [r] else [])
     else res \<and> hash' = hash \<and> freed = [])"
proof -
  have s: "hash_shape hash" and e: "\<forall>(h, r) \<in># hash_entries hash. h = rec_hashnr m hash r" using ok by (simp_all add: hash_ok_def)
  have he: "hash_records hash = image_mset snd (hash_entries hash)" using hash_records_entries hash_shapeD(5) [OF s] by simp
  let ?h = "rec_hashnr m hash r"
  show ?thesis
  proof (cases "r \<in># hash_records hash")
    case True
    have x: "(?h, r) \<in># hash_entries hash" "\<forall>(h', r') \<in># hash_entries hash. r' = r \<longrightarrow> h' = ?h"
      using True e unfolding he by auto
    have n0: "records hash \<noteq> 0" using x(1) by (auto simp: hash_entries_def entries_def)
    from delete_found [OF s x] obtain pos gpos D hole D' hash' where
      d: "find_record (buffer (links hash)) r None (bucket hash ?h) = Some (Some (pos, gpos))"
        "unlink (buffer (links hash)) pos gpos = (D, hole)"
        "move_last (blength hash) (if records hash - 1 < blength hash div 2 then blength hash div 2 else blength hash)
          (records hash - 1) D hole = Some D'"
        "hash' = hash\<lparr>records := records hash - 1,
          blength := (if records hash - 1 < blength hash div 2 then blength hash div 2 else blength hash),
          links := snd (pop_dynamic ((links hash)\<lparr>buffer := D'\<rparr>))\<rparr>"
        "hash_shape hash'" "add_mset (?h, r) (hash_entries hash') = hash_entries hash" by blast
    have "my_hash_delete m hash r = Some (False, hash', if free_element hash then [r] else [])"
      using n0 d(1-4) by (simp add: my_hash_delete_def Let_def bucket_def)
    moreover have st: "same_setup hash hash'" by (simp add: same_setup_def d(4))
    moreover have "hash_ok m hash'" using e d(5) same_setup_keys(2) [OF st] unfolding d(6) [symmetric] by (auto simp: hash_ok_def)
    moreover have "hash_records hash' = hash_records hash - {#r#}"
      unfolding he d(6) [symmetric] using hash_records_entries hash_shapeD(5) [OF d(5)] by simp
    ultimately show ?thesis using True by auto
  next
    case False
    have "my_hash_delete m hash r = Some (True, hash, [])"
      using delete_missing [OF s _ False, of ?h] by (simp add: my_hash_delete_def Let_def bucket_def)
    then show ?thesis using False by auto
  qed
qed

section \<open>Update\<close>

text \<open>A record behind the first one of its bucket.\<close>

lemma table_insert_second:
  assumes t: "table D hm S P" and b: "b \<in> S" "home hm D b = b" and e: "e \<notin> S" "e < length D" "e < NO_RECORD"
    and h: "hm nr = b"
    and D': "D' = set_next_link (D[e := \<lparr>next_link = next_link (D ! b), hash_nr = nr, link_data = r\<rparr>]) b e"
  shows "\<exists>P'. table D' hm (insert e S) P' \<and> entries D' (insert e S) = add_mset (nr, r) (entries D S)"
proof -
  have "b \<in> set (P b)" using table_in_chain [OF t b(1)] b(2) by simp
  then have ne: "P b \<noteq> []" by auto
  obtain ps where ps: "P b = b # ps" using table_head(1) [OF t ne] by blast
  have ch: "i \<in> set (b # ps) \<longleftrightarrow> i \<in> S \<and> home hm D i = b" for i using tableD(5) [OF t, of b] ps by simp
  have d: "distinct (b # ps)" and sg: "seg D b (b # ps) NO_RECORD" using tableD(4) [OF t, of b] tableD(6) [OF t ne] ps by simp_all
  have be: "b \<noteq> e" "e \<notin> set ps" "b < length D" using e(1) b(1) ch [of e] tableD(2) [OF t] by auto
  have ent: "\<forall>i \<in> S. entry D' i = entry D i" "entry D' e = (nr, r)" using e(1,2) by (auto simp: D' entry_def nth_list_update')
  have "table D' hm ({i \<in> S. home hm D i \<noteq> b} \<union> set (b # e # ps)) (P(b := b # e # ps))"
  proof (rule table_bucket [OF t])
    show "length D' = length D" by (simp add: D')
    show "\<forall>i \<in> S. home hm D i \<noteq> b \<longrightarrow> D' ! i = D ! i" using e(1) b(2) by (auto simp: D' set_next_link_def nth_list_update')
    show "distinct (b # e # ps)" using d be by simp
    show "b # e # ps = [] \<or> seg D' b (b # e # ps) NO_RECORD" using sg be d e(2) by (simp add: D')
    show "\<forall>i \<in> set (b # e # ps). home hm D' i = b \<and> i < length D \<and> i < NO_RECORD \<and> (i \<in> S \<longrightarrow> home hm D i = b)"
    proof
      fix i assume i: "i \<in> set (b # e # ps)"
      show "home hm D' i = b \<and> i < length D \<and> i < NO_RECORD \<and> (i \<in> S \<longrightarrow> home hm D i = b)"
      proof (cases "i = e")
        case True
        then show ?thesis using ent(2) h e by (simp add: home_def entry_def)
      next
        case False
        then have "i \<in> S" "home hm D i = b" using i ch by auto
        then show ?thesis using ent(1) tableD(2,3) [OF t] by (simp add: home_def entry_def)
      qed
    qed
  qed
  moreover have "{i \<in> S. home hm D i \<noteq> b} \<union> set (b # e # ps) = insert e S" using ch by auto
  moreover have "entries D' (insert e S) = add_mset (nr, r) (entries D S)"
    using entries_insert [OF tableD(1) [OF t] e(1)] entries_cong [of S D' D] ent by simp
  ultimately show ?thesis by auto
qed

lemma table_add_entry:
  assumes t: "table D hm S P" and e: "e \<notin> S" "e < length D" "e < NO_RECORD" "hm nr = e"
  shows "\<exists>P'. table (D[e := \<lparr>next_link = NO_RECORD, hash_nr = nr, link_data = r\<rparr>]) hm (insert e S) P' \<and>
    entries (D[e := \<lparr>next_link = NO_RECORD, hash_nr = nr, link_data = r\<rparr>]) (insert e S) = add_mset (nr, r) (entries D S)"
proof -
  let ?D = "D[e := \<lparr>next_link = NO_RECORD, hash_nr = nr, link_data = r\<rparr>]"
  have same: "\<forall>i \<in> S. ?D ! i = D ! i" "?D ! e = \<lparr>next_link = NO_RECORD, hash_nr = nr, link_data = r\<rparr>"
    using e(1,2) by (auto simp: nth_list_update')
  have "table ?D hm (insert e S) (P(e := [e]))"
    by (rule table_add_alone [OF t e(1-3)]) (use same e in \<open>simp_all add: home_def\<close>)
  moreover have "entries ?D (insert e S) = add_mset (nr, r) (entries D S)"
    using entries_insert [OF tableD(1) [OF t] e(1)] entries_cong [of S ?D D] same by (simp add: entry_def)
  ultimately show ?thesis by blast
qed

lemma set_hash_next [simp]:
  "l\<lparr>next_link := n, hash_nr := h\<rparr> = \<lparr>next_link = n, hash_nr = h, link_data = link_data l\<rparr>"
  by (cases l) simp

lemma relink_table:
  assumes t: "table D hm S P" and hm: "hm = (\<lambda>h. my_hash_mask h blen recs)" and e: "e \<notin> S" "e < length D" "e < NO_RECORD"
    and pos: "hm nr \<in> insert e S" and idx: "e = idx \<longrightarrow> link_data (D ! idx) = link_data org"
  shows "\<exists>D' P'. relink blen recs D idx e (hm nr) org nr = Some D' \<and> length D' = length D \<and>
    table D' hm (insert e S) P' \<and> entries D' (insert e S) = add_mset (nr, link_data org) (entries D S)"
proof (cases "hm nr = e")
  case True
  have "relink blen recs D idx e (hm nr) org nr = Some (D[e := \<lparr>next_link = NO_RECORD, hash_nr = nr, link_data = link_data org\<rparr>])"
    using True e(2) idx by (cases "e = idx") (simp_all add: relink_def Let_def)
  then show ?thesis using table_add_entry [OF t e, of nr "link_data org"] True by simp
next
  case False
  define ni where "ni = hm nr"
  have ni: "ni \<in> S" "ni \<noteq> e" "ni < length D" "ni < NO_RECORD" using False pos tableD(2,3) [OF t] by (auto simp: ni_def)
  have rm: "my_hash_rec_mask (D ! ni) blen recs = home hm D ni" by (simp add: my_hash_rec_mask_def home_def hm)
  show ?thesis
  proof (cases "home hm D ni = ni")
    case True
    let ?D' = "set_next_link (D[e := \<lparr>next_link = next_link (D ! ni), hash_nr = nr, link_data = link_data org\<rparr>]) ni e"
    have "relink blen recs D idx e ni org nr = Some ?D'" using True ni(2) rm by (simp add: relink_def Let_def)
    then show ?thesis
      using table_insert_second [OF t ni(1) True e, of nr ?D' "link_data org"] by (simp add: ni_def)
  next
    case far: False
    define c where "c = home hm D ni"
    have cn: "c \<noteq> ni" using far by (simp add: c_def)
    let ?D1 = "D[e := D ! ni]"
    have D1: "length ?D1 = length D" "\<forall>j \<in> S - {ni}. ?D1 ! j = D ! j" "?D1 ! e = D ! ni"
      using e by (auto simp: nth_list_update')
    obtain a where a: "movelink ?D1 ni c e = Some (set_next_link ?D1 a e)" and
      mv: "\<And>D'. length D' = length D \<Longrightarrow> \<forall>j \<in> insert e (S - {ni}). D' ! j = set_next_link ?D1 a e ! j \<Longrightarrow>
        \<exists>P'. table D' hm (insert e (S - {ni})) P' \<and> (\<forall>b. b \<noteq> c \<longrightarrow> P' b = P b) \<and>
          entries D' (insert e (S - {ni})) = entries D S"
      by (rule movelink_move [OF t ni(1) c_def [symmetric] cn e D1]) blast
    define D2 where "D2 = set_next_link ?D1 a e"
    obtain P' where P': "table D2 hm (insert e (S - {ni})) P'" "entries D2 (insert e (S - {ni})) = entries D S" "length D2 = length D"
      using mv [of D2] by (auto simp: D2_def)
    have "relink blen recs D idx e ni org nr = Some (D2[ni := \<lparr>next_link = NO_RECORD, hash_nr = nr, link_data = link_data org\<rparr>])"
      using far ni(2) rm a by (simp add: relink_def Let_def c_def D2_def)
    moreover have "insert ni (insert e (S - {ni})) = insert e S" using ni(1) by auto
    moreover have "ni \<notin> insert e (S - {ni})" "ni < length D2" "hm nr = ni" using ni P'(3) by (simp_all add: ni_def)
    note table_add_entry [OF P'(1) this(1,2) ni(4) this(3), of "link_data org"]
    ultimately show ?thesis
      unfolding ni_def [symmetric] P'(2) by (metis P'(3) length_list_update)
  qed
qed

text \<open>The check for another record with the new key, along the rest of a chain.\<close>

lemma duplicate_loop_chain:
  assumes "seg (buffer (links hash)) x p NO_RECORD" "\<forall>i \<in> set p. i \<noteq> NO_RECORD \<and> link_data (buffer (links hash) ! i) \<noteq> 0"
  shows "duplicate_loop m hash key r (pick m hash key p) =
    Some (\<exists>i \<in> set p. key_eq m hash key (link_data (buffer (links hash) ! i)) \<and> link_data (buffer (links hash) ! i) \<noteq> r)"
  using assms
proof (induction p arbitrary: x)
  case Nil
  then show ?case by (subst duplicate_loop.simps) simp
next
  case (Cons j p)
  have sg: "seg (buffer (links hash)) (next_link (buffer (links hash) ! j)) p NO_RECORD" using Cons.prems by simp
  have IH: "duplicate_loop m hash key r (pick m hash key p) =
    Some (\<exists>i \<in> set p. key_eq m hash key (link_data (buffer (links hash) ! i)) \<and> link_data (buffer (links hash) ! i) \<noteq> r)"
    by (rule Cons.IH [OF sg]) (use Cons.prems in auto)
  have nx: "my_hash_next m hash key (length key) j = Some (pick m hash key p)"
    using next_loop_chain [OF sg] Cons.prems(2) by (simp add: my_hash_next_def)
  show ?case
  proof (cases "key_eq m hash key (link_data (buffer (links hash) ! j))")
    case True
    then show ?thesis using nx IH Cons.prems(2)
      by (subst duplicate_loop.simps) (cases "link_data (buffer (links hash) ! j) = r", simp_all)
  next
    case False
    then show ?thesis using IH by simp
  qed
qed

text \<open>
  The memory already has the new key of the record \<open>r\<close> when \<open>my_hash_update\<close> is called, while the table
  has it at the place of its old key.
\<close>

lemma duplicate_check:
  assumes s: "hash_shape hash" and nz: "0 \<notin># hash_records hash"
    and K: "\<forall>(h', x) \<in># hash_entries hash. x \<noteq> r \<longrightarrow> key_eq m hash key x \<longrightarrow> h' = h"
  shows "\<exists>found. my_hash_first_from_hash_value m hash h key (length key) = Some found \<and>
    duplicate_loop m hash key r found = Some (\<exists>x \<in># hash_records hash. x \<noteq> r \<and> key_eq m hash key x)"
proof -
  let ?D = "buffer (links hash)"
  obtain P where P: "table ?D (bucket hash) {..<records hash} P" using s by (auto simp: hash_shape_def)
  have he: "hash_records hash = image_mset snd (hash_entries hash)" using hash_records_entries hash_shapeD(5) [OF s] by simp
  have rec: "(\<exists>x \<in># hash_records hash. x \<noteq> r \<and> key_eq m hash key x) \<longleftrightarrow>
    (\<exists>i < records hash. link_data (?D ! i) \<noteq> r \<and> key_eq m hash key (link_data (?D ! i)))"
    unfolding he by (auto simp: hash_entries_def entries_def entry_def)
  have ent: "bucket hash (hash_nr (?D ! i)) = bucket hash h"
    if "i < records hash" "link_data (?D ! i) \<noteq> r" "key_eq m hash key (link_data (?D ! i))" for i
  proof -
    have "entry ?D i \<in># hash_entries hash" using that(1) by (simp add: hash_entries_def entries_def)
    then show ?thesis using K that(2,3) by (auto simp: entry_def)
  qed
  show ?thesis
  proof (cases "records hash = 0")
    case True
    then show ?thesis unfolding rec
      by (intro exI [of _ "(0, NO_RECORD)"]) (simp add: my_hash_first_from_hash_value_def duplicate_loop.simps [of m hash key r "(0, NO_RECORD)"])
  next
    case False
    define b where "b = bucket hash h"
    have b: "b \<in> {..<records hash}" using bucket_less hash_shapeD(3) [OF s] False by (simp add: b_def)
    obtain p where p: "seg ?D b (b # p) NO_RECORD" "set (b # p) \<subseteq> set (P (home (bucket hash) ?D b))"
        "home (bucket hash) ?D b = b \<Longrightarrow> P b = b # p" by (rule table_suffix [OF P b]) blast
    have inp: "i < records hash" "home (bucket hash) ?D i = home (bucket hash) ?D b" if "i \<in> set (b # p)" for i
      using that p(2) tableD(5) [OF P, of "home (bucket hash) ?D b"] by auto
    have ok: "\<forall>i \<in> set (b # p). i \<noteq> NO_RECORD \<and> link_data (?D ! i) \<noteq> 0"
    proof
      fix i assume "i \<in> set (b # p)"
      then have i: "i < records hash" by (rule inp(1))
      have "link_data (?D ! i) \<noteq> 0" using record_at [OF s i] nz by metis
      then show "i \<noteq> NO_RECORD \<and> link_data (?D ! i) \<noteq> 0" using i hash_shapeD(4) [OF s] by simp
    qed
    have fl: "my_hash_first_from_hash_value m hash h key (length key) = hash_first_loop m hash key True b"
      using False by (simp add: my_hash_first_from_hash_value_def b_def bucket_def)
    have dup: "duplicate_loop m hash key r (pick m hash key (b # p)) =
      Some (\<exists>i \<in> set (b # p). key_eq m hash key (link_data (?D ! i)) \<and> link_data (?D ! i) \<noteq> r)"
      by (rule duplicate_loop_chain [OF p(1) ok])
    show ?thesis
    proof (cases "home (bucket hash) ?D b = b")
      case True
      then have "hash_first_loop m hash key True b = Some (pick m hash key (b # p))"
        using p(1) ok by (intro first_loop_chain) (simp_all add: home_def)
      moreover have "i \<in> set (b # p) \<longleftrightarrow> i < records hash \<and> bucket hash (hash_nr (?D ! i)) = b" for i
        using p(3) [OF True] tableD(5) [OF P, of b] by (simp add: home_def)
      moreover from this have "(\<exists>i \<in> set (b # p). key_eq m hash key (link_data (?D ! i)) \<and> link_data (?D ! i) \<noteq> r) \<longleftrightarrow>
          (\<exists>i < records hash. link_data (?D ! i) \<noteq> r \<and> key_eq m hash key (link_data (?D ! i)))"
        using ent unfolding b_def [symmetric] by blast
      ultimately show ?thesis using dup fl unfolding rec by (intro exI [of _ "pick m hash key (b # p)"]) simp
    next
      case far: False
      then have none: "\<not> (\<exists>i < records hash. link_data (?D ! i) \<noteq> r \<and> key_eq m hash key (link_data (?D ! i)))"
      proof (intro notI, elim exE conjE)
        fix i assume i: "i < records hash" "link_data (?D ! i) \<noteq> r" "key_eq m hash key (link_data (?D ! i))"
        have "home (bucket hash) ?D i = b" using ent [OF i] by (simp add: home_def b_def)
        then have "i \<in> set (P b)" using table_in_chain [OF P, of i] i(1) by simp
        then show False using table_no_chain [OF P, of b] far by simp
      qed
      show ?thesis
      proof (cases "key_eq m hash key (link_data (?D ! b))")
        case True
        have "hash_first_loop m hash key True b = Some (pick m hash key (b # p))"
          using True p(1) by (subst hash_first_loop.simps) (simp add: hashcmp_key_eq Let_def)
        moreover have "(\<exists>i \<in> set (b # p). key_eq m hash key (link_data (?D ! i)) \<and> link_data (?D ! i) \<noteq> r) \<longleftrightarrow>
          (\<exists>i < records hash. link_data (?D ! i) \<noteq> r \<and> key_eq m hash key (link_data (?D ! i)))"
          using none inp(1) by blast
        ultimately show ?thesis using dup fl unfolding rec by (intro exI [of _ "pick m hash key (b # p)"]) simp
      next
        case False
        have "hash_first_loop m hash key True b = Some (0, NO_RECORD)"
          using False far p(1) by (subst hash_first_loop.simps) (simp add: hashcmp_key_eq Let_def my_hash_rec_mask_def home_def bucket_def)
        moreover have "duplicate_loop m hash key r (0, NO_RECORD) = Some False" by (subst duplicate_loop.simps) simp
        ultimately show ?thesis using none fl unfolding rec by (intro exI [of _ "(0, NO_RECORD)"]) simp
      qed
    qed
  qed
qed

lemma unlink_keeps: "unlink D pos previous = (D', pos) \<Longrightarrow> link_data (D' ! pos) = link_data (D ! pos)"
  by (auto simp: unlink_def split: option.splits if_splits)

lemma table_rehash:
  assumes t: "table D hm S P" and i: "i \<in> S" "hm nr = home hm D i"
  shows "\<exists>P'. table (D[i := (D ! i)\<lparr>hash_nr := nr\<rparr>]) hm S P' \<and>
    add_mset (entry D i) (entries (D[i := (D ! i)\<lparr>hash_nr := nr\<rparr>]) S) = add_mset (nr, link_data (D ! i)) (entries D S)"
proof -
  let ?D = "D[i := (D ! i)\<lparr>hash_nr := nr\<rparr>]"
  have il: "i < length D" by (rule tableD(2) [OF t i(1)])
  have nx: "next_link (?D ! j) = next_link (D ! j)" "home hm ?D j = home hm D j" for j
    using il i(2) by (simp_all add: nth_list_update' home_def)
  have "table ?D hm S P"
    unfolding table_def
  proof (intro conjI allI ballI)
    fix b
    show "distinct (P b)" by (rule tableD(4) [OF t])
    show "set (P b) = {i \<in> S. home hm ?D i = b}" unfolding nx(2) by (rule tableD(5) [OF t])
    show "P b = [] \<or> seg ?D b (P b) NO_RECORD"
      using seg_frame [OF tableD(6) [OF t, of b], of ?D] nx(1) by auto
  qed (use tableD(1,2,3) [OF t] in auto)
  moreover have "add_mset (entry D i) (entries ?D S) = add_mset (nr, link_data (D ! i)) (entries D S)"
  proof -
    have r: "S = insert i (S - {i})" using i(1) by auto
    have "entries ?D (S - {i}) = entries D (S - {i})" by (rule entries_cong) (simp add: entry_def nth_list_update')
    moreover have "entries ?D S = add_mset (nr, link_data (D ! i)) (entries ?D (S - {i}))" "entries D S = add_mset (entry D i) (entries D (S - {i}))"
      using entries_insert [of "S - {i}" i] tableD(1) [OF t] r il by (simp_all add: entry_def)
    ultimately show ?thesis by simp
  qed
  ultimately show ?thesis by blast
qed

lemma hash_buffer:
  assumes "hash_shape hash" "length D = length (buffer (links hash))" "table D (bucket hash) {..<records hash} P"
    and h': "hash' = hash\<lparr>links := (links hash)\<lparr>buffer := D\<rparr>\<rparr>"
  shows "hash_shape hash'" "hash_entries hash' = entries D {..<records hash}" "same_setup hash hash'"
proof -
  have "bucket hash' = bucket hash" by (simp add: bucket_def fun_eq_iff h')
  then show "hash_shape hash'" using assms by (auto simp: hash_shape_def da_inv_def)
qed (simp_all add: hash_entries_def h' same_setup_def)

lemma update_entries:
  assumes s: "hash_shape hash" and r: "(h, r) \<in># hash_entries hash" and u: "\<forall>(h', r') \<in># hash_entries hash. r' = r \<longrightarrow> h' = h"
    and nr: "nr = hash_function hash (charset hash) key" "key = my_hash_key m hash r True"
    and old: "h = hash_function hash (charset hash) (key_arg hash old_key old_len)"
    and dup: "(if flags hash AND HASH_UNIQUE \<noteq> 0 then
       do { found \<leftarrow> my_hash_first_from_hash_value m hash nr key (length key); duplicate_loop m hash key r found }
       else Some False) = Some False"
  shows "\<exists>hash'. my_hash_update m hash r old_key old_len = Some (False, hash') \<and> hash_shape hash' \<and> same_setup hash hash' \<and>
    add_mset (h, r) (hash_entries hash') = add_mset (nr, r) (hash_entries hash)"
proof -
  let ?D = "buffer (links hash)"
  obtain P q1 pos q2 where P: "table ?D (bucket hash) {..<records hash} P" and p: "P (bucket hash h) = q1 @ pos # q2"
    and pb: "home (bucket hash) ?D pos = bucket hash h" and pn: "pos < records hash" and en: "entry ?D pos = (h, r)"
    and fr: "find_record ?D r None (bucket hash h) = Some (Some (pos, if q1 = [] then None else Some (last q1)))"
    by (rule find_found [OF s r u])
  have hm: "bucket hash = (\<lambda>h. my_hash_mask h (blength hash) (records hash))" by (simp add: bucket_def fun_eq_iff)
  have ld: "link_data (?D ! pos) = r" using en by (simp add: entry_def)
  have up: "my_hash_update m hash r old_key old_len =
     (if bucket hash h = bucket hash nr
      then Some (False, hash\<lparr>links := (links hash)\<lparr>buffer := ?D[pos := (?D ! pos)\<lparr>hash_nr := nr\<rparr>]\<rparr>\<rparr>)
      else let (data, hole) = unlink ?D pos (if q1 = [] then None else Some (last q1))
           in do { data \<leftarrow> relink (blength hash) (records hash) data pos hole (bucket hash nr) (?D ! pos) nr;
                   Some (False, hash\<lparr>links := (links hash)\<lparr>buffer := data\<rparr>\<rparr>) })"
    using dup fr unfolding my_hash_update_def nr(2) [symmetric] nr(1) [symmetric] old [symmetric] Let_def bucket_def [symmetric]
    by (simp add: Let_def)
  show ?thesis
  proof (cases "bucket hash h = bucket hash nr")
    case True
    from table_rehash [OF P, of pos nr] obtain P' where
      t: "table (?D[pos := (?D ! pos)\<lparr>hash_nr := nr\<rparr>]) (bucket hash) {..<records hash} P'"
        "add_mset (h, r) (entries (?D[pos := (?D ! pos)\<lparr>hash_nr := nr\<rparr>]) {..<records hash}) = add_mset (nr, r) (entries ?D {..<records hash})"
      using pn pb True en ld by auto
    show ?thesis using hash_buffer [OF s _ t(1) refl] up True t(2) by (simp add: hash_entries_def)
  next
    case False
    from unlink_table [OF P pb p refl] obtain D e P' where
      un: "unlink ?D pos (if q1 = [] then None else Some (last q1)) = (D, e)" "length D = length ?D" "e < records hash"
        "table D (bucket hash) ({..<records hash} - {e}) P'" "add_mset (h, r) (entries D ({..<records hash} - {e})) = entries ?D {..<records hash}"
      using en by auto
    have e: "e \<notin> {..<records hash} - {e}" "e < length D" "e < NO_RECORD" and S: "insert e ({..<records hash} - {e}) = {..<records hash}"
      using un(2,3) hash_shapeD(4,5) [OF s] by auto
    have "bucket hash nr \<in> insert e ({..<records hash} - {e})"
      unfolding S using bucket_less hash_shapeD(3) [OF s] un(3) by simp
    moreover have "e = pos \<longrightarrow> link_data (D ! pos) = link_data (?D ! pos)" using unlink_keeps un(1) by metis
    ultimately obtain D' P'' where rl: "relink (blength hash) (records hash) D pos e (bucket hash nr) (?D ! pos) nr = Some D'"
        "length D' = length D" "table D' (bucket hash) {..<records hash} P''"
        "entries D' {..<records hash} = add_mset (nr, r) (entries D ({..<records hash} - {e}))"
      using relink_table [OF un(4) hm e, of nr pos "?D ! pos"] unfolding S ld by blast
    have "my_hash_update m hash r old_key old_len = Some (False, hash\<lparr>links := (links hash)\<lparr>buffer := D'\<rparr>\<rparr>)"
      using up False un(1) rl(1) by simp
    moreover have "add_mset (h, r) (entries D' {..<records hash}) = add_mset (nr, r) (entries ?D {..<records hash})"
      unfolding rl(4) un(5) [symmetric] by simp
    ultimately show ?thesis using hash_buffer [OF s _ rl(3) refl] rl(2) un(2) by (simp add: hash_entries_def)
  qed
qed

lemma update_spec:
  assumes ok: "hash_ok m0 hash" and nz: "0 \<notin># hash_records hash" and once: "count (hash_records hash) r = 1"
    and old: "rec_hashnr m0 hash r = hash_function hash (charset hash) (key_arg hash old_key old_len)"
    and others: "\<forall>x \<in># hash_records hash. x \<noteq> r \<longrightarrow> my_hash_key m hash x = my_hash_key m0 hash x"
    and key: "key = my_hash_key m hash r True" "my_hash_key m hash r False = key"
    and resp: "flags hash AND HASH_UNIQUE \<noteq> 0 \<longrightarrow> hash_respects m hash key"
  shows "\<exists>res hash'. my_hash_update m hash r old_key old_len = Some (res, hash') \<and>
    (if flags hash AND HASH_UNIQUE \<noteq> 0 \<and> (\<exists>x \<in># hash_records hash. x \<noteq> r \<and> key_eq m hash key x)
     then res \<and> hash' = hash
     else \<not> res \<and> hash_ok m hash' \<and> same_setup hash hash' \<and> hash_records hash' = hash_records hash)"
proof -
  have s: "hash_shape hash" and e: "\<forall>(h, x) \<in># hash_entries hash. h = rec_hashnr m0 hash x" using ok by (simp_all add: hash_ok_def)
  have he: "hash_records hash = image_mset snd (hash_entries hash)" using hash_records_entries hash_shapeD(5) [OF s] by simp
  let ?h = "rec_hashnr m0 hash r" and ?nr = "hash_function hash (charset hash) key"
  have "r \<in># hash_records hash" using once by (metis count_eq_zero_iff zero_neq_one)
  then have x: "(?h, r) \<in># hash_entries hash" "\<forall>(h', r') \<in># hash_entries hash. r' = r \<longrightarrow> h' = ?h" using e unfolding he by auto
  have rest: "h' = rec_hashnr m hash x" if "(h', x) \<in># hash_entries hash" "x \<noteq> r" for h' x
  proof -
    have "x \<in># hash_records hash" unfolding he using that(1) by (metis image_eqI set_image_mset snd_conv)
    then have "my_hash_key m hash x = my_hash_key m0 hash x" using others that(2) by blast
    moreover have "h' = rec_hashnr m0 hash x" using e that(1) by auto
    ultimately show ?thesis by (simp add: rec_hashnr_def)
  qed
  let ?dup = "\<exists>x \<in># hash_records hash. x \<noteq> r \<and> key_eq m hash key x"
  let ?check = "if flags hash AND HASH_UNIQUE \<noteq> 0 then
       do { found \<leftarrow> my_hash_first_from_hash_value m hash ?nr key (length key); duplicate_loop m hash key r found }
       else Some False"
  have check: "?check = Some (flags hash AND HASH_UNIQUE \<noteq> 0 \<and> ?dup)"
  proof (cases "flags hash AND HASH_UNIQUE = 0")
    case False
    have "\<forall>(h', x) \<in># hash_entries hash. x \<noteq> r \<longrightarrow> key_eq m hash key x \<longrightarrow> h' = ?nr"
    proof (clarify)
      fix h' x assume a: "(h', x) \<in># hash_entries hash" "x \<noteq> r" "key_eq m hash key x"
      have "x \<in># hash_records hash" unfolding he using a(1) by (metis image_eqI set_image_mset snd_conv)
      then show "h' = ?nr" using rest [OF a(1,2)] resp False a(3) by (simp add: hash_respects_def)
    qed
    from duplicate_check [OF s nz this] show ?thesis using False by auto
  qed simp
  show ?thesis
  proof (cases "flags hash AND HASH_UNIQUE \<noteq> 0 \<and> ?dup")
    case True
    then have "?check = Some True" unfolding check by simp
    then have "my_hash_update m hash r old_key old_len = Some (True, hash)"
      unfolding my_hash_update_def key(1) [symmetric] Let_def by simp
    then show ?thesis unfolding if_P [OF True] by blast
  next
    case False
    then have c: "?check = Some False" unfolding check by simp
    from update_entries [OF s x refl key(1) old c] obtain hash' where
      u: "my_hash_update m hash r old_key old_len = Some (False, hash')" "hash_shape hash'" "same_setup hash hash'"
        "add_mset (?h, r) (hash_entries hash') = add_mset (?nr, r) (hash_entries hash)" by blast
    have "add_mset r (hash_records hash') = add_mset r (hash_records hash)"
      using arg_cong [OF u(4), of "image_mset snd"] hash_records_entries hash_shapeD(5) [OF u(2)] he by simp
    then have hr: "hash_records hash' = hash_records hash" by simp
    have "h' = rec_hashnr m hash x" if a: "(h', x) \<in># hash_entries hash'" for h' x
    proof (cases "x = r")
      case False
      have "(h', x) \<in># add_mset (?nr, r) (hash_entries hash)" unfolding u(4) [symmetric] using a by simp
      then show ?thesis using False rest [of h' x] by simp
    next
      case True
      have "hash_entries hash' = add_mset (?nr, r) (hash_entries hash - {#(?h, r)#})"
      proof -
        have "add_mset (?h, r) (hash_entries hash') = add_mset (?h, r) (add_mset (?nr, r) (hash_entries hash - {#(?h, r)#}))"
          unfolding u(4) using insert_DiffM [OF x(1)] add_mset_commute by metis
        then show ?thesis by simp
      qed
      moreover have "(h', r) \<notin># hash_entries hash - {#(?h, r)#}"
      proof
        assume "(h', r) \<in># hash_entries hash - {#(?h, r)#}"
        then have "r \<in># image_mset snd (hash_entries hash - {#(?h, r)#})" by (metis image_eqI set_image_mset snd_conv)
        then have "r \<in># hash_records hash - {#r#}" unfolding he using x(1) by (simp add: image_mset_Diff)
        then show False using once by (simp add: in_diff_count)
      qed
      ultimately show ?thesis using a True key(2) by (auto simp: rec_hashnr_def)
    qed
    then have "hash_ok m hash'" using u(2) same_setup_keys(2) [OF u(3)] by (auto simp: hash_ok_def)
    then show ?thesis unfolding if_not_P [OF False] using u(1,3) hr by blast
  qed
qed

end
