(* ===== verification/HashSpec.thy ===== *)
theory HashSpec
  imports HashOps
begin

text \<open>The properties of the hash table: every operation with its error branches, the enumeration of the records
  with a key, and the refinement of a multiset of records by any history of insertions and deletions.\<close>

section \<open>Histories of operations\<close>

text \<open>An insertion says whether memory is found for the array of links when it is full.\<close>

datatype hash_op = Insert bool nat | Delete nat

text \<open>
  What the operations mean for a multiset of records, given whether the code reports a failure: a failed
  insertion leaves it as it is, and is legal when the record clashes with another one or when memory may be
  exhausted; a deletion fails exactly when the record is not there.
\<close>

fun after :: "nat multiset \<Rightarrow> hash_op \<Rightarrow> bool \<Rightarrow> nat multiset" where
  "after c (Insert avail r) failed = (if failed then c else add_mset r c)"
| "after c (Delete r) failed = c - {#r#}"

fun legal :: "(nat multiset \<Rightarrow> nat \<Rightarrow> bool) \<Rightarrow> nat multiset \<Rightarrow> hash_op \<Rightarrow> bool \<Rightarrow> bool" where
  "legal clash c (Insert avail r) failed = (if failed then clash c r \<or> \<not> avail else \<not> clash c r)"
| "legal clash c (Delete r) failed = (failed = (r \<notin># c))"

fun legal_run :: "(nat multiset \<Rightarrow> nat \<Rightarrow> bool) \<Rightarrow> nat multiset \<Rightarrow> hash_op list \<Rightarrow> bool list \<Rightarrow> bool" where
  "legal_run clash c [] [] = True"
| "legal_run clash c (op # ops) (f # fs) = (legal clash c op f \<and> legal_run clash (after c op f) ops fs)"
| "legal_run clash c _ _ = False"

fun outcome :: "nat multiset \<Rightarrow> hash_op list \<Rightarrow> bool list \<Rightarrow> nat multiset" where
  "outcome c (op # ops) (f # fs) = outcome (after c op f) ops fs"
| "outcome c _ _ = c"

lemma legal_run_length: "legal_run clash c ops fs \<Longrightarrow> length fs = length ops"
  by (induction clash c ops fs rule: legal_run.induct) auto

text \<open>The operations of the code one after the other, with the results they return.\<close>

fun run_ops :: "('s \<Rightarrow> bool \<Rightarrow> nat \<Rightarrow> (bool \<times> 's) option) \<Rightarrow> ('s \<Rightarrow> nat \<Rightarrow> (bool \<times> 's) option) \<Rightarrow> 's \<Rightarrow> hash_op list \<Rightarrow>
    (bool list \<times> 's) option" where
  "run_ops ins del s [] = Some ([], s)"
| "run_ops ins del s (op # ops) = do {
     (f, s) \<leftarrow> (case op of Insert avail r \<Rightarrow> ins s avail r | Delete r \<Rightarrow> del s r);
     (fs, s) \<leftarrow> run_ops ins del s ops;
     Some (f # fs, s) }"

text \<open>The contract of a collection of records with room for \<open>limit\<close> of them.\<close>

locale record_collection =
  fixes ok :: "'s \<Rightarrow> bool" and content :: "'s \<Rightarrow> nat multiset" and ins :: "'s \<Rightarrow> bool \<Rightarrow> nat \<Rightarrow> (bool \<times> 's) option"
    and del :: "'s \<Rightarrow> nat \<Rightarrow> (bool \<times> 's) option" and clash :: "nat multiset \<Rightarrow> nat \<Rightarrow> bool" and limit :: nat
  assumes ins_content: "ok s \<Longrightarrow> size (content s) < limit \<Longrightarrow> r \<noteq> 0 \<Longrightarrow>
      \<exists>f s'. ins s avail r = Some (f, s') \<and> ok s' \<and> legal clash (content s) (Insert avail r) f \<and>
        content s' = after (content s) (Insert avail r) f"
    and del_content: "ok s \<Longrightarrow> \<exists>f s'. del s r = Some (f, s') \<and> ok s' \<and> legal clash (content s) (Delete r) f \<and>
        content s' = after (content s) (Delete r) f"
begin

lemma step_content:
  assumes "ok s" "size (content s) < limit" "\<And>avail. op \<noteq> Insert avail 0"
  shows "\<exists>f s'. (case op of Insert avail r \<Rightarrow> ins s avail r | Delete r \<Rightarrow> del s r) = Some (f, s') \<and> ok s' \<and>
    legal clash (content s) op f \<and> content s' = after (content s) op f \<and> size (content s') \<le> size (content s) + 1"
proof (cases op)
  case (Insert avail r)
  then show ?thesis using ins_content [OF assms(1,2), of r avail] assms(3) by fastforce
next
  case (Delete r)
  have "size (content s - {#r#}) \<le> size (content s) + 1" by (simp add: le_Suc_eq size_mset_mono le_SucI)
  then show ?thesis using del_content [OF assms(1), of r] Delete by fastforce
qed

lemma run_content:
  "ok s \<Longrightarrow> size (content s) + length ops \<le> limit \<Longrightarrow> (\<And>avail. Insert avail 0 \<notin> set ops) \<Longrightarrow>
   \<exists>fs s'. run_ops ins del s ops = Some (fs, s') \<and> ok s' \<and> legal_run clash (content s) ops fs \<and>
     content s' = outcome (content s) ops fs"
proof (induction ops arbitrary: s)
  case (Cons op ops)
  then obtain f s1 where s1: "(case op of Insert avail r \<Rightarrow> ins s avail r | Delete r \<Rightarrow> del s r) = Some (f, s1)" "ok s1"
    "legal clash (content s) op f" "content s1 = after (content s) op f" "size (content s1) \<le> size (content s) + 1"
    using step_content [of s op] by fastforce
  have "\<exists>fs s'. run_ops ins del s1 ops = Some (fs, s') \<and> ok s' \<and> legal_run clash (content s1) ops fs \<and>
     content s' = outcome (content s1) ops fs"
    using Cons.prems s1(2,5) by (intro Cons.IH) auto
  then obtain fs s' where "run_ops ins del s1 ops = Some (fs, s')" "ok s'" "legal_run clash (content s1) ops fs"
    "content s' = outcome (content s1) ops fs" by blast
  then show ?case using s1(1,3,4) by (intro exI [of _ "f # fs"] exI [of _ s']) simp
qed simp

end

text \<open>
  The hash table as such a collection. \<open>h0\<close> is a table with the same parameters; a record clashes with the
  records of the same key when keys are unique. Keys that the collation does not tell apart have the same
  hash value, and the key function does not depend on its argument \<open>first\<close>.
\<close>

definition key_clash :: "mem \<Rightarrow> HASH \<Rightarrow> nat multiset \<Rightarrow> nat \<Rightarrow> bool" where
  "key_clash m h0 c r \<longleftrightarrow> flags h0 AND HASH_UNIQUE \<noteq> 0 \<and> (\<exists>x \<in># c. key_eq m h0 (my_hash_key m h0 r True) x)"

definition keys_fit :: "mem \<Rightarrow> HASH \<Rightarrow> bool" where
  "keys_fit m h0 \<longleftrightarrow> (\<forall>r. my_hash_key m h0 r True = my_hash_key m h0 r False) \<and>
     (flags h0 AND HASH_UNIQUE \<noteq> 0 \<longrightarrow> (\<forall>r x. key_eq m h0 (my_hash_key m h0 r True) x \<longrightarrow>
       rec_hashnr m h0 x = hash_function h0 (charset h0) (my_hash_key m h0 r True)))"

definition sound_table :: "mem \<Rightarrow> HASH \<Rightarrow> HASH \<Rightarrow> bool" where
  "sound_table m h0 hash \<longleftrightarrow> hash_ok m hash \<and> 0 \<notin># hash_records hash \<and> same_setup h0 hash \<and> keys_fit m h0"

definition hash_add :: "mem \<Rightarrow> HASH \<Rightarrow> bool \<Rightarrow> nat \<Rightarrow> (bool \<times> HASH) option" where
  "hash_add m hash avail r = my_hash_insert
     (if avail then Some (replicate (max_element (links hash) + alloc_increment (links hash))
        \<lparr>next_link = 0, hash_nr = 0, link_data = 0\<rparr>) else None) m hash r"

definition hash_remove :: "mem \<Rightarrow> HASH \<Rightarrow> nat \<Rightarrow> (bool \<times> HASH) option" where
  "hash_remove m hash r = do { (res, hash', freed) \<leftarrow> my_hash_delete m hash r; Some (res, hash') }"

lemma size_hash_records: "hash_shape hash \<Longrightarrow> size (hash_records hash) = records hash"
  using hash_shapeD(5) [of hash] by (simp add: hash_records_def)

lemma same_setup_key_eq: "same_setup h0 hash \<Longrightarrow> key_eq m hash key x = key_eq m h0 key x"
  using same_setup_keys(1) [of h0 hash] by (simp add: key_eq_def same_setup_def)

lemma same_setup_trans: "same_setup a b \<Longrightarrow> same_setup b c \<Longrightarrow> same_setup a c"
  by (simp add: same_setup_def)

lemma sound_insert:
  assumes s: "sound_table m h0 s" and n: "size (hash_records s) < NO_RECORD - 2" and r: "r \<noteq> 0"
  shows "\<exists>f s'. hash_add m s avail r = Some (f, s') \<and> sound_table m h0 s' \<and>
    legal (key_clash m h0) (hash_records s) (Insert avail r) f \<and> hash_records s' = after (hash_records s) (Insert avail r) f"
proof -
  have st: "same_setup h0 s" and fit: "keys_fit m h0" and ok: "hash_ok m s" "0 \<notin># hash_records s"
    using s by (simp_all add: sound_table_def)
  let ?key = "my_hash_key m s r True" and ?c = "hash_records s"
  let ?junk = "if avail then Some (replicate (max_element (links s) + alloc_increment (links s))
        \<lparr>next_link = 0, hash_nr = 0, link_data = 0\<rparr>) else None"
  have room: "records s + 1 < NO_RECORD" using n size_hash_records [of s] ok by (simp add: hash_ok_def)
  have k: "my_hash_key m s r False = ?key" using fit same_setup_keys(1) [OF st] by (simp add: keys_fit_def)
  have resp: "flags s AND HASH_UNIQUE \<noteq> 0 \<longrightarrow> hash_respects m s ?key"
    using fit st same_setup_keys [OF st] same_setup_key_eq [OF st] by (auto simp: hash_respects_def keys_fit_def same_setup_def)
  have mem: "mem_ok (max_element (links s) + alloc_increment (links s)) ?junk" by (simp add: mem_ok_def)
  have clash: "flags s AND HASH_UNIQUE \<noteq> 0 \<and> (\<exists>x \<in># ?c. key_eq m s ?key x) \<longleftrightarrow> key_clash m h0 ?c r"
    using st same_setup_keys(1) [OF st] same_setup_key_eq [OF st] by (simp add: key_clash_def same_setup_def)
  obtain f s' where i: "my_hash_insert ?junk m s r = Some (f, s')"
    "if key_clash m h0 ?c r \<or> ?junk = None \<and> records s = max_element (links s) then f \<and> s' = s
     else \<not> f \<and> hash_ok m s' \<and> same_setup s s' \<and> hash_records s' = add_mset r ?c"
    using insert_spec [OF ok room mem refl k resp] unfolding clash by blast
  show ?thesis
  proof (cases f)
    case True
    then have "key_clash m h0 ?c r \<or> \<not> avail" "s' = s" using i(2) by (auto split: if_splits)
    then show ?thesis using i(1) True s by (auto simp: hash_add_def)
  next
    case False
    then have "\<not> key_clash m h0 ?c r" "hash_ok m s'" "same_setup s s'" "hash_records s' = add_mset r ?c"
      using i(2) by (auto split: if_splits)
    then show ?thesis using i(1) False ok(2) r fit same_setup_trans [OF st] by (auto simp: hash_add_def sound_table_def)
  qed
qed

lemma sound_delete:
  assumes s: "sound_table m h0 s"
  shows "\<exists>f s'. hash_remove m s r = Some (f, s') \<and> sound_table m h0 s' \<and>
    legal clash (hash_records s) (Delete r) f \<and> hash_records s' = after (hash_records s) (Delete r) f"
proof -
  have ok: "hash_ok m s" using s by (simp add: sound_table_def)
  obtain f s' freed where d: "my_hash_delete m s r = Some (f, s', freed)"
    "if r \<in># hash_records s then \<not> f \<and> hash_ok m s' \<and> same_setup s s' \<and> hash_records s' = hash_records s - {#r#}
     else f \<and> s' = s" using delete_spec [OF ok, of r] by auto
  have "sound_table m h0 s'"
    using s d(2) same_setup_trans by (auto simp: sound_table_def dest: in_diffD split: if_splits)
  moreover have "f = (r \<notin># hash_records s)" "hash_records s' = hash_records s - {#r#}" using d(2) by (auto split: if_splits)
  ultimately show ?thesis using d(1) by (auto simp: hash_remove_def)
qed

interpretation hash_collection: record_collection "sound_table m h0" hash_records "hash_add m" "hash_remove m"
  "key_clash m h0" "NO_RECORD - 2" for m h0
  by unfold_locales (rule sound_insert sound_delete; assumption)+

section \<open>A sample table\<close>

text \<open>Records are numbers, the key of a record is the byte at its address, and its value is the hash value.\<close>

definition sample_mem :: mem where "sample_mem a = of_nat a"

definition sample_link :: HASH_LINK where "sample_link = \<lparr>next_link = 0, hash_nr = 0, link_data = 0\<rparr>"

definition sample_hash :: HASH where
  "sample_hash = snd (my_hash_init2 16 (Some (replicate 4 sample_link)) 4
     \<lparr>hash_sort = \<lambda>_ n. n, strnncoll = \<lambda>a b. if a = b then 0 else 1\<rparr> 4 0 1 None
     (Some (\<lambda>_ k. sum_list (map unat k))) False HASH_UNIQUE)"

lemma sample_facts:
  "hash_ok sample_mem sample_hash" "hash_records sample_hash = {#}" "records sample_hash = 0"
  "max_element (links sample_hash) = 4" "alloc_increment (links sample_hash) = 4"
  "key_offset sample_hash = 0" "key_length sample_hash = 1" "get_key sample_hash = None" "flags sample_hash = 1"
  "hash_function sample_hash = (\<lambda>_ k. sum_list (map unat k))" "free_element sample_hash = False"
  "charset sample_hash = \<lparr>hash_sort = \<lambda>_ n. n, strnncoll = \<lambda>a b. if a = b then 0 else 1\<rparr>"
proof -
  have m: "mem_ok 4 (Some (replicate 4 sample_link))" by (simp add: mem_ok_def)
  show "hash_ok sample_mem sample_hash" unfolding sample_hash_def by (rule hash_init_ok(2) [OF _ m]) simp
  show "hash_records sample_hash = {#}" unfolding sample_hash_def by (rule hash_init_ok(3) [OF _ m]) simp
qed (simp_all add: sample_hash_def my_hash_init2_def init_dynamic_array2_def malloc_slots_def Let_def HASH_UNIQUE_def)

text \<open>The sample table with the record 5.\<close>

lemma sample_insert:
  "\<exists>hash. my_hash_insert (Some (replicate 8 sample_link)) sample_mem sample_hash 5 = Some (False, hash) \<and>
     hash_ok sample_mem hash \<and> same_setup sample_hash hash \<and> hash_records hash = {#5#}"
  using insert_spec [of sample_mem sample_hash "Some (replicate 8 sample_link)" "[5]" 5]
  by (auto simp: sample_facts mem_ok_def my_hash_key_def sample_mem_def hash_respects_def NO_RECORD_def)

lemma sample_keys:
  assumes "same_setup sample_hash hash"
  shows "my_hash_key m hash r f = [m r]" "rec_hashnr m hash r = unat (m r)" "key_eq m hash key r \<longleftrightarrow> key = [m r]"
    "key_arg hash [b] 1 = [b]" "hash_function hash (charset hash) [b] = unat b" "flags hash = 1"
  using assms by (auto simp: same_setup_def my_hash_key_def rec_hashnr_def key_eq_def key_arg_def sample_facts)

section \<open>Properties\<close>

text \<open>
  C3: \<open>my_hash_insert\<close> on a sound table returns (its loops end), and either refuses the record and leaves the
  table as it is - when the keys are unique and a record with this key is there, or when there is no
  memory for another link - or makes a sound table that has this record once more and otherwise the same records.
\<close>

theorem hash_insert_correct:
  assumes "hash_ok m hash" "0 \<notin># hash_records hash" "records hash + 1 < NO_RECORD"
    and "mem_ok (max_element (links hash) + alloc_increment (links hash)) junk"
    and "key = my_hash_key m hash r True" "my_hash_key m hash r False = key"
    and "flags hash AND HASH_UNIQUE \<noteq> 0 \<longrightarrow> hash_respects m hash key"
  shows "\<exists>res hash'. my_hash_insert junk m hash r = Some (res, hash') \<and>
    (if flags hash AND HASH_UNIQUE \<noteq> 0 \<and> (\<exists>x \<in># hash_records hash. key_eq m hash key x) \<or>
        junk = None \<and> records hash = max_element (links hash)
     then res \<and> hash' = hash
     else \<not> res \<and> hash_ok m hash' \<and> same_setup hash hash' \<and> hash_records hash' = add_mset r (hash_records hash))"
  using assms by (rule insert_spec)

theorem hash_insert_correct_witness:
  "\<exists>hash'. my_hash_insert (Some (replicate 8 sample_link)) sample_mem sample_hash 7 = Some (False, hash') \<and>
     hash_ok sample_mem hash' \<and> hash_records hash' = {#7#}"
  using hash_insert_correct [of sample_mem sample_hash "Some (replicate 8 sample_link)" "[7]" 7]
  by (auto simp: sample_facts mem_ok_def my_hash_key_def sample_mem_def hash_respects_def NO_RECORD_def)

text \<open>
  C4: \<open>my_hash_delete\<close> on a sound table returns.  It reports a record that is not in the table and leaves the
  table as it is; otherwise the table that results is sound and has the record once less, and the record
  is given to the callback of the table when there is one.
\<close>

theorem hash_delete_correct:
  assumes "hash_ok m hash"
  shows "\<exists>res hash' freed. my_hash_delete m hash r = Some (res, hash', freed) \<and>
    (if r \<in># hash_records hash
     then \<not> res \<and> hash_ok m hash' \<and> same_setup hash hash' \<and> hash_records hash' = hash_records hash - {#r#} \<and>
       freed = (if free_element hash then [r] else [])
     else res \<and> hash' = hash \<and> freed = [])"
  using assms by (rule delete_spec)

theorem hash_delete_correct_witness:
  "\<exists>hash hash'. my_hash_insert (Some (replicate 8 sample_link)) sample_mem sample_hash 5 = Some (False, hash) \<and>
     my_hash_delete sample_mem hash 5 = Some (False, hash', []) \<and> hash_ok sample_mem hash' \<and> hash_records hash' = {#}"
proof -
  obtain hash where h: "my_hash_insert (Some (replicate 8 sample_link)) sample_mem sample_hash 5 = Some (False, hash)"
    "hash_ok sample_mem hash" "same_setup sample_hash hash" "hash_records hash = {#5#}" using sample_insert by blast
  have f: "free_element hash = False" using h(3) sample_facts(11) by (simp add: same_setup_def)
  show ?thesis using hash_delete_correct [OF h(2), of 5] h f by (auto simp: same_setup_def)
qed

text \<open>
  C7: On a sound table \<open>my_hash_search\<close> returns a record with the key when there is one and NULL when there is
  none, and a caller that starts with \<open>my_hash_first\<close> and goes on with \<open>my_hash_next\<close> comes to an end and sees
  every record with the key exactly once, provided that keys the collation does not tell apart have
  the same hash value.
\<close>

theorem hash_search_correct:
  assumes "hash_ok m hash" "0 \<notin># hash_records hash" "hash_respects m hash (key_arg hash key len)"
  shows "\<exists>found xs. my_hash_first m hash key len = Some found \<and> my_hash_search m hash key len = Some (fst found) \<and>
    all_matches m hash key len found = Some xs \<and>
    mset xs = filter_mset (key_eq m hash (key_arg hash key len)) (hash_records hash) \<and>
    fst found = (case xs of [] \<Rightarrow> 0 | x # _ \<Rightarrow> x)"
  using first_matches [OF assms] by (auto simp: my_hash_search_def)

theorem hash_search_correct_witness:
  "\<exists>hash found. my_hash_insert (Some (replicate 8 sample_link)) sample_mem sample_hash 5 = Some (False, hash) \<and>
     my_hash_first sample_mem hash [5] 1 = Some found \<and> all_matches sample_mem hash [5] 1 found = Some [5] \<and>
     my_hash_search sample_mem hash [5] 1 = Some 5"
proof -
  obtain hash where h: "my_hash_insert (Some (replicate 8 sample_link)) sample_mem sample_hash 5 = Some (False, hash)"
    "hash_ok sample_mem hash" "same_setup sample_hash hash" "hash_records hash = {#5#}" using sample_insert by blast
  show ?thesis using hash_search_correct [OF h(2), of "[5]" 1] h(1,4) sample_keys [OF h(3)]
    by (auto simp: hash_respects_def sample_mem_def)
qed

text \<open>
  C8: \<open>my_hash_update\<close>, called when the key of a record that is in the table once has changed in memory, refuses a
  key that another record has (when keys are unique) and leaves the table as it is; otherwise it moves
  the record and leaves a sound table for the new memory with the same records.
\<close>

theorem hash_update_correct:
  assumes "hash_ok m0 hash" "0 \<notin># hash_records hash" "count (hash_records hash) r = 1"
    and "rec_hashnr m0 hash r = hash_function hash (charset hash) (key_arg hash old_key old_len)"
    and "\<forall>x \<in># hash_records hash. x \<noteq> r \<longrightarrow> my_hash_key m hash x = my_hash_key m0 hash x"
    and "key = my_hash_key m hash r True" "my_hash_key m hash r False = key"
    and "flags hash AND HASH_UNIQUE \<noteq> 0 \<longrightarrow> hash_respects m hash key"
  shows "\<exists>res hash'. my_hash_update m hash r old_key old_len = Some (res, hash') \<and>
    (if flags hash AND HASH_UNIQUE \<noteq> 0 \<and> (\<exists>x \<in># hash_records hash. x \<noteq> r \<and> key_eq m hash key x)
     then res \<and> hash' = hash
     else \<not> res \<and> hash_ok m hash' \<and> same_setup hash hash' \<and> hash_records hash' = hash_records hash)"
  using assms by (rule update_spec)

theorem hash_update_correct_witness:
  "\<exists>hash hash'. my_hash_insert (Some (replicate 8 sample_link)) sample_mem sample_hash 5 = Some (False, hash) \<and>
     my_hash_update (sample_mem(5 := 9)) hash 5 [5] 1 = Some (False, hash') \<and>
     hash_ok (sample_mem(5 := 9)) hash' \<and> hash_records hash' = {#5#}"
proof -
  obtain hash where h: "my_hash_insert (Some (replicate 8 sample_link)) sample_mem sample_hash 5 = Some (False, hash)"
    "hash_ok sample_mem hash" "same_setup sample_hash hash" "hash_records hash = {#5#}" using sample_insert by blast
  show ?thesis using hash_update_correct [OF h(2), of 5 "[5]" 1 "sample_mem(5 := 9)" "[9]"] h(1,4) sample_keys [OF h(3)]
    by (auto simp: hash_respects_def sample_mem_def)
qed

text \<open>
  C1: A table that \<open>my_hash_init2\<close> made, with unique keys or without, goes through any sequence of fewer than
  \<open>NO_RECORD - 1\<close> insertions and deletions, where memory may be found or not. Every call returns, with a result that
  is legal for a multiset of records: an insertion fails only for a key that is there when keys are unique, or
  without memory, and fails for such a key; a deletion fails exactly for a record that is not there. The
  table is sound at the end and has exactly the records that the sequence leaves in the multiset. The records
  are not NULL, the key function does not depend on \<open>first\<close>, and unique keys that the collation holds equal
  have the same hash value (\<open>keys_fit\<close>).
\<close>

theorem hash_history_refines_multiset:
  assumes "0 < link_size" "mem_ok init_size junk" "\<And>avail. Insert avail 0 \<notin> set ops" "length ops \<le> NO_RECORD - 2"
    and "h0 = snd (my_hash_init2 link_size junk growth_size cs init_size key_off key_len get_k hash_fun free_el fl)"
    and "keys_fit m h0"
  shows "\<exists>fs hash'. run_ops (hash_add m) (hash_remove m) h0 ops = Some (fs, hash') \<and> hash_ok m hash' \<and>
    legal_run (key_clash m h0) {#} ops fs \<and> hash_records hash' = outcome {#} ops fs"
proof -
  have i: "hash_ok m h0" "hash_records h0 = {#}" unfolding assms(5) by (rule hash_init_ok [OF assms(1,2)])+
  have "sound_table m h0 h0" using i assms(6) by (simp add: sound_table_def same_setup_def)
  from hash_collection.run_content [OF this, of ops] show ?thesis
    using i(2) assms(3,4) by (auto simp: sound_table_def)
qed

text \<open>A table with unique keys: the second insertion of the key fails, and so does the second deletion.\<close>

theorem hash_history_refines_multiset_witness:
  "\<exists>fs hash'. run_ops (hash_add sample_mem) (hash_remove sample_mem) sample_hash [Insert True 3, Insert True 3, Delete 3, Delete 3, Insert True 4]
       = Some (fs, hash') \<and> fs = [False, True, False, True, False] \<and> hash_ok sample_mem hash' \<and> hash_records hash' = {#4#}"
proof -
  have k: "my_hash_key sample_mem sample_hash r f = [of_nat r]" for r f
    by (simp add: my_hash_key_def sample_facts sample_mem_def)
  have e: "key_eq sample_mem sample_hash [of_nat r] x \<longleftrightarrow> (of_nat r :: u8) = of_nat x" for r x
    by (auto simp: key_eq_def k sample_facts)
  have fit: "keys_fit sample_mem sample_hash"
    by (simp add: keys_fit_def k e rec_hashnr_def sample_facts)
  have c: "key_clash sample_mem sample_hash c r \<longleftrightarrow> (\<exists>x \<in># c. (of_nat r :: u8) = of_nat x)" for c r
    by (simp add: key_clash_def k e sample_facts HASH_UNIQUE_def)
  have m: "mem_ok 4 (Some (replicate 4 sample_link))" by (simp add: mem_ok_def)
  obtain fs hash' where r: "run_ops (hash_add sample_mem) (hash_remove sample_mem) sample_hash
      [Insert True 3, Insert True 3, Delete 3, Delete 3, Insert True 4] = Some (fs, hash')" "hash_ok sample_mem hash'"
    "legal_run (key_clash sample_mem sample_hash) {#} [Insert True 3, Insert True 3, Delete 3, Delete 3, Insert True 4] fs"
    "hash_records hash' = outcome {#} [Insert True 3, Insert True 3, Delete 3, Delete 3, Insert True 4] fs"
    using hash_history_refines_multiset [OF _ m _ _ sample_hash_def fit,
        of "[Insert True 3, Insert True 3, Delete 3, Delete 3, Insert True 4]"]
    by (auto simp: NO_RECORD_def)
  obtain a b d e f where fs: "fs = [a, b, d, e, f]"
    using legal_run_length [OF r(3)] by (auto simp: length_Suc_conv eval_nat_numeral)
  have "\<not> a" using r(3) by (simp add: fs c split: if_splits)
  then have "b" using r(3) by (simp add: fs c split: if_splits)
  then have "\<not> d" using r(3) \<open>\<not> a\<close> by (simp add: fs)
  then have "e" using r(3) \<open>\<not> a\<close> \<open>b\<close> by (simp add: fs)
  then have "\<not> f" using r(3) \<open>\<not> a\<close> \<open>b\<close> by (simp add: fs c split: if_splits)
  then have "fs = [False, True, False, True, False]" using \<open>\<not> a\<close> \<open>b\<close> \<open>\<not> d\<close> \<open>e\<close> by (simp add: fs)
  then show ?thesis using r by auto
qed

end
