(* ===== verification/LockService.thy ===== *)
theory LockService
  imports Prelude
begin

text \<open>What the two read/write locks of \<open>mysys/thr_rwlock.c\<close> have in common: threads that wait for a lock, hold
  it and give it back, with the contract under which every request is served, and counting threads.\<close>

section \<open>Threads that wait for a lock\<close>

text \<open>
  What a thread does with a lock: nothing, wait on a condition variable, be on its way to test the
  condition again (it was woken up, or it waits for the mutex), or hold the lock.
\<close>

datatype phase = Idle | Asleep | Awake | Holding

text \<open>A run: each entry is the thread that takes the step and the state after it.\<close>

fun is_run :: "('s \<Rightarrow> nat \<Rightarrow> 's \<Rightarrow> bool) \<Rightarrow> 's \<Rightarrow> (nat \<times> 's) list \<Rightarrow> bool" where
  "is_run q s [] \<longleftrightarrow> True"
| "is_run q s ((t, s') # r) \<longleftrightarrow> q s t s' \<and> is_run q s' r"

fun end_state :: "'s \<Rightarrow> (nat \<times> 's) list \<Rightarrow> 's" where
  "end_state s [] = s"
| "end_state s ((t, s') # r) = end_state s' r"

text \<open>
  The effort that is left: a thread that waits has to get the lock and to give it back, and each time
  a lock is given back up to \<open>n\<close> threads are woken up.
\<close>

definition effort :: "nat \<Rightarrow> phase \<Rightarrow> nat" where
  "effort n p = (case p of Idle \<Rightarrow> 0 | Holding \<Rightarrow> n + 1 | Asleep \<Rightarrow> n + 1 | Awake \<Rightarrow> n + 2)"

definition total_effort :: "nat set \<Rightarrow> (nat \<Rightarrow> phase) \<Rightarrow> nat" where
  "total_effort T ph = (\<Sum>t \<in> T. effort (card T) (ph t))"

lemma effort_simps [simp]:
  "effort n Idle = 0" "effort n Holding = n + 1" "effort n Asleep = n + 1" "effort n Awake = n + 2"
  by (simp_all add: effort_def)

lemma total_effort_bound: "total_effort T ph \<le> card T * (card T + 2)"
proof -
  have "effort n p \<le> n + 2" for n p by (cases p) simp_all
  then show ?thesis using sum_bounded_above [of T "\<lambda>t. effort (card T) (ph t)" "card T + 2"]
    by (simp add: total_effort_def)
qed

text \<open>
  The steps a lock takes when no new request comes: a thread that is awake gets the lock or goes to
  sleep again, and a thread that holds the lock gives it back and wakes up some of those that sleep.
\<close>

definition retries :: "(nat \<Rightarrow> phase) \<Rightarrow> nat \<Rightarrow> (nat \<Rightarrow> phase) \<Rightarrow> bool" where
  "retries ph t ph' \<longleftrightarrow> ph t = Awake \<and> (ph' t = Asleep \<or> ph' t = Holding) \<and> (\<forall>u. u \<noteq> t \<longrightarrow> ph' u = ph u)"

definition releases :: "(nat \<Rightarrow> phase) \<Rightarrow> nat \<Rightarrow> (nat \<Rightarrow> phase) \<Rightarrow> bool" where
  "releases ph t ph' \<longleftrightarrow> ph t = Holding \<and> ph' t = Idle \<and>
     (\<forall>u. u \<noteq> t \<longrightarrow> ph' u = ph u \<or> ph u = Asleep \<and> ph' u = Awake)"

lemma effort_split:
  "finite T \<Longrightarrow> t \<in> T \<Longrightarrow> total_effort T ph = effort (card T) (ph t) + (\<Sum>u \<in> T - {t}. effort (card T) (ph u))"
  by (simp add: total_effort_def sum.remove)

lemma retries_effort:
  assumes "finite T" "t \<in> T" "retries ph t ph'"
  shows "total_effort T ph' < total_effort T ph"
proof -
  have "(\<Sum>u \<in> T - {t}. effort (card T) (ph' u)) = (\<Sum>u \<in> T - {t}. effort (card T) (ph u))"
    using assms(3) by (intro sum.cong) (auto simp: retries_def)
  then show ?thesis using assms(3) by (auto simp: effort_split [OF assms(1,2)] retries_def)
qed

lemma releases_effort:
  assumes "finite T" "t \<in> T" "releases ph t ph'"
  shows "total_effort T ph' < total_effort T ph"
proof -
  have "effort (card T) (ph' u) \<le> effort (card T) (ph u) + 1" if "u \<noteq> t" for u
    using assms(3) that by (cases "ph' u = ph u") (auto simp: releases_def)
  then have "(\<Sum>u \<in> T - {t}. effort (card T) (ph' u)) \<le> (\<Sum>u \<in> T - {t}. effort (card T) (ph u) + 1)"
    by (intro sum_mono) simp
  also have "\<dots> = (\<Sum>u \<in> T - {t}. effort (card T) (ph u)) + card (T - {t})"
    by (simp only: sum.distrib sum_constant mult_1_right of_nat_id)
  also have "card (T - {t}) \<le> card T" by (rule card_mono) (use assms(1) in auto)
  finally show ?thesis using assms(3) by (simp add: effort_split [OF assms(1,2)] releases_def)
qed

locale lock_service =
  fixes T :: "nat set" and inv :: "'s \<Rightarrow> bool" and phase_of :: "'s \<Rightarrow> nat \<Rightarrow> phase" and qstep :: "'s \<Rightarrow> nat \<Rightarrow> 's \<Rightarrow> bool"
    and wants :: "'s \<Rightarrow> nat \<Rightarrow> 'k"
  assumes fin: "inv s \<Longrightarrow> finite T"
    and idle: "inv s \<Longrightarrow> t \<notin> T \<Longrightarrow> phase_of s t = Idle"
    and keep: "inv s \<Longrightarrow> qstep s t s' \<Longrightarrow> inv s'"
    and moves: "inv s \<Longrightarrow> qstep s t s' \<Longrightarrow> retries (phase_of s) t (phase_of s') \<or> releases (phase_of s) t (phase_of s')"
    and wants: "inv s \<Longrightarrow> qstep s t s' \<Longrightarrow> phase_of s u \<noteq> Idle \<Longrightarrow> phase_of s' u \<noteq> Idle \<Longrightarrow> wants s' u = wants s u"
    and progress: "inv s \<Longrightarrow> phase_of s t \<noteq> Idle \<Longrightarrow> \<exists>u s'. qstep s u s'"
begin

lemma mover:
  assumes "inv s" "qstep s t s'"
  shows "t \<in> T"
proof -
  have "phase_of s t \<noteq> Idle" using moves [OF assms] by (auto simp: retries_def releases_def)
  then show ?thesis using idle [OF assms(1), of t] by blast
qed

lemma effort_decreases:
  assumes "inv s" "qstep s t s'"
  shows "total_effort T (phase_of s') < total_effort T (phase_of s)"
  using moves [OF assms] retries_effort [OF fin [OF assms(1)] mover [OF assms]] releases_effort [OF fin [OF assms(1)] mover [OF assms]] by blast

lemma run_inv: "inv s \<Longrightarrow> is_run qstep s r \<Longrightarrow> inv (end_state s r)"
proof (induction r arbitrary: s)
  case (Cons x r)
  then show ?case using keep by (cases x) fastforce
qed simp

lemma run_bounded: "inv s \<Longrightarrow> is_run qstep s r \<Longrightarrow> length r + total_effort T (phase_of (end_state s r)) \<le> total_effort T (phase_of s)"
proof (induction r arbitrary: s)
  case (Cons x r)
  obtain t s' where x: "x = (t, s')" by (cases x)
  then have q: "qstep s t s'" "is_run qstep s' r" using Cons.prems by simp_all
  show ?case
    using Cons.IH [OF keep [OF Cons.prems(1) q(1)] q(2)] effort_decreases [OF Cons.prems(1) q(1)] x by simp
qed simp

text \<open>A run that cannot go on has given the lock to every thread that waited, and everybody has left.\<close>

lemma run_serves:
  assumes "inv s" "is_run qstep s r" "\<nexists>u s'. qstep (end_state s r) u s'"
  shows "phase_of (end_state s r) t = Idle"
    and "phase_of s t = Asleep \<or> phase_of s t = Awake \<Longrightarrow> \<exists>(u, s') \<in> set r. u = t \<and> phase_of s' t = Holding \<and> wants s' t = wants s t"
proof -
  show e: "phase_of (end_state s r) t = Idle" using progress [OF run_inv [OF assms(1,2)]] assms(3) by blast
  show "phase_of s t = Asleep \<or> phase_of s t = Awake \<Longrightarrow> \<exists>(u, s') \<in> set r. u = t \<and> phase_of s' t = Holding \<and> wants s' t = wants s t"
    using assms(1,2) e
  proof (induction r arbitrary: s)
    case (Cons x r)
    obtain u s' where x: "x = (u, s')" by (cases x)
    then have q: "qstep s u s'" "is_run qstep s' r" using Cons.prems by simp_all
    show ?case
    proof (cases "phase_of s' t = Holding \<and> u = t")
      case True
      then have "wants s' t = wants s t" using wants [OF Cons.prems(2) q(1), of t] Cons.prems(1) by auto
      then show ?thesis using True x by auto
    next
      case False
      have p: "phase_of s' t = Asleep \<or> phase_of s' t = Awake"
        using moves [OF Cons.prems(2) q(1)] Cons.prems(1) False by (cases "u = t") (auto simp: retries_def releases_def)
      then have "wants s' t = wants s t" using wants [OF Cons.prems(2) q(1), of t] Cons.prems(1) by auto
      then show ?thesis using Cons.IH [OF p keep [OF Cons.prems(2) q(1)] q(2)] Cons.prems(4) x by auto
    qed
  qed auto
qed

end

section \<open>Counting threads\<close>

definition tally :: "(nat \<Rightarrow> 'a) \<Rightarrow> 'a \<Rightarrow> int" where
  "tally pc v = int (card {t. pc t = v})"

lemma tally_nonneg: "0 \<le> tally pc v"
  by (simp add: tally_def)

lemma finite_others: "finite T \<Longrightarrow> \<forall>t. t \<notin> T \<longrightarrow> pc t = z \<Longrightarrow> v \<noteq> z \<Longrightarrow> finite {t. pc t = v}"
  by (rule finite_subset [of _ T]) auto

lemma tally_update:
  assumes "finite {u. pc u = v}"
  shows "tally (pc(t := x)) v = tally pc v - (if pc t = v then 1 else 0) + (if x = v then 1 else 0)"
proof -
  have s: "{u. (pc(t := x)) u = v} = (if x = v then insert t ({u. pc u = v} - {t}) else {u. pc u = v} - {t})" by auto
  have c: "int (card ({u. pc u = v} - {t})) = int (card {u. pc u = v}) - (if pc t = v then 1 else 0)"
  proof (cases "pc t = v")
    case True
    then have "card {u. pc u = v} = Suc (card ({u. pc u = v} - {t}))" using assms by (intro card.remove) auto
    then show ?thesis using True by simp
  qed (use assms in simp)
  show ?thesis unfolding tally_def s using c assms by (simp add: card_insert_if)
qed

lemma tally_0: "finite {u. pc u = v} \<Longrightarrow> tally pc v = 0 \<longleftrightarrow> (\<forall>t. pc t \<noteq> v)"
  by (auto simp: tally_def)

lemma tally_pos: "finite {u. pc u = v} \<Longrightarrow> pc t = v \<Longrightarrow> 1 \<le> tally pc v"
  using tally_0 [of pc v] tally_nonneg [of pc v] by (cases "tally pc v = 0") auto

text \<open>The counts are bounded by the number of threads, and leave room for a thread that is in neither.\<close>

lemma tally_bound:
  assumes "finite T" "\<forall>t. t \<notin> T \<longrightarrow> p t = z" "v \<noteq> z" "w \<noteq> z" "v \<noteq> w"
  shows "tally p v + tally p w \<le> int (card T)"
proof -
  have f: "finite {t. p t = v}" "finite {t. p t = w}" using assms by (auto intro: finite_others)
  have "card {t. p t = v} + card {t. p t = w} = card ({t. p t = v} \<union> {t. p t = w})"
    using assms(5) f by (subst card_Un_disjoint) auto
  also have "\<dots> \<le> card T" by (rule card_mono) (use assms in auto)
  finally show ?thesis by (simp add: tally_def)
qed

lemma tally_room:
  assumes "finite T" "\<forall>t. t \<notin> T \<longrightarrow> p t = z" "v \<noteq> z" "w \<noteq> z" "v \<noteq> w" "t \<in> T" "p t \<noteq> v" "p t \<noteq> w"
  shows "tally p v + tally p w < int (card T)"
proof -
  have "tally (p(t := z)) v + tally (p(t := z)) w \<le> int (card (T - {t}))"
    using assms by (intro tally_bound [where z = z]) auto
  moreover have "{u. (p(t := z)) u = x} = {u. p u = x}" if "x \<noteq> z" "p t \<noteq> x" for x using that by auto
  then have "tally (p(t := z)) v = tally p v" "tally (p(t := z)) w = tally p w" using assms by (simp_all add: tally_def)
  moreover have "card (T - {t}) < card T" using assms(1,6) by (rule card_Diff1_less)
  ultimately show ?thesis by linarith
qed

end
