(* ===== verification/RwLock.thy ===== *)
theory RwLock
  imports LockService CInt
begin

text \<open>The read/write lock \<open>my_rw_lock_t\<close> of \<open>mysys/thr_rwlock.c\<close>, which prefers writers: its operations as the
  source has them, the steps of any number of threads that use it, its invariant, mutual exclusion and
  that every request is served.\<close>

section \<open>The read/write lock\<close>

text \<open>Both counters are of type \<open>int\<close>, with 32 bits.\<close>

record my_rw_lock_t =
  state :: int
  waiters :: int

text \<open>What an unlock does to the condition variables.\<close>

datatype wakeup = Nobody | Signal_Writers | Broadcast_Readers

definition my_rw_init :: my_rw_lock_t where
  "my_rw_init = \<lparr>state = 0, waiters = 0\<rparr>"

text \<open>One pass of the loop; \<open>None\<close> is the call of \<open>pthread_cond_wait\<close>.\<close>

definition my_rw_rdlock :: "my_rw_lock_t \<Rightarrow> my_rw_lock_t option" where
  "my_rw_rdlock rwp = (if state rwp < 0 \<or> waiters rwp \<noteq> 0 then None else Some (rwp\<lparr>state := wrap_int (state rwp + 1)\<rparr>))"

text \<open>The result is true for \<open>EBUSY\<close>.\<close>

definition my_rw_tryrdlock :: "my_rw_lock_t \<Rightarrow> bool \<times> my_rw_lock_t" where
  "my_rw_tryrdlock rwp = (if state rwp < 0 \<or> waiters rwp \<noteq> 0 then (True, rwp) else (False, rwp\<lparr>state := wrap_int (state rwp + 1)\<rparr>))"

definition my_rw_wrlock_enter :: "my_rw_lock_t \<Rightarrow> my_rw_lock_t" where
  "my_rw_wrlock_enter rwp = rwp\<lparr>waiters := wrap_int (waiters rwp + 1)\<rparr>"

definition my_rw_wrlock :: "my_rw_lock_t \<Rightarrow> my_rw_lock_t option" where
  "my_rw_wrlock rwp = (if state rwp \<noteq> 0 then None else Some (rwp\<lparr>state := -1, waiters := wrap_int (waiters rwp - 1)\<rparr>))"

definition my_rw_trywrlock :: "my_rw_lock_t \<Rightarrow> bool \<times> my_rw_lock_t" where
  "my_rw_trywrlock rwp = (if state rwp \<noteq> 0 then (True, rwp) else (False, rwp\<lparr>state := -1\<rparr>))"

definition my_rw_unlock :: "my_rw_lock_t \<Rightarrow> wakeup \<times> my_rw_lock_t" where
  "my_rw_unlock rwp =
     (if state rwp = -1
      then (if waiters rwp \<noteq> 0 then Signal_Writers else Broadcast_Readers, rwp\<lparr>state := 0\<rparr>)
      else (if wrap_int (state rwp - 1) = 0 \<and> waiters rwp \<noteq> 0 then Signal_Writers else Nobody,
            rwp\<lparr>state := wrap_int (state rwp - 1)\<rparr>))"

section \<open>Threads that use the lock\<close>

text \<open>
  Between a call of \<open>pthread_cond_wait\<close> and its return a thread waits; a thread that was woken up has
  yet to get the mutex and to test the condition again.
\<close>

datatype rw_pc = No_Lock | Wait_Read | Woken_Read | Wait_Write | Woken_Write | Has_Read | Has_Write

record rw_system =
  rw :: my_rw_lock_t
  pc :: "nat \<Rightarrow> rw_pc"

text \<open>A signal wakes up one of the threads that wait, a broadcast all of them.\<close>

inductive wakes :: "wakeup \<Rightarrow> (nat \<Rightarrow> rw_pc) \<Rightarrow> (nat \<Rightarrow> rw_pc) \<Rightarrow> bool" where
  wakes_nobody: "wakes Nobody p p"
| wakes_writer: "p w = Wait_Write \<Longrightarrow> wakes Signal_Writers p (p(w := Woken_Write))"
| wakes_no_writer: "\<forall>w. p w \<noteq> Wait_Write \<Longrightarrow> wakes Signal_Writers p p"
| wakes_readers: "wakes Broadcast_Readers p (\<lambda>t. if p t = Wait_Read then Woken_Read else p t)"

inductive_cases wakes_nobodyE: "wakes Nobody p p'"
inductive_cases wakes_signalE: "wakes Signal_Writers p p'"
inductive_cases wakes_readersE: "wakes Broadcast_Readers p p'"

text \<open>
  The steps of the threads \<open>T\<close>.  Each is what one thread does while it has the mutex \<open>lock\<close>; a wake-up
  without a reason, which POSIX allows, is a step of its own.
\<close>

datatype rw_action = Rdlock | Tryrdlock | Wrlock | Trywrlock | Resume | Unlock | Spurious

inductive my_rw_step :: "nat set \<Rightarrow> rw_action \<Rightarrow> nat \<Rightarrow> rw_system \<Rightarrow> rw_system \<Rightarrow> bool" for T where
  rdlock_get: "t \<in> T \<Longrightarrow> pc s t = No_Lock \<Longrightarrow> my_rw_rdlock (rw s) = Some r \<Longrightarrow>
    my_rw_step T Rdlock t s \<lparr>rw = r, pc = (pc s)(t := Has_Read)\<rparr>"
| rdlock_wait: "t \<in> T \<Longrightarrow> pc s t = No_Lock \<Longrightarrow> my_rw_rdlock (rw s) = None \<Longrightarrow>
    my_rw_step T Rdlock t s \<lparr>rw = rw s, pc = (pc s)(t := Wait_Read)\<rparr>"
| tryrdlock: "t \<in> T \<Longrightarrow> pc s t = No_Lock \<Longrightarrow> my_rw_tryrdlock (rw s) = (busy, r) \<Longrightarrow>
    my_rw_step T Tryrdlock t s \<lparr>rw = r, pc = (pc s)(t := if busy then No_Lock else Has_Read)\<rparr>"
| wrlock_get: "t \<in> T \<Longrightarrow> pc s t = No_Lock \<Longrightarrow> my_rw_wrlock (my_rw_wrlock_enter (rw s)) = Some r \<Longrightarrow>
    my_rw_step T Wrlock t s \<lparr>rw = r, pc = (pc s)(t := Has_Write)\<rparr>"
| wrlock_wait: "t \<in> T \<Longrightarrow> pc s t = No_Lock \<Longrightarrow> my_rw_wrlock (my_rw_wrlock_enter (rw s)) = None \<Longrightarrow>
    my_rw_step T Wrlock t s \<lparr>rw = my_rw_wrlock_enter (rw s), pc = (pc s)(t := Wait_Write)\<rparr>"
| trywrlock: "t \<in> T \<Longrightarrow> pc s t = No_Lock \<Longrightarrow> my_rw_trywrlock (rw s) = (busy, r) \<Longrightarrow>
    my_rw_step T Trywrlock t s \<lparr>rw = r, pc = (pc s)(t := if busy then No_Lock else Has_Write)\<rparr>"
| reader_get: "pc s t = Woken_Read \<Longrightarrow> my_rw_rdlock (rw s) = Some r \<Longrightarrow>
    my_rw_step T Resume t s \<lparr>rw = r, pc = (pc s)(t := Has_Read)\<rparr>"
| reader_wait: "pc s t = Woken_Read \<Longrightarrow> my_rw_rdlock (rw s) = None \<Longrightarrow>
    my_rw_step T Resume t s \<lparr>rw = rw s, pc = (pc s)(t := Wait_Read)\<rparr>"
| writer_get: "pc s t = Woken_Write \<Longrightarrow> my_rw_wrlock (rw s) = Some r \<Longrightarrow>
    my_rw_step T Resume t s \<lparr>rw = r, pc = (pc s)(t := Has_Write)\<rparr>"
| writer_wait: "pc s t = Woken_Write \<Longrightarrow> my_rw_wrlock (rw s) = None \<Longrightarrow>
    my_rw_step T Resume t s \<lparr>rw = rw s, pc = (pc s)(t := Wait_Write)\<rparr>"
| unlock: "pc s t = Has_Read \<or> pc s t = Has_Write \<Longrightarrow> my_rw_unlock (rw s) = (wake, r) \<Longrightarrow>
    wakes wake ((pc s)(t := No_Lock)) p \<Longrightarrow> my_rw_step T Unlock t s \<lparr>rw = r, pc = p\<rparr>"
| spurious_read: "pc s t = Wait_Read \<Longrightarrow> my_rw_step T Spurious t s \<lparr>rw = rw s, pc = (pc s)(t := Woken_Read)\<rparr>"
| spurious_write: "pc s t = Wait_Write \<Longrightarrow> my_rw_step T Spurious t s \<lparr>rw = rw s, pc = (pc s)(t := Woken_Write)\<rparr>"

inductive my_rw_reachable :: "nat set \<Rightarrow> rw_system \<Rightarrow> bool" for T where
  start: "my_rw_reachable T \<lparr>rw = my_rw_init, pc = \<lambda>_. No_Lock\<rparr>"
| step: "my_rw_reachable T s \<Longrightarrow> my_rw_step T a t s s' \<Longrightarrow> my_rw_reachable T s'"

text \<open>
  The invariant: \<open>state\<close> and \<open>waiters\<close> count the threads; when the lock is free and writers wait, one
  of them is awake; when there is neither a writer nor a waiting writer, no reader waits.
\<close>

definition rw_inv :: "nat set \<Rightarrow> rw_system \<Rightarrow> bool" where
  "rw_inv T s \<longleftrightarrow> (\<forall>t. t \<notin> T \<longrightarrow> pc s t = No_Lock) \<and>
     (tally (pc s) Has_Write = 0 \<and> state (rw s) = tally (pc s) Has_Read \<or>
      tally (pc s) Has_Write = 1 \<and> tally (pc s) Has_Read = 0 \<and> state (rw s) = -1) \<and>
     waiters (rw s) = tally (pc s) Wait_Write + tally (pc s) Woken_Write \<and>
     (state (rw s) = 0 \<and> waiters (rw s) \<noteq> 0 \<longrightarrow> 1 \<le> tally (pc s) Woken_Write) \<and>
     (0 \<le> state (rw s) \<and> waiters (rw s) = 0 \<longrightarrow> tally (pc s) Wait_Read = 0)"

lemma rw_inv_start: "rw_inv T \<lparr>rw = my_rw_init, pc = \<lambda>_. No_Lock\<rparr>"
  by (simp add: rw_inv_def my_rw_init_def tally_def)

lemma rw_inv_finite: "finite T \<Longrightarrow> rw_inv T s \<Longrightarrow> v \<noteq> No_Lock \<Longrightarrow> finite {t. pc s t = v}"
  by (rule finite_others [of T "pc s" No_Lock]) (auto simp: rw_inv_def)

text \<open>The counters do not overflow with less than \<open>2 ^ 31\<close> threads.\<close>

lemma rw_counters:
  assumes "finite T" "card T < 2 ^ 31" "rw_inv T s"
  shows "wrap_int (state (rw s) - 1) = state (rw s) - 1" "wrap_int (waiters (rw s)) = waiters (rw s)"
    "wrap_int (waiters (rw s) - 1) = waiters (rw s) - 1"
    "t \<in> T \<Longrightarrow> pc s t \<noteq> Has_Read \<Longrightarrow> pc s t \<noteq> Has_Write \<Longrightarrow> wrap_int (state (rw s) + 1) = state (rw s) + 1"
    "t \<in> T \<Longrightarrow> pc s t \<noteq> Wait_Write \<Longrightarrow> pc s t \<noteq> Woken_Write \<Longrightarrow> wrap_int (waiters (rw s) + 1) = waiters (rw s) + 1"
proof -
  note inv = assms(3) [unfolded rw_inv_def]
  have idle: "\<forall>t. t \<notin> T \<longrightarrow> pc s t = No_Lock" using inv by blast
  note le = tally_bound [OF assms(1) idle] and lt = tally_room [OF assms(1) idle]
  have few: "int (card T) < 2147483648" using assms(2) by simp
  have st: "- 1 \<le> state (rw s)" "state (rw s) \<le> tally (pc s) Has_Read + tally (pc s) Has_Write"
    "0 \<le> waiters (rw s)" "waiters (rw s) = tally (pc s) Wait_Write + tally (pc s) Woken_Write"
    using inv tally_nonneg [of "pc s" Has_Read] tally_nonneg [of "pc s" Wait_Write] tally_nonneg [of "pc s" Woken_Write]
    by linarith+
  have up: "state (rw s) \<le> int (card T)" "waiters (rw s) \<le> int (card T)"
    using st le [of Has_Read Has_Write] le [of Wait_Write Woken_Write] by simp_all
  show "wrap_int (state (rw s) - 1) = state (rw s) - 1" "wrap_int (waiters (rw s)) = waiters (rw s)"
    "wrap_int (waiters (rw s) - 1) = waiters (rw s) - 1"
    using st(1,3) up few by (simp_all add: wrap_int_id)
  show "wrap_int (state (rw s) + 1) = state (rw s) + 1" if "t \<in> T" "pc s t \<noteq> Has_Read" "pc s t \<noteq> Has_Write"
    using lt [of Has_Read Has_Write t] that st(1,2) few by (simp add: wrap_int_id)
  show "wrap_int (waiters (rw s) + 1) = waiters (rw s) + 1" if "t \<in> T" "pc s t \<noteq> Wait_Write" "pc s t \<noteq> Woken_Write"
    using lt [of Wait_Write Woken_Write t] that st(3,4) few by (simp add: wrap_int_id)
qed

lemma rw_ops:
  assumes "finite T" "card T < 2 ^ 31" "rw_inv T s"
  shows "my_rw_unlock (rw s) =
      (if state (rw s) = -1
       then (if waiters (rw s) \<noteq> 0 then Signal_Writers else Broadcast_Readers, (rw s)\<lparr>state := 0\<rparr>)
       else (if state (rw s) - 1 = 0 \<and> waiters (rw s) \<noteq> 0 then Signal_Writers else Nobody, (rw s)\<lparr>state := state (rw s) - 1\<rparr>))"
    "my_rw_wrlock (rw s) = (if state (rw s) \<noteq> 0 then None else Some ((rw s)\<lparr>state := -1, waiters := waiters (rw s) - 1\<rparr>))"
    "t \<in> T \<Longrightarrow> pc s t \<noteq> Has_Read \<Longrightarrow> pc s t \<noteq> Has_Write \<Longrightarrow> my_rw_rdlock (rw s) =
      (if state (rw s) < 0 \<or> waiters (rw s) \<noteq> 0 then None else Some ((rw s)\<lparr>state := state (rw s) + 1\<rparr>))"
    "t \<in> T \<Longrightarrow> pc s t \<noteq> Has_Read \<Longrightarrow> pc s t \<noteq> Has_Write \<Longrightarrow> my_rw_tryrdlock (rw s) =
      (if state (rw s) < 0 \<or> waiters (rw s) \<noteq> 0 then (True, rw s) else (False, (rw s)\<lparr>state := state (rw s) + 1\<rparr>))"
    "t \<in> T \<Longrightarrow> pc s t \<noteq> Wait_Write \<Longrightarrow> pc s t \<noteq> Woken_Write \<Longrightarrow>
      my_rw_wrlock_enter (rw s) = (rw s)\<lparr>waiters := waiters (rw s) + 1\<rparr>"
    "t \<in> T \<Longrightarrow> pc s t \<noteq> Wait_Write \<Longrightarrow> pc s t \<noteq> Woken_Write \<Longrightarrow> my_rw_wrlock (my_rw_wrlock_enter (rw s)) =
      (if state (rw s) \<noteq> 0 then None else Some ((rw s)\<lparr>state := -1, waiters := waiters (rw s)\<rparr>))"
  using rw_counters [OF assms]
  by (simp_all add: my_rw_unlock_def my_rw_wrlock_def my_rw_rdlock_def my_rw_tryrdlock_def my_rw_wrlock_enter_def)

lemma rw_inv_unlock:
  assumes fin: "finite T" and few: "card T < 2 ^ 31" and inv: "rw_inv T s" and t: "pc s t = Has_Read \<or> pc s t = Has_Write"
    and u: "my_rw_unlock (rw s) = (wake, r)" "wakes wake ((pc s)(t := No_Lock)) p"
  shows "rw_inv T \<lparr>rw = r, pc = p\<rparr>"
proof -
  note fs = rw_inv_finite [OF fin inv]
  note c = rw_ops(1) [OF fin few inv]
  define q where "q = (pc s)(t := No_Lock)"
  have idle: "\<forall>t. t \<notin> T \<longrightarrow> q t = No_Lock" using inv by (simp add: q_def rw_inv_def)
  note fq = finite_others [OF fin idle]
  have up: "v \<noteq> No_Lock \<Longrightarrow> tally q v = tally (pc s) v - (if pc s t = v then 1 else 0)" for v
    using tally_update [OF fs] by (simp add: q_def)
  have pos: "1 \<le> tally (pc s) (pc s t)" using tally_pos [OF fs] t by auto
  note nn = tally_nonneg [of "pc s" Has_Read] tally_nonneg [of "pc s" Wait_Write] tally_nonneg [of "pc s" Woken_Write]
  note inv = inv [unfolded rw_inv_def]
  have r: "tally q Has_Write = 0" "state r = tally q Has_Read" "waiters r = waiters (rw s)"
    "waiters r = tally q Wait_Write + tally q Woken_Write"
    using inv up u(1) t pos nn by (auto simp: c split: if_splits)
  from u(2) show ?thesis
    unfolding q_def [symmetric]
  proof cases
    case wakes_nobody
    then have "state r \<noteq> 0 \<or> waiters r = 0" "waiters r = 0 \<longrightarrow> tally q Wait_Read = 0"
      using u(1) inv up t pos nn by (auto simp: c split: if_splits)
    then show ?thesis using wakes_nobody r idle by (auto simp: rw_inv_def)
  next
    case (wakes_writer w)
    have "waiters r \<noteq> 0" using wakes_writer(1) u(1) by (auto simp: c split: if_splits)
    moreover have "w \<in> T" using idle wakes_writer(3) by force
    moreover have "v \<noteq> No_Lock \<Longrightarrow> tally p v = tally q v - (if Wait_Write = v then 1 else 0) + (if Woken_Write = v then 1 else 0)" for v
      using tally_update [OF fq] wakes_writer by simp
    moreover have "0 \<le> tally q Woken_Write" by (rule tally_nonneg)
    ultimately show ?thesis using r idle wakes_writer(2) by (auto simp: rw_inv_def)
  next
    case wakes_no_writer
    have "waiters r \<noteq> 0" using wakes_no_writer(1) u(1) by (auto simp: c split: if_splits)
    moreover have "tally q Wait_Write = 0" using tally_0 [OF fq] wakes_no_writer(3) by simp
    moreover have "0 \<le> tally q Woken_Write" by (rule tally_nonneg)
    ultimately show ?thesis using r idle wakes_no_writer(2) by (auto simp: rw_inv_def)
  next
    case wakes_readers
    have "waiters r = 0" using wakes_readers(1) u(1) by (auto simp: c split: if_splits)
    moreover have "tally p v = tally q v" if "v \<noteq> Wait_Read" "v \<noteq> Woken_Read" for v
    proof -
      have "{t. p t = v} = {t. q t = v}" using that wakes_readers(2) by auto
      then show ?thesis by (simp add: tally_def)
    qed
    moreover have "tally p Wait_Read = 0" using wakes_readers(2) by (simp add: tally_def)
    ultimately show ?thesis using r idle wakes_readers(2) by (simp add: rw_inv_def)
  qed
qed

lemma rw_inv_step:
  assumes "finite T" "card T < 2 ^ 31" "rw_inv T s" "my_rw_step T a t s s'"
  shows "rw_inv T s'"
proof -
  note fin = rw_inv_finite [OF assms(1,3)]
  note up = tally_update [OF fin]
  note c = rw_ops(1,2) [OF assms(1-3)] rw_ops(3-6) [OF assms(1-3), of t]
  note inv = assms(3) [unfolded rw_inv_def]
  have tT: "t \<in> T" if "pc s t \<noteq> No_Lock" using inv that by blast
  have pos: "pc s t = v \<Longrightarrow> v \<noteq> No_Lock \<Longrightarrow> 1 \<le> tally (pc s) v" for v using tally_pos [OF fin] by blast
  note nn = tally_nonneg [of "pc s" Has_Read] tally_nonneg [of "pc s" Wait_Write] tally_nonneg [of "pc s" Woken_Write]
  from assms(4) show ?thesis
  proof cases
    case (rdlock_get r)
    then show ?thesis using inv up nn by (auto simp: rw_inv_def c split: if_splits)
  next
    case rdlock_wait
    then show ?thesis using inv up nn by (auto simp: rw_inv_def c split: if_splits)
  next
    case (tryrdlock busy r)
    then show ?thesis using inv up nn by (auto simp: rw_inv_def c split: if_splits)
  next
    case (wrlock_get r)
    then show ?thesis using inv up nn by (auto simp: rw_inv_def c(6) split: if_splits)
  next
    case wrlock_wait
    then have "state (rw s) \<noteq> 0" by (simp add: c(6) split: if_splits)
    then show ?thesis using wrlock_wait(1-4) inv up nn by (auto simp: rw_inv_def c(5))
  next
    case (trywrlock busy r)
    then show ?thesis using inv up nn by (auto simp: rw_inv_def my_rw_trywrlock_def split: if_splits)
  next
    case (reader_get r)
    then show ?thesis using inv up tT pos nn by (auto simp: rw_inv_def c split: if_splits)
  next
    case reader_wait
    then show ?thesis using inv up tT pos nn by (auto simp: rw_inv_def c split: if_splits)
  next
    case (writer_get r)
    then show ?thesis using inv up tT pos nn by (auto simp: rw_inv_def c split: if_splits)
  next
    case writer_wait
    then show ?thesis using inv up tT pos nn by (auto simp: rw_inv_def c split: if_splits)
  next
    case (unlock wake r p)
    then show ?thesis using rw_inv_unlock [OF assms(1-3)] by blast
  next
    case spurious_read
    then show ?thesis using inv up tT pos nn by (auto simp: rw_inv_def)
  next
    case spurious_write
    then show ?thesis using inv up tT pos nn by (auto simp: rw_inv_def)
  qed
qed

definition rw_phase :: "rw_system \<Rightarrow> nat \<Rightarrow> phase" where
  "rw_phase s t = (case pc s t of No_Lock \<Rightarrow> Idle | Wait_Read \<Rightarrow> Asleep | Wait_Write \<Rightarrow> Asleep
     | Woken_Read \<Rightarrow> Awake | Woken_Write \<Rightarrow> Awake | Has_Read \<Rightarrow> Holding | Has_Write \<Rightarrow> Holding)"

definition wants_write :: "rw_system \<Rightarrow> nat \<Rightarrow> bool" where
  "wants_write s t \<longleftrightarrow> pc s t = Wait_Write \<or> pc s t = Woken_Write \<or> pc s t = Has_Write"

text \<open>The steps that only go on with the requests there are.\<close>

definition my_rw_quiet :: "nat set \<Rightarrow> rw_system \<Rightarrow> nat \<Rightarrow> rw_system \<Rightarrow> bool" where
  "my_rw_quiet T s t s' \<longleftrightarrow> my_rw_step T Resume t s s' \<or> my_rw_step T Unlock t s s'"

inductive_cases resumeE: "my_rw_step T Resume t s s'"
inductive_cases unlockE: "my_rw_step T Unlock t s s'"

lemma resume_enabled: "pc s t = Woken_Read \<or> pc s t = Woken_Write \<Longrightarrow> \<exists>s'. my_rw_step T Resume t s s'"
  by (cases "my_rw_rdlock (rw s)"; cases "my_rw_wrlock (rw s)") (blast intro: my_rw_step.intros)+

lemma unlock_enabled:
  assumes "pc s t = Has_Read \<or> pc s t = Has_Write"
  shows "\<exists>s'. my_rw_step T Unlock t s s'"
proof -
  obtain wake r where u: "my_rw_unlock (rw s) = (wake, r)" by fastforce
  have "\<exists>p. wakes wake ((pc s)(t := No_Lock)) p"
    by (cases wake; cases "\<exists>w. ((pc s)(t := No_Lock)) w = Wait_Write") (blast intro: wakes.intros)+
  then show ?thesis using unlock [OF assms u] by blast
qed

lemma wakes_pc: "wakes wake p p' \<Longrightarrow> p' u = p u \<or> p u = Wait_Read \<and> p' u = Woken_Read \<or> p u = Wait_Write \<and> p' u = Woken_Write"
  by (cases rule: wakes.cases, assumption) auto

lemma rw_quiet_moves:
  assumes "my_rw_quiet T s t s'"
  shows "retries (rw_phase s) t (rw_phase s') \<or> releases (rw_phase s) t (rw_phase s')"
    and "rw_phase s u \<noteq> Idle \<Longrightarrow> rw_phase s' u \<noteq> Idle \<Longrightarrow> wants_write s' u = wants_write s u"
proof -
  consider "my_rw_step T Resume t s s'" | "my_rw_step T Unlock t s s'" using assms by (auto simp: my_rw_quiet_def)
  then have "(retries (rw_phase s) t (rw_phase s') \<or> releases (rw_phase s) t (rw_phase s')) \<and>
    (rw_phase s u \<noteq> Idle \<longrightarrow> rw_phase s' u \<noteq> Idle \<longrightarrow> wants_write s' u = wants_write s u)"
  proof cases
    case 1
    then show ?thesis
      by (cases rule: resumeE, assumption) (auto simp: retries_def rw_phase_def wants_write_def)
  next
    case 2
    then obtain wake r p where u: "pc s t = Has_Read \<or> pc s t = Has_Write" "wakes wake ((pc s)(t := No_Lock)) p" "s' = \<lparr>rw = r, pc = p\<rparr>"
      by (cases rule: unlockE, assumption) blast
    have p: "p v = ((pc s)(t := No_Lock)) v \<or> ((pc s)(t := No_Lock)) v = Wait_Read \<and> p v = Woken_Read \<or>
      ((pc s)(t := No_Lock)) v = Wait_Write \<and> p v = Woken_Write" for v by (rule wakes_pc [OF u(2)])
    have "p t = No_Lock" using p [of t] by simp
    moreover have "rw_phase s' v = rw_phase s v \<or> rw_phase s v = Asleep \<and> rw_phase s' v = Awake" if "v \<noteq> t" for v
      using p [of v] that u(3) by (auto simp: rw_phase_def)
    ultimately have "releases (rw_phase s) t (rw_phase s')"
      using u(1,3) unfolding releases_def by (auto simp: rw_phase_def)
    moreover have "rw_phase s u \<noteq> Idle \<longrightarrow> rw_phase s' u \<noteq> Idle \<longrightarrow> wants_write s' u = wants_write s u"
      using p [of u] u(3) by (cases "u = t") (auto simp: rw_phase_def wants_write_def)
    ultimately show ?thesis by blast
  qed
  then show "retries (rw_phase s) t (rw_phase s') \<or> releases (rw_phase s) t (rw_phase s')"
    "rw_phase s u \<noteq> Idle \<Longrightarrow> rw_phase s' u \<noteq> Idle \<Longrightarrow> wants_write s' u = wants_write s u" by blast+
qed

text \<open>No wake-up is lost: as long as some thread is not done, one of them can take a step.\<close>

lemma rw_progress:
  assumes "finite T" "rw_inv T s" "rw_phase s t \<noteq> Idle"
  shows "\<exists>u s'. my_rw_quiet T s u s'"
proof (cases "\<exists>u. pc s u \<in> {Woken_Read, Woken_Write, Has_Read, Has_Write}")
  case True
  then show ?thesis using resume_enabled unlock_enabled by (fastforce simp: my_rw_quiet_def)
next
  case False
  note fin = rw_inv_finite [OF assms(1,2)]
  have z: "tally (pc s) Has_Read = 0" "tally (pc s) Has_Write = 0" "tally (pc s) Woken_Write = 0"
    using False tally_0 [OF fin] by auto
  then have "waiters (rw s) = 0" "tally (pc s) Wait_Read = 0" "tally (pc s) Wait_Write = 0"
    using assms(2) by (auto simp: rw_inv_def)
  then have "pc s t = No_Lock" using False tally_0 [OF fin] by (cases "pc s t") auto
  then show ?thesis using assms(3) by (simp add: rw_phase_def)
qed

interpretation my_rw_service: lock_service T "\<lambda>s. finite T \<and> card T < 2 ^ 31 \<and> rw_inv T s" rw_phase "my_rw_quiet T" wants_write for T
proof unfold_locales
  show "rw_phase s t = Idle" if "finite T \<and> card T < 2 ^ 31 \<and> rw_inv T s" "t \<notin> T" for s t
    using that by (simp add: rw_inv_def rw_phase_def)
  show "finite T \<and> card T < 2 ^ 31 \<and> rw_inv T s'" if "finite T \<and> card T < 2 ^ 31 \<and> rw_inv T s" "my_rw_quiet T s t s'" for s t s'
    using that rw_inv_step by (auto simp: my_rw_quiet_def)
  show "\<exists>u s'. my_rw_quiet T s u s'" if "finite T \<and> card T < 2 ^ 31 \<and> rw_inv T s" "rw_phase s t \<noteq> Idle" for s t
    using that rw_progress by blast
qed (use rw_quiet_moves in blast)+

lemma rw_reachable_inv: "my_rw_reachable T s \<Longrightarrow> finite T \<Longrightarrow> card T < 2 ^ 31 \<Longrightarrow> rw_inv T s"
  by (induction rule: my_rw_reachable.induct) (auto intro: rw_inv_start rw_inv_step)

section \<open>Properties of the lock\<close>

text \<open>
  C6: In every state that less than \<open>2 ^ 31\<close> threads can reach with the lock, in any order of steps and with
  spurious wake-ups, a thread that has the lock for writing is the only one that has it, \<open>state\<close> is -1 then
  and otherwise the number of readers, and \<open>waiters\<close> is the number of writers that wait.
\<close>

theorem my_rw_lock_exclusion:
  assumes "finite T" "card T < 2 ^ 31" "my_rw_reachable T s"
  shows "(pc s t = Has_Write \<longrightarrow> pc s u = Has_Read \<or> pc s u = Has_Write \<longrightarrow> u = t) \<and>
    state (rw s) = (if \<exists>t. pc s t = Has_Write then -1 else int (card {t. pc s t = Has_Read})) \<and>
    waiters (rw s) = int (card {t. pc s t = Wait_Write \<or> pc s t = Woken_Write})"
proof -
  have inv: "rw_inv T s" by (rule rw_reachable_inv [OF assms(3,1,2)])
  note fin = rw_inv_finite [OF assms(1) inv]
  have w: "{t. pc s t = Wait_Write \<or> pc s t = Woken_Write} = {t. pc s t = Wait_Write} \<union> {t. pc s t = Woken_Write}" by auto
  have c: "int (card {t. pc s t = Wait_Write \<or> pc s t = Woken_Write}) = tally (pc s) Wait_Write + tally (pc s) Woken_Write"
    unfolding w tally_def using fin by (subst card_Un_disjoint) auto
  show ?thesis
  proof (cases "\<exists>t. pc s t = Has_Write")
    case False
    then have "tally (pc s) Has_Write = 0" using tally_0 [OF fin] by simp
    then show ?thesis using False inv c by (auto simp: rw_inv_def tally_def)
  next
    case True
    then have "tally (pc s) Has_Write \<noteq> 0" using tally_0 [OF fin] by simp
    then have one: "tally (pc s) Has_Write = 1" "tally (pc s) Has_Read = 0" "state (rw s) = -1"
      using inv by (auto simp: rw_inv_def)
    have "card {t. pc s t = Has_Write} = 1" using one(1) by (simp add: tally_def)
    then obtain v where "{t. pc s t = Has_Write} = {v}" by (rule card_1_singletonE)
    then have "pc s t = Has_Write \<longrightarrow> pc s u = Has_Write \<longrightarrow> u = t" by (metis mem_Collect_eq singletonD)
    moreover have "pc s u \<noteq> Has_Read" using one(2) tally_0 [OF fin] by simp
    ultimately show ?thesis using True one(3) inv c by (simp add: rw_inv_def)
  qed
qed

lemma sample_rw_run:
  "my_rw_reachable {0, 1} \<lparr>rw = \<lparr>state = 1, waiters = 1\<rparr>, pc = (\<lambda>_. No_Lock)(0 := Has_Read, 1 := Wait_Write)\<rparr>"
proof -
  let ?s0 = "\<lparr>rw = my_rw_init, pc = \<lambda>_. No_Lock\<rparr>"
  let ?s1 = "\<lparr>rw = \<lparr>state = 1, waiters = 0\<rparr>, pc = (\<lambda>_. No_Lock)(0 := Has_Read)\<rparr>"
  have "my_rw_step {0, 1} Rdlock 0 ?s0 ?s1"
    using rdlock_get [of 0 "{0, 1}" ?s0 "\<lparr>state = 1, waiters = 0\<rparr>"] by (simp add: my_rw_rdlock_def my_rw_init_def wrap_int_id)
  then have "my_rw_reachable {0, 1} ?s1" using start step by blast
  moreover have "my_rw_step {0, 1} Wrlock 1 ?s1 \<lparr>rw = \<lparr>state = 1, waiters = 1\<rparr>, pc = (\<lambda>_. No_Lock)(0 := Has_Read, 1 := Wait_Write)\<rparr>"
    using wrlock_wait [of 1 "{0, 1}" ?s1] by (simp add: my_rw_wrlock_def my_rw_wrlock_enter_def wrap_int_id)
  ultimately show ?thesis using step by blast
qed

theorem my_rw_lock_exclusion_witness:
  "let s = \<lparr>rw = \<lparr>state = 1, waiters = 1\<rparr>, pc = (\<lambda>_. No_Lock)(0 := Has_Read, 1 := Wait_Write)\<rparr> in
     my_rw_reachable {0, 1} s \<and> waiters (rw s) = int (card {t. pc s t = Wait_Write \<or> pc s t = Woken_Write})"
  unfolding Let_def using my_rw_lock_exclusion [OF _ _ sample_rw_run, of 0 1] sample_rw_run by simp

text \<open>
  C2: From every state that less than \<open>2 ^ 31\<close> threads can reach, when no new request comes, the threads that are awake or hold the lock can go on for
  at most \<open>n (n + 2)\<close> steps; when none of them can, every thread that waited has had the lock in the
  mode it asked for and every thread has left.  In particular no wake-up is lost and no thread is left asleep.
\<close>

theorem my_rw_lock_serves:
  assumes "finite T" "card T < 2 ^ 31" "my_rw_reachable T s" "is_run (my_rw_quiet T) s r"
  shows "length r \<le> card T * (card T + 2) \<and>
    ((\<nexists>u s'. my_rw_quiet T (end_state s r) u s') \<longrightarrow> pc (end_state s r) t = No_Lock \<and>
      (pc s t = Wait_Read \<or> pc s t = Woken_Read \<longrightarrow> (\<exists>(u, s') \<in> set r. u = t \<and> pc s' t = Has_Read)) \<and>
      (pc s t = Wait_Write \<or> pc s t = Woken_Write \<longrightarrow> (\<exists>(u, s') \<in> set r. u = t \<and> pc s' t = Has_Write)))"
proof -
  have i: "finite T \<and> card T < 2 ^ 31 \<and> rw_inv T s" using rw_reachable_inv [OF assms(3,1,2)] assms(1,2) by blast
  have "length r \<le> card T * (card T + 2)"
    using my_rw_service.run_bounded [OF i assms(4)] total_effort_bound [of T "rw_phase s"] by linarith
  moreover have "pc (end_state s r) t = No_Lock \<and>
      (pc s t = Wait_Read \<or> pc s t = Woken_Read \<longrightarrow> (\<exists>(u, s') \<in> set r. u = t \<and> pc s' t = Has_Read)) \<and>
      (pc s t = Wait_Write \<or> pc s t = Woken_Write \<longrightarrow> (\<exists>(u, s') \<in> set r. u = t \<and> pc s' t = Has_Write))"
    if e: "\<nexists>u s'. my_rw_quiet T (end_state s r) u s'"
  proof -
    note sv = my_rw_service.run_serves [OF i assms(4) e, of t]
    have "pc (end_state s r) t = No_Lock" using sv(1) by (simp add: rw_phase_def split: rw_pc.splits)
    moreover have "rw_phase s' t = Holding \<Longrightarrow> pc s' t = (if wants_write s' t then Has_Write else Has_Read)" for s'
      by (simp add: rw_phase_def wants_write_def split: rw_pc.splits)
    moreover have "pc s t = Wait_Read \<or> pc s t = Woken_Read \<or> pc s t = Wait_Write \<or> pc s t = Woken_Write \<Longrightarrow>
        rw_phase s t = Asleep \<or> rw_phase s t = Awake" by (auto simp: rw_phase_def)
    ultimately show ?thesis using sv(2) by (fastforce simp: wants_write_def)
  qed
  ultimately show ?thesis by blast
qed

theorem my_rw_lock_serves_witness:
  "let s = \<lparr>rw = \<lparr>state = 1, waiters = 1\<rparr>, pc = (\<lambda>_. No_Lock)(0 := Has_Read, 1 := Wait_Write)\<rparr>;
       s1 = \<lparr>rw = \<lparr>state = 0, waiters = 1\<rparr>, pc = (\<lambda>_. No_Lock)(1 := Woken_Write)\<rparr>;
       s2 = \<lparr>rw = \<lparr>state = -1, waiters = 0\<rparr>, pc = (\<lambda>_. No_Lock)(1 := Has_Write)\<rparr>;
       s3 = \<lparr>rw = \<lparr>state = 0, waiters = 0\<rparr>, pc = \<lambda>_. No_Lock\<rparr>;
       r = [(0, s1), (1, s2), (1, s3)]
   in is_run (my_rw_quiet {0, 1}) s r \<and> (\<nexists>u s'. my_rw_quiet {0, 1} (end_state s r) u s') \<and>
      length r \<le> card {0, 1 :: nat} * (card {0, 1 :: nat} + 2) \<and> (\<exists>(u, s') \<in> set r. u = 1 \<and> pc s' 1 = Has_Write)"
proof -
  let ?s = "\<lparr>rw = \<lparr>state = 1, waiters = 1\<rparr>, pc = (\<lambda>_. No_Lock)(0 := Has_Read, 1 := Wait_Write)\<rparr>"
  let ?s1 = "\<lparr>rw = \<lparr>state = 0, waiters = 1\<rparr>, pc = (\<lambda>_. No_Lock)(1 := Woken_Write)\<rparr>"
  let ?s2 = "\<lparr>rw = \<lparr>state = -1, waiters = 0\<rparr>, pc = (\<lambda>_. No_Lock)(1 := Has_Write)\<rparr>"
  let ?s3 = "\<lparr>rw = \<lparr>state = 0, waiters = 0\<rparr>, pc = \<lambda>_. No_Lock\<rparr>"
  let ?r = "[(0, ?s1), (1, ?s2), (1, ?s3)]"
  have n: "(\<lambda>_. No_Lock)(i := No_Lock) = (\<lambda>_. No_Lock)" for i :: nat by auto
  have "my_rw_step {0, 1} Unlock 0 ?s ?s1"
    using unlock [OF _ _ wakes_writer [of _ 1], of ?s 0 "\<lparr>state = 0, waiters = 1\<rparr>" "{0, 1}"]
    by (simp add: my_rw_unlock_def wrap_int_id fun_upd_twist n)
  moreover have "my_rw_step {0, 1} Resume 1 ?s1 ?s2"
    using writer_get [of ?s1 1 "\<lparr>state = -1, waiters = 0\<rparr>"] by (simp add: my_rw_wrlock_def wrap_int_id)
  moreover have "my_rw_step {0, 1} Unlock 1 ?s2 ?s3"
    using unlock [OF _ _ wakes_readers, of ?s2 1 "\<lparr>state = 0, waiters = 0\<rparr>" "{0, 1}"] by (simp add: my_rw_unlock_def n)
  ultimately have run: "is_run (my_rw_quiet {0, 1}) ?s ?r" by (simp add: my_rw_quiet_def)
  have stop: "\<nexists>u s'. my_rw_quiet {0, 1} (end_state ?s ?r) u s'"
    using rw_quiet_moves(1) [of "{0, 1}" ?s3] by (auto simp: retries_def releases_def rw_phase_def)
  have fin: "finite {0, 1 :: nat}" "card {0, 1 :: nat} < 2 ^ 31" by simp_all
  note sv = my_rw_lock_serves [OF fin sample_rw_run run, of 1]
  then have "(\<exists>(u, s') \<in> set ?r. u = 1 \<and> pc s' 1 = Has_Write)" using stop by simp
  then show ?thesis using sv run stop unfolding Let_def by blast
qed

end
