(* ===== verification/RwPrLock.thy ===== *)
theory RwPrLock
  imports LockService
begin

text \<open>The read/write lock \<open>rw_pr_lock_t\<close> of \<open>mysys/thr_rwlock.c\<close>, which prefers readers and keeps its mutex for
  the duration of a write lock: its operations as the source has them, the steps of the threads that use
  it, its invariant, mutual exclusion and that every request is served.\<close>

section \<open>The lock\<close>

record rw_pr_lock_t =
  active_readers :: nat
  writers_waiting_readers :: nat
  active_writer :: bool

text \<open>The counters are of type \<open>uint\<close>.\<close>

definition uinc :: "nat \<Rightarrow> nat" where "uinc n = (n + 1) mod 2 ^ 32"
definition udec :: "nat \<Rightarrow> nat" where "udec n = (n + (2 ^ 32 - 1)) mod 2 ^ 32"

definition rw_pr_init :: rw_pr_lock_t where
  "rw_pr_init = \<lparr>active_readers = 0, writers_waiting_readers = 0, active_writer = False\<rparr>"

definition rw_pr_rdlock :: "rw_pr_lock_t \<Rightarrow> rw_pr_lock_t" where
  "rw_pr_rdlock l = l\<lparr>active_readers := uinc (active_readers l)\<rparr>"

text \<open>
  \<open>rw_pr_wrlock\<close> up to its first wait and from the return of \<open>pthread_cond_wait\<close> to the next one; the first
  result is whether the lock was granted, and otherwise the thread waits.
\<close>

definition rw_pr_wrlock_enter :: "rw_pr_lock_t \<Rightarrow> bool \<times> rw_pr_lock_t" where
  "rw_pr_wrlock_enter l =
     (if active_readers l \<noteq> 0 then (False, l\<lparr>writers_waiting_readers := uinc (writers_waiting_readers l)\<rparr>)
      else (True, l\<lparr>active_writer := True\<rparr>))"

definition rw_pr_wrlock_resume :: "rw_pr_lock_t \<Rightarrow> bool \<times> rw_pr_lock_t" where
  "rw_pr_wrlock_resume l =
     (if active_readers l \<noteq> 0 then (False, l)
      else (True, l\<lparr>writers_waiting_readers := udec (writers_waiting_readers l), active_writer := True\<rparr>))"

text \<open>The first result is whether \<open>no_active_readers\<close> is signalled.\<close>

definition rw_pr_unlock :: "rw_pr_lock_t \<Rightarrow> bool \<times> rw_pr_lock_t" where
  "rw_pr_unlock l =
     (if active_writer l then (writers_waiting_readers l \<noteq> 0, l\<lparr>active_writer := False\<rparr>)
      else let n = udec (active_readers l)
           in (n = 0 \<and> writers_waiting_readers l \<noteq> 0, l\<lparr>active_readers := n\<rparr>))"

section \<open>Threads that use the lock\<close>

text \<open>
  A thread may wait for the mutex \<open>lock\<close> at the beginning of a call, wait on the condition variable,
  or wait for the mutex again after it was woken up.  A thread with the write lock keeps the mutex.
\<close>

datatype pr_pc = Pr_Idle | Pr_Rdlock | Pr_Wrlock | Pr_Wait | Pr_Woken | Pr_Reading | Pr_Writing

record pr_system =
  pr :: rw_pr_lock_t
  mutex :: "nat option"
  ppc :: "nat \<Rightarrow> pr_pc"

inductive pr_wakes :: "bool \<Rightarrow> (nat \<Rightarrow> pr_pc) \<Rightarrow> (nat \<Rightarrow> pr_pc) \<Rightarrow> bool" where
  pr_wakes_nobody: "pr_wakes False p p"
| pr_wakes_one: "p w = Pr_Wait \<Longrightarrow> pr_wakes True p (p(w := Pr_Woken))"
| pr_wakes_none: "\<forall>w. p w \<noteq> Pr_Wait \<Longrightarrow> pr_wakes True p p"

datatype pr_action = Pr_Call | Pr_Go | Pr_Unlock | Pr_Spurious

inductive rw_pr_step :: "nat set \<Rightarrow> pr_action \<Rightarrow> nat \<Rightarrow> pr_system \<Rightarrow> pr_system \<Rightarrow> bool" for T where
  pr_call_read: "t \<in> T \<Longrightarrow> ppc s t = Pr_Idle \<Longrightarrow> rw_pr_step T Pr_Call t s (s\<lparr>ppc := (ppc s)(t := Pr_Rdlock)\<rparr>)"
| pr_call_write: "t \<in> T \<Longrightarrow> ppc s t = Pr_Idle \<Longrightarrow> rw_pr_step T Pr_Call t s (s\<lparr>ppc := (ppc s)(t := Pr_Wrlock)\<rparr>)"
| pr_read: "ppc s t = Pr_Rdlock \<Longrightarrow> mutex s = None \<Longrightarrow>
    rw_pr_step T Pr_Go t s \<lparr>pr = rw_pr_rdlock (pr s), mutex = None, ppc = (ppc s)(t := Pr_Reading)\<rparr>"
| pr_write: "ppc s t = Pr_Wrlock \<Longrightarrow> mutex s = None \<Longrightarrow> rw_pr_wrlock_enter (pr s) = (granted, l) \<Longrightarrow>
    rw_pr_step T Pr_Go t s \<lparr>pr = l, mutex = (if granted then Some t else None),
      ppc = (ppc s)(t := if granted then Pr_Writing else Pr_Wait)\<rparr>"
| pr_resume: "ppc s t = Pr_Woken \<Longrightarrow> mutex s = None \<Longrightarrow> rw_pr_wrlock_resume (pr s) = (granted, l) \<Longrightarrow>
    rw_pr_step T Pr_Go t s \<lparr>pr = l, mutex = (if granted then Some t else None),
      ppc = (ppc s)(t := if granted then Pr_Writing else Pr_Wait)\<rparr>"
| pr_unlock: "ppc s t = Pr_Reading \<or> ppc s t = Pr_Writing \<Longrightarrow> active_writer (pr s) \<or> mutex s = None \<Longrightarrow>
    rw_pr_unlock (pr s) = (signal, l) \<Longrightarrow> pr_wakes signal ((ppc s)(t := Pr_Idle)) p \<Longrightarrow>
    rw_pr_step T Pr_Unlock t s \<lparr>pr = l, mutex = None, ppc = p\<rparr>"
| pr_spurious: "ppc s t = Pr_Wait \<Longrightarrow> rw_pr_step T Pr_Spurious t s (s\<lparr>ppc := (ppc s)(t := Pr_Woken)\<rparr>)"

inductive rw_pr_reachable :: "nat set \<Rightarrow> pr_system \<Rightarrow> bool" for T where
  pr_start: "rw_pr_reachable T \<lparr>pr = rw_pr_init, mutex = None, ppc = \<lambda>_. Pr_Idle\<rparr>"
| pr_next: "rw_pr_reachable T s \<Longrightarrow> rw_pr_step T a t s s' \<Longrightarrow> rw_pr_reachable T s'"

definition pr_inv :: "nat set \<Rightarrow> pr_system \<Rightarrow> bool" where
  "pr_inv T s \<longleftrightarrow> (\<forall>t. t \<notin> T \<longrightarrow> ppc s t = Pr_Idle) \<and>
     (case mutex s of
        None \<Rightarrow> \<not> active_writer (pr s) \<and> tally (ppc s) Pr_Writing = 0 \<and> int (active_readers (pr s)) = tally (ppc s) Pr_Reading
      | Some t \<Rightarrow> ppc s t = Pr_Writing \<and> active_writer (pr s) \<and> tally (ppc s) Pr_Writing = 1 \<and>
          tally (ppc s) Pr_Reading = 0 \<and> active_readers (pr s) = 0) \<and>
     int (writers_waiting_readers (pr s)) = tally (ppc s) Pr_Wait + tally (ppc s) Pr_Woken \<and>
     (mutex s = None \<and> active_readers (pr s) = 0 \<and> writers_waiting_readers (pr s) \<noteq> 0 \<longrightarrow> 1 \<le> tally (ppc s) Pr_Woken)"

lemma pr_inv_start: "pr_inv T \<lparr>pr = rw_pr_init, mutex = None, ppc = \<lambda>_. Pr_Idle\<rparr>"
  by (simp add: pr_inv_def rw_pr_init_def tally_def)

lemma pr_inv_finite: "finite T \<Longrightarrow> pr_inv T s \<Longrightarrow> v \<noteq> Pr_Idle \<Longrightarrow> finite {t. ppc s t = v}"
  by (rule finite_others [of T "ppc s" Pr_Idle]) (auto simp: pr_inv_def)

text \<open>The counters do not overflow with less than \<open>2 ^ 32\<close> threads.\<close>

lemma uint_counters:
  "n + 1 < 2 ^ 32 \<Longrightarrow> uinc n = n + 1" "0 < n \<Longrightarrow> n < 2 ^ 32 \<Longrightarrow> udec n = n - 1"
proof -
  show "n + 1 < 2 ^ 32 \<Longrightarrow> uinc n = n + 1" by (simp add: uinc_def)
  assume "0 < n" "n < 2 ^ 32"
  then obtain k where "n = Suc k" by (cases n) auto
  then show "udec n = n - 1" using \<open>n < 2 ^ 32\<close> by (simp add: udec_def)
qed

lemma pr_inv_unlock:
  assumes fin: "finite T" "card T < 2 ^ 32" and inv: "pr_inv T s" and t: "ppc s t = Pr_Reading \<or> ppc s t = Pr_Writing"
    and u: "rw_pr_unlock (pr s) = (signal, l)" "pr_wakes signal ((ppc s)(t := Pr_Idle)) p"
  shows "pr_inv T \<lparr>pr = l, mutex = None, ppc = p\<rparr>"
proof -
  note fs = pr_inv_finite [OF fin(1) inv]
  define q where "q = (ppc s)(t := Pr_Idle)"
  have idle: "\<forall>t. t \<notin> T \<longrightarrow> q t = Pr_Idle" "\<forall>t. t \<notin> T \<longrightarrow> ppc s t = Pr_Idle" using inv by (simp_all add: q_def pr_inv_def)
  note fq = finite_others [OF fin(1) idle(1)]
  have up: "v \<noteq> Pr_Idle \<Longrightarrow> tally q v = tally (ppc s) v - (if ppc s t = v then 1 else 0)" for v
    using tally_update [OF fs] by (simp add: q_def)
  have pos: "1 \<le> tally (ppc s) (ppc s t)" using tally_pos [OF fs] t by auto
  have "tally (ppc s) Pr_Reading + tally (ppc s) Pr_Writing \<le> int (card T)" by (rule tally_bound [OF fin(1) idle(2)]) simp_all
  then have b: "tally (ppc s) Pr_Reading < 2 ^ 32" using fin(2) tally_nonneg [of "ppc s" Pr_Writing] by simp
  note nn = tally_nonneg [of q Pr_Wait] tally_nonneg [of q Pr_Woken] tally_nonneg [of "ppc s" Pr_Writing]
  note inv = inv [unfolded pr_inv_def]
  have r: "\<not> active_writer l" "tally q Pr_Writing = 0" "int (active_readers l) = tally q Pr_Reading"
    "int (writers_waiting_readers l) = tally q Pr_Wait + tally q Pr_Woken"
    "signal \<longleftrightarrow> active_readers l = 0 \<and> writers_waiting_readers l \<noteq> 0"
  proof -
    consider "ppc s t = Pr_Reading" "\<not> active_writer (pr s)" "int (active_readers (pr s)) = tally (ppc s) Pr_Reading" "tally (ppc s) Pr_Writing = 0"
      | "ppc s t = Pr_Writing" "active_writer (pr s)" "tally (ppc s) Pr_Writing = 1" "tally (ppc s) Pr_Reading = 0" "active_readers (pr s) = 0"
      using inv t pos by (auto split: option.splits)
    then have "\<not> active_writer l \<and> tally q Pr_Writing = 0 \<and> int (active_readers l) = tally q Pr_Reading \<and>
      writers_waiting_readers l = writers_waiting_readers (pr s) \<and> (signal \<longleftrightarrow> active_readers l = 0 \<and> writers_waiting_readers l \<noteq> 0)"
    proof cases
      case 1
      have "0 < active_readers (pr s)" "active_readers (pr s) < 2 ^ 32" using 1(1,3) pos b by simp_all
      then have "udec (active_readers (pr s)) = active_readers (pr s) - 1" by (rule uint_counters(2))
      then show ?thesis using 1 u(1) up pos by (auto simp: rw_pr_unlock_def Let_def of_nat_diff)
    next
      case 2
      then show ?thesis using u(1) up by (auto simp: rw_pr_unlock_def)
    qed
    then show "\<not> active_writer l" "tally q Pr_Writing = 0" "int (active_readers l) = tally q Pr_Reading"
      "int (writers_waiting_readers l) = tally q Pr_Wait + tally q Pr_Woken"
      "signal \<longleftrightarrow> active_readers l = 0 \<and> writers_waiting_readers l \<noteq> 0" using inv up t by auto
  qed
  from u(2) show ?thesis
    unfolding q_def [symmetric]
  proof cases
    case pr_wakes_nobody
    then show ?thesis using r idle by (auto simp: pr_inv_def)
  next
    case (pr_wakes_one w)
    have "v \<noteq> Pr_Idle \<Longrightarrow> tally p v = tally q v - (if Pr_Wait = v then 1 else 0) + (if Pr_Woken = v then 1 else 0)" for v
      using tally_update [OF fq] pr_wakes_one by simp
    moreover have "w \<in> T" using idle pr_wakes_one(3) by force
    ultimately show ?thesis using r idle pr_wakes_one(2) nn by (auto simp: pr_inv_def)
  next
    case pr_wakes_none
    have "tally q Pr_Wait = 0" using tally_0 [OF fq] pr_wakes_none(3) by simp
    then show ?thesis using r idle pr_wakes_none(1,2) by (auto simp: pr_inv_def)
  qed
qed

lemma pr_inv_step:
  assumes fin: "finite T" "card T < 2 ^ 32" and "pr_inv T s" "rw_pr_step T a t s s'"
  shows "pr_inv T s'"
proof -
  note fs = pr_inv_finite [OF fin(1) assms(3)]
  note up = tally_update [OF fs]
  note inv = assms(3) [unfolded pr_inv_def]
  have tT: "t \<in> T" if "ppc s t \<noteq> Pr_Idle" using inv that by blast
  have pos: "ppc s t = v \<Longrightarrow> v \<noteq> Pr_Idle \<Longrightarrow> 1 \<le> tally (ppc s) v" for v using tally_pos [OF fs] by blast
  have bound: "tally p v + tally p w < 2 ^ 32" if "\<forall>t. t \<notin> T \<longrightarrow> p t = Pr_Idle" "v \<noteq> Pr_Idle" "w \<noteq> Pr_Idle" "v \<noteq> w" for p :: "nat \<Rightarrow> pr_pc" and v w
    using tally_bound [OF fin(1) that] fin(2) by simp
  note nn = tally_nonneg [of "ppc s" Pr_Wait] tally_nonneg [of "ppc s" Pr_Woken] tally_nonneg [of "ppc s" Pr_Writing] tally_nonneg [of "ppc s" Pr_Reading]
  have free: "\<not> active_writer (pr s)" "tally (ppc s) Pr_Writing = 0" "int (active_readers (pr s)) = tally (ppc s) Pr_Reading" if "mutex s = None"
    using inv that by auto
  from assms(4) show ?thesis
  proof cases
    case pr_call_read
    then show ?thesis using inv up by (auto simp: pr_inv_def split: option.splits)
  next
    case pr_call_write
    then show ?thesis using inv up by (auto simp: pr_inv_def split: option.splits)
  next
    case pr_read
    let ?p = "(ppc s)(t := Pr_Reading)"
    have "tally ?p Pr_Reading + tally ?p Pr_Writing < 2 ^ 32" by (rule bound) (use inv tT pr_read in auto)
    then have "active_readers (pr s) + 1 < 2 ^ 32" using up [of Pr_Reading] up [of Pr_Writing] free pr_read nn by simp
    then have "uinc (active_readers (pr s)) = active_readers (pr s) + 1" by (rule uint_counters(1))
    then show ?thesis using inv up tT pr_read free by (auto simp: pr_inv_def rw_pr_rdlock_def)
  next
    case (pr_write granted l)
    let ?p = "(ppc s)(t := Pr_Wait)"
    have "tally ?p Pr_Wait + tally ?p Pr_Woken < 2 ^ 32" by (rule bound) (use inv tT pr_write in auto)
    then have "writers_waiting_readers (pr s) + 1 < 2 ^ 32" using up [of Pr_Wait] up [of Pr_Woken] inv pr_write by simp
    then have "uinc (writers_waiting_readers (pr s)) = writers_waiting_readers (pr s) + 1" by (rule uint_counters(1))
    then show ?thesis using inv up tT pr_write free by (auto simp: pr_inv_def rw_pr_wrlock_enter_def split: if_splits)
  next
    case (pr_resume granted l)
    have "tally (ppc s) Pr_Wait + tally (ppc s) Pr_Woken < 2 ^ 32" by (rule bound) (use inv in auto)
    then have "0 < writers_waiting_readers (pr s)" "writers_waiting_readers (pr s) < 2 ^ 32"
      using inv pos [of Pr_Woken] pr_resume nn by auto
    then have "udec (writers_waiting_readers (pr s)) = writers_waiting_readers (pr s) - 1" "1 \<le> writers_waiting_readers (pr s)"
      by (simp_all add: uint_counters(2))
    then show ?thesis using inv up tT pr_resume free by (auto simp: pr_inv_def rw_pr_wrlock_resume_def of_nat_diff split: if_splits)
  next
    case (pr_unlock signal l p)
    then show ?thesis using pr_inv_unlock [OF fin assms(3)] by blast
  next
    case pr_spurious
    then show ?thesis using inv up tT pos nn by (auto simp: pr_inv_def split: option.splits)
  qed
qed

definition pr_phase :: "pr_system \<Rightarrow> nat \<Rightarrow> phase" where
  "pr_phase s t = (case ppc s t of Pr_Idle \<Rightarrow> Idle | Pr_Rdlock \<Rightarrow> Awake | Pr_Wrlock \<Rightarrow> Awake | Pr_Wait \<Rightarrow> Asleep
     | Pr_Woken \<Rightarrow> Awake | Pr_Reading \<Rightarrow> Holding | Pr_Writing \<Rightarrow> Holding)"

definition pr_wants_write :: "pr_system \<Rightarrow> nat \<Rightarrow> bool" where
  "pr_wants_write s t \<longleftrightarrow> ppc s t \<noteq> Pr_Rdlock \<and> ppc s t \<noteq> Pr_Reading"

definition rw_pr_quiet :: "nat set \<Rightarrow> pr_system \<Rightarrow> nat \<Rightarrow> pr_system \<Rightarrow> bool" where
  "rw_pr_quiet T s t s' \<longleftrightarrow> rw_pr_step T Pr_Go t s s' \<or> rw_pr_step T Pr_Unlock t s s'"

inductive_cases pr_goE: "rw_pr_step T Pr_Go t s s'"
inductive_cases pr_unlockE: "rw_pr_step T Pr_Unlock t s s'"

lemma pr_go_enabled:
  assumes "ppc s t = Pr_Rdlock \<or> ppc s t = Pr_Wrlock \<or> ppc s t = Pr_Woken" "mutex s = None"
  shows "\<exists>s'. rw_pr_step T Pr_Go t s s'"
proof -
  obtain g l g' l' where "rw_pr_wrlock_enter (pr s) = (g, l)" "rw_pr_wrlock_resume (pr s) = (g', l')" by fastforce
  then show ?thesis using assms pr_read pr_write pr_resume by blast
qed

lemma pr_unlock_enabled:
  assumes "ppc s t = Pr_Reading \<or> ppc s t = Pr_Writing" "active_writer (pr s) \<or> mutex s = None"
  shows "\<exists>s'. rw_pr_step T Pr_Unlock t s s'"
proof -
  obtain sg l where u: "rw_pr_unlock (pr s) = (sg, l)" by fastforce
  have "\<exists>p. pr_wakes sg ((ppc s)(t := Pr_Idle)) p"
    by (cases sg; cases "\<exists>w. ((ppc s)(t := Pr_Idle)) w = Pr_Wait") (metis (full_types) pr_wakes.intros)+
  then show ?thesis using pr_unlock [OF assms u] by blast
qed

lemma pr_wakes_pc: "pr_wakes sg p p' \<Longrightarrow> p' u = p u \<or> p u = Pr_Wait \<and> p' u = Pr_Woken"
  by (cases rule: pr_wakes.cases, assumption) auto

lemma pr_quiet_moves:
  assumes "rw_pr_quiet T s t s'"
  shows "retries (pr_phase s) t (pr_phase s') \<or> releases (pr_phase s) t (pr_phase s')"
    and "pr_phase s u \<noteq> Idle \<Longrightarrow> pr_phase s' u \<noteq> Idle \<Longrightarrow> pr_wants_write s' u = pr_wants_write s u"
proof -
  consider "rw_pr_step T Pr_Go t s s'" | "rw_pr_step T Pr_Unlock t s s'" using assms by (auto simp: rw_pr_quiet_def)
  then have "(retries (pr_phase s) t (pr_phase s') \<or> releases (pr_phase s) t (pr_phase s')) \<and>
    (pr_phase s u \<noteq> Idle \<longrightarrow> pr_phase s' u \<noteq> Idle \<longrightarrow> pr_wants_write s' u = pr_wants_write s u)"
  proof cases
    case 1
    then show ?thesis
      by (cases rule: pr_goE, assumption) (auto simp: retries_def pr_phase_def pr_wants_write_def)
  next
    case 2
    then obtain sg l p where u: "ppc s t = Pr_Reading \<or> ppc s t = Pr_Writing" "pr_wakes sg ((ppc s)(t := Pr_Idle)) p"
        "s' = \<lparr>pr = l, mutex = None, ppc = p\<rparr>"
      by (cases rule: pr_unlockE, assumption) blast
    have p: "p v = ((ppc s)(t := Pr_Idle)) v \<or> ((ppc s)(t := Pr_Idle)) v = Pr_Wait \<and> p v = Pr_Woken" for v
      by (rule pr_wakes_pc [OF u(2)])
    have "p t = Pr_Idle" using p [of t] by simp
    moreover have "pr_phase s' v = pr_phase s v \<or> pr_phase s v = Asleep \<and> pr_phase s' v = Awake" if "v \<noteq> t" for v
      using p [of v] that u(3) by (auto simp: pr_phase_def)
    ultimately have "releases (pr_phase s) t (pr_phase s')"
      using u(1,3) unfolding releases_def by (auto simp: pr_phase_def)
    moreover have "pr_phase s u \<noteq> Idle \<longrightarrow> pr_phase s' u \<noteq> Idle \<longrightarrow> pr_wants_write s' u = pr_wants_write s u"
      using p [of u] u(3) by (cases "u = t") (auto simp: pr_phase_def pr_wants_write_def)
    ultimately show ?thesis by blast
  qed
  then show "retries (pr_phase s) t (pr_phase s') \<or> releases (pr_phase s) t (pr_phase s')"
    "pr_phase s u \<noteq> Idle \<Longrightarrow> pr_phase s' u \<noteq> Idle \<Longrightarrow> pr_wants_write s' u = pr_wants_write s u" by blast+
qed

lemma pr_progress:
  assumes "finite T" "pr_inv T s" "pr_phase s t \<noteq> Idle"
  shows "\<exists>u s'. rw_pr_quiet T s u s'"
proof (cases "mutex s")
  case (Some w)
  then have "ppc s w = Pr_Writing" "active_writer (pr s)" using assms(2) by (auto simp: pr_inv_def)
  then show ?thesis using pr_unlock_enabled [of s w T] by (auto simp: rw_pr_quiet_def)
next
  case None
  note fs = pr_inv_finite [OF assms(1,2)]
  show ?thesis
  proof (cases "\<exists>u. ppc s u \<in> {Pr_Rdlock, Pr_Wrlock, Pr_Woken, Pr_Reading}")
    case True
    then show ?thesis using pr_go_enabled [OF _ None] pr_unlock_enabled None by (fastforce simp: rw_pr_quiet_def)
  next
    case False
    have z: "tally (ppc s) Pr_Reading = 0" "tally (ppc s) Pr_Woken = 0" using False tally_0 [OF fs] by auto
    then have "tally (ppc s) Pr_Wait = 0" "tally (ppc s) Pr_Writing = 0" using assms(2) None by (auto simp: pr_inv_def)
    then have "ppc s t = Pr_Idle" using False tally_0 [OF fs] by (cases "ppc s t") auto
    then show ?thesis using assms(3) by (simp add: pr_phase_def)
  qed
qed

interpretation rw_pr_service: lock_service T "\<lambda>s. finite T \<and> card T < 2 ^ 32 \<and> pr_inv T s" pr_phase "rw_pr_quiet T" pr_wants_write for T
proof unfold_locales
  show "pr_phase s t = Idle" if "finite T \<and> card T < 2 ^ 32 \<and> pr_inv T s" "t \<notin> T" for s t
    using that by (simp add: pr_inv_def pr_phase_def)
  show "finite T \<and> card T < 2 ^ 32 \<and> pr_inv T s'" if "finite T \<and> card T < 2 ^ 32 \<and> pr_inv T s" "rw_pr_quiet T s t s'" for s t s'
    using that pr_inv_step unfolding rw_pr_quiet_def by blast
  show "\<exists>u s'. rw_pr_quiet T s u s'" if "finite T \<and> card T < 2 ^ 32 \<and> pr_inv T s" "pr_phase s t \<noteq> Idle" for s t
    using that pr_progress by blast
qed (use pr_quiet_moves in blast)+

lemma pr_reachable_inv: "rw_pr_reachable T s \<Longrightarrow> finite T \<Longrightarrow> card T < 2 ^ 32 \<Longrightarrow> pr_inv T s"
  by (induction rule: rw_pr_reachable.induct) (blast intro: pr_inv_start pr_inv_step)+

section \<open>Properties of the lock\<close>

text \<open>
  C9: In every state that fewer than \<open>2 ^ 32\<close> threads can reach with the lock, a thread that has it for writing is the
  only one that has it, it owns the mutex, and \<open>active_writer\<close> is set then and only then; the two
  counters are the numbers of readers and of waiting writers.
\<close>

theorem rw_pr_lock_exclusion:
  assumes "finite T" "card T < 2 ^ 32" "rw_pr_reachable T s"
  shows "(ppc s t = Pr_Writing \<longrightarrow> mutex s = Some t \<and> (ppc s u = Pr_Reading \<or> ppc s u = Pr_Writing \<longrightarrow> u = t)) \<and>
    (active_writer (pr s) \<longleftrightarrow> (\<exists>t. ppc s t = Pr_Writing)) \<and> active_readers (pr s) = card {t. ppc s t = Pr_Reading} \<and>
    writers_waiting_readers (pr s) = card {t. ppc s t = Pr_Wait} + card {t. ppc s t = Pr_Woken}"
proof -
  have inv: "pr_inv T s" by (rule pr_reachable_inv [OF assms(3,1,2)])
  note fs = pr_inv_finite [OF assms(1) inv]
  show ?thesis
  proof (cases "mutex s")
    case None
    then have "tally (ppc s) Pr_Writing = 0" using inv by (simp add: pr_inv_def)
    then have "\<forall>t. ppc s t \<noteq> Pr_Writing" using tally_0 [OF fs] by simp
    then show ?thesis using None inv by (auto simp: pr_inv_def tally_def)
  next
    case (Some w)
    then have w: "ppc s w = Pr_Writing" "tally (ppc s) Pr_Writing = 1" "tally (ppc s) Pr_Reading = 0" using inv by (auto simp: pr_inv_def)
    have "card {t. ppc s t = Pr_Writing} = 1" using w(2) by (simp add: tally_def)
    then obtain v where v: "{t. ppc s t = Pr_Writing} = {v}" by (rule card_1_singletonE)
    have only: "x = w" if "ppc s x = Pr_Writing" for x
    proof -
      have "x \<in> {v}" "w \<in> {v}" using that w(1) unfolding v [symmetric] by simp_all
      then show ?thesis by simp
    qed
    have nr: "\<forall>x. ppc s x \<noteq> Pr_Reading" using w(3) tally_0 [OF fs] by simp
    have "mutex s = Some t \<and> (ppc s u = Pr_Reading \<or> ppc s u = Pr_Writing \<longrightarrow> u = t)" if "ppc s t = Pr_Writing"
      using Some only [OF that] only [of u] nr by auto
    then show ?thesis using Some inv w(1) by (auto simp: pr_inv_def tally_def)
  qed
qed

text \<open>
  C5: From every such state, when no new request comes, the threads can go on for at most \<open>n (n + 2)\<close> steps; when
  none of them can, every thread that had called \<open>rw_pr_rdlock\<close> or \<open>rw_pr_wrlock\<close> has had the lock in this
  mode and every thread has left: no signal is lost and no unlock blocks for ever.
\<close>

theorem rw_pr_lock_serves:
  assumes "finite T" "card T < 2 ^ 32" "rw_pr_reachable T s" "is_run (rw_pr_quiet T) s r"
  shows "length r \<le> card T * (card T + 2) \<and>
    ((\<nexists>u s'. rw_pr_quiet T (end_state s r) u s') \<longrightarrow> ppc (end_state s r) t = Pr_Idle \<and>
      (ppc s t = Pr_Rdlock \<longrightarrow> (\<exists>(u, s') \<in> set r. u = t \<and> ppc s' t = Pr_Reading)) \<and>
      (ppc s t = Pr_Wrlock \<or> ppc s t = Pr_Wait \<or> ppc s t = Pr_Woken \<longrightarrow> (\<exists>(u, s') \<in> set r. u = t \<and> ppc s' t = Pr_Writing)))"
proof -
  have i: "finite T \<and> card T < 2 ^ 32 \<and> pr_inv T s" using pr_reachable_inv [OF assms(3,1,2)] assms(1,2) by blast
  have "length r \<le> card T * (card T + 2)"
    using rw_pr_service.run_bounded [OF i assms(4)] total_effort_bound [of T "pr_phase s"] by linarith
  moreover have "ppc (end_state s r) t = Pr_Idle \<and>
      (ppc s t = Pr_Rdlock \<longrightarrow> (\<exists>(u, s') \<in> set r. u = t \<and> ppc s' t = Pr_Reading)) \<and>
      (ppc s t = Pr_Wrlock \<or> ppc s t = Pr_Wait \<or> ppc s t = Pr_Woken \<longrightarrow> (\<exists>(u, s') \<in> set r. u = t \<and> ppc s' t = Pr_Writing))"
    if e: "\<nexists>u s'. rw_pr_quiet T (end_state s r) u s'"
  proof -
    note sv = rw_pr_service.run_serves [OF i assms(4) e, of t]
    have "ppc (end_state s r) t = Pr_Idle" using sv(1) by (simp add: pr_phase_def split: pr_pc.splits)
    moreover have "pr_phase s' t = Holding \<Longrightarrow> ppc s' t = (if pr_wants_write s' t then Pr_Writing else Pr_Reading)" for s'
      by (simp add: pr_phase_def pr_wants_write_def split: pr_pc.splits)
    moreover have "ppc s t = Pr_Rdlock \<or> ppc s t = Pr_Wrlock \<or> ppc s t = Pr_Wait \<or> ppc s t = Pr_Woken \<Longrightarrow>
        pr_phase s t = Asleep \<or> pr_phase s t = Awake" by (auto simp: pr_phase_def)
    ultimately show ?thesis using sv(2) by (fastforce simp: pr_wants_write_def)
  qed
  ultimately show ?thesis by blast
qed

lemma sample_pr_run:
  "rw_pr_reachable {0, 1} \<lparr>pr = \<lparr>active_readers = 1, writers_waiting_readers = 0, active_writer = False\<rparr>, mutex = None,
     ppc = (\<lambda>_. Pr_Idle)(0 := Pr_Reading, 1 := Pr_Wrlock)\<rparr>"
proof -
  let ?s0 = "\<lparr>pr = rw_pr_init, mutex = None, ppc = \<lambda>_. Pr_Idle\<rparr>"
  let ?s1 = "?s0\<lparr>ppc := (\<lambda>_. Pr_Idle)(0 := Pr_Rdlock)\<rparr>"
  let ?l = "\<lparr>active_readers = 1, writers_waiting_readers = 0, active_writer = False\<rparr>"
  let ?s2 = "\<lparr>pr = ?l, mutex = None, ppc = (\<lambda>_. Pr_Idle)(0 := Pr_Reading)\<rparr>"
  have "rw_pr_step {0, 1} Pr_Call 0 ?s0 ?s1" using pr_call_read [of 0 "{0, 1}" ?s0] by simp
  then have r1: "rw_pr_reachable {0, 1} ?s1" using pr_start pr_next by blast
  have "rw_pr_step {0, 1} Pr_Go 0 ?s1 ?s2"
    using pr_read [of ?s1 0] by (simp add: rw_pr_rdlock_def rw_pr_init_def uinc_def)
  then have r2: "rw_pr_reachable {0, 1} ?s2" using r1 pr_next by blast
  have "rw_pr_step {0, 1} Pr_Call 1 ?s2 (?s2\<lparr>ppc := (\<lambda>_. Pr_Idle)(0 := Pr_Reading, 1 := Pr_Wrlock)\<rparr>)"
    using pr_call_write [of 1 "{0, 1}" ?s2] by simp
  then show ?thesis using r2 pr_next by fastforce
qed

theorem rw_pr_lock_exclusion_witness:
  "let s = \<lparr>pr = \<lparr>active_readers = 1, writers_waiting_readers = 0, active_writer = False\<rparr>, mutex = None,
         ppc = (\<lambda>_. Pr_Idle)(0 := Pr_Reading, 1 := Pr_Wrlock)\<rparr> in
     rw_pr_reachable {0, 1} s \<and> active_readers (pr s) = card {t. ppc s t = Pr_Reading}"
  unfolding Let_def using rw_pr_lock_exclusion [OF _ _ sample_pr_run, of 0 1] sample_pr_run by (simp del: fun_upd_apply)

theorem rw_pr_lock_serves_witness:
  "let s = \<lparr>pr = \<lparr>active_readers = 1, writers_waiting_readers = 0, active_writer = False\<rparr>, mutex = None,
         ppc = (\<lambda>_. Pr_Idle)(0 := Pr_Reading, 1 := Pr_Wrlock)\<rparr>;
       l = \<lparr>active_readers = 0, writers_waiting_readers = 0, active_writer = False\<rparr>;
       s1 = \<lparr>pr = l, mutex = None, ppc = (\<lambda>_. Pr_Idle)(1 := Pr_Wrlock)\<rparr>;
       s2 = \<lparr>pr = l\<lparr>active_writer := True\<rparr>, mutex = Some 1, ppc = (\<lambda>_. Pr_Idle)(1 := Pr_Writing)\<rparr>;
       s3 = \<lparr>pr = l, mutex = None, ppc = \<lambda>_. Pr_Idle\<rparr>;
       r = [(0, s1), (1, s2), (1, s3)]
   in is_run (rw_pr_quiet {0, 1}) s r \<and> (\<nexists>u s'. rw_pr_quiet {0, 1} (end_state s r) u s') \<and>
      length r \<le> card {0, 1 :: nat} * (card {0, 1 :: nat} + 2) \<and> (\<exists>(u, s') \<in> set r. u = 1 \<and> ppc s' 1 = Pr_Writing)"
proof -
  let ?s = "\<lparr>pr = \<lparr>active_readers = 1, writers_waiting_readers = 0, active_writer = False\<rparr>, mutex = None,
     ppc = (\<lambda>_. Pr_Idle)(0 := Pr_Reading, 1 := Pr_Wrlock)\<rparr>"
  let ?l = "\<lparr>active_readers = 0, writers_waiting_readers = 0, active_writer = False\<rparr>"
  let ?s1 = "\<lparr>pr = ?l, mutex = None, ppc = (\<lambda>_. Pr_Idle)(1 := Pr_Wrlock)\<rparr>"
  let ?s2 = "\<lparr>pr = ?l\<lparr>active_writer := True\<rparr>, mutex = Some 1, ppc = (\<lambda>_. Pr_Idle)(1 := Pr_Writing)\<rparr>"
  let ?s3 = "\<lparr>pr = ?l, mutex = None, ppc = \<lambda>_. Pr_Idle\<rparr>"
  let ?r = "[(0, ?s1), (1, ?s2), (1, ?s3)]"
  have n: "(\<lambda>_. Pr_Idle)(i := Pr_Idle) = (\<lambda>_. Pr_Idle)" for i :: nat by auto
  have "rw_pr_step {0, 1} Pr_Unlock 0 ?s ?s1"
    using pr_unlock [OF _ _ _ pr_wakes_nobody, of ?s 0 ?l "{0, 1}"]
    by (simp add: rw_pr_unlock_def udec_def fun_upd_twist n)
  moreover have "rw_pr_step {0, 1} Pr_Go 1 ?s1 ?s2"
    using pr_write [of ?s1 1 True "?l\<lparr>active_writer := True\<rparr>"] by (simp add: rw_pr_wrlock_enter_def)
  moreover have "rw_pr_step {0, 1} Pr_Unlock 1 ?s2 ?s3"
    using pr_unlock [OF _ _ _ pr_wakes_nobody, of ?s2 1 ?l "{0, 1}"] by (simp add: rw_pr_unlock_def n)
  ultimately have run: "is_run (rw_pr_quiet {0, 1}) ?s ?r" by (simp add: rw_pr_quiet_def)
  have stop: "\<nexists>u s'. rw_pr_quiet {0, 1} (end_state ?s ?r) u s'"
    using pr_quiet_moves(1) [of "{0, 1}" ?s3] by (auto simp: retries_def releases_def pr_phase_def)
  have fin: "finite {0, 1 :: nat}" "card {0, 1 :: nat} < 2 ^ 32" by simp_all
  note sv = rw_pr_lock_serves [OF fin sample_pr_run run, of 1]
  then have "(\<exists>(u, s') \<in> set ?r. u = 1 \<and> ppc s' 1 = Pr_Writing)" using stop by simp
  then show ?thesis using sv run stop unfolding Let_def by blast
qed

end
