(* ===== verification/Collation.thy ===== *)
theory Collation
  imports CInt
begin

text \<open>
  The collations of one byte per character: comparison, hash values and sort keys of strings/ctype-simple.c
  and strings/ctype-bin.c, with \<open>skip_trailing_space\<close> of strings/strings_def.h. A string is the list of its
  bytes. The lemmas relate every routine to one reference, the order of the padded lists of weights.
\<close>

section \<open>Character sets\<close>

text \<open>The fields of \<open>struct charset_info_st\<close> that the routines of an 8-bit collation read.\<close>

record charset_info_st =
  cs_state :: u32
  to_lower :: "u8 \<Rightarrow> u8"
  to_upper :: "u8 \<Rightarrow> u8"
  sort_order :: "u8 \<Rightarrow> u8"
  strxfrm_multiply :: nat
  mbminlen :: nat
  mbmaxlen :: nat
  min_sort_char :: u8
  max_sort_char :: u8
  pad_char :: u8

definition MY_CS_BINSORT :: u32 where "MY_CS_BINSORT = 16"
definition MY_CS_NOPAD :: u32 where "MY_CS_NOPAD = 0x20000"
definition MY_STRXFRM_PAD_WITH_SPACE :: u32 where "MY_STRXFRM_PAD_WITH_SPACE = 0x40"
definition MY_STRXFRM_PAD_TO_MAXLEN :: u32 where "MY_STRXFRM_PAD_TO_MAXLEN = 0x80"
definition MY_STRXFRM_DESC_LEVEL1 :: u32 where "MY_STRXFRM_DESC_LEVEL1 = 0x100"
definition MY_STRXFRM_REVERSE_LEVEL1 :: u32 where "MY_STRXFRM_REVERSE_LEVEL1 = 0x10000"

section \<open>Comparison\<close>

text \<open>The loop over the common length: the difference of the first two weights that differ.\<close>

fun coll_loop :: "(u8 \<Rightarrow> u8) \<Rightarrow> u8 list \<Rightarrow> u8 list \<Rightarrow> int option" where
  "coll_loop so (x # s) (y # t) = (if so x \<noteq> so y then Some (uint (so x) - uint (so y)) else coll_loop so s t)"
| "coll_loop so _ _ = None"

definition my_strnncoll_simple :: "charset_info_st \<Rightarrow> u8 list \<Rightarrow> u8 list \<Rightarrow> bool \<Rightarrow> int" where
  "my_strnncoll_simple cs s t t_is_prefix =
     (let slen = (if t_is_prefix \<and> length s > length t then length t else length s)
      in case coll_loop (sort_order cs) s t of
           Some d \<Rightarrow> d
         | None \<Rightarrow> if slen > length t then 1 else if slen < length t then -1 else 0)"

text \<open>The loop over the rest of the longer string, which compares it with spaces.\<close>

fun pad_loop :: "(u8 \<Rightarrow> u8) \<Rightarrow> int \<Rightarrow> u8 list \<Rightarrow> int" where
  "pad_loop so swap [] = 0"
| "pad_loop so swap (x # s) =
     (if so x \<noteq> so 0x20 then if so x < so 0x20 then - swap else swap else pad_loop so swap s)"

definition my_strnncollsp_simple :: "charset_info_st \<Rightarrow> u8 list \<Rightarrow> u8 list \<Rightarrow> int" where
  "my_strnncollsp_simple cs a b =
     (let len = min (length a) (length b)
      in case coll_loop (sort_order cs) a b of
           Some d \<Rightarrow> d
         | None \<Rightarrow>
             if length a \<noteq> length b then
               if length a < length b then pad_loop (sort_order cs) (-1) (drop len b)
               else pad_loop (sort_order cs) 1 (drop len a)
             else 0)"

definition my_strnncollsp_nchars_simple :: "charset_info_st \<Rightarrow> u8 list \<Rightarrow> u8 list \<Rightarrow> nat \<Rightarrow> int" where
  "my_strnncollsp_nchars_simple cs a b nchars = my_strnncollsp_simple cs (take nchars a) (take nchars b)"

definition my_strnncollsp_simple_nopad :: "charset_info_st \<Rightarrow> u8 list \<Rightarrow> u8 list \<Rightarrow> int" where
  "my_strnncollsp_simple_nopad cs a b = my_strnncoll_simple cs a b False"

text \<open>
  \<open>memcmp\<close> of two buffers of one length: the sign is that of the first difference. The binary routines
  convert the difference of the lengths to \<open>int\<close>.
\<close>

fun memcmp :: "u8 list \<Rightarrow> u8 list \<Rightarrow> int" where
  "memcmp (x # s) (y # t) = (if x \<noteq> y then uint x - uint y else memcmp s t)"
| "memcmp _ _ = 0"

definition my_strnncoll_8bit_bin :: "u8 list \<Rightarrow> u8 list \<Rightarrow> bool \<Rightarrow> int" where
  "my_strnncoll_8bit_bin s t t_is_prefix =
     (let len = min (length s) (length t); cmp = memcmp (take len s) (take len t)
      in if cmp \<noteq> 0 then cmp
         else wrap_int (wrap_ulong (int (if t_is_prefix then len else length s) - int (length t))))"

definition my_strnncoll_binary :: "u8 list \<Rightarrow> u8 list \<Rightarrow> bool \<Rightarrow> int" where
  "my_strnncoll_binary s t t_is_prefix =
     (let len = min (length s) (length t); cmp = memcmp (take len s) (take len t)
      in if cmp \<noteq> 0 then cmp
         else wrap_int (wrap_ulong (int (if t_is_prefix then len else length s) - int (length t))))"

definition my_strnncollsp_binary :: "u8 list \<Rightarrow> u8 list \<Rightarrow> int" where
  "my_strnncollsp_binary s t = my_strnncoll_binary s t False"

definition my_strnncollsp_nchars_binary :: "u8 list \<Rightarrow> u8 list \<Rightarrow> nat \<Rightarrow> int" where
  "my_strnncollsp_nchars_binary s t nchars = my_strnncoll_binary (take nchars s) (take nchars t) False"

fun my_strnncollsp_padspace_bin :: "u8 list \<Rightarrow> int" where
  "my_strnncollsp_padspace_bin [] = 0"
| "my_strnncollsp_padspace_bin (x # s) =
     (if x < 0x20 then -1 else if x > 0x20 then 1 else my_strnncollsp_padspace_bin s)"

fun bin_loop :: "u8 list \<Rightarrow> u8 list \<Rightarrow> int option" where
  "bin_loop (x # s) (y # t) = (if x \<noteq> y then Some (uint x - uint y) else bin_loop s t)"
| "bin_loop _ _ = None"

definition my_strnncollsp_8bit_bin :: "u8 list \<Rightarrow> u8 list \<Rightarrow> int" where
  "my_strnncollsp_8bit_bin a b =
     (let len = min (length a) (length b)
      in case bin_loop a b of
           Some d \<Rightarrow> d
         | None \<Rightarrow> if length a = length b then 0
                   else if length a < length b then - my_strnncollsp_padspace_bin (drop len b)
                   else my_strnncollsp_padspace_bin (drop len a))"

definition my_strnncollsp_nchars_8bit_bin :: "u8 list \<Rightarrow> u8 list \<Rightarrow> nat \<Rightarrow> int" where
  "my_strnncollsp_nchars_8bit_bin a b nchars = my_strnncollsp_8bit_bin (take nchars a) (take nchars b)"

definition my_strnncollsp_8bit_nopad_bin :: "u8 list \<Rightarrow> u8 list \<Rightarrow> int" where
  "my_strnncollsp_8bit_nopad_bin a b = my_strnncoll_8bit_bin a b False"

section \<open>Trailing spaces\<close>

text \<open>
  \<open>skip_trailing_space\<close> at the address \<open>ptr\<close>: an end is an offset into the string. The loop over whole
  words compares four bytes with \<open>SPACE_INT\<close>, which is 0x20 in each of them.
\<close>

fun skip_bytes :: "u8 list \<Rightarrow> nat \<Rightarrow> nat \<Rightarrow> nat" where
  "skip_bytes s start 0 = 0"
| "skip_bytes s start (Suc e) = (if Suc e > start \<and> s ! e = 0x20 then skip_bytes s start e else Suc e)"

fun skip_words :: "u8 list \<Rightarrow> nat \<Rightarrow> nat \<Rightarrow> nat" where
  "skip_words s start e =
     (if e > start \<and> take 4 (drop (e - 4) s) = [0x20, 0x20, 0x20, 0x20] then skip_words s start (e - 4) else e)"

declare skip_words.simps [simp del]

definition skip_trailing_space :: "nat \<Rightarrow> u8 list \<Rightarrow> nat" where
  "skip_trailing_space ptr s =
     (let len = length s;
          end_words = (ptr + len) div 4 * 4;
          start_words = (ptr + 4 - 1) div 4 * 4;
          e = (if len > 20 \<and> end_words > ptr then
                 let e = skip_bytes s (end_words - ptr) len
                 in if s ! (e - 1) = 0x20 \<and> start_words < end_words then skip_words s (start_words - ptr) e else e
               else len)
      in skip_bytes s 0 e)"

section \<open>Hash values\<close>

definition MY_HASH_ADD :: "u64 \<times> u64 \<Rightarrow> u32 \<Rightarrow> u64 \<times> u64" where
  "MY_HASH_ADD = (\<lambda>(a, b) v. (a XOR (((a AND 63) + b) * ucast v + push_bit 8 a), b + 3))"

fun my_hash_sort_simple_nopad :: "charset_info_st \<Rightarrow> u8 list \<Rightarrow> u64 \<times> u64 \<Rightarrow> u64 \<times> u64" where
  "my_hash_sort_simple_nopad cs [] m = m"
| "my_hash_sort_simple_nopad cs (x # key) m = my_hash_sort_simple_nopad cs key (MY_HASH_ADD m (ucast (sort_order cs x)))"

text \<open>The loop that removes the trailing characters of the weight of a space.\<close>

fun hash_trim :: "(u8 \<Rightarrow> u8) \<Rightarrow> u8 list \<Rightarrow> nat \<Rightarrow> nat" where
  "hash_trim so key 0 = 0"
| "hash_trim so key (Suc e) = (if so (key ! e) \<noteq> so 0x20 then Suc e else hash_trim so key e)"

definition my_hash_sort_simple :: "charset_info_st \<Rightarrow> nat \<Rightarrow> u8 list \<Rightarrow> u64 \<times> u64 \<Rightarrow> u64 \<times> u64" where
  "my_hash_sort_simple cs ptr key m =
     (let e = (if length key > 16 then skip_trailing_space ptr key else length key)
      in my_hash_sort_simple_nopad cs (take (hash_trim (sort_order cs) key e) key) m)"

fun my_hash_sort_bin :: "u8 list \<Rightarrow> u64 \<times> u64 \<Rightarrow> u64 \<times> u64" where
  "my_hash_sort_bin [] m = m"
| "my_hash_sort_bin (x # key) m = my_hash_sort_bin key (MY_HASH_ADD m (ucast x))"

definition my_hash_sort_8bit_bin :: "nat \<Rightarrow> u8 list \<Rightarrow> u64 \<times> u64 \<Rightarrow> u64 \<times> u64" where
  "my_hash_sort_8bit_bin ptr key m = my_hash_sort_bin (take (skip_trailing_space ptr key) key) m"

section \<open>Sort keys\<close>

definition my_strnxfrmlen_simple :: "charset_info_st \<Rightarrow> nat \<Rightarrow> nat" where
  "my_strnxfrmlen_simple cs len = len * (if strxfrm_multiply cs \<noteq> 0 then strxfrm_multiply cs else 1)"

text \<open>The weights of a string, and the number of weights that remain.\<close>

definition my_strnxfrm_simple_internal :: "charset_info_st \<Rightarrow> nat \<Rightarrow> nat \<Rightarrow> u8 list \<Rightarrow> u8 list \<times> nat" where
  "my_strnxfrm_simple_internal cs dstlen nweights src =
     (let frmlen = (if min dstlen nweights > length src then length src else min dstlen nweights)
      in (map (sort_order cs) (take frmlen src), nweights - frmlen))"

text \<open>The loops of \<open>my_strxfrm_desc_and_reverse\<close> over the positions from \<open>i\<close> up to \<open>e\<close>, exclusive.\<close>

function desc_reverse_loop :: "u8 list \<Rightarrow> nat \<Rightarrow> nat \<Rightarrow> u8 list" where
  "desc_reverse_loop str i e =
     (if i < e then desc_reverse_loop ((str[i := NOT (str ! (e - 1))])[e - 1 := NOT (str ! i)]) (i + 1) (e - 1) else str)"
  by auto
termination by (relation "measure (\<lambda>(s, i, e). e - i)") auto

function reverse_loop :: "u8 list \<Rightarrow> nat \<Rightarrow> nat \<Rightarrow> u8 list" where
  "reverse_loop str i e =
     (if i + 1 < e then reverse_loop ((str[i := str ! (e - 1)])[e - 1 := str ! i]) (i + 1) (e - 1) else str)"
  by auto
termination by (relation "measure (\<lambda>(s, i, e). e - i)") auto

declare desc_reverse_loop.simps [simp del] reverse_loop.simps [simp del]

definition my_strxfrm_desc_and_reverse :: "u8 list \<Rightarrow> u32 \<Rightarrow> nat \<Rightarrow> u8 list" where
  "my_strxfrm_desc_and_reverse str flags level =
     (if flags AND push_bit level MY_STRXFRM_DESC_LEVEL1 \<noteq> 0 then
        if flags AND push_bit level MY_STRXFRM_REVERSE_LEVEL1 \<noteq> 0 then desc_reverse_loop str 0 (length str)
        else map (\<lambda>x. NOT x) str
      else if flags AND push_bit level MY_STRXFRM_REVERSE_LEVEL1 \<noteq> 0 then reverse_loop str 0 (length str)
      else str)"

text \<open>
  \<open>my_strxfrm_pad_desc_and_reverse\<close> on the bytes written so far into a buffer of \<open>dstlen\<close> bytes; the result
  is what the buffer holds up to the returned length.
\<close>

definition xfrm_fill :: "u8 list \<Rightarrow> nat \<Rightarrow> nat \<Rightarrow> u32 \<Rightarrow> nat \<Rightarrow> u8 \<Rightarrow> nat \<Rightarrow> u8 list" where
  "xfrm_fill str dstlen nweights flags level fill minlen =
     (let str = (if nweights \<noteq> 0 \<and> length str < dstlen \<and> flags AND MY_STRXFRM_PAD_WITH_SPACE \<noteq> 0
                 then str @ replicate (min ((dstlen - length str) mod 2 ^ 32) (nweights * minlen mod 2 ^ 32)) fill else str);
          str = my_strxfrm_desc_and_reverse str flags level
      in if flags AND MY_STRXFRM_PAD_TO_MAXLEN \<noteq> 0 \<and> length str < dstlen
         then str @ replicate (dstlen - length str) fill else str)"

definition my_strxfrm_pad_desc_and_reverse :: "charset_info_st \<Rightarrow> u8 list \<Rightarrow> nat \<Rightarrow> nat \<Rightarrow> u32 \<Rightarrow> nat \<Rightarrow> u8 list" where
  "my_strxfrm_pad_desc_and_reverse cs str dstlen nweights flags level =
     xfrm_fill str dstlen nweights flags level (pad_char cs) (mbminlen cs)"

definition my_strxfrm_pad_desc_and_reverse_nopad :: "charset_info_st \<Rightarrow> u8 list \<Rightarrow> nat \<Rightarrow> nat \<Rightarrow> u32 \<Rightarrow> nat \<Rightarrow> u8 list" where
  "my_strxfrm_pad_desc_and_reverse_nopad cs str dstlen nweights flags level =
     xfrm_fill str dstlen nweights flags level 0 (mbminlen cs)"

definition my_strnxfrm_simple :: "charset_info_st \<Rightarrow> nat \<Rightarrow> nat \<Rightarrow> u8 list \<Rightarrow> u32 \<Rightarrow> u8 list" where
  "my_strnxfrm_simple cs dstlen nweights src flags =
     (let (dst, nweights) = my_strnxfrm_simple_internal cs dstlen nweights src
      in my_strxfrm_pad_desc_and_reverse cs dst dstlen nweights flags 0)"

definition my_strnxfrm_simple_nopad :: "charset_info_st \<Rightarrow> nat \<Rightarrow> nat \<Rightarrow> u8 list \<Rightarrow> u32 \<Rightarrow> u8 list" where
  "my_strnxfrm_simple_nopad cs dstlen nweights src flags =
     (let (dst, nweights) = my_strnxfrm_simple_internal cs dstlen nweights src
      in my_strxfrm_pad_desc_and_reverse_nopad cs dst dstlen nweights flags 0)"

definition my_strnxfrm_8bit_bin :: "charset_info_st \<Rightarrow> nat \<Rightarrow> nat \<Rightarrow> u8 list \<Rightarrow> u32 \<Rightarrow> u8 list" where
  "my_strnxfrm_8bit_bin cs dstlen nweights src flags =
     (let src = take nweights (take dstlen src)
      in my_strxfrm_pad_desc_and_reverse cs src dstlen (nweights - length src) flags 0)"

definition my_strnxfrm_8bit_nopad_bin :: "charset_info_st \<Rightarrow> nat \<Rightarrow> nat \<Rightarrow> u8 list \<Rightarrow> u32 \<Rightarrow> u8 list" where
  "my_strnxfrm_8bit_nopad_bin cs dstlen nweights src flags =
     (let src = take nweights (take dstlen src)
      in my_strxfrm_pad_desc_and_reverse_nopad cs src dstlen (nweights - length src) flags 0)"

section \<open>The order of weights\<close>

text \<open>
  The reference: strings are compared by their weights, first difference first, after both are padded to
  one length. A PAD SPACE collation pads with the weight of a space, a NO PAD collation with a value
  below every weight.
\<close>

fun wcmp :: "int list \<Rightarrow> int list \<Rightarrow> int" where
  "wcmp (x # s) (y # t) = (if x \<noteq> y then x - y else wcmp s t)"
| "wcmp _ _ = 0"

definition wkey :: "(u8 \<Rightarrow> int) \<Rightarrow> int \<Rightarrow> nat \<Rightarrow> u8 list \<Rightarrow> int list" where
  "wkey w p n a = map w a @ replicate (n - length a) p"

lemma uint_inj [simp]: "uint (x :: u8) = uint y \<longleftrightarrow> x = y"
  by (simp add: word_uint_eq_iff)

lemma uint_not_minus [simp]: "uint (x :: u8) \<noteq> - 1"
  using uint_ge_0 [of x] by linarith

lemma wkey_Nil [simp]: "wkey w p n [] = replicate n p"
  by (simp add: wkey_def)

lemma wkey_Cons [simp]: "wkey w p (Suc n) (x # a) = w x # wkey w p n a"
  by (simp add: wkey_def)

lemma length_wkey [simp]: "length a \<le> n \<Longrightarrow> length (wkey w p n a) = n"
  by (simp add: wkey_def)

lemma wcmp_refl [simp]: "wcmp s s = 0"
  by (induction s) auto

lemma wcmp_swap: "wcmp t s = - wcmp s t"
  by (induction s t rule: wcmp.induct) auto

lemma wcmp_trans: "length s = length t \<Longrightarrow> length t = length u \<Longrightarrow> wcmp s t \<le> 0 \<Longrightarrow> wcmp t u \<le> 0 \<Longrightarrow> wcmp s u \<le> 0"
proof (induction s t arbitrary: u rule: wcmp.induct)
  case (1 x s y t)
  then show ?case by (cases u) (auto split: if_splits)
qed auto

lemma wcmp_eq_0: "length s = length t \<Longrightarrow> wcmp s t = 0 \<longleftrightarrow> s = t"
  by (induction s t rule: wcmp.induct) auto

lemma wcmp_pointwise: "list_all2 (\<le>) s t \<Longrightarrow> wcmp s t \<le> 0"
  by (induction rule: list_all2_induct) auto

lemma wcmp_append: "length s = length t \<Longrightarrow> wcmp (s @ u) (t @ u) = wcmp s t"
  by (induction s t rule: wcmp.induct) auto

lemma memcmp_wcmp: "memcmp s t = wcmp (map uint s) (map uint t)"
  by (induction s t rule: memcmp.induct) auto

section \<open>Each comparison follows it\<close>

lemma pad_loop_swap: "pad_loop so (- sw) s = - pad_loop so sw s"
  by (induction s) auto

lemma pad_loop_wcmp:
  "length s \<le> n \<Longrightarrow> pad_loop so 1 s = sgn (wcmp (wkey (\<lambda>x. uint (so x)) (uint (so 0x20)) n s) (replicate n (uint (so 0x20))))"
proof (induction s arbitrary: n)
  case (Cons x s)
  then obtain m where "n = Suc m" "length s \<le> m" by (cases n) auto
  then show ?case using Cons.IH [of m] by (auto simp: word_less_def not_less order_less_le)
qed simp

lemma collsp_simple_rec:
  "my_strnncollsp_simple cs (x # a) (y # b) =
     (if sort_order cs x \<noteq> sort_order cs y then uint (sort_order cs x) - uint (sort_order cs y) else my_strnncollsp_simple cs a b)"
  "my_strnncollsp_simple cs [] b = pad_loop (sort_order cs) (-1) b"
  "my_strnncollsp_simple cs a [] = pad_loop (sort_order cs) 1 a"
  by (auto simp: my_strnncollsp_simple_def Let_def split: option.split)

lemmas coll_loop_induct = coll_loop.induct [case_names both left right]

lemma collsp_simple_order:
  "length a \<le> n \<Longrightarrow> length b \<le> n \<Longrightarrow> sgn (my_strnncollsp_simple cs a b) =
    sgn (wcmp (wkey (\<lambda>x. uint (sort_order cs x)) (uint (sort_order cs 0x20)) n a)
              (wkey (\<lambda>x. uint (sort_order cs x)) (uint (sort_order cs 0x20)) n b))"
proof (induction "sort_order cs" a b arbitrary: n rule: coll_loop_induct)
  case (both x s y t)
  then obtain m where m: "n = Suc m" "length s \<le> m" "length t \<le> m" by (cases n) auto
  show ?case
  proof (cases "sort_order cs x = sort_order cs y")
    case True
    then show ?thesis using both(1) [OF _ m(2,3)] m(1) by (simp add: collsp_simple_rec(1))
  next
    case False
    then show ?thesis using m(1) by (simp add: collsp_simple_rec(1))
  qed
next
  case (left b)
  have "sgn (pad_loop (sort_order cs) (- 1) b) = - pad_loop (sort_order cs) 1 b"
    using pad_loop_wcmp [OF left(2), of "sort_order cs"] by (simp add: pad_loop_swap)
  then show ?case unfolding collsp_simple_rec(2) wkey_Nil using pad_loop_wcmp [OF left(2), of "sort_order cs"]
    by (subst wcmp_swap) simp
next
  case (right a)
  show ?case unfolding collsp_simple_rec(3) wkey_Nil using pad_loop_wcmp [OF right(1), of "sort_order cs"] by simp
qed

lemma coll_simple_rec:
  "my_strnncoll_simple cs (x # a) (y # b) False =
     (if sort_order cs x \<noteq> sort_order cs y then uint (sort_order cs x) - uint (sort_order cs y) else my_strnncoll_simple cs a b False)"
  "my_strnncoll_simple cs [] b False = (if b = [] then 0 else -1)"
  "my_strnncoll_simple cs a [] False = (if a = [] then 0 else 1)"
  by (auto simp: my_strnncoll_simple_def Let_def split: option.split)

lemma wcmp_nopad: "length a \<le> n \<Longrightarrow> sgn (wcmp (wkey (\<lambda>x. uint (so x :: u8)) (-1) n a) (replicate n (-1))) = (if a = [] then 0 else 1)"
proof (cases a)
  case (Cons x s)
  assume "length a \<le> n"
  then obtain m where "n = Suc m" using Cons by (cases n) auto
  moreover have "0 \<le> uint (so x)" by simp
  ultimately show ?thesis using Cons by simp
qed simp

lemma coll_simple_order:
  "length a \<le> n \<Longrightarrow> length b \<le> n \<Longrightarrow> sgn (my_strnncollsp_simple_nopad cs a b) =
    sgn (wcmp (wkey (\<lambda>x. uint (sort_order cs x)) (-1) n a) (wkey (\<lambda>x. uint (sort_order cs x)) (-1) n b))"
  unfolding my_strnncollsp_simple_nopad_def
proof (induction "sort_order cs" a b arbitrary: n rule: coll_loop_induct)
  case (both x s y t)
  then obtain m where m: "n = Suc m" "length s \<le> m" "length t \<le> m" by (cases n) auto
  show ?case
  proof (cases "sort_order cs x = sort_order cs y")
    case True
    then show ?thesis using both(1) [OF _ m(2,3)] m(1) by (simp add: coll_simple_rec(1))
  next
    case False
    then show ?thesis using m(1) by (simp add: coll_simple_rec(1))
  qed
next
  case (left b)
  show ?case unfolding coll_simple_rec(2) wkey_Nil using wcmp_nopad [OF left(2), of "sort_order cs"] by (subst wcmp_swap) auto
next
  case (right a)
  show ?case unfolding coll_simple_rec(3) wkey_Nil using wcmp_nopad [OF right(1), of "sort_order cs"] by simp
qed

text \<open>The binary comparisons are the simple ones with every byte its own weight.\<close>

definition plain_bytes :: charset_info_st where
  "plain_bytes = \<lparr>cs_state = 0, to_lower = (\<lambda>x. x), to_upper = (\<lambda>x. x), sort_order = (\<lambda>x. x), strxfrm_multiply = 1,
     mbminlen = 1, mbmaxlen = 1, min_sort_char = 0, max_sort_char = 255, pad_char = 0x20\<rparr>"

lemma bin_loop_coll: "bin_loop a b = coll_loop (\<lambda>x. x) a b"
  by (induction a b rule: bin_loop.induct) auto

lemma padspace_pad_loop: "my_strnncollsp_padspace_bin s = pad_loop (\<lambda>x. x) 1 s"
  by (induction s) auto

lemma collsp_bin_simple: "my_strnncollsp_8bit_bin a b = my_strnncollsp_simple plain_bytes a b"
  using pad_loop_swap [of "\<lambda>x. x" 1]
  by (simp add: my_strnncollsp_8bit_bin_def my_strnncollsp_simple_def plain_bytes_def bin_loop_coll padspace_pad_loop Let_def
      split: option.split)

lemma memcmp_coll_loop:
  "memcmp (take (min (length a) (length b)) a) (take (min (length a) (length b)) b) =
     (case coll_loop (\<lambda>x. x) a b of Some d \<Rightarrow> d | None \<Rightarrow> 0)"
  by (induction "\<lambda>x :: u8. x" a b rule: coll_loop.induct) auto

lemma coll_loop_nonzero: "coll_loop so a b = Some d \<Longrightarrow> d \<noteq> 0"
  by (induction so a b rule: coll_loop.induct) (auto split: if_splits)

lemma wrap_length_diff:
  assumes "m < 2 ^ 31" "n < 2 ^ 31"
  shows "wrap_int (wrap_ulong (int m - int n)) = int m - int n"
proof (cases "n \<le> m")
  case True
  then show ?thesis using assms by (simp add: cint_simps)
next
  case False
  have u: "wrap_ulong (int m - int n) = int m - int n + 18446744073709551616"
    using False assms by (intro wrap_ulong_neg) simp_all
  have "int m - int n + 18446744073709551616 + 2 ^ 31 = int m - int n + 2 ^ 31 + 2 ^ 32 * 2 ^ 32" by simp
  then have "(int m - int n + 18446744073709551616 + 2 ^ 31) mod 2 ^ 32 = (int m - int n + 2 ^ 31) mod 2 ^ 32"
    by (metis mod_mult_self2)
  then have "wrap_int (int m - int n + 18446744073709551616) = wrap_int (int m - int n)" unfolding wrap_int_def by (rule arg_cong)
  also have "\<dots> = int m - int n" using assms by (intro wrap_int_id) simp_all
  finally show ?thesis unfolding u .
qed

lemma coll_bin_simple:
  assumes "length a < 2 ^ 31" "length b < 2 ^ 31"
  shows "sgn (my_strnncoll_8bit_bin a b False) = sgn (my_strnncollsp_simple_nopad plain_bytes a b)"
proof (cases "coll_loop (\<lambda>x. x) a b")
  case None
  then show ?thesis using wrap_length_diff [OF assms]
    by (simp add: my_strnncoll_8bit_bin_def my_strnncollsp_simple_nopad_def my_strnncoll_simple_def memcmp_coll_loop plain_bytes_def
        Let_def)
next
  case (Some d)
  then show ?thesis using coll_loop_nonzero [OF Some]
    by (simp add: my_strnncoll_8bit_bin_def my_strnncollsp_simple_nopad_def my_strnncoll_simple_def memcmp_coll_loop plain_bytes_def)
qed

section \<open>Trailing spaces are skipped\<close>

definition rtrim :: "('a \<Rightarrow> bool) \<Rightarrow> 'a list \<Rightarrow> 'a list" where
  "rtrim P s = rev (dropWhile P (rev s))"

lemma rtrim_map: "map f (rtrim (\<lambda>x. P (f x)) s) = rtrim P (map f s)"
  by (simp add: rtrim_def rev_map dropWhile_map comp_def)

lemma rtrim_replicate: "rtrim (\<lambda>x. x = p) (s @ replicate k p) = rtrim (\<lambda>x. x = p) s"
  by (simp add: rtrim_def dropWhile_append)

lemma rtrim_unique:
  assumes "e \<le> length s" "\<And>i. e \<le> i \<Longrightarrow> i < length s \<Longrightarrow> P (s ! i)" "e = 0 \<or> \<not> P (s ! (e - 1))"
  shows "take e s = rtrim P s"
proof -
  have "\<forall>x \<in> set (rev (drop e s)). P x" using assms(1,2) by (auto simp: in_set_conv_nth)
  then have "dropWhile P (rev (drop e s) @ rev (take e s)) = dropWhile P (rev (take e s))" by (intro dropWhile_append2) blast
  moreover have "dropWhile P (rev (take e s)) = rev (take e s)"
  proof (cases e)
    case (Suc d)
    then have "rev (take e s) = s ! d # rev (take d s)" using assms(1) by (simp add: take_Suc_conv_app_nth)
    then show ?thesis using assms(3) Suc by simp
  qed simp
  moreover have "rev s = rev (drop e s) @ rev (take e s)" by (simp flip: rev_append)
  ultimately show ?thesis by (simp add: rtrim_def)
qed

text \<open>What the loops keep: the bytes from the current end on are spaces.\<close>

definition spaces_from :: "u8 list \<Rightarrow> nat \<Rightarrow> bool" where
  "spaces_from s e \<longleftrightarrow> e \<le> length s \<and> (\<forall>i. e \<le> i \<longrightarrow> i < length s \<longrightarrow> s ! i = 0x20)"

lemma skip_bytes_spaces:
  "spaces_from s e \<Longrightarrow> spaces_from s (skip_bytes s start e) \<and>
     (skip_bytes s start e \<le> start \<or> skip_bytes s start e = 0 \<or> s ! (skip_bytes s start e - 1) \<noteq> 0x20)"
proof (induction e)
  case (Suc e)
  show ?case
  proof (cases "Suc e > start \<and> s ! e = 0x20")
    case True
    then have "spaces_from s e" using Suc.prems unfolding spaces_from_def by (metis Suc_leI Suc_leD le_neq_implies_less)
    then show ?thesis using Suc.IH True by simp
  next
    case False
    then show ?thesis using Suc.prems by auto
  qed
qed simp

lemma skip_words_spaces: "spaces_from s e \<Longrightarrow> spaces_from s (skip_words s start e)"
proof (induction s start e rule: skip_words.induct)
  case (1 s start e)
  show ?case
  proof (cases "e > start \<and> take 4 (drop (e - 4) s) = [0x20, 0x20, 0x20, 0x20]")
    case True
    have "s ! i = 0x20" if i: "e - 4 \<le> i" "i < e" for i
    proof -
      have "take 4 (drop (e - 4) s) = replicate 4 0x20" using True by (simp add: numeral_eq_Suc)
      then have "take 4 (drop (e - 4) s) ! (i - (e - 4)) = 0x20" using i by simp
      then show ?thesis using i 1(2) by (simp add: spaces_from_def)
    qed
    then have "spaces_from s (e - 4)" using 1(2) unfolding spaces_from_def by (meson diff_le_self le_trans not_le)
    then show ?thesis using 1(1) [OF True] True by (subst skip_words.simps) simp
  next
    case False
    then show ?thesis using 1(2) by (subst skip_words.simps) auto
  qed
qed

lemma skip_trailing_space_correct: "take (skip_trailing_space ptr s) s = rtrim (\<lambda>x. x = 0x20) s"
  "spaces_from s (skip_trailing_space ptr s)"
proof -
  define e where "e = (if length s > 20 \<and> (ptr + length s) div 4 * 4 > ptr then
       let e = skip_bytes s ((ptr + length s) div 4 * 4 - ptr) (length s)
       in if s ! (e - 1) = 0x20 \<and> (ptr + 4 - 1) div 4 * 4 < (ptr + length s) div 4 * 4
          then skip_words s ((ptr + 4 - 1) div 4 * 4 - ptr) e else e
     else length s)"
  have "spaces_from s (length s)" by (simp add: spaces_from_def)
  then have e: "spaces_from s e" unfolding e_def Let_def using skip_bytes_spaces skip_words_spaces by simp
  have r: "skip_trailing_space ptr s = skip_bytes s 0 e" by (simp add: skip_trailing_space_def e_def Let_def)
  show sp: "spaces_from s (skip_trailing_space ptr s)" unfolding r using skip_bytes_spaces [OF e] by blast
  show "take (skip_trailing_space ptr s) s = rtrim (\<lambda>x. x = 0x20) s"
    using sp skip_bytes_spaces [OF e, of 0] unfolding r by (intro rtrim_unique) (auto simp: spaces_from_def)
qed

section \<open>Equal strings have equal hash values\<close>

lemma hash_nopad_weights:
  "my_hash_sort_simple_nopad cs key m = fold (\<lambda>w m. MY_HASH_ADD m (ucast w)) (map (sort_order cs) key) m"
  by (induction key arbitrary: m) auto

lemma hash_bin_weights: "my_hash_sort_bin key m = fold (\<lambda>w m. MY_HASH_ADD m (ucast w)) key m"
  by (induction key arbitrary: m) auto

lemma hash_trim_take:
  assumes "e \<le> length key" "\<And>i. e \<le> i \<Longrightarrow> i < length key \<Longrightarrow> so (key ! i) = so 0x20"
  shows "take (hash_trim so key e) key = rtrim (\<lambda>x. so x = so 0x20) key"
  using assms
proof (induction e)
  case 0
  have "take 0 key = rtrim (\<lambda>x. so x = so 0x20) key" using 0 by (intro rtrim_unique) auto
  then show ?case by simp
next
  case (Suc e)
  show ?case
  proof (cases "so (key ! e) = so 0x20")
    case True
    have "so (key ! i) = so 0x20" if "e \<le> i" "i < length key" for i
      using Suc.prems(2) True that by (cases "i = e") auto
    then show ?thesis using Suc.IH Suc.prems(1) True by simp
  next
    case False
    then have "hash_trim so key (Suc e) = Suc e" by simp
    then show ?thesis using Suc.prems False by (simp only:) (intro rtrim_unique; auto)
  qed
qed

lemma hash_simple_weights:
  "my_hash_sort_simple cs ptr key m =
     fold (\<lambda>w m. MY_HASH_ADD m (ucast w)) (rtrim (\<lambda>w. w = sort_order cs 0x20) (map (sort_order cs) key)) m"
proof -
  let ?e = "if length key > 16 then skip_trailing_space ptr key else length key"
  have "spaces_from key ?e" using skip_trailing_space_correct(2) by (simp add: spaces_from_def)
  then have "take (hash_trim (sort_order cs) key ?e) key = rtrim (\<lambda>x. sort_order cs x = sort_order cs 0x20) key"
    by (intro hash_trim_take) (auto simp: spaces_from_def)
  then have "map (sort_order cs) (take (hash_trim (sort_order cs) key ?e) key) =
      rtrim (\<lambda>w. w = sort_order cs 0x20) (map (sort_order cs) key)"
    using rtrim_map [of "sort_order cs" "\<lambda>w. w = sort_order cs 0x20" key] by simp
  then show ?thesis by (simp only: my_hash_sort_simple_def Let_def hash_nopad_weights)
qed

lemma wkey_rtrim:
  fixes so :: "u8 \<Rightarrow> u8"
  assumes "wkey (\<lambda>x. uint (so x)) (uint (so p)) n a = wkey (\<lambda>x. uint (so x)) (uint (so p)) n b"
  shows "rtrim (\<lambda>w. w = so p) (map so a) = rtrim (\<lambda>w. w = so p) (map so b)"
proof -
  have "wkey (\<lambda>x. uint (so x)) (uint (so p)) n s = map uint (map so s @ replicate (n - length s) (so p))" for s
    by (simp add: wkey_def)
  then have "map so a @ replicate (n - length a) (so p) = map so b @ replicate (n - length b) (so p)"
    using assms by (simp only: inj_map_eq_map [OF injI [OF uint_inj [THEN iffD1]]])
  then show ?thesis using rtrim_replicate [of "so p" "map so a"] rtrim_replicate [of "so p" "map so b"] by metis
qed

section \<open>Sort keys\<close>

lemma desc_reverse_loop_nth:
  "e \<le> length str \<Longrightarrow> length (desc_reverse_loop str i e) = length str \<and>
     (\<forall>k < length str. desc_reverse_loop str i e ! k = (if i \<le> k \<and> k < e then NOT (str ! (i + e - 1 - k)) else str ! k))"
proof (induction str i e rule: desc_reverse_loop.induct)
  case (1 str i e)
  show ?case
  proof (cases "i < e")
    case True
    let ?s = "(str[i := NOT (str ! (e - 1))])[e - 1 := NOT (str ! i)]"
    have r: "desc_reverse_loop str i e = desc_reverse_loop ?s (i + 1) (e - 1)"
      using True by (subst desc_reverse_loop.simps) simp
    have IH: "length (desc_reverse_loop ?s (i + 1) (e - 1)) = length ?s"
      "\<And>k. k < length ?s \<Longrightarrow> desc_reverse_loop ?s (i + 1) (e - 1) ! k =
         (if i + 1 \<le> k \<and> k < e - 1 then NOT (?s ! (i + 1 + (e - 1) - 1 - k)) else ?s ! k)"
      using 1(1) [OF True] 1(2) by auto
    have "desc_reverse_loop str i e ! k = (if i \<le> k \<and> k < e then NOT (str ! (i + e - 1 - k)) else str ! k)"
      if k: "k < length str" for k
    proof -
      consider "k = i" | "k = e - 1" "k \<noteq> i" | "i < k" "k < e - 1" | "k < i" | "e \<le> k" by linarith
      then show ?thesis
      proof cases
        case 3
        then have "?s ! (i + 1 + (e - 1) - 1 - k) = str ! (i + e - 1 - k)"
          using True by (simp add: nth_list_update)
        moreover have "k < e" using 3 by linarith
        ultimately show ?thesis unfolding r using IH(2) [of k] 3 k by simp
      qed (use IH(2) [of k] True k r 1(2) in \<open>auto simp: nth_list_update\<close>)
    qed
    then show ?thesis using r IH(1) by simp
  next
    case False
    then have "desc_reverse_loop str i e = str" by (subst desc_reverse_loop.simps) simp
    then show ?thesis using False by fastforce
  qed
qed

lemma reverse_loop_nth:
  "e \<le> length str \<Longrightarrow> length (reverse_loop str i e) = length str \<and>
     (\<forall>k < length str. reverse_loop str i e ! k = (if i \<le> k \<and> k < e then str ! (i + e - 1 - k) else str ! k))"
proof (induction str i e rule: reverse_loop.induct)
  case (1 str i e)
  show ?case
  proof (cases "i + 1 < e")
    case True
    let ?s = "(str[i := str ! (e - 1)])[e - 1 := str ! i]"
    have r: "reverse_loop str i e = reverse_loop ?s (i + 1) (e - 1)"
      using True by (subst reverse_loop.simps) simp
    have IH: "length (reverse_loop ?s (i + 1) (e - 1)) = length ?s"
      "\<And>k. k < length ?s \<Longrightarrow> reverse_loop ?s (i + 1) (e - 1) ! k =
         (if i + 1 \<le> k \<and> k < e - 1 then ?s ! (i + 1 + (e - 1) - 1 - k) else ?s ! k)"
      using 1(1) [OF True] 1(2) by auto
    have "reverse_loop str i e ! k = (if i \<le> k \<and> k < e then str ! (i + e - 1 - k) else str ! k)"
      if k: "k < length str" for k
    proof -
      consider "k = i" | "k = e - 1" "k \<noteq> i" | "i < k" "k < e - 1" | "k < i" | "e \<le> k" by linarith
      then show ?thesis
      proof cases
        case 3
        then have "?s ! (i + 1 + (e - 1) - 1 - k) = str ! (i + e - 1 - k)"
          using True by (simp add: nth_list_update)
        moreover have "k < e" using 3 by linarith
        ultimately show ?thesis unfolding r using IH(2) [of k] 3 k by simp
      qed (use IH(2) [of k] True k r 1(2) in \<open>auto simp: nth_list_update\<close>)
    qed
    then show ?thesis using r IH(1) by simp
  next
    case False
    then have mid: "k = i \<and> e = Suc i" if "i \<le> k" "k < e" for k using that by linarith
    have "reverse_loop str i e = str" using False by (subst reverse_loop.simps) simp
    then show ?thesis using mid by fastforce
  qed
qed

lemma desc_and_reverse_cases:
  "my_strxfrm_desc_and_reverse str flags level =
     (let s = (if flags AND push_bit level MY_STRXFRM_REVERSE_LEVEL1 \<noteq> 0 then rev str else str)
      in if flags AND push_bit level MY_STRXFRM_DESC_LEVEL1 \<noteq> 0 then map (\<lambda>x. NOT x) s else s)"
proof -
  have "desc_reverse_loop str 0 (length str) = map (\<lambda>x. NOT x) (rev str)"
    using desc_reverse_loop_nth [of "length str" str 0] by (intro nth_equalityI) (simp_all add: rev_nth)
  moreover have "reverse_loop str 0 (length str) = rev str"
    using reverse_loop_nth [of "length str" str 0] by (intro nth_equalityI) (simp_all add: rev_nth)
  ultimately show ?thesis by (simp add: my_strxfrm_desc_and_reverse_def)
qed

text \<open>The bytes of a key: the weights, filled up with \<open>p\<close>.\<close>

definition padded :: "(u8 \<Rightarrow> u8) \<Rightarrow> u8 \<Rightarrow> nat \<Rightarrow> u8 list \<Rightarrow> u8 list" where
  "padded so p n s = map so s @ replicate (n - length s) p"

lemma length_padded [simp]: "length s \<le> n \<Longrightarrow> length (padded so p n s) = n"
  by (simp add: padded_def)

lemma padded_wkey: "map uint (padded so p n s) = wkey (\<lambda>x. uint (so x)) (uint p) n s"
  by (simp add: padded_def wkey_def)

lemma xfrm_fill_padded:
  assumes "length s \<le> dstlen" "length s \<le> nweights" "dstlen < 2 ^ 32" "nweights < 2 ^ 32"
    and "flags AND MY_STRXFRM_PAD_WITH_SPACE \<noteq> 0" "flags AND MY_STRXFRM_REVERSE_LEVEL1 = 0"
  shows "\<exists>tail. \<forall>s. length s \<le> dstlen \<longrightarrow> length s \<le> nweights \<longrightarrow>
    xfrm_fill (map so s) dstlen (nweights - length s) flags 0 p 1 =
      (if flags AND MY_STRXFRM_DESC_LEVEL1 \<noteq> 0 then map (\<lambda>x. NOT x) (padded so p (min dstlen nweights) s)
       else padded so p (min dstlen nweights) s) @ tail"
proof (intro exI allI impI)
  fix s :: "u8 list"
  assume s: "length s \<le> dstlen" "length s \<le> nweights"
  let ?n = "min dstlen nweights"
  have fill: "(if nweights - length s \<noteq> 0 \<and> length (map so s) < dstlen \<and> flags AND MY_STRXFRM_PAD_WITH_SPACE \<noteq> 0
      then map so s @ replicate (min ((dstlen - length (map so s)) mod 2 ^ 32) ((nweights - length s) * 1 mod 2 ^ 32)) p
      else map so s) = padded so p ?n s"
    using s assms(3-5) by (auto simp: padded_def min_def)
  let ?k = "if flags AND MY_STRXFRM_DESC_LEVEL1 \<noteq> 0 then map (\<lambda>x. NOT x) (padded so p ?n s) else padded so p ?n s"
  have k: "my_strxfrm_desc_and_reverse (padded so p ?n s) flags 0 = ?k" "length ?k = ?n"
    using assms(6) s by (simp_all add: desc_and_reverse_cases)
  show "xfrm_fill (map so s) dstlen (nweights - length s) flags 0 p 1 =
    ?k @ (if flags AND MY_STRXFRM_PAD_TO_MAXLEN \<noteq> 0 then replicate (dstlen - ?n) p else [])"
    unfolding xfrm_fill_def Let_def fill k(1) k(2) by auto
qed

lemma memcmp_append: "length s = length t \<Longrightarrow> memcmp (s @ u) (t @ u) = memcmp s t"
  by (simp add: memcmp_wcmp wcmp_append)

lemma uint_NOT: "uint (NOT x :: u8) = 255 - uint x"
proof -
  have "NOT x = -1 - x" by (simp add: not_eq_complement)
  moreover have "x \<le> -1" by simp
  then have "uint (-1 - x) = uint (-1 :: u8) - uint x" by (rule uint_minus_simple_alt [THEN iffD1])
  moreover have "uint (-1 :: u8) = 255" by (simp add: unsigned_minus_1_eq_mask mask_eq_exp_minus_1)
  ultimately show ?thesis by simp
qed

lemma memcmp_NOT: "memcmp (map (\<lambda>x. NOT x) s) (map (\<lambda>x. NOT x) t) = - memcmp s t"
  by (induction s t rule: memcmp.induct) (auto simp: uint_NOT)

lemma xfrm_fill_memcmp:
  assumes "length a \<le> dstlen" "length a \<le> nweights" "length b \<le> dstlen" "length b \<le> nweights"
    and "dstlen < 2 ^ 32" "nweights < 2 ^ 32"
    and "flags AND MY_STRXFRM_PAD_WITH_SPACE \<noteq> 0" "flags AND MY_STRXFRM_REVERSE_LEVEL1 = 0"
  shows "memcmp (xfrm_fill (map so a) dstlen (nweights - length a) flags 0 p 1) (xfrm_fill (map so b) dstlen (nweights - length b) flags 0 p 1) =
    (if flags AND MY_STRXFRM_DESC_LEVEL1 \<noteq> 0 then -1 else 1) *
      wcmp (wkey (\<lambda>x. uint (so x)) (uint p) (min dstlen nweights) a) (wkey (\<lambda>x. uint (so x)) (uint p) (min dstlen nweights) b)"
proof -
  obtain tail where t: "\<And>s. length s \<le> dstlen \<Longrightarrow> length s \<le> nweights \<Longrightarrow>
    xfrm_fill (map so s) dstlen (nweights - length s) flags 0 p 1 =
      (if flags AND MY_STRXFRM_DESC_LEVEL1 \<noteq> 0 then map (\<lambda>x. NOT x) (padded so p (min dstlen nweights) s)
       else padded so p (min dstlen nweights) s) @ tail"
    using xfrm_fill_padded [OF assms(1,2,5-8), of so p] by blast
  show ?thesis unfolding t [OF assms(1,2)] t [OF assms(3,4)] padded_wkey [symmetric] memcmp_wcmp [symmetric]
    using assms(1-4) by (simp add: memcmp_append memcmp_NOT)
qed

lemma wcmp_pad_mono:
  assumes "length a \<le> n" "length b \<le> n" "\<And>x. 0 \<le> w x" "wcmp (wkey w (-1) n a) (wkey w (-1) n b) \<le> 0"
  shows "wcmp (wkey w 0 n a) (wkey w 0 n b) \<le> 0"
  using assms(1,2,4)
proof (induction n arbitrary: a b)
  case (Suc n)
  show ?case
  proof (cases a)
    case Nil
    have "list_all2 (\<le>) (wkey w 0 (Suc n) []) (wkey w 0 (Suc n) b)"
      using Suc.prems(2) assms(3) by (auto simp: list_all2_conv_all_nth wkey_def nth_append simp del: replicate_Suc)
    then show ?thesis unfolding Nil by (rule wcmp_pointwise)
  next
    case a: (Cons x s)
    then show ?thesis
    proof (cases b)
      case Nil
      then show ?thesis using Suc.prems(3) a assms(3) [of x] by (auto split: if_splits)
    next
      case (Cons y t)
      then show ?thesis using Suc a by (auto split: if_splits)
    qed
  qed
qed simp

end
