(* ===== verification/Like.thy ===== *)
theory Like
  imports CInt "HOL-Library.Sublist"
begin

text \<open>
  The matcher behind LIKE for character sets of one byte per character: \<open>my_wildcmp_8bit\<close> of
  strings/ctype-simple.c and \<open>my_wildcmp_bin\<close> of strings/ctype-bin.c. The two routines are the same code
  over two definitions of the macro \<open>likeconv\<close>. Its nested loops are the mutually recursive functions below:
  \<open>wild_literals\<close> is the loop up to the next wildcard, \<open>wild_ones\<close> the loop over the one-character
  wildcards, \<open>wild_many\<close> the loop that drops the wildcards after a %, and \<open>wild_search\<close> the loop that looks
  for the byte after it and calls the routine again. The result is 0 for a match, 1 for no match, and -1 for
  no match here nor further on in the text. The theory shows that the matcher decides a declarative LIKE.
\<close>

section \<open>The matcher\<close>

text \<open>
  What does not change during a match: \<open>my_string_stack_guard\<close>, the conversion \<open>likeconv\<close> of the character
  set and the three special characters, which are of type \<open>int\<close>.
\<close>

record like_args =
  stack_guard :: "nat \<Rightarrow> bool"
  likeconv :: "u8 \<Rightarrow> u8"
  escape :: int
  w_one :: int
  w_many :: int

lemma dropWhile_shorter: "dropWhile P xs = y # ys \<Longrightarrow> length ys < length xs"
  by (metis length_Cons length_dropWhile_le less_eq_Suc_le)

function my_wildcmp_impl :: "like_args \<Rightarrow> nat \<Rightarrow> u8 list \<Rightarrow> u8 list \<Rightarrow> int"
  and wild_literals :: "like_args \<Rightarrow> nat \<Rightarrow> int \<Rightarrow> u8 list \<Rightarrow> u8 list \<Rightarrow> int"
  and wild_ones :: "like_args \<Rightarrow> nat \<Rightarrow> int \<Rightarrow> u8 list \<Rightarrow> u8 list \<Rightarrow> int"
  and wild_many :: "like_args \<Rightarrow> nat \<Rightarrow> u8 list \<Rightarrow> u8 list \<Rightarrow> int"
  and wild_search :: "like_args \<Rightarrow> nat \<Rightarrow> u8 \<Rightarrow> u8 list \<Rightarrow> u8 list \<Rightarrow> int"
where
  "my_wildcmp_impl a level str wild = (if stack_guard a level then 1 else wild_literals a level (-1) str wild)"
| "wild_literals a level result str [] = (if str \<noteq> [] then 1 else 0)"
| "wild_literals a level result str (w # ws) =
     (if sint w \<noteq> w_many a \<and> sint w \<noteq> w_one a then
        let (c, rest) = (if sint w = escape a \<and> ws \<noteq> [] then (hd ws, tl ws) else (w, ws))
        in if str = [] \<or> likeconv a c \<noteq> likeconv a (hd str) then 1
           else if rest = [] then (if tl str \<noteq> [] then 1 else 0)
           else wild_literals a level 1 (tl str) rest
      else if sint w = w_one a then wild_ones a level result str ws
      else wild_many a level str ws)"
| "wild_ones a level result str ws =
     (if str = [] then result
      else if ws = [] then (if tl str \<noteq> [] then 1 else 0)
      else if sint (hd ws) = w_one a then wild_ones a level result (tl str) (tl ws)
      else if sint (hd ws) = w_many a then wild_many a level (tl str) (tl ws)
      else wild_literals a level result (tl str) ws)"
| "wild_many a level str [] = 0"
| "wild_many a level str (w # ws) =
     (if sint w = w_many a then wild_many a level str ws
      else if sint w = w_one a then if str = [] then -1 else wild_many a level (tl str) ws
      else if str = [] then -1
      else let (c, rest) = (if uint w = escape a \<and> ws \<noteq> [] then (hd ws, tl ws) else (w, ws))
           in wild_search a level (likeconv a c) str rest)"
| "wild_search a level cmp str rest =
     (case dropWhile (\<lambda>x. likeconv a x \<noteq> cmp) str of
        [] \<Rightarrow> -1
      | _ # s \<Rightarrow>
          let tmp = my_wildcmp_impl a (level + 1) s rest
          in if tmp \<le> 0 then tmp
             else if s \<noteq> [] then wild_search a level cmp s rest
             else -1)"
  by pat_completeness auto

termination
  by (relation "inv_image (less_than <*lex*> less_than <*lex*> less_than)
    (case_sum (case_sum (\<lambda>(a, l, s, w). (2 * length w, 3 :: nat, length s)) (\<lambda>(a, l, r, s, w). (2 * length w, 2, length s)))
       (case_sum (\<lambda>(a, l, r, s, w). (2 * length w + 1, 0, length s))
          (case_sum (\<lambda>(a, l, s, w). (2 * length w, 1, length s)) (\<lambda>(a, l, c, s, w). (2 * length w, 4, length s)))))")
    (auto simp: dropWhile_shorter split: if_splits)

declare my_wildcmp_impl.simps [simp del] wild_ones.simps [simp del] wild_search.simps [simp del]

section \<open>What LIKE means\<close>

datatype like_item = Lit u8 | One | Many

fun like_items :: "like_args \<Rightarrow> u8 list \<Rightarrow> like_item list" where
  "like_items a [] = []"
| "like_items a (w # ws) =
     (if sint w = w_many a then Many # like_items a ws
      else if sint w = w_one a then One # like_items a ws
      else case ws of
        [] \<Rightarrow> [Lit w]
      | c # rest \<Rightarrow> if sint w = escape a then Lit c # like_items a rest else Lit w # like_items a ws)"

fun like :: "like_args \<Rightarrow> u8 list \<Rightarrow> like_item list \<Rightarrow> bool" where
  "like a s [] \<longleftrightarrow> s = []"
| "like a s (Lit c # p) \<longleftrightarrow> (case s of [] \<Rightarrow> False | x # s' \<Rightarrow> likeconv a x = likeconv a c \<and> like a s' p)"
| "like a s (One # p) \<longleftrightarrow> (case s of [] \<Rightarrow> False | x # s' \<Rightarrow> like a s' p)"
| "like a s (Many # p) \<longleftrightarrow> like a s p \<or> (case s of [] \<Rightarrow> False | x # s' \<Rightarrow> like a s' (Many # p))"

lemma like_Many: "like a s (Many # p) \<longleftrightarrow> (\<exists>s'. suffix s' s \<and> like a s' p)"
  by (induction s) (auto simp: suffix_Cons)

declare like.simps(4) [simp del]

lemma like_Many_Many: "like a s (Many # Many # p) \<longleftrightarrow> like a s (Many # p)"
  by (auto simp: like_Many intro: suffix_order.trans)

lemma like_Many_One: "like a s (Many # One # p) \<longleftrightarrow> (case s of [] \<Rightarrow> False | x # s' \<Rightarrow> like a s' (Many # p))"
proof (cases s)
  case (Cons x s')
  have "(\<exists>t. suffix t (x # s') \<and> (case t of [] \<Rightarrow> False | y # t' \<Rightarrow> like a t' p)) \<longleftrightarrow> (\<exists>t. suffix t s' \<and> like a t p)"
  proof
    assume "\<exists>t. suffix t (x # s') \<and> (case t of [] \<Rightarrow> False | y # t' \<Rightarrow> like a t' p)"
    then obtain t where "suffix t (x # s')" "case t of [] \<Rightarrow> False | y # t' \<Rightarrow> like a t' p" by blast
    then obtain y t' where "suffix (y # t') (x # s')" "like a t' p" by (cases t) auto
    then show "\<exists>t. suffix t s' \<and> like a t p" by (metis list.sel(3) suffix_Cons suffix_ConsD suffix_order.order_refl)
  next
    assume "\<exists>t. suffix t s' \<and> like a t p"
    then obtain u t where "s' = u @ t" "like a t p" by (auto simp: suffix_def)
    then have "suffix (last (x # u) # t) (x # s')"
      by (intro suffixI [of _ "butlast (x # u)"]) (metis append_Cons append_butlast_last_id append_assoc list.distinct(1) append_Nil)
    then show "\<exists>t. suffix t (x # s') \<and> (case t of [] \<Rightarrow> False | y # t' \<Rightarrow> like a t' p)" using \<open>like a t p\<close> by force
  qed
  then show ?thesis using Cons by (simp add: like_Many)
qed (simp add: like_Many)

lemma like_Many_Lit: "like a s (Many # Lit c # p) \<longleftrightarrow> (\<exists>s1 x s2. s = s1 @ x # s2 \<and> likeconv a x = likeconv a c \<and> like a s2 p)"
proof
  assume "like a s (Many # Lit c # p)"
  then obtain u t where "s = u @ t" "like a t (Lit c # p)" by (auto simp: like_Many suffix_def)
  then show "\<exists>s1 x s2. s = s1 @ x # s2 \<and> likeconv a x = likeconv a c \<and> like a s2 p" by (cases t) auto
next
  assume "\<exists>s1 x s2. s = s1 @ x # s2 \<and> likeconv a x = likeconv a c \<and> like a s2 p"
  then obtain s1 x s2 where "s = s1 @ x # s2" "likeconv a x = likeconv a c" "like a s2 p" by blast
  then show "like a s (Many # Lit c # p)" unfolding like_Many by (intro exI [of _ "x # s2"]) (simp add: suffix_def)
qed

section \<open>The matcher decides LIKE\<close>

text \<open>
  What a result means: 0 only for a match; and unless the stack guard stopped it, 0 for every match, and
  -1 only when the text that is left has no later match either, which is why a caller stops then.
\<close>

definition verdict :: "like_args \<Rightarrow> int \<Rightarrow> bool \<Rightarrow> bool \<Rightarrow> bool" where
  "verdict a r matches later \<longleftrightarrow> (r = -1 \<or> r = 0 \<or> r = 1) \<and> (r = 0 \<longrightarrow> matches) \<and>
     ((\<forall>n. \<not> stack_guard a n) \<longrightarrow> (matches \<longrightarrow> r = 0) \<and> (r = -1 \<longrightarrow> \<not> later))"

definition later_match :: "like_args \<Rightarrow> u8 list \<Rightarrow> like_item list \<Rightarrow> bool" where
  "later_match a s p \<longleftrightarrow> (\<exists>s'. suffix s' s \<and> like a s' p)"

definition split_match :: "like_args \<Rightarrow> u8 \<Rightarrow> u8 list \<Rightarrow> like_item list \<Rightarrow> bool" where
  "split_match a cmp s p \<longleftrightarrow> (\<exists>s1 x s2. s = s1 @ x # s2 \<and> likeconv a x = cmp \<and> like a s2 p)"

lemma later_Nil [simp]: "later_match a [] p \<longleftrightarrow> like a [] p"
  by (simp add: later_match_def)

text \<open>A later match of a pattern that starts with one character leaves a later match of the rest.\<close>

lemma later_shift:
  assumes "later_match a (x # s) (i # p)" "i \<noteq> Many"
  shows "later_match a s p"
proof -
  obtain t where t: "suffix t (x # s)" "like a t (i # p)" using assms(1) by (auto simp: later_match_def)
  then obtain y t' where "t = y # t'" "like a t' p" using assms(2) by (cases i; cases t) auto
  then show ?thesis using t(1) unfolding later_match_def
    by (metis list.sel(3) suffix_Cons suffix_ConsD suffix_order.order_refl)
qed

lemma later_Many: "later_match a s (Many # p) \<longleftrightarrow> like a s (Many # p)"
  unfolding later_match_def like_Many by (meson suffix_order.order_refl suffix_order.trans)

lemma verdictD:
  assumes "verdict a r M N"
  shows "r = -1 \<or> r = 0 \<or> r = 1" "r = 0 \<Longrightarrow> M" "\<forall>n. \<not> stack_guard a n \<Longrightarrow> M \<Longrightarrow> r = 0" "\<forall>n. \<not> stack_guard a n \<Longrightarrow> r = -1 \<Longrightarrow> \<not> N"
  using assms by (auto simp: verdict_def)

lemma verdict_weaken: "verdict a r M N \<Longrightarrow> M = M' \<Longrightarrow> (N' \<Longrightarrow> N) \<Longrightarrow> verdict a r M' N'"
  by (auto simp: verdict_def)

lemma first_split: "y \<notin> set u \<Longrightarrow> u @ x # s = s1 @ y # s2 \<Longrightarrow> \<exists>v. x # s = v @ y # s2"
proof (induction u arbitrary: s1)
  case (Cons b u)
  then show ?case by (cases s1) auto
qed simp

lemma search_verdict:
  assumes IH: "\<And>s. length s < length str \<Longrightarrow> verdict a (my_wildcmp_impl a (level + 1) s rest) (like a s (like_items a rest)) (later_match a s (like_items a rest))"
  shows "verdict a (wild_search a level cmp str rest) (split_match a cmp str (like_items a rest)) (split_match a cmp str (like_items a rest))"
  using assms
proof (induction str rule: length_induct)
  case (1 str)
  let ?p = "like_items a rest"
  show ?case
  proof (cases "dropWhile (\<lambda>x. likeconv a x \<noteq> cmp) str")
    case Nil
    then have "\<forall>x \<in> set str. likeconv a x \<noteq> cmp" by simp
    then have "\<not> split_match a cmp str ?p" by (auto simp: split_match_def)
    moreover have "wild_search a level cmp str rest = -1" unfolding wild_search.simps [of a level cmp str rest] Nil by simp
    ultimately show ?thesis by (simp add: verdict_def)
  next
    case (Cons x s)
    define u where "u = takeWhile (\<lambda>x. likeconv a x \<noteq> cmp) str"
    have str: "str = u @ x # s" using Cons takeWhile_dropWhile_id [of "\<lambda>x. likeconv a x \<noteq> cmp" str] by (simp add: u_def)
    have x: "likeconv a x = cmp" using Cons by (metis (mono_tags, lifting) dropWhile_eq_Cons_conv)
    have u: "\<forall>y \<in> set u. likeconv a y \<noteq> cmp" by (auto simp: u_def dest: set_takeWhileD)
    have sm: "split_match a cmp str ?p \<longleftrightarrow> like a s ?p \<or> split_match a cmp s ?p"
    proof
      assume "split_match a cmp str ?p"
      then obtain s1 y s2 where y: "u @ x # s = s1 @ y # s2" "likeconv a y = cmp" "like a s2 ?p" by (auto simp: split_match_def str)
      have "y \<notin> set u" using u y(2) by blast
      from first_split [OF this y(1)] obtain v where "x # s = v @ y # s2" by blast
      then show "like a s ?p \<or> split_match a cmp s ?p" using y(2,3) by (cases v) (auto simp: split_match_def)
    next
      assume "like a s ?p \<or> split_match a cmp s ?p"
      then show "split_match a cmp str ?p"
      proof
        assume "like a s ?p"
        then show ?thesis using x unfolding split_match_def str by blast
      next
        assume "split_match a cmp s ?p"
        then obtain s1 y s2 where "s = s1 @ y # s2" "likeconv a y = cmp" "like a s2 ?p" by (auto simp: split_match_def)
        then show ?thesis unfolding split_match_def str by (intro exI [of _ "u @ x # s1"] exI [of _ y] exI [of _ s2]) simp
      qed
    qed
    define tmp where "tmp = my_wildcmp_impl a (level + 1) s rest"
    have v: "verdict a tmp (like a s ?p) (later_match a s ?p)" unfolding tmp_def by (rule "1.prems") (simp add: str)
    have w: "verdict a (wild_search a level cmp s rest) (split_match a cmp s ?p) (split_match a cmp s ?p)"
      using "1.IH" "1.prems" by (simp add: str)
    have r: "wild_search a level cmp str rest = (if tmp \<le> 0 then tmp else if s \<noteq> [] then wild_search a level cmp s rest else -1)"
      using Cons by (subst wild_search.simps) (simp add: tmp_def Let_def)
    have later: "split_match a cmp s ?p \<or> like a s ?p \<Longrightarrow> later_match a s ?p"
    proof (unfold later_match_def, elim disjE)
      assume "split_match a cmp s ?p"
      then obtain s1 y s2 where "s = (s1 @ [y]) @ s2" "like a s2 ?p" by (auto simp: split_match_def)
      then show "\<exists>s'. suffix s' s \<and> like a s' ?p" using suffixI by blast
    qed blast
    have none: "\<not> split_match a cmp [] ?p" by (simp add: split_match_def)
    consider "tmp = -1" | "tmp = 0" | "tmp = 1" using verdictD(1) [OF v] by blast
    then show ?thesis
    proof cases
      case 1
      then show ?thesis unfolding r sm using verdictD(4) [OF v] later by (auto simp: verdict_def)
    next
      case 2
      then show ?thesis unfolding r sm using verdictD(2) [OF v] by (simp add: verdict_def)
    next
      case 3
      then have "(\<forall>n. \<not> stack_guard a n) \<longrightarrow> \<not> like a s ?p" using verdictD(3) [OF v] by auto
      then have nl: "\<forall>n. \<not> stack_guard a n \<Longrightarrow> \<not> like a s ?p" by blast
      have r1: "wild_search a level cmp str rest = (if s \<noteq> [] then wild_search a level cmp s rest else -1)"
        unfolding r 3 by simp
      show ?thesis
      proof (cases "s = []")
        case True
        then have "wild_search a level cmp str rest = -1" "wild_search a level cmp str rest \<noteq> 0" unfolding r1 by simp_all
        moreover have "\<not> split_match a cmp s ?p" unfolding True by (rule none)
        ultimately show ?thesis unfolding verdict_def sm using nl by blast
      next
        case False
        then have eq: "wild_search a level cmp str rest = wild_search a level cmp s rest" unfolding r1 by simp
        show ?thesis unfolding verdict_def sm eq using verdictD [OF w] nl by blast
      qed
    qed
  qed
qed

text \<open>The special characters of a match: the wildcards differ, and the escape character is an ASCII one.\<close>

definition like_setup :: "like_args \<Rightarrow> bool" where
  "like_setup a \<longleftrightarrow> w_one a \<noteq> w_many a \<and> 0 \<le> escape a \<and> escape a < 128"

lemma ascii_escape:
  fixes w :: u8
  assumes "0 \<le> n" "n < 128"
  shows "uint w = n \<longleftrightarrow> sint w = n"
proof -
  have u: "0 \<le> uint w" "uint w < 256" using uint_lt2p [of w] by simp_all
  have "sint w = (uint w + 128) mod 256 - 128"
    by (simp add: sint_uint signed_take_bit_eq_take_bit_shift take_bit_eq_mod)
  also have "\<dots> = (if uint w < 128 then uint w else uint w - 256)"
  proof (cases "uint w < 128")
    case False
    have "(uint w + 128) mod 256 = ((uint w - 128) + 256) mod 256" by (rule arg_cong [of _ _ "\<lambda>x. x mod 256"]) simp
    also have "\<dots> = uint w - 128" unfolding mod_add_self2 using u False by (intro mod_pos_pos_trivial) simp_all
    finally have "(uint w + 128) mod 256 = uint w - 128" .
    then show ?thesis using False by simp
  qed (use u in simp)
  finally show ?thesis using assms u by auto
qed

lemma items_literal:
  assumes "sint w \<noteq> w_many a" "sint w \<noteq> w_one a"
    and "(c, rest) = (if sint w = escape a \<and> ws \<noteq> [] then (hd ws, tl ws) else (w, ws))"
  shows "like_items a (w # ws) = Lit c # like_items a rest"
  using assms by (cases ws) (auto split: if_splits)

lemma no_match: "r = 1 \<or> (r = -1 \<and> \<not> N) \<Longrightarrow> \<not> M \<Longrightarrow> verdict a r M N"
  by (auto simp: verdict_def)

lemma many_verdict:
  assumes "like_setup a"
    and "\<And>w' level s. length w' < length w \<Longrightarrow>
           verdict a (my_wildcmp_impl a level s w') (like a s (like_items a w')) (later_match a s (like_items a w'))"
  shows "verdict a (wild_many a level str w) (like a str (Many # like_items a w)) (like a str (Many # like_items a w))"
  using assms(2)
proof (induction w arbitrary: str)
  case Nil
  then show ?case by (auto simp: verdict_def like_Many)
next
  case (Cons c w)
  have IH: "verdict a (wild_many a level s w) (like a s (Many # like_items a w)) (like a s (Many # like_items a w))" for s
    using Cons.IH Cons.prems by simp
  consider "sint c = w_many a" | "sint c = w_one a" "sint c \<noteq> w_many a" | "sint c \<noteq> w_many a" "sint c \<noteq> w_one a" by blast
  then show ?case
  proof cases
    case 1
    then show ?thesis using IH by (simp add: like_Many_Many)
  next
    case 2
    then have i: "like_items a (c # w) = One # like_items a w" by simp
    show ?thesis
    proof (cases str)
      case Nil
      then show ?thesis using 2 unfolding i like_Many_One by (simp add: no_match)
    next
      case (Cons x s)
      then have r: "wild_many a level str (c # w) = wild_many a level s w" using 2 by simp
      show ?thesis using IH [of s] unfolding i r unfolding like_Many_One Cons by simp
    qed
  next
    case 3
    obtain d rest where dr: "(d, rest) = (if sint c = escape a \<and> w \<noteq> [] then (hd w, tl w) else (c, w))"
      by (cases "if sint c = escape a \<and> w \<noteq> [] then (hd w, tl w) else (c, w)") simp
    have items: "like_items a (c # w) = Lit d # like_items a rest" using 3 dr by (rule items_literal)
    have e: "uint c = escape a \<longleftrightarrow> sint c = escape a" using assms(1) by (intro ascii_escape) (auto simp: like_setup_def)
    have r: "wild_many a level str (c # w) = (if str = [] then -1 else wild_search a level (likeconv a d) str rest)"
      using 3 by (simp add: e dr [symmetric])
    have len: "length rest < length (c # w)" using dr by (cases w) (auto split: if_splits)
    have m: "like a str (Many # like_items a (c # w)) \<longleftrightarrow> split_match a (likeconv a d) str (like_items a rest)"
      unfolding items like_Many_Lit split_match_def ..
    show ?thesis
    proof (cases "str = []")
      case True
      then show ?thesis unfolding r m by (simp add: verdict_def split_match_def)
    next
      case False
      have "verdict a (wild_search a level (likeconv a d) str rest) (split_match a (likeconv a d) str (like_items a rest))
        (split_match a (likeconv a d) str (like_items a rest))"
        by (rule search_verdict) (rule Cons.prems [OF len])
      then show ?thesis unfolding r m using False by simp
    qed
  qed
qed

lemma verdict_shift:
  assumes "verdict a r (like a s p) (later_match a s p)" "i \<noteq> Many" "like a (x # s) (i # p) \<longleftrightarrow> like a s p"
  shows "verdict a r (like a (x # s) (i # p)) (later_match a (x # s) (i # p))"
  by (rule verdict_weaken [OF assms(1) assms(3) [symmetric]]) (rule later_shift [OF _ assms(2)])

lemma end_verdict: "verdict a (if s \<noteq> [] then 1 else 0) (like a s []) (later_match a s [])"
  by (auto simp: verdict_def)

lemma ones_verdict:
  assumes "like_setup a" and result: "result = -1 \<or> result = 1"
    and lits: "\<And>s w'. length w' \<le> length w \<Longrightarrow>
      verdict a (wild_literals a level result s w') (like a s (like_items a w')) (later_match a s (like_items a w'))"
    and many: "\<And>s w'. length w' \<le> length w \<Longrightarrow>
      verdict a (wild_many a level s w') (like a s (Many # like_items a w')) (like a s (Many # like_items a w'))"
  shows "verdict a (wild_ones a level result str w) (like a str (One # like_items a w)) (later_match a str (One # like_items a w))"
  using lits many
proof (induction w arbitrary: str)
  case Nil
  show ?case
  proof (cases str)
    case Nil
    then show ?thesis using result by (subst wild_ones.simps) (auto intro: no_match)
  next
    case (Cons x s)
    have "verdict a (if s \<noteq> [] then 1 else 0) (like a (x # s) [One]) (later_match a (x # s) [One])"
      by (rule verdict_shift [OF end_verdict]) auto
    then show ?thesis unfolding Cons by (subst wild_ones.simps) simp
  qed
next
  case (Cons c w)
  show ?case
  proof (cases str)
    case Nil
    then show ?thesis using result by (subst wild_ones.simps) (auto intro: no_match)
  next
    case str: (Cons x s)
    have "verdict a (wild_ones a level result str (c # w)) (like a s (like_items a (c # w))) (later_match a s (like_items a (c # w)))"
    proof (cases "sint c = w_one a")
      case True
      then have "sint c \<noteq> w_many a" using assms(1) by (auto simp: like_setup_def)
      then have i: "like_items a (c # w) = One # like_items a w" using True by simp
      have r: "wild_ones a level result str (c # w) = wild_ones a level result s w"
        unfolding str using True by (subst wild_ones.simps) simp
      show ?thesis unfolding i r using Cons.prems by (intro Cons.IH) simp_all
    next
      case no: False
      show ?thesis
      proof (cases "sint c = w_many a")
        case True
        then have i: "like_items a (c # w) = Many # like_items a w" by simp
        have r: "wild_ones a level result str (c # w) = wild_many a level s w"
          unfolding str using True no by (subst wild_ones.simps) simp
        show ?thesis unfolding i r later_Many by (rule Cons.prems(2)) simp
      next
        case False
        have r: "wild_ones a level result str (c # w) = wild_literals a level result s (c # w)"
          unfolding str using False no by (subst wild_ones.simps) simp
        show ?thesis unfolding r by (rule Cons.prems(1)) simp
      qed
    qed
    then show ?thesis unfolding str by (rule verdict_shift) auto
  qed
qed

lemma literals_verdict:
  assumes "like_setup a" and "result = -1 \<or> result = 1"
    and rec: "\<And>w' level s. length w' < length w \<Longrightarrow>
      verdict a (my_wildcmp_impl a level s w') (like a s (like_items a w')) (later_match a s (like_items a w'))"
  shows "verdict a (wild_literals a level result str w) (like a str (like_items a w)) (later_match a str (like_items a w))"
  using assms(2) rec
proof (induction "length w" arbitrary: w result str rule: less_induct)
  case less
  show ?case
  proof (cases w)
    case Nil
    then show ?thesis using end_verdict [of a str] by simp
  next
    case (Cons c ws)
    have many: "verdict a (wild_many a level s w') (like a s (Many # like_items a w')) (like a s (Many # like_items a w'))"
      if "length w' \<le> length ws" for s w'
      using that less.prems(2) unfolding Cons by (intro many_verdict [OF assms(1)]) simp
    have lits: "verdict a (wild_literals a level r s w') (like a s (like_items a w')) (later_match a s (like_items a w'))"
      if "length w' \<le> length ws" "r = -1 \<or> r = 1" for r s w'
      using that less.prems(2) unfolding Cons by (intro less.hyps) (simp_all add: Cons)
    consider "sint c = w_many a" | "sint c = w_one a" "sint c \<noteq> w_many a" | "sint c \<noteq> w_many a" "sint c \<noteq> w_one a" by blast
    then show ?thesis
    proof cases
      case 1
      then have "wild_literals a level result str w = wild_many a level str ws" "like_items a w = Many # like_items a ws"
        using assms(1) by (auto simp: Cons like_setup_def)
      then show ?thesis unfolding later_Many using many [of ws str] by (simp add: later_Many)
    next
      case 2
      then have e: "wild_literals a level result str w = wild_ones a level result str ws" "like_items a w = One # like_items a ws"
        by (simp_all add: Cons)
      show ?thesis unfolding e by (rule ones_verdict [OF assms(1) less.prems(1) lits many]) (use less.prems(1) in simp_all)
    next
      case 3
      obtain d rest where dr: "(d, rest) = (if sint c = escape a \<and> ws \<noteq> [] then (hd ws, tl ws) else (c, ws))"
        by (cases "if sint c = escape a \<and> ws \<noteq> [] then (hd ws, tl ws) else (c, ws)") simp
      have items: "like_items a w = Lit d # like_items a rest" unfolding Cons using 3 dr by (rule items_literal)
      have len: "length rest \<le> length ws" using dr by (cases ws) (auto split: if_splits)
      have r: "wild_literals a level result str w =
        (if str = [] \<or> likeconv a d \<noteq> likeconv a (hd str) then 1
         else if rest = [] then (if tl str \<noteq> [] then 1 else 0) else wild_literals a level 1 (tl str) rest)"
        using 3 by (simp add: Cons dr [symmetric])
      show ?thesis
      proof (cases "str = [] \<or> likeconv a d \<noteq> likeconv a (hd str)")
        case True
        then have "\<not> like a str (Lit d # like_items a rest)" by (cases str) auto
        then show ?thesis unfolding r items if_P [OF True] by (intro no_match) simp_all
      next
        case False
        then obtain x s where str: "str = x # s" "likeconv a d = likeconv a x" by (cases str) auto
        have "verdict a (if rest = [] then (if s \<noteq> [] then 1 else 0) else wild_literals a level 1 s rest)
          (like a s (like_items a rest)) (later_match a s (like_items a rest))"
          using end_verdict [of a s] lits [OF len, of 1 s] by (cases "rest = []") simp_all
        then have "verdict a (if rest = [] then (if s \<noteq> [] then 1 else 0) else wild_literals a level 1 s rest)
          (like a (x # s) (Lit d # like_items a rest)) (later_match a (x # s) (Lit d # like_items a rest))"
          using str(2) by (intro verdict_shift) simp_all
        moreover have "wild_literals a level result str w =
          (if rest = [] then (if s \<noteq> [] then 1 else 0) else wild_literals a level 1 s rest)"
          unfolding r if_not_P [OF False] by (simp add: str(1))
        ultimately show ?thesis unfolding items by (simp only: str(1))
      qed
    qed
  qed
qed

lemma wildcmp_verdict:
  assumes "like_setup a"
  shows "verdict a (my_wildcmp_impl a level s w) (like a s (like_items a w)) (later_match a s (like_items a w))"
proof (induction "length w" arbitrary: w s level rule: less_induct)
  case less
  show ?case
  proof (cases "stack_guard a level")
    case True
    then have "my_wildcmp_impl a level s w = 1" by (simp add: my_wildcmp_impl.simps)
    then show ?thesis using True by (auto simp: verdict_def)
  next
    case False
    then have r: "my_wildcmp_impl a level s w = wild_literals a level (-1) s w" by (simp add: my_wildcmp_impl.simps)
    show ?thesis unfolding r by (rule literals_verdict [OF assms _ less]) simp_all
  qed
qed

section \<open>The handlers of the character sets\<close>

text \<open>\<open>my_wildcmp_8bit_impl\<close> converts by the sort order table, \<open>my_wildcmp_bin_impl\<close> does not convert.\<close>

definition my_wildcmp_8bit_impl :: "(nat \<Rightarrow> bool) \<Rightarrow> (u8 \<Rightarrow> u8) \<Rightarrow> u8 list \<Rightarrow> u8 list \<Rightarrow> int \<Rightarrow> int \<Rightarrow> int \<Rightarrow> nat \<Rightarrow> int" where
  "my_wildcmp_8bit_impl guard sort_order str wild esc one many level =
     my_wildcmp_impl \<lparr>stack_guard = guard, likeconv = sort_order, escape = esc, w_one = one, w_many = many\<rparr> level str wild"

definition my_wildcmp_8bit :: "(nat \<Rightarrow> bool) \<Rightarrow> (u8 \<Rightarrow> u8) \<Rightarrow> u8 list \<Rightarrow> u8 list \<Rightarrow> int \<Rightarrow> int \<Rightarrow> int \<Rightarrow> int" where
  "my_wildcmp_8bit guard sort_order str wild esc one many = my_wildcmp_8bit_impl guard sort_order str wild esc one many 1"

definition my_wildcmp_bin_impl :: "(nat \<Rightarrow> bool) \<Rightarrow> u8 list \<Rightarrow> u8 list \<Rightarrow> int \<Rightarrow> int \<Rightarrow> int \<Rightarrow> nat \<Rightarrow> int" where
  "my_wildcmp_bin_impl guard str wild esc one many level =
     my_wildcmp_impl \<lparr>stack_guard = guard, likeconv = (\<lambda>c. c), escape = esc, w_one = one, w_many = many\<rparr> level str wild"

definition my_wildcmp_bin :: "(nat \<Rightarrow> bool) \<Rightarrow> u8 list \<Rightarrow> u8 list \<Rightarrow> int \<Rightarrow> int \<Rightarrow> int \<Rightarrow> int" where
  "my_wildcmp_bin guard str wild esc one many = my_wildcmp_bin_impl guard str wild esc one many 1"

text \<open>The specification: the text is matched by the items of the pattern, bytes compared through \<open>conv\<close>.\<close>

definition like_matches :: "(u8 \<Rightarrow> u8) \<Rightarrow> u8 list \<Rightarrow> u8 list \<Rightarrow> int \<Rightarrow> int \<Rightarrow> int \<Rightarrow> bool" where
  "like_matches conv str wild esc one many =
     (let a = \<lparr>stack_guard = (\<lambda>_. False), likeconv = conv, escape = esc, w_one = one, w_many = many\<rparr>
      in like a str (like_items a wild))"

lemma like_items_guard:
  "like_items (a\<lparr>stack_guard := g\<rparr>) w = like_items a w"
  by (induction a w rule: like_items.induct) (auto split: list.split)

lemma like_guard: "like (a\<lparr>stack_guard := g\<rparr>) s p = like a s p"
  by (induction a s p rule: like.induct) (auto split: list.split simp: like.simps(4))

text \<open>
  C10: LIKE of an 8-bit collation. With two different wildcards and an ASCII escape character, the matcher
  returns -1, 0 or 1. It returns 0 only if the pattern matches the text, and unless the stack guard stops
  it, it returns 0 exactly if the pattern matches.
\<close>

theorem my_wildcmp_8bit_correct:
  assumes "one \<noteq> many" "0 \<le> esc" "esc < 128"
  shows "my_wildcmp_8bit guard so str wild esc one many \<in> {-1, 0, 1} \<and>
    (my_wildcmp_8bit guard so str wild esc one many = 0 \<longrightarrow> like_matches so str wild esc one many) \<and>
    ((\<forall>n. \<not> guard n) \<longrightarrow> (my_wildcmp_8bit guard so str wild esc one many = 0 \<longleftrightarrow> like_matches so str wild esc one many))"
proof -
  define a where "a = \<lparr>stack_guard = guard, likeconv = so, escape = esc, w_one = one, w_many = many\<rparr>"
  have s: "like_matches so str wild esc one many \<longleftrightarrow> like a str (like_items a wild)"
    using like_items_guard [where a = a and g = "\<lambda>_. False"] like_guard [where a = a and g = "\<lambda>_. False"] by (simp add: like_matches_def a_def)
  have r: "my_wildcmp_8bit guard so str wild esc one many = my_wildcmp_impl a 1 str wild"
    by (simp add: my_wildcmp_8bit_def my_wildcmp_8bit_impl_def a_def)
  have g: "stack_guard a = guard" by (simp add: a_def)
  have "like_setup a" using assms by (simp add: like_setup_def a_def)
  from verdictD [OF wildcmp_verdict [OF this, of 1 str wild]] show ?thesis unfolding s r g by blast
qed

theorem my_wildcmp_8bit_correct_witness:
  "(95 :: int) \<noteq> 37 \<and> (0 :: int) \<le> 92 \<and> (92 :: int) < 128 \<and>
   like_matches (\<lambda>c. c OR 32) [0x41, 0x62, 0x63, 0x25] [0x61, 0x25, 0x43, 0x5C, 0x25] 92 95 37 \<and>
   my_wildcmp_8bit (\<lambda>_. False) (\<lambda>c. c OR 32) [0x41, 0x62, 0x63, 0x25] [0x61, 0x25, 0x43, 0x5C, 0x25] 92 95 37 = 0"
proof -
  have "like_matches (\<lambda>c. c OR 32) [0x41, 0x62, 0x63, 0x25] [0x61, 0x25, 0x43, 0x5C, 0x25] 92 95 37" by code_simp
  then show ?thesis
    using my_wildcmp_8bit_correct [of 95 37 92 "\<lambda>_. False" "\<lambda>c. c OR 32" "[0x41, 0x62, 0x63, 0x25]" "[0x61, 0x25, 0x43, 0x5C, 0x25]"]
    by simp
qed

text \<open>
  The escape character is compared as a \<open>char\<close> before the first wildcard and as a \<open>uchar\<close> after a '%'. The
  caller passes a \<open>char\<close>, so 0xC3 arrives as -61 and escapes at the front of a pattern only.
\<close>

lemma nonascii_escape:
  "my_wildcmp_8bit (\<lambda>_. False) (\<lambda>c. c) [0x25] [0xC3, 0x25] (-61) 95 37 = 0"
  "my_wildcmp_8bit (\<lambda>_. False) (\<lambda>c. c) [0x25] [0x25, 0xC3, 0x25] (-61) 95 37 = -1"
  "like_matches (\<lambda>c. c) [0x25] [0x25, 0xC3, 0x25] (-61) 95 37"
  by code_simp+

end
