(* ===== verification/LikeRange.thy ===== *)
theory LikeRange
  imports Collation Like
begin

text \<open>
  The routines of strings/ctype-simple.c that turn patterns and lengths into strings: the range of a LIKE
  pattern, the smallest and largest strings of a collation, and the search for a substring. The lemmas show
  that a range holds every match, and that the search finds the first occurrence.
\<close>

section \<open>Smallest and largest strings\<close>

definition my_min_str_8bit_simple :: "charset_info_st \<Rightarrow> nat \<Rightarrow> nat \<Rightarrow> u8 list" where
  "my_min_str_8bit_simple cs dst_size nchars = replicate (min dst_size nchars) (min_sort_char cs)"

definition my_min_str_8bit_simple_nopad :: "charset_info_st \<Rightarrow> nat \<Rightarrow> nat \<Rightarrow> u8 list" where
  "my_min_str_8bit_simple_nopad cs dst_size nchars = []"

definition my_max_str_8bit_simple :: "charset_info_st \<Rightarrow> nat \<Rightarrow> nat \<Rightarrow> u8 list" where
  "my_max_str_8bit_simple cs dst_size nchars = replicate (min dst_size nchars) (max_sort_char cs)"

text \<open>The loop of \<open>set_max_sort_char\<close> over the codes from \<open>i\<close> on.\<close>

function max_sort_loop :: "(u8 \<Rightarrow> u8) \<Rightarrow> nat \<Rightarrow> u8 \<Rightarrow> u8 \<Rightarrow> u8" where
  "max_sort_loop so i max_char max_sort =
     (if i < 256 then
        if so (of_nat i) > max_char then max_sort_loop so (i + 1) (so (of_nat i)) (of_nat i)
        else max_sort_loop so (i + 1) max_char max_sort
      else max_sort)"
  by auto
termination by (relation "measure (\<lambda>(s, i, m, c). 256 - i)") auto

declare max_sort_loop.simps [simp del]

definition set_max_sort_char :: "charset_info_st \<Rightarrow> charset_info_st" where
  "set_max_sort_char cs =
     cs\<lparr>max_sort_char := max_sort_loop (sort_order cs) 0 (sort_order cs (max_sort_char cs)) (max_sort_char cs)\<rparr>"

section \<open>The range of a LIKE pattern\<close>

text \<open>
  \<open>my_like_range_simple\<close>: the buffers \<open>min_str\<close> and \<open>max_str\<close>, and the lengths of the two keys. The loop
  carries the part of the buffers that is written.
\<close>

fun like_range_loop :: "charset_info_st \<Rightarrow> int \<Rightarrow> int \<Rightarrow> int \<Rightarrow> nat \<Rightarrow> u8 list \<Rightarrow> nat \<Rightarrow> u8 list \<Rightarrow> u8 list \<Rightarrow> u8 list \<times> u8 list \<times> nat \<times> nat" where
  "like_range_loop cs esc one many res_length [] charlen mn mx =
     (mn @ replicate (res_length - length mn) 0x20, mx @ replicate (res_length - length mn) 0x20, length mn, length mn)"
| "like_range_loop cs esc one many res_length (c # ptr) charlen mn mx =
     (if length mn = res_length \<or> charlen = 0 then
        (mn @ replicate (res_length - length mn) 0x20, mx @ replicate (res_length - length mn) 0x20, length mn, length mn)
      else if sint c = esc \<and> ptr \<noteq> [] then
        like_range_loop cs esc one many res_length (tl ptr) (charlen - 1) (mn @ [hd ptr]) (mx @ [hd ptr])
      else if sint c = one then
        like_range_loop cs esc one many res_length ptr (charlen - 1) (mn @ [0]) (mx @ [max_sort_char cs])
      else if sint c = many then
        (mn @ replicate (res_length - length mn) 0, mx @ replicate (res_length - length mn) (max_sort_char cs),
         if cs_state cs AND (MY_CS_BINSORT OR MY_CS_NOPAD) \<noteq> 0 then length mn else res_length, res_length)
      else like_range_loop cs esc one many res_length ptr (charlen - 1) (mn @ [c]) (mx @ [c]))"

definition my_like_range_simple :: "charset_info_st \<Rightarrow> u8 list \<Rightarrow> int \<Rightarrow> int \<Rightarrow> int \<Rightarrow> nat \<Rightarrow> u8 list \<times> u8 list \<times> nat \<times> nat" where
  "my_like_range_simple cs ptr esc one many res_length =
     like_range_loop cs esc one many res_length ptr (res_length div mbmaxlen cs) [] []"

section \<open>Search for a substring\<close>

record my_match_t =
  beg :: nat
  match_end :: nat
  mb_len :: nat

text \<open>The loop over the rest of the search string, and the loop over the start positions.\<close>

fun instr_rest :: "(u8 \<Rightarrow> u8) \<Rightarrow> u8 list \<Rightarrow> u8 list \<Rightarrow> bool" where
  "instr_rest so i [] = True"
| "instr_rest so [] (y # j) = False"
| "instr_rest so (x # i) (y # j) = (if so x \<noteq> so y then False else instr_rest so i j)"

fun instr_loop :: "(u8 \<Rightarrow> u8) \<Rightarrow> u8 list \<Rightarrow> u8 list \<Rightarrow> nat \<Rightarrow> nat option" where
  "instr_loop so [] search pos = None"
| "instr_loop so (x # str) search pos =
     (if length (x # str) < length search then None
      else if so x = so (hd search) \<and> instr_rest so str (tl search) then Some pos
      else instr_loop so str search (pos + 1))"

definition my_instr_simple :: "charset_info_st \<Rightarrow> u8 list \<Rightarrow> u8 list \<Rightarrow> nat \<Rightarrow> nat \<times> my_match_t list" where
  "my_instr_simple cs b s nmatch =
     (if length s \<le> length b then
        if s = [] then (1, if nmatch \<noteq> 0 then [\<lparr>beg = 0, match_end = 0, mb_len = 0\<rparr>] else [])
        else case instr_loop (sort_order cs) b s 0 of
               None \<Rightarrow> (0, [])
             | Some pos \<Rightarrow>
                 let e0 = pos mod 2 ^ 32; e1 = (e0 + length s) mod 2 ^ 32
                 in (2, take nmatch [\<lparr>beg = 0, match_end = e0, mb_len = e0\<rparr>,
                                     \<lparr>beg = e0, match_end = e1, mb_len = (e1 + 2 ^ 32 - e0) mod 2 ^ 32\<rparr>])
      else (0, []))"

section \<open>The largest character\<close>

lemma max_sort_loop_max:
  assumes "\<And>j. j < i \<Longrightarrow> so (of_nat j) \<le> so m" "j < 256"
  shows "so (of_nat j) \<le> so (max_sort_loop so i (so m) m)"
  using assms(1)
proof (induction "256 - i" arbitrary: i m)
  case 0
  then have "j < i" using assms(2) by linarith
  then show ?case using 0 by (subst max_sort_loop.simps) simp
next
  case (Suc n)
  then have i: "i < 256" "n = 256 - (i + 1)" by linarith+
  show ?case
  proof (cases "so (of_nat i) > so m")
    case True
    have "so (of_nat k) \<le> so (of_nat i)" if "k < i + 1" for k
      using that True Suc.prems [of k] by (cases "k = i") (auto intro: order_trans less_imp_le)
    from Suc.hyps(1) [OF i(2) this] show ?thesis using i True by (subst max_sort_loop.simps) simp
  next
    case False
    have "so (of_nat k) \<le> so m" if "k < i + 1" for k
      using that False Suc.prems [of k] by (cases "k = i") auto
    from Suc.hyps(1) [OF i(2) this] show ?thesis using i False by (subst max_sort_loop.simps) simp
  qed
qed

lemma set_max_sort_char_max: "sort_order cs x \<le> sort_order cs (max_sort_char (set_max_sort_char cs))"
proof -
  have "unat x < 256" using unsigned_less [of x] by simp
  from max_sort_loop_max [OF _ this, of 0 "sort_order cs" "max_sort_char cs"] show ?thesis
    by (simp add: set_max_sort_char_def)
qed

lemma max_sort_loop_top: "max_sort_loop (\<lambda>x. x) i 255 255 = 255"
proof (induction "256 - i" arbitrary: i)
  case (Suc n)
  then have "n = 256 - (i + 1)" by linarith
  moreover have "(255 :: u8) = -1" by simp
  then have "\<not> (255 :: u8) < of_nat i" using word_n1_ge [of "of_nat i :: u8"] by (simp only: not_less)
  ultimately show ?case using Suc.hyps(1) [of "i + 1"] by (subst max_sort_loop.simps) simp
qed (subst max_sort_loop.simps, simp)

section \<open>The range holds every match\<close>

text \<open>
  The conditions on the weights: the byte 0 has the least weight and the largest character the greatest one,
  and the padding lies between them. A collation with one of the two flags has padding below every weight.
\<close>

definition range_setup :: "charset_info_st \<Rightarrow> (u8 \<Rightarrow> int) \<Rightarrow> int \<Rightarrow> bool" where
  "range_setup cs w p \<longleftrightarrow> (\<forall>x. w 0 \<le> w x \<and> w x \<le> w (max_sort_char cs)) \<and> p \<le> w (max_sort_char cs) \<and>
     (if cs_state cs AND (MY_CS_BINSORT OR MY_CS_NOPAD) \<noteq> 0 then \<forall>x. p \<le> w x else w 0 \<le> p)"

definition in_range :: "(u8 \<Rightarrow> int) \<Rightarrow> int \<Rightarrow> nat \<Rightarrow> u8 list \<Rightarrow> u8 list \<times> u8 list \<times> nat \<times> nat \<Rightarrow> bool" where
  "in_range w p n t = (\<lambda>(mn, mx, l1, l2). length mn = n \<and> length mx = n \<and> l1 \<le> n \<and> l2 \<le> n \<and>
     list_all2 (\<le>) (wkey w p n (take l1 mn)) (wkey w p n t) \<and> list_all2 (\<le>) (wkey w p n t) (wkey w p n (take l2 mx)))"

lemma wkey_append: "wkey w p n (s @ t) = map w s @ wkey w p (n - length s) t"
  by (simp add: wkey_def)

lemma all2_map: "list_all2 (\<lambda>x y. w x \<le> w y) s t \<longleftrightarrow> list_all2 (\<le>) (map w s) (map w t)"
  by (simp add: list_all2_map1 list_all2_map2)

lemma all2_snoc: "list_all2 R (s @ [x]) (t @ [y]) \<longleftrightarrow> list_all2 R s t \<and> R x y"
proof -
  have "list_all2 R (s @ [x]) (t @ [y]) = list_all2 R (rev (s @ [x])) (rev (t @ [y]))" by (simp only: list_all2_rev)
  also have "\<dots> \<longleftrightarrow> R x y \<and> list_all2 R (rev s) (rev t)" by simp
  finally show ?thesis by (simp add: list_all2_rev conj_commute)
qed

lemma wkey_lower: "\<forall>x. q \<le> w x \<Longrightarrow> q \<le> p \<Longrightarrow> length s \<le> n \<Longrightarrow> list_all2 (\<le>) (replicate n q) (wkey w p n s)"
  by (auto simp: list_all2_conv_all_nth wkey_def nth_append)

lemma wkey_upper: "\<forall>x. w x \<le> q \<Longrightarrow> p \<le> q \<Longrightarrow> length s \<le> n \<Longrightarrow> list_all2 (\<le>) (wkey w p n s) (replicate n q)"
  by (auto simp: list_all2_conv_all_nth wkey_def nth_append)

lemma wkey_full: "wkey w p n (replicate n x) = replicate n (w x)"
  by (simp add: wkey_def)

text \<open>The exact end: the written bytes stand for the whole key.\<close>

lemma exact_in_range:
  assumes "length s1 = length mn" "length mx = length mn" "length mn \<le> n"
    and "list_all2 (\<lambda>x y. w x \<le> w y) mn s1" "list_all2 (\<lambda>x y. w x \<le> w y) s1 mx"
  shows "in_range w p n s1 (mn @ replicate (n - length mn) 0x20, mx @ replicate (n - length mn) 0x20, length mn, length mn)"
proof -
  have r: "list_all2 (\<le>) (replicate (n - length mn) p) (replicate (n - length mn) p)" by (rule list_all2_refl) simp
  have "list_all2 (\<le>) (map w mn @ replicate (n - length mn) p) (map w s1 @ replicate (n - length mn) p)"
    by (rule list_all2_appendI [OF all2_map [THEN iffD1, OF assms(4)] r])
  moreover have "list_all2 (\<le>) (map w s1 @ replicate (n - length mn) p) (map w mx @ replicate (n - length mn) p)"
    by (rule list_all2_appendI [OF all2_map [THEN iffD1, OF assms(5)] r])
  ultimately show ?thesis using assms(1-3) by (simp add: in_range_def wkey_def)
qed

lemma many_in_range:
  assumes "length s1 = length mn" "length mx = length mn" "length mn \<le> n"
    and "list_all2 (\<lambda>x y. w x \<le> w y) mn s1" "list_all2 (\<lambda>x y. w x \<le> w y) s1 mx" and rset: "range_setup cs w p"
  shows "in_range w p n (take n (s1 @ s2))
    (mn @ replicate (n - length mn) 0, mx @ replicate (n - length mn) (max_sort_char cs),
     if cs_state cs AND (MY_CS_BINSORT OR MY_CS_NOPAD) \<noteq> 0 then length mn else n, n)"
proof -
  let ?m = "n - length mn" and ?q = "w (max_sort_char cs)"
  let ?t = "take ?m s2"
  have t: "take n (s1 @ s2) = s1 @ ?t" using assms(1,3) by simp
  have key: "wkey w p n (s1 @ ?t) = map w s1 @ wkey w p ?m ?t" using assms(1) by (simp add: wkey_append)
  have len: "length ?t \<le> ?m" by simp
  have up: "list_all2 (\<le>) (wkey w p n (s1 @ ?t)) (map w mx @ replicate ?m ?q)"
    unfolding key using rset len
    by (intro list_all2_appendI wkey_upper all2_map [THEN iffD1, OF assms(5)]) (auto simp: range_setup_def)
  have lo: "list_all2 (\<le>) (map w mn @ replicate ?m q) (wkey w p n (s1 @ ?t))" if "\<forall>x. q \<le> w x" "q \<le> p" for q
    unfolding key using that len by (intro list_all2_appendI wkey_lower all2_map [THEN iffD1, OF assms(4)]) auto
  show ?thesis
  proof (cases "cs_state cs AND (MY_CS_BINSORT OR MY_CS_NOPAD) = 0")
    case True
    then have "\<forall>x. w 0 \<le> w x" "w 0 \<le> p" using rset by (auto simp: range_setup_def)
    from lo [OF this] show ?thesis using True up assms(2,3) unfolding t in_range_def by (simp add: wkey_append wkey_full)
  next
    case False
    then have "\<forall>x. p \<le> w x" using rset by (auto simp: range_setup_def)
    from lo [OF this order_refl] show ?thesis using False up assms(2,3) unfolding t in_range_def by (simp add: wkey_append wkey_full wkey_def)
  qed
qed

lemma like_range_loop_covers:
  assumes "like a s2 (like_items a ptr)"
    and "length s1 = length mn" "length mx = length mn" "length mn \<le> n" "charlen = n - length mn"
    and "list_all2 (\<lambda>x y. w x \<le> w y) mn s1" "list_all2 (\<lambda>x y. w x \<le> w y) s1 mx"
    and rset: "range_setup cs w p" "escape a \<noteq> w_one a" "escape a \<noteq> w_many a" "w_one a \<noteq> w_many a"
    and conv: "\<And>x y. likeconv a x = likeconv a y \<Longrightarrow> w x = w y"
  shows "in_range w p n (take n (s1 @ s2)) (like_range_loop cs (escape a) (w_one a) (w_many a) n ptr charlen mn mx)"
  using assms(1-8)
proof (induction cs "escape a" "w_one a" "w_many a" n ptr charlen mn mx arbitrary: s1 s2 rule: like_range_loop.induct)
  case (1 cs res charlen mn mx)
  then show ?case using exact_in_range [of s1 mn mx res w p] by simp
next
  case (2 cs res c ptr charlen mn mx)
  note rs = "2.prems"
  show ?case
  proof (cases "length mn = res \<or> charlen = 0")
    case True
    then have "length mn = res" using rs by auto
    then show ?thesis using True rs exact_in_range [of s1 mn mx res w p] by simp
  next
    case more: False
    have step: "in_range w p res (take res (s1 @ s2)) (like_range_loop cs (escape a) (w_one a) (w_many a) res rest (charlen - 1) (mn @ [d]) (mx @ [e]))"
      if IH: "\<And>s1 s2. like a s2 (like_items a rest) \<Longrightarrow> length s1 = length (mn @ [d]) \<Longrightarrow> length (mx @ [e]) = length (mn @ [d]) \<Longrightarrow>
          length (mn @ [d]) \<le> res \<Longrightarrow> charlen - 1 = res - length (mn @ [d]) \<Longrightarrow>
          list_all2 (\<lambda>x y. w x \<le> w y) (mn @ [d]) s1 \<Longrightarrow> list_all2 (\<lambda>x y. w x \<le> w y) s1 (mx @ [e]) \<Longrightarrow> range_setup cs w p \<Longrightarrow>
          in_range w p res (take res (s1 @ s2)) (like_range_loop cs (escape a) (w_one a) (w_many a) res rest (charlen - 1) (mn @ [d]) (mx @ [e]))"
        and s2: "s2 = x # s'" "like a s' (like_items a rest)" and le: "w d \<le> w x" "w x \<le> w e" for d e rest x s'
    proof -
      have "in_range w p res (take res ((s1 @ [x]) @ s'))
        (like_range_loop cs (escape a) (w_one a) (w_many a) res rest (charlen - 1) (mn @ [d]) (mx @ [e]))"
        using rs more s2 le by (intro IH) (auto simp: all2_snoc)
      then show ?thesis using s2(1) by simp
    qed
    note wild = rset(2-4)
    show ?thesis
    proof (cases "sint c = escape a \<and> ptr \<noteq> []")
      case True
      then have "like_items a (c # ptr) = Lit (hd ptr) # like_items a (tl ptr)" using wild by (cases ptr) auto
      then obtain x s' where x: "s2 = x # s'" "like a s' (like_items a (tl ptr))" "likeconv a x = likeconv a (hd ptr)"
        using rs(1) by (cases s2) auto
      have "w (hd ptr) = w x" using conv [OF x(3)] by simp
      then have m: "w (hd ptr) \<le> w x" "w x \<le> w (hd ptr)" by simp_all
      have r: "like_range_loop cs (escape a) (w_one a) (w_many a) res (c # ptr) charlen mn mx =
        like_range_loop cs (escape a) (w_one a) (w_many a) res (tl ptr) (charlen - 1) (mn @ [hd ptr]) (mx @ [hd ptr])"
        by (simp only: like_range_loop.simps if_not_P [OF more] if_P [OF True])
      show ?thesis unfolding r by (rule step [OF "2.hyps"(1) [OF more True] x(1,2) m])
    next
      case noesc: False
      show ?thesis
      proof (cases "sint c = w_one a")
        case True
        then have "like_items a (c # ptr) = One # like_items a ptr" using wild by simp
        then obtain x s' where x: "s2 = x # s'" "like a s' (like_items a ptr)" using rs(1) by (cases s2) auto
        have m: "w 0 \<le> w x" "w x \<le> w (max_sort_char cs)" using rs(8) by (auto simp: range_setup_def)
        have r: "like_range_loop cs (escape a) (w_one a) (w_many a) res (c # ptr) charlen mn mx =
          like_range_loop cs (escape a) (w_one a) (w_many a) res ptr (charlen - 1) (mn @ [0]) (mx @ [max_sort_char cs])"
          by (simp only: like_range_loop.simps if_not_P [OF more] if_not_P [OF noesc] if_P [OF True])
        show ?thesis unfolding r by (rule step [OF "2.hyps"(2) [OF more noesc True] x m])
      next
        case noone: False
        show ?thesis
        proof (cases "sint c = w_many a")
          case True
          show ?thesis
            unfolding like_range_loop.simps if_not_P [OF more] if_not_P [OF noesc] if_not_P [OF noone] if_P [OF True]
            by (rule many_in_range [OF rs(2,3,4,6,7,8)])
        next
          case False
          then have "like_items a (c # ptr) = Lit c # like_items a ptr" using noesc noone by (cases ptr) auto
          then obtain x s' where x: "s2 = x # s'" "like a s' (like_items a ptr)" "likeconv a x = likeconv a c"
            using rs(1) by (cases s2) auto
          have "w c = w x" using conv [OF x(3)] by simp
          then have m: "w c \<le> w x" "w x \<le> w c" by simp_all
          have r: "like_range_loop cs (escape a) (w_one a) (w_many a) res (c # ptr) charlen mn mx =
            like_range_loop cs (escape a) (w_one a) (w_many a) res ptr (charlen - 1) (mn @ [c]) (mx @ [c])"
            by (simp only: like_range_loop.simps if_not_P [OF more] if_not_P [OF noesc] if_not_P [OF noone] if_not_P [OF False])
          show ?thesis unfolding r by (rule step [OF "2.hyps"(3) [OF more noesc noone False] x(1,2) m])
        qed
      qed
    qed
  qed
qed

section \<open>The first occurrence is found\<close>

definition occurs_at :: "(u8 \<Rightarrow> u8) \<Rightarrow> u8 list \<Rightarrow> u8 list \<Rightarrow> nat \<Rightarrow> bool" where
  "occurs_at so b s k \<longleftrightarrow> k + length s \<le> length b \<and> map so (take (length s) (drop k b)) = map so s"

lemma instr_rest_iff: "instr_rest so i j \<longleftrightarrow> length j \<le> length i \<and> map so (take (length j) i) = map so j"
  by (induction so i j rule: instr_rest.induct) auto

lemma occurs_Cons_0:
  "s \<noteq> [] \<Longrightarrow> occurs_at so (x # b) s 0 \<longleftrightarrow> so x = so (hd s) \<and> instr_rest so b (tl s)"
  by (cases s) (auto simp: occurs_at_def instr_rest_iff)

lemma occurs_Cons_Suc: "occurs_at so (x # b) s (Suc k) \<longleftrightarrow> occurs_at so b s k"
  by (simp add: occurs_at_def)

lemma instr_loop_first:
  assumes "s \<noteq> []"
  shows "case instr_loop so b s pos of
      None \<Rightarrow> \<forall>k. \<not> occurs_at so b s k
    | Some p \<Rightarrow> \<exists>k. p = pos + k \<and> occurs_at so b s k \<and> (\<forall>j < k. \<not> occurs_at so b s j)"
proof (induction b arbitrary: pos)
  case Nil
  then show ?case using assms by (simp add: occurs_at_def)
next
  case (Cons x b)
  consider "length (x # b) < length s" | "\<not> length (x # b) < length s" "occurs_at so (x # b) s 0"
    | "\<not> length (x # b) < length s" "\<not> occurs_at so (x # b) s 0" by blast
  then show ?case
  proof cases
    case 1
    then show ?thesis by (simp add: occurs_at_def)
  next
    case 2
    then show ?thesis using occurs_Cons_0 [OF assms, of so x b] by simp
  next
    case 3
    then have r: "instr_loop so (x # b) s pos = instr_loop so b s (pos + 1)"
      using occurs_Cons_0 [OF assms, of so x b] by auto
    show ?thesis
    proof (cases "instr_loop so b s (pos + 1)")
      case None
      then have no: "\<not> occurs_at so b s k" for k using Cons.IH [of "pos + 1"] by simp
      have "\<not> occurs_at so (x # b) s k" for k using no 3(2) by (cases k) (simp_all add: occurs_Cons_Suc)
      then show ?thesis unfolding r using None by simp
    next
      case (Some p)
      then obtain k where k: "p = pos + 1 + k" "occurs_at so b s k" "\<forall>j < k. \<not> occurs_at so b s j"
        using Cons.IH [of "pos + 1"] by auto
      have "\<not> occurs_at so (x # b) s j" if "j < Suc k" for j using that k(3) 3(2) by (cases j) (simp_all add: occurs_Cons_Suc)
      then have "p = pos + Suc k \<and> occurs_at so (x # b) s (Suc k) \<and> (\<forall>j < Suc k. \<not> occurs_at so (x # b) s j)"
        using k(1,2) by (simp add: occurs_Cons_Suc)
      then show ?thesis unfolding r Some by (simp only: option.case) blast
    qed
  qed
qed

lemma occurs_zero_empty: "occurs_at so b [] 0"
  by (simp add: occurs_at_def)

lemma instr_simple_first:
  assumes "length b < 2 ^ 32"
  shows "my_instr_simple cs b s 2 =
    (if s = [] then (1, [\<lparr>beg = 0, match_end = 0, mb_len = 0\<rparr>])
     else if \<exists>k. occurs_at (sort_order cs) b s k then
       let k = LEAST k. occurs_at (sort_order cs) b s k
       in (2, [\<lparr>beg = 0, match_end = k, mb_len = k\<rparr>, \<lparr>beg = k, match_end = k + length s, mb_len = length s\<rparr>])
     else (0, []))"
proof (cases "s = [] \<or> length s > length b")
  case True
  then show ?thesis by (auto simp: my_instr_simple_def occurs_at_def)
next
  case False
  then have s: "s \<noteq> []" "length s \<le> length b" by auto
  show ?thesis
  proof (cases "instr_loop (sort_order cs) b s 0")
    case None
    then have "\<not> (\<exists>k. occurs_at (sort_order cs) b s k)" using instr_loop_first [OF s(1), of "sort_order cs" b 0] by simp
    then show ?thesis using None s unfolding my_instr_simple_def by auto
  next
    case (Some p)
    have p: "occurs_at (sort_order cs) b s p" "\<And>j. j < p \<Longrightarrow> \<not> occurs_at (sort_order cs) b s j"
      using instr_loop_first [OF s(1), of "sort_order cs" b 0] Some by auto
    then have l: "(LEAST k. occurs_at (sort_order cs) b s k) = p" by (intro Least_equality) (auto simp: not_less [symmetric])
    have "p + length s < 2 ^ 32" using p(1) assms by (simp add: occurs_at_def)
    then have "p mod 2 ^ 32 = p" "(p + length s) mod 2 ^ 32 = p + length s" "(p + length s + 2 ^ 32 - p) mod 2 ^ 32 = length s"
      by simp_all
    then show ?thesis using Some p(1) s unfolding l my_instr_simple_def by (auto simp: Let_def numeral_2_eq_2)
  qed
qed

end
