(* ===== verification/CollHandlers.thy ===== *)
theory CollHandlers
  imports LikeRange
begin

text \<open>
  The collation handlers of the 8-bit character sets (the tables at the end of strings/ctype-simple.c and
  strings/ctype-bin.c) and their choice in mysys/charset.c. The locales state what the server expects of a
  collation; each handler is an interpretation, and the properties hold for the handler that the flags of a
  character set select.
\<close>

section \<open>Collation handlers\<close>

definition my_coll_init_simple :: "charset_info_st \<Rightarrow> charset_info_st" where
  "my_coll_init_simple cs =
     set_max_sort_char (cs\<lparr>cs_state := cs_state cs OR
       (if sort_order cs 0x41 < sort_order cs 0x61 \<and> sort_order cs 0x61 < sort_order cs 0x42 then 1024 else 0)\<rparr>)"

definition my_coll_init_8bit_bin :: "charset_info_st \<Rightarrow> charset_info_st" where
  "my_coll_init_8bit_bin cs = cs\<lparr>max_sort_char := 255\<rparr>"

text \<open>
  The entries of \<open>MY_COLLATION_HANDLER\<close> that are modelled. A hash value depends on the address of the key
  only through the word loop of \<open>skip_trailing_space\<close>; the guard of the matcher is \<open>my_string_stack_guard\<close>.
\<close>

record collation_handler =
  coll_init :: "charset_info_st \<Rightarrow> charset_info_st"
  strnncollsp :: "charset_info_st \<Rightarrow> u8 list \<Rightarrow> u8 list \<Rightarrow> int"
  strnncollsp_nchars :: "charset_info_st \<Rightarrow> u8 list \<Rightarrow> u8 list \<Rightarrow> nat \<Rightarrow> int"
  strnxfrm :: "charset_info_st \<Rightarrow> nat \<Rightarrow> nat \<Rightarrow> u8 list \<Rightarrow> u32 \<Rightarrow> u8 list"
  like_range :: "charset_info_st \<Rightarrow> u8 list \<Rightarrow> int \<Rightarrow> int \<Rightarrow> int \<Rightarrow> nat \<Rightarrow> u8 list \<times> u8 list \<times> nat \<times> nat"
  wildcmp :: "(nat \<Rightarrow> bool) \<Rightarrow> charset_info_st \<Rightarrow> u8 list \<Rightarrow> u8 list \<Rightarrow> int \<Rightarrow> int \<Rightarrow> int \<Rightarrow> int"
  hash_sort :: "charset_info_st \<Rightarrow> nat \<Rightarrow> u8 list \<Rightarrow> u64 \<times> u64 \<Rightarrow> u64 \<times> u64"
  min_str :: "charset_info_st \<Rightarrow> nat \<Rightarrow> nat \<Rightarrow> u8 list"
  max_str :: "charset_info_st \<Rightarrow> nat \<Rightarrow> nat \<Rightarrow> u8 list"

definition my_collation_8bit_simple_ci_handler :: collation_handler where
  "my_collation_8bit_simple_ci_handler =
     \<lparr>coll_init = my_coll_init_simple,
      strnncollsp = my_strnncollsp_simple,
      strnncollsp_nchars = my_strnncollsp_nchars_simple,
      strnxfrm = my_strnxfrm_simple,
      like_range = my_like_range_simple,
      wildcmp = (\<lambda>guard cs. my_wildcmp_8bit guard (sort_order cs)),
      hash_sort = my_hash_sort_simple,
      min_str = my_min_str_8bit_simple,
      max_str = my_max_str_8bit_simple\<rparr>"

definition my_collation_8bit_simple_nopad_ci_handler :: collation_handler where
  "my_collation_8bit_simple_nopad_ci_handler =
     \<lparr>coll_init = my_coll_init_simple,
      strnncollsp = my_strnncollsp_simple_nopad,
      strnncollsp_nchars = my_strnncollsp_nchars_simple,
      strnxfrm = my_strnxfrm_simple_nopad,
      like_range = my_like_range_simple,
      wildcmp = (\<lambda>guard cs. my_wildcmp_8bit guard (sort_order cs)),
      hash_sort = (\<lambda>cs ptr. my_hash_sort_simple_nopad cs),
      min_str = my_min_str_8bit_simple_nopad,
      max_str = my_max_str_8bit_simple\<rparr>"

definition my_collation_8bit_bin_handler :: collation_handler where
  "my_collation_8bit_bin_handler =
     \<lparr>coll_init = my_coll_init_8bit_bin,
      strnncollsp = (\<lambda>cs. my_strnncollsp_8bit_bin),
      strnncollsp_nchars = (\<lambda>cs. my_strnncollsp_nchars_8bit_bin),
      strnxfrm = my_strnxfrm_8bit_bin,
      like_range = my_like_range_simple,
      wildcmp = (\<lambda>guard cs. my_wildcmp_bin guard),
      hash_sort = (\<lambda>cs. my_hash_sort_8bit_bin),
      min_str = my_min_str_8bit_simple,
      max_str = my_max_str_8bit_simple\<rparr>"

definition my_collation_8bit_nopad_bin_handler :: collation_handler where
  "my_collation_8bit_nopad_bin_handler =
     \<lparr>coll_init = my_coll_init_8bit_bin,
      strnncollsp = (\<lambda>cs. my_strnncollsp_8bit_nopad_bin),
      strnncollsp_nchars = (\<lambda>cs. my_strnncollsp_nchars_8bit_bin),
      strnxfrm = my_strnxfrm_8bit_nopad_bin,
      like_range = my_like_range_simple,
      wildcmp = (\<lambda>guard cs. my_wildcmp_bin guard),
      hash_sort = (\<lambda>cs ptr. my_hash_sort_bin),
      min_str = my_min_str_8bit_simple_nopad,
      max_str = my_max_str_8bit_simple\<rparr>"

definition get_simple_collation_handler_by_flags :: "u32 \<Rightarrow> collation_handler" where
  "get_simple_collation_handler_by_flags flags =
     (if flags AND MY_CS_BINSORT \<noteq> 0 then
        if flags AND MY_CS_NOPAD \<noteq> 0 then my_collation_8bit_nopad_bin_handler else my_collation_8bit_bin_handler
      else if flags AND MY_CS_NOPAD \<noteq> 0 then my_collation_8bit_simple_nopad_ci_handler
      else my_collation_8bit_simple_ci_handler)"

text \<open>The handler of a character set, \<open>cs->coll\<close>.\<close>

abbreviation cs_coll :: "charset_info_st \<Rightarrow> collation_handler" where
  "cs_coll cs \<equiv> get_simple_collation_handler_by_flags (cs_state cs)"

text \<open>The table entries of three handlers, for concrete character sets.\<close>

lemma ci_entries:
  assumes "cs_state cs = 0"
  shows "strnncollsp (cs_coll cs) = my_strnncollsp_simple" "hash_sort (cs_coll cs) = my_hash_sort_simple"
    "strnxfrm (cs_coll cs) = my_strnxfrm_simple" "like_range (cs_coll cs) = my_like_range_simple"
    "wildcmp (cs_coll cs) guard cs = my_wildcmp_8bit guard (sort_order cs)" "coll_init (cs_coll cs) = my_coll_init_simple"
  by (simp_all add: assms get_simple_collation_handler_by_flags_def my_collation_8bit_simple_ci_handler_def)

lemma nopad_entries:
  assumes "cs_state cs = MY_CS_NOPAD"
  shows "strnncollsp (cs_coll cs) = my_strnncollsp_simple_nopad" "strnxfrm (cs_coll cs) = my_strnxfrm_simple_nopad"
  by (simp_all add: assms get_simple_collation_handler_by_flags_def my_collation_8bit_simple_nopad_ci_handler_def
      MY_CS_NOPAD_def MY_CS_BINSORT_def)

lemma bin_entries:
  assumes "cs_state cs = MY_CS_BINSORT"
  shows "strnncollsp (cs_coll cs) cs = my_strnncollsp_8bit_bin" "like_range (cs_coll cs) = my_like_range_simple"
    "wildcmp (cs_coll cs) guard cs = my_wildcmp_bin guard"
  by (simp_all add: assms get_simple_collation_handler_by_flags_def my_collation_8bit_bin_handler_def
      MY_CS_NOPAD_def MY_CS_BINSORT_def)

lemma plain_bytes_state: "cs_state plain_bytes = 0"
  by (simp add: plain_bytes_def)

section \<open>What a collation promises\<close>

text \<open>
  The interface the server relies on: a comparison that follows the padded weights, a hash function that
  depends on the padded weights only, and the smallest and the largest string.
\<close>

locale weighted_collation =
  fixes coll :: "u8 list \<Rightarrow> u8 list \<Rightarrow> int" and weight :: "u8 \<Rightarrow> int" and pad :: int
  assumes coll_weights: "length a \<le> n \<Longrightarrow> length b \<le> n \<Longrightarrow> n < 2 ^ 31 \<Longrightarrow>
    sgn (coll a b) = sgn (wcmp (wkey weight pad n a) (wkey weight pad n b))"
begin

lemma coll_same: "length a < 2 ^ 31 \<Longrightarrow> coll a a = 0"
  using coll_weights [of a "length a" a] by (simp add: sgn_0_0)

lemma coll_swap: "length a < 2 ^ 31 \<Longrightarrow> length b < 2 ^ 31 \<Longrightarrow> sgn (coll b a) = - sgn (coll a b)"
  using coll_weights [of a "max (length a) (length b)" b] coll_weights [of b "max (length a) (length b)" a]
    wcmp_swap [of "wkey weight pad (max (length a) (length b)) b" "wkey weight pad (max (length a) (length b)) a"]
  by simp

lemma le_zero_wcmp: "length a \<le> n \<Longrightarrow> length b \<le> n \<Longrightarrow> n < 2 ^ 31 \<Longrightarrow>
    coll a b \<le> 0 \<longleftrightarrow> wcmp (wkey weight pad n a) (wkey weight pad n b) \<le> 0"
  using coll_weights [of a n b] by (metis not_less sgn_greater)

lemma coll_trans:
  assumes "length a < 2 ^ 31" "length b < 2 ^ 31" "length c < 2 ^ 31" "coll a b \<le> 0" "coll b c \<le> 0"
  shows "coll a c \<le> 0"
proof -
  define n where "n = max (length a) (max (length b) (length c))"
  have n: "length a \<le> n" "length b \<le> n" "length c \<le> n" "n < 2 ^ 31" using assms(1-3) by (auto simp: n_def)
  show ?thesis using assms(4,5) n wcmp_trans [of "wkey weight pad n a" "wkey weight pad n b" "wkey weight pad n c"]
    by (simp add: le_zero_wcmp [of _ n])
qed

lemma coll_equal: "length a \<le> n \<Longrightarrow> length b \<le> n \<Longrightarrow> n < 2 ^ 31 \<Longrightarrow>
    coll a b = 0 \<longleftrightarrow> wkey weight pad n a = wkey weight pad n b"
  using coll_weights [of a n b] wcmp_eq_0 [of "wkey weight pad n a" "wkey weight pad n b"] by (metis length_wkey sgn_0_0)

lemma coll_pointwise: "length a \<le> n \<Longrightarrow> length b \<le> n \<Longrightarrow> n < 2 ^ 31 \<Longrightarrow>
    list_all2 (\<le>) (wkey weight pad n a) (wkey weight pad n b) \<Longrightarrow> coll a b \<le> 0"
  using le_zero_wcmp wcmp_pointwise by blast

end

locale hashed_collation = weighted_collation +
  fixes hash :: "nat \<Rightarrow> u8 list \<Rightarrow> u64 \<times> u64 \<Rightarrow> u64 \<times> u64"
  assumes hash_weights: "length a \<le> n \<Longrightarrow> length b \<le> n \<Longrightarrow> wkey weight pad n a = wkey weight pad n b \<Longrightarrow> hash p a m = hash q b m"
begin

lemma equal_hash: "length a < 2 ^ 31 \<Longrightarrow> length b < 2 ^ 31 \<Longrightarrow> coll a b = 0 \<Longrightarrow> hash p a m = hash q b m"
  using coll_equal [of a "max (length a) (length b)" b] hash_weights [of a "max (length a) (length b)" b] by simp

end

section \<open>The handlers keep the promise\<close>

interpretation ci: hashed_collation "my_strnncollsp_simple cs" "\<lambda>x. uint (sort_order cs x)" "uint (sort_order cs 0x20)"
  "my_hash_sort_simple cs" for cs
proof unfold_locales
  fix a b :: "u8 list" and n p q :: nat and m :: "u64 \<times> u64"
  assume l: "length a \<le> n" "length b \<le> n"
  then show "sgn (my_strnncollsp_simple cs a b) =
      sgn (wcmp (wkey (\<lambda>x. uint (sort_order cs x)) (uint (sort_order cs 0x20)) n a)
                (wkey (\<lambda>x. uint (sort_order cs x)) (uint (sort_order cs 0x20)) n b))" by (rule collsp_simple_order)
  assume "wkey (\<lambda>x. uint (sort_order cs x)) (uint (sort_order cs 0x20)) n a = wkey (\<lambda>x. uint (sort_order cs x)) (uint (sort_order cs 0x20)) n b"
  from wkey_rtrim [OF this] show "my_hash_sort_simple cs p a m = my_hash_sort_simple cs q b m"
    by (simp only: hash_simple_weights)
qed

lemma wkey_nopad_eq:
  fixes so :: "u8 \<Rightarrow> u8"
  assumes "wkey (\<lambda>x. uint (so x)) (-1) n a = wkey (\<lambda>x. uint (so x)) (-1) n b"
  shows "map so a = map so b"
proof -
  have r: "rtrim (\<lambda>x. x = -1) (map (\<lambda>x. uint (so x)) s) = map (\<lambda>x. uint (so x)) s" for s
    by (cases "rev (map (\<lambda>x. uint (so x)) s)") (auto simp: rtrim_def rev_map)
  have "rtrim (\<lambda>x. x = -1) (wkey (\<lambda>x. uint (so x)) (-1) n s) = map (\<lambda>x. uint (so x)) s" for s
    unfolding wkey_def rtrim_replicate by (rule r)
  then have "map (\<lambda>x. uint (so x)) a = map (\<lambda>x. uint (so x)) b" using assms by metis
  then have "map uint (map so a) = map uint (map so b)" by (simp add: comp_def)
  then show ?thesis by (simp only: inj_map_eq_map [OF injI [OF uint_inj [THEN iffD1]]])
qed

interpretation nopad_ci: hashed_collation "my_strnncollsp_simple_nopad cs" "\<lambda>x. uint (sort_order cs x)" "-1"
  "\<lambda>ptr. my_hash_sort_simple_nopad cs" for cs
proof unfold_locales
  fix a b :: "u8 list" and n :: nat and m :: "u64 \<times> u64"
  assume l: "length a \<le> n" "length b \<le> n"
  then show "sgn (my_strnncollsp_simple_nopad cs a b) =
      sgn (wcmp (wkey (\<lambda>x. uint (sort_order cs x)) (-1) n a) (wkey (\<lambda>x. uint (sort_order cs x)) (-1) n b))"
    by (rule coll_simple_order)
  assume "wkey (\<lambda>x. uint (sort_order cs x)) (-1) n a = wkey (\<lambda>x. uint (sort_order cs x)) (-1) n b"
  from wkey_nopad_eq [OF this] show "my_hash_sort_simple_nopad cs a m = my_hash_sort_simple_nopad cs b m"
    by (simp only: hash_nopad_weights)
qed

interpretation bin: hashed_collation my_strnncollsp_8bit_bin uint "uint (0x20 :: u8)" my_hash_sort_8bit_bin
proof unfold_locales
  fix a b :: "u8 list" and n p q :: nat and m :: "u64 \<times> u64"
  assume l: "length a \<le> n" "length b \<le> n"
  show "sgn (my_strnncollsp_8bit_bin a b) = sgn (wcmp (wkey uint (uint (0x20 :: u8)) n a) (wkey uint (uint (0x20 :: u8)) n b))"
    using collsp_simple_order [OF l, of plain_bytes] by (simp add: collsp_bin_simple plain_bytes_def)
  assume "wkey uint (uint (0x20 :: u8)) n a = wkey uint (uint (0x20 :: u8)) n b"
  then have "rtrim (\<lambda>w. w = 0x20) a = rtrim (\<lambda>w. w = 0x20) b" using wkey_rtrim [of "\<lambda>x. x" "0x20" n a b] by simp
  then show "my_hash_sort_8bit_bin p a m = my_hash_sort_8bit_bin q b m"
    by (simp add: my_hash_sort_8bit_bin_def skip_trailing_space_correct(1))
qed

interpretation nopad_bin: hashed_collation my_strnncollsp_8bit_nopad_bin uint "-1" "\<lambda>ptr. my_hash_sort_bin"
proof unfold_locales
  fix a b :: "u8 list" and n :: nat and m :: "u64 \<times> u64"
  assume l: "length a \<le> n" "length b \<le> n"
  show "sgn (my_strnncollsp_8bit_nopad_bin a b) = sgn (wcmp (wkey uint (-1) n a) (wkey uint (-1) n b))" if "n < 2 ^ 31"
    using coll_simple_order [OF l, of plain_bytes] coll_bin_simple [of a b] l that
    by (simp add: my_strnncollsp_8bit_nopad_bin_def plain_bytes_def)
  assume "wkey uint (-1) n a = wkey uint (-1) n b"
  then have "a = b" using wkey_nopad_eq [of "\<lambda>x. x" n a b] by simp
  then show "my_hash_sort_bin a m = my_hash_sort_bin b m" by simp
qed

text \<open>The weights and the padding of the collation that the flags of a character set select.\<close>

definition coll_weight :: "charset_info_st \<Rightarrow> u8 \<Rightarrow> int" where
  "coll_weight cs x = (if cs_state cs AND MY_CS_BINSORT \<noteq> 0 then uint x else uint (sort_order cs x))"

definition coll_pad :: "charset_info_st \<Rightarrow> int" where
  "coll_pad cs = (if cs_state cs AND MY_CS_NOPAD \<noteq> 0 then -1 else coll_weight cs 0x20)"

lemmas handler_defs = get_simple_collation_handler_by_flags_def my_collation_8bit_simple_ci_handler_def
  my_collation_8bit_simple_nopad_ci_handler_def my_collation_8bit_bin_handler_def my_collation_8bit_nopad_bin_handler_def

lemma coll_weight_cases:
  "cs_state cs AND MY_CS_BINSORT \<noteq> 0 \<Longrightarrow> coll_weight cs = uint"
  "cs_state cs AND MY_CS_BINSORT = 0 \<Longrightarrow> coll_weight cs = (\<lambda>x. uint (sort_order cs x))"
  by (auto simp: coll_weight_def)

interpretation handler: hashed_collation "strnncollsp (get_simple_collation_handler_by_flags (cs_state cs)) cs"
  "coll_weight cs" "coll_pad cs" "hash_sort (get_simple_collation_handler_by_flags (cs_state cs)) cs" for cs
proof -
  consider "cs_state cs AND MY_CS_BINSORT = 0" "cs_state cs AND MY_CS_NOPAD = 0"
    | "cs_state cs AND MY_CS_BINSORT = 0" "cs_state cs AND MY_CS_NOPAD \<noteq> 0"
    | "cs_state cs AND MY_CS_BINSORT \<noteq> 0" "cs_state cs AND MY_CS_NOPAD = 0"
    | "cs_state cs AND MY_CS_BINSORT \<noteq> 0" "cs_state cs AND MY_CS_NOPAD \<noteq> 0" by blast
  then show "hashed_collation (strnncollsp (get_simple_collation_handler_by_flags (cs_state cs)) cs) (coll_weight cs) (coll_pad cs)
    (hash_sort (get_simple_collation_handler_by_flags (cs_state cs)) cs)"
  proof cases
    case 1
    then show ?thesis using ci.hashed_collation_axioms [of cs] by (simp add: handler_defs coll_weight_cases coll_pad_def)
  next
    case 2
    then show ?thesis using nopad_ci.hashed_collation_axioms [of cs] by (simp add: handler_defs coll_weight_cases coll_pad_def)
  next
    case 3
    then show ?thesis using bin.hashed_collation_axioms by (simp add: handler_defs coll_weight_cases coll_pad_def)
  next
    case 4
    then show ?thesis using nopad_bin.hashed_collation_axioms by (simp add: handler_defs coll_weight_cases coll_pad_def)
  qed
qed

text \<open>
  C12: For every choice of flags, \<open>strnncollsp\<close> of the selected handler is a total preorder on the strings
  below 2 GB: it is reflexive, swapping the arguments swaps the sign, and it is transitive. Strings that
  compare as equal have the same hash value, at any two addresses.
\<close>

theorem collation_total_preorder:
  assumes "length a < 2 ^ 31" "length b < 2 ^ 31" "length c < 2 ^ 31"
  shows "strnncollsp (cs_coll cs) cs a a = 0 \<and>
    sgn (strnncollsp (cs_coll cs) cs b a) = - sgn (strnncollsp (cs_coll cs) cs a b) \<and>
    (strnncollsp (cs_coll cs) cs a b \<le> 0 \<and> strnncollsp (cs_coll cs) cs b c \<le> 0 \<longrightarrow> strnncollsp (cs_coll cs) cs a c \<le> 0) \<and>
    (strnncollsp (cs_coll cs) cs a b = 0 \<longrightarrow> hash_sort (cs_coll cs) cs p a m = hash_sort (cs_coll cs) cs q b m)"
  using handler.coll_same [OF assms(1)] handler.coll_swap [OF assms(1,2)] handler.coll_trans [OF assms(1-3)]
    handler.equal_hash [OF assms(1,2)] by blast

theorem collation_total_preorder_witness:
  "length [0x61 :: u8] < 2 ^ 31 \<and> length [0x61 :: u8, 0x20] < 2 ^ 31 \<and> length [0x62 :: u8] < 2 ^ 31 \<and>
   strnncollsp (cs_coll plain_bytes) plain_bytes [0x61, 0x20] [0x61] = 0 \<and>
   hash_sort (cs_coll plain_bytes) plain_bytes 8 [0x61] (1, 4) = hash_sort (cs_coll plain_bytes) plain_bytes 16 [0x61, 0x20] (1, 4)"
proof -
  have "strnncollsp (cs_coll plain_bytes) plain_bytes [0x61] [0x61, 0x20] = 0"
    unfolding ci_entries [OF plain_bytes_state] by code_simp
  then show ?thesis
    using collation_total_preorder [of "[0x61]" "[0x61, 0x20]" "[0x62]" plain_bytes 8 "(1, 4)" 16] by (simp add: sgn_0_0)
qed

section \<open>Sort keys follow the order\<close>

definition weight_byte :: "charset_info_st \<Rightarrow> u8 \<Rightarrow> u8" where
  "weight_byte cs x = (if cs_state cs AND MY_CS_BINSORT \<noteq> 0 then x else sort_order cs x)"

definition fill_byte :: "charset_info_st \<Rightarrow> u8" where
  "fill_byte cs = (if cs_state cs AND MY_CS_NOPAD \<noteq> 0 then 0 else pad_char cs)"

lemma coll_weight_byte: "coll_weight cs = (\<lambda>x. uint (weight_byte cs x))"
  by (auto simp: coll_weight_def weight_byte_def)

lemma strnxfrm_fill:
  assumes "length s \<le> dstlen" "length s \<le> nweights" "mbminlen cs = 1"
  shows "strnxfrm (cs_coll cs) cs dstlen nweights s flags =
    xfrm_fill (map (weight_byte cs) s) dstlen (nweights - length s) flags 0 (fill_byte cs) 1"
proof -
  have key: "map (weight_byte cs) s = (if cs_state cs AND MY_CS_BINSORT \<noteq> 0 then s else map (sort_order cs) s)"
    by (auto simp: weight_byte_def intro: map_idI)
  have i: "my_strnxfrm_simple_internal cs dstlen nweights s = (map (sort_order cs) s, nweights - length s)"
    using assms by (simp add: my_strnxfrm_simple_internal_def Let_def)
  show ?thesis
    using assms i unfolding handler_defs fill_byte_def key
    by (simp add: my_strnxfrm_simple_def my_strnxfrm_simple_nopad_def my_strnxfrm_8bit_bin_def my_strnxfrm_8bit_nopad_bin_def
        my_strxfrm_pad_desc_and_reverse_def my_strxfrm_pad_desc_and_reverse_nopad_def)
qed

lemma sgn_mult_order: "d = 1 \<or> d = -1 \<Longrightarrow> d * (d * x) = (x :: int)"
  by auto

lemma key_order:
  assumes "length a \<le> min dstlen nweights" "length b \<le> min dstlen nweights" "dstlen < 2 ^ 32" "nweights < 2 ^ 32" "mbminlen cs = 1"
    and "flags AND MY_STRXFRM_PAD_WITH_SPACE \<noteq> 0" "flags AND MY_STRXFRM_REVERSE_LEVEL1 = 0"
  shows "(if flags AND MY_STRXFRM_DESC_LEVEL1 \<noteq> 0 then -1 else 1) *
      memcmp (strnxfrm (cs_coll cs) cs dstlen nweights a flags) (strnxfrm (cs_coll cs) cs dstlen nweights b flags) =
    wcmp (wkey (coll_weight cs) (uint (fill_byte cs)) (min dstlen nweights) a) (wkey (coll_weight cs) (uint (fill_byte cs)) (min dstlen nweights) b)"
proof -
  have l: "length a \<le> dstlen" "length a \<le> nweights" "length b \<le> dstlen" "length b \<le> nweights" using assms(1,2) by simp_all
  show ?thesis
    unfolding strnxfrm_fill [OF l(1,2) assms(5)] strnxfrm_fill [OF l(3,4) assms(5)] xfrm_fill_memcmp [OF l assms(3,4,6,7)]
      coll_weight_byte by simp
qed

text \<open>
  C13: Sort keys of two strings of one-byte characters that fit the buffer and the number of weights, padded
  with spaces and not reversed. For a PAD SPACE collation whose
  space has the weight of the padding byte, \<open>memcmp\<close> of the keys has the sign of \<open>strnncollsp\<close>, or the
  opposite one under the DESC flag. For a NO PAD collation a smaller string never has a greater key.
\<close>

theorem sort_keys_follow_collation:
  assumes "length a \<le> min dstlen nweights" "length b \<le> min dstlen nweights" "dstlen < 2 ^ 31" "nweights < 2 ^ 31"
    and "mbminlen cs = 1" "flags AND MY_STRXFRM_PAD_WITH_SPACE \<noteq> 0" "flags AND MY_STRXFRM_REVERSE_LEVEL1 = 0"
    and "cs_state cs AND MY_CS_NOPAD = 0 \<Longrightarrow> coll_weight cs 0x20 = uint (pad_char cs)"
  shows "let coll = strnncollsp (cs_coll cs) cs a b;
             key = (\<lambda>s. strnxfrm (cs_coll cs) cs dstlen nweights s flags);
             order = (if flags AND MY_STRXFRM_DESC_LEVEL1 \<noteq> 0 then -1 else 1) * memcmp (key a) (key b)
         in if cs_state cs AND MY_CS_NOPAD = 0 then sgn order = sgn coll else coll \<le> 0 \<longrightarrow> order \<le> 0"
proof -
  let ?n = "min dstlen nweights"
  have n: "?n < 2 ^ 31" "dstlen < 2 ^ 32" "nweights < 2 ^ 32" using assms(3,4) by simp_all
  note k = key_order [OF assms(1,2) n(2,3) assms(5-7)]
  show ?thesis
  proof (cases "cs_state cs AND MY_CS_NOPAD = 0")
    case True
    then have "coll_pad cs = uint (fill_byte cs)" using assms(8) by (simp add: coll_pad_def fill_byte_def)
    then show ?thesis using handler.coll_weights [OF assms(1,2) n(1), of cs] True unfolding Let_def k by simp
  next
    case False
    then have p: "coll_pad cs = -1" "uint (fill_byte cs) = 0" by (simp_all add: coll_pad_def fill_byte_def)
    have w: "0 \<le> coll_weight cs x" for x by (simp add: coll_weight_byte)
    show ?thesis
      using handler.le_zero_wcmp [OF assms(1,2) n(1), of cs] wcmp_pad_mono [OF assms(1,2) w] False unfolding Let_def k p by simp
  qed
qed

theorem sort_keys_follow_collation_witness:
  "memcmp (strnxfrm (cs_coll plain_bytes) plain_bytes 4 3 [0x61] 0xC0) (strnxfrm (cs_coll plain_bytes) plain_bytes 4 3 [0x61, 0x21] 0xC0) < 0 \<and>
   coll_weight plain_bytes 0x20 = uint (pad_char plain_bytes) \<and> mbminlen plain_bytes = 1"
proof -
  have c: "strnncollsp (cs_coll plain_bytes) plain_bytes [0x61] [0x61, 0x21] = -1"
    unfolding ci_entries [OF plain_bytes_state] by code_simp
  have f: "cs_state plain_bytes AND MY_CS_NOPAD = 0" "(0xC0 :: u32) AND MY_STRXFRM_DESC_LEVEL1 = 0"
    "(0xC0 :: u32) AND MY_STRXFRM_PAD_WITH_SPACE \<noteq> 0" "(0xC0 :: u32) AND MY_STRXFRM_REVERSE_LEVEL1 = 0" by code_simp+
  have p: "coll_weight plain_bytes 0x20 = uint (pad_char plain_bytes)" "mbminlen plain_bytes = 1" by code_simp+
  from sort_keys_follow_collation [of "[0x61]" 4 3 "[0x61, 0x21]" plain_bytes "0xC0"] c f p show ?thesis
    by (simp add: Let_def sgn_if split: if_splits)
qed

section \<open>Ranges of handlers\<close>

lemma init_state:
  "cs_state (coll_init h cs) AND MY_CS_BINSORT = cs_state cs AND MY_CS_BINSORT"
  "cs_state (coll_init h cs) AND MY_CS_NOPAD = cs_state cs AND MY_CS_NOPAD"
  if "h = cs_coll cs"
  unfolding that handler_defs
  by (simp_all add: my_coll_init_simple_def my_coll_init_8bit_bin_def set_max_sort_char_def MY_CS_BINSORT_def MY_CS_NOPAD_def
      bit.conj_disj_distrib2)

lemma init_coll: "cs_coll (coll_init (cs_coll cs) cs) = cs_coll cs"
  unfolding get_simple_collation_handler_by_flags_def [of "cs_state (coll_init (cs_coll cs) cs)"] init_state [OF refl]
  by (simp add: get_simple_collation_handler_by_flags_def)


lemma init_max:
  fixes cs0 :: charset_info_st
  defines "cs \<equiv> coll_init (cs_coll cs0) cs0"
  shows "coll_weight cs x \<le> coll_weight cs (max_sort_char cs)"
proof (cases "cs_state cs0 AND MY_CS_BINSORT = 0")
  case True
  then have i: "cs = my_coll_init_simple cs0" by (simp add: cs_def handler_defs)
  have w: "coll_weight cs = (\<lambda>x. uint (sort_order cs x))" using True init_state(1) [OF refl, of cs0] by (simp add: cs_def coll_weight_cases)
  define cs1 where "cs1 = cs0\<lparr>cs_state := cs_state cs0 OR
    (if sort_order cs0 0x41 < sort_order cs0 0x61 \<and> sort_order cs0 0x61 < sort_order cs0 0x42 then 1024 else 0)\<rparr>"
  have "cs = set_max_sort_char cs1" unfolding i my_coll_init_simple_def cs1_def ..
  moreover have "sort_order (set_max_sort_char cs1) = sort_order cs1" by (simp add: set_max_sort_char_def)
  ultimately show ?thesis using set_max_sort_char_max [of cs1 x] unfolding w by (simp add: word_le_def)
next
  case False
  then have "cs = my_coll_init_8bit_bin cs0" by (simp add: cs_def handler_defs)
  then have m: "max_sort_char cs = 255" by (simp add: my_coll_init_8bit_bin_def)
  have w: "coll_weight cs = uint" using False init_state(1) [OF refl, of cs0] by (simp add: cs_def coll_weight_cases)
  have "uint x < 2 ^ 8" using uint_lt2p [of x] by simp
  then show ?thesis unfolding w m by simp
qed

text \<open>Matching by the handler is LIKE over its conversion.\<close>

lemma handler_like:
  assumes "wildcmp (cs_coll cs) guard cs s wild esc one many = 0" "one \<noteq> many" "0 \<le> esc" "esc < 128"
  obtains a where "like a s (like_items a wild)" "escape a = esc" "w_one a = one" "w_many a = many"
    "\<And>x y. likeconv a x = likeconv a y \<Longrightarrow> coll_weight cs x = coll_weight cs y"
proof -
  define a where "a = \<lparr>stack_guard = guard, likeconv = weight_byte cs, escape = esc, w_one = one, w_many = many\<rparr>"
  have b: "weight_byte cs = (\<lambda>x. x)" if "cs_state cs AND MY_CS_BINSORT \<noteq> 0" using that by (auto simp: weight_byte_def)
  have c: "weight_byte cs = sort_order cs" if "cs_state cs AND MY_CS_BINSORT = 0" using that by (auto simp: weight_byte_def)
  have "my_wildcmp_impl a 1 s wild = 0" using assms(1) b c unfolding a_def handler_defs
    by (auto simp: my_wildcmp_8bit_def my_wildcmp_8bit_impl_def my_wildcmp_bin_def my_wildcmp_bin_impl_def split: if_splits)
  moreover have "like_setup a" using assms(2-4) by (simp add: like_setup_def a_def)
  ultimately have "like a s (like_items a wild)" using verdictD(2) [OF wildcmp_verdict] by blast
  then show ?thesis by (rule that) (simp_all add: a_def coll_weight_byte)
qed

text \<open>
  C11: The range of a LIKE pattern. After the initialisation of a collation of one-byte characters in which
  the byte 0 has the least weight, and which is NO PAD if it is binary, with two different wildcards, an
  ASCII escape character that is neither of them and keys below 2 GB, every string that the handler matches
  lies between the two keys of \<open>like_range\<close>, compared up to the length of a key.
\<close>

theorem like_range_covers_matches:
  fixes cs0 :: charset_info_st
  assumes "cs = coll_init (cs_coll cs0) cs0" "mbmaxlen cs = 1" "\<And>x. coll_weight cs 0 \<le> coll_weight cs x"
    and "cs_state cs AND MY_CS_BINSORT = 0 \<or> cs_state cs AND MY_CS_NOPAD \<noteq> 0"
    and "one \<noteq> many" "esc \<noteq> one" "esc \<noteq> many" "0 \<le> esc" "esc < 128" "res_length < 2 ^ 31"
    and "wildcmp (cs_coll cs) guard cs s wild esc one many = 0"
    and "like_range (cs_coll cs) cs wild esc one many res_length = (mn, mx, min_length, max_length)"
  shows "strnncollsp (cs_coll cs) cs (take min_length mn) (take res_length s) \<le> 0 \<and>
    strnncollsp (cs_coll cs) cs (take res_length s) (take max_length mx) \<le> 0"
proof -
  obtain a where a: "like a s (like_items a wild)" "escape a = esc" "w_one a = one" "w_many a = many"
    "\<And>x y. likeconv a x = likeconv a y \<Longrightarrow> coll_weight cs x = coll_weight cs y"
    using handler_like [OF assms(11,5,8,9)] by blast
  have max: "coll_weight cs x \<le> coll_weight cs (max_sort_char cs)" for x using init_max [of cs0 x] by (simp add: assms(1))
  have nn: "0 \<le> coll_weight cs x" for x by (simp add: coll_weight_byte)
  have rs: "range_setup cs (coll_weight cs) (coll_pad cs)"
    using assms(3,4) max nn [of "max_sort_char cs"] nn unfolding range_setup_def coll_pad_def
    by (auto simp: bit.conj_disj_distrib or_eq_0_iff intro: order_trans [of _ 0])
  have lr: "like_range (cs_coll cs) cs wild esc one many res_length = like_range_loop cs esc one many res_length wild res_length [] []"
    using assms(2) by (auto simp: handler_defs my_like_range_simple_def)
  have "in_range (coll_weight cs) (coll_pad cs) res_length (take res_length ([] @ s))
      (like_range_loop cs (escape a) (w_one a) (w_many a) res_length wild res_length [] [])"
    by (rule like_range_loop_covers [OF a(1) _ _ _ _ _ _ rs _ _ _ a(5)]) (use a(2-4) assms(5-7) in simp_all)
  then have r: "in_range (coll_weight cs) (coll_pad cs) res_length (take res_length s) (mn, mx, min_length, max_length)"
    using lr assms(12) a(2-4) by simp
  have t: "length (take res_length s) \<le> res_length" by simp
  have l: "length (take min_length mn) \<le> res_length" "length (take max_length mx) \<le> res_length"
    using r by (simp_all add: in_range_def)
  have "list_all2 (\<le>) (wkey (coll_weight cs) (coll_pad cs) res_length (take min_length mn)) (wkey (coll_weight cs) (coll_pad cs) res_length (take res_length s))"
    "list_all2 (\<le>) (wkey (coll_weight cs) (coll_pad cs) res_length (take res_length s)) (wkey (coll_weight cs) (coll_pad cs) res_length (take max_length mx))"
    using r by (simp_all add: in_range_def)
  from handler.coll_pointwise [OF l(1) t assms(10) this(1)] handler.coll_pointwise [OF t l(2) assms(10) this(2)]
  show ?thesis ..
qed

theorem like_range_covers_matches_witness:
  "let cs = coll_init (cs_coll plain_bytes) plain_bytes
   in wildcmp (cs_coll cs) (\<lambda>_. False) cs [0x61, 0x09, 0x62] [0x61, 0x25] 92 95 37 = 0 \<and>
      like_range (cs_coll cs) cs [0x61, 0x25] 92 95 37 3 = ([0x61, 0, 0], [0x61, 255, 255], 3, 3) \<and>
      strnncollsp (cs_coll cs) cs [0x61, 0, 0] [0x61, 0x09, 0x62] \<le> 0 \<and>
      strnncollsp (cs_coll cs) cs [0x61, 0x09, 0x62] [0x61, 255, 255] \<le> 0"
proof -
  define cs where "cs = coll_init (cs_coll plain_bytes) plain_bytes"
  have i: "cs = plain_bytes" unfolding cs_def ci_entries [OF plain_bytes_state]
    using max_sort_loop_top by (simp add: my_coll_init_simple_def set_max_sort_char_def plain_bytes_def)
  have w: "wildcmp (cs_coll cs) (\<lambda>_. False) cs [0x61, 0x09, 0x62] [0x61, 0x25] 92 95 37 = 0"
    unfolding i ci_entries [OF plain_bytes_state] by code_simp
  have r: "like_range (cs_coll cs) cs [0x61, 0x25] 92 95 37 3 = ([0x61, 0, 0], [0x61, 255, 255], 3, 3)"
    unfolding i ci_entries [OF plain_bytes_state] by code_simp
  have b: "mbmaxlen cs = 1" "cs_state cs AND MY_CS_BINSORT = 0" unfolding i plain_bytes_def by simp_all
  have o: "sort_order cs = (\<lambda>x. x)" by (simp add: i plain_bytes_def)
  have z: "coll_weight cs 0 \<le> coll_weight cs x" for x using b(2) by (simp add: coll_weight_cases o)
  have "strnncollsp (cs_coll cs) cs (take 3 [0x61, 0, 0]) (take 3 [0x61, 0x09, 0x62]) \<le> 0 \<and>
    strnncollsp (cs_coll cs) cs (take 3 [0x61, 0x09, 0x62]) (take 3 [0x61, 255, 255]) \<le> 0"
    by (rule like_range_covers_matches [OF cs_def b(1) z disjI1 [OF b(2)] _ _ _ _ _ _ w r]) simp_all
  then show ?thesis using w r by (simp add: Let_def flip: cs_def)
qed

section \<open>Where the conditions fail\<close>

lemma state_of_update: "cs_state (cs\<lparr>cs_state := f\<rparr>) = f"
  by simp

lemma plain_sort_state: "cs_state (plain_bytes\<lparr>sort_order := so\<rparr>) = 0"
  by (simp add: plain_bytes_def)

text \<open>
  latin1_bin and its like are binary and PAD SPACE: the lower key of 'a%' is 'a', but a match with a byte
  below the space after it, as TAB, is smaller than 'a'.
\<close>

lemma binary_pad_range_misses:
  "let cs = plain_bytes\<lparr>cs_state := MY_CS_BINSORT\<rparr>
   in wildcmp (cs_coll cs) (\<lambda>_. False) cs [0x61, 0x09] [0x61, 0x25] 92 95 37 = 0 \<and>
      like_range (cs_coll cs) cs [0x61, 0x25] 92 95 37 3 = ([0x61, 0, 0], [0x61, 255, 255], 1, 3) \<and>
      strnncollsp (cs_coll cs) cs [0x61] [0x61, 0x09] > 0"
  unfolding Let_def bin_entries [OF state_of_update] by code_simp

text \<open>
  In latin7_general_ci the space has the weight 0x30, but sort keys are padded with 0x20: 'a' and 'a ' are
  equal and have different keys.
\<close>

definition space_at_30 :: "u8 \<Rightarrow> u8" where
  "space_at_30 x = (if x = 0x20 then 0x30 else x)"

lemma replicate_two: "replicate 2 x = [x, x]"
  by (simp add: numeral_2_eq_2)

lemmas key_eval = my_strnxfrm_simple_internal_def xfrm_fill_def desc_and_reverse_cases plain_bytes_def space_at_30_def
  MY_STRXFRM_PAD_WITH_SPACE_def MY_STRXFRM_PAD_TO_MAXLEN_def MY_STRXFRM_DESC_LEVEL1_def MY_STRXFRM_REVERSE_LEVEL1_def
  replicate_two

lemma padding_is_no_weight:
  "let cs = plain_bytes\<lparr>sort_order := space_at_30\<rparr>
   in strnncollsp (cs_coll cs) cs [0x61] [0x61, 0x20] = 0 \<and>
      memcmp (strnxfrm (cs_coll cs) cs 3 3 [0x61] 0xC0) (strnxfrm (cs_coll cs) cs 3 3 [0x61, 0x20] 0xC0) < 0"
  unfolding Let_def ci_entries [OF plain_sort_state]
  by (simp add: my_strnncollsp_simple_def my_strnxfrm_simple_def my_strxfrm_pad_desc_and_reverse_def key_eval)

text \<open>
  NO PAD sort keys are padded with 0: 'a' is smaller than 'a' followed by a zero byte, with the same key.
\<close>

lemma nopad_keys_equal:
  "let cs = plain_bytes\<lparr>cs_state := MY_CS_NOPAD\<rparr>
   in strnncollsp (cs_coll cs) cs [0x61] [0x61, 0] < 0 \<and>
      memcmp (strnxfrm (cs_coll cs) cs 3 3 [0x61] 0xC0) (strnxfrm (cs_coll cs) cs 3 3 [0x61, 0] 0xC0) = 0"
  unfolding Let_def nopad_entries [OF state_of_update]
  by (simp add: my_strnncollsp_simple_nopad_def my_strnncoll_simple_def my_strnxfrm_simple_nopad_def
      my_strxfrm_pad_desc_and_reverse_nopad_def key_eval)

end
