(* ===== verification/Spec2Isabelle.thy ===== *)
theory Spec2Isabelle
  imports Pack Queues Bitmap Base64 DynArray LinkedList SqlTime IntStr TimeText HashSpec RwLock RwPrLock CollHandlers
begin

text \<open>
  Verification of the utility layer of the MariaDB server: the code under src/mysys, src/strings,
  src/sql-common and src/include that the server and the storage engines are built on, and the calendar
  functions of src/sql/sql_time.cc. Each part of the program has its own theory or group of theories; this
  theory imports them all.

  \<^bold>\<open>How code becomes definitions.\<close> A definition has the name of the C function it translates; a loop of a
  function is a recursive definition of its own. State that a function changes is passed in and returned.
  A C struct is a record. Bit patterns are words (\<open>u8\<close> to \<open>u64\<close>), other integers are \<open>int\<close> with
  the conversions \<open>wrap_int\<close>, \<open>wrap_uint\<close>, \<open>wrap_long\<close> and \<open>wrap_ulong\<close> of CInt written where the C code
  converts. Error returns are values. What a caller supplies, as comparison functions, key functions,
  allocators and the stack guard, is an argument.

  \<^bold>\<open>The parts.\<close>

  \<^item> Prelude, CInt: types, word and list lemmas, C arithmetic.

  \<^item> ByteOrder, Pack: the byte order macros of byte_order_generic.h and myisampack.h, and the
    length-encoded integers of the client protocol (sql-common/pack.c). Stored lengths are read back, and
    the checked reader stays within the packet.

  \<^item> Queues: the binary heap of mysys/queues.c and queues.h. Insertion, removal and replacement keep the
    heap order and the multiset of elements; draining a queue sorts it.

  \<^item> MyBit, Bitmap: my_bit.h and mysys/my_bitmap.c. A bitmap represents a set of numbers; every operation
    is an operation on sets.

  \<^item> Base64: mysys/base64.c. The decoder stores into a memory; decoding inverts encoding, and for every text,
    malformed or not, nothing is stored outside of the bytes the text has room for.

  \<^item> DynArray, LinkedList: mysys/array.c as a list with a capacity and a static buffer, and mysys/list.c
    on an explicit store of nodes with both links.

  \<^item> HashTable (definitions), HashChain, HashSplit, HashDelete, HashSearch, HashOps (lemmas) and HashSpec:
    mysys/hash.c, the table with linear splitting. The array of links is a list; \<open>hash_ok\<close> says that every
    record is in the chain of its bucket and that the chains are disjoint. HashSpec gives the abstract
    collection of records as a locale, interprets it on the table, and shows that every history of
    operations, with unique keys or without and with memory found or not, gives results and contents that
    are right for a multiset of records.

  \<^item> LockService, RwLock, RwPrLock: the two read/write locks of mysys/thr_rwlock.c as step relations over
    the lock and its threads; mutexes and condition variables behave as POSIX says. The invariants give
    mutual exclusion. LockService bounds the number of steps without new requests by a measure, which gives
    that every waiting thread gets the lock and no wake-up is lost.

  \<^item> MyTime, SqlTime: broken-down times, day numbers and numeric forms (sql-common/my_time.c), weeks,
    intervals and differences (sql/sql_time.cc). The results are compared with the calendar.

  \<^item> CType, IntStr, TimePrint, TimeParse, TimeText: character classes of latin1, strings/int2str.c and
    strings/my_strtoll10.c, and the printers and parsers of dates and times. Printed values are read back;
    what a parser accepts is in range.

  \<^item> Like, Collation, LikeRange, CollHandlers: the collations of one byte per character
    (strings/ctype-simple.c, strings/ctype-bin.c, \<open>skip_trailing_space\<close>). Like shows that the matcher
    decides a declarative LIKE. Collation relates comparison, hash values and sort keys to one order, that
    of the padded lists of weights. CollHandlers states the contract of a collation as a locale and
    interprets it on the four handler tables and on the handler that \<open>get_simple_collation_handler_by_flags\<close>
    of mysys/charset.c selects.

  \<^bold>\<open>How the parts interact.\<close> The printers and parsers use the character classes and the integer text. The
  calendar functions use the day numbers of MyTime. A LIKE range is used with the comparison and the matcher
  of the same collation, so its property speaks of all three.

  \<^bold>\<open>Termination.\<close> Every \<open>fun\<close> and \<open>function\<close> is total. The loops over the chains of a hash table
  and over the nodes of a linked list are \<open>partial_function\<close>s whose result \<open>None\<close> stands for a loop that
  does not end; on a sound table or list the lemmas say that there is a result. The only fuel is that of
  \<open>find_first_digit\<close> in MyBit, one unit for each of the 16 hexadecimal digits of a 64-bit word, which is
  shown to be enough.

  \<^bold>\<open>Bounds.\<close> A hash table holds fewer records than \<open>NO_RECORD\<close>, the largest index. At a \<open>my_rw_lock_t\<close>
  there are fewer than \<open>2 ^ 31\<close> threads and at a \<open>rw_pr_lock_t\<close> fewer than \<open>2 ^ 32\<close>, so that the counters,
  an \<open>int\<close> and an \<open>uint\<close>, do not wrap. Sizes and capacities of arrays, queues and hash tables are natural
  numbers, which is what the code computes with fewer than \<open>2 ^ 32\<close> elements and sizes that fit in memory.
  Years are at most 9999, where no product of the calendar functions overflows, and the fields of an interval
  are below \<open>2 ^ 62\<close>. Strings of binary collations are shorter
  than 2 GB, because the code converts a difference of lengths to \<open>int\<close>. The escape character of LIKE is an
  ASCII character; Like and CollHandlers have lemmas that show what goes wrong without the conditions.

  \<^bold>\<open>Not modelled.\<close> Code whose effect is I/O or a system call (files, sockets, options, character set
  files, the key cache); allocation, of which the models take the outcome as an argument; the debug checks
  and test programs of the modelled files; lock-free code, whose memory model is beyond step relations over
  one state; thr_lock.c, whose grants depend on callbacks of the engines and timed waits; the SQL layer
  (parser, optimizer, items, replication) and the storage engines, which are classes over sessions, tables
  and pages; generated code and third-party libraries. Of the collations, the multi-byte character sets,
  which are mostly tables, and the conversions to Unicode and to numbers of the 8-bit handlers are left out.
  Decimal arithmetic, dynamic columns, the JSON scanner and the red-black trees of tree.c could be modelled
  in the same way and are not.
\<close>

end
